(* ===== verification/Ml_Prelude.thy ===== *)
theory Ml_Prelude
  imports Main "HOL-Library.Word"
begin

unbundle bit_operations_syntax

text \<open>
  Shared vocabulary of the development: the machine integers of the C sources, the error
  values that stand for what a C call may do instead of returning (block, exit, touch memory
  it does not own), the C byte-order and byte-splitting helpers, and the generic lemmas on
  lists and words that the component theories use.
\<close>

section \<open>Machine integers and results\<close>

type_synonym u8 = "8 word"
type_synonym u16 = "16 word"
type_synonym u32 = "32 word"
type_synonym u64 = "64 word"
type_synonym bytes = "u8 list"

text \<open>
  \<open>Blocked\<close> is a call that waits on a condition no other thread makes true,
  \<open>UseAfterFree\<close> and \<open>OutOfBounds\<close> are accesses and \<open>Overflow\<close> is signed arithmetic C leaves undefined, and
  \<open>Exit\<close> is a call of \<open>exit\<close>.
\<close>

datatype ml_error =
    Blocked
  | UseAfterFree
  | OutOfBounds
  | Overflow
  | Exit int

type_synonym 'a res = "ml_error + 'a"

definition andthen :: "'a res \<Rightarrow> ('a \<Rightarrow> 'b res) \<Rightarrow> 'b res" where
  "andthen m f = (case m of Inl e \<Rightarrow> Inl e | Inr x \<Rightarrow> f x)"

text \<open>The lemma collections of the development.\<close>

named_theorems ml_word \<open>words read as naturals\<close>
named_theorems ml_res \<open>results of calls that may fail\<close>

text \<open>A read of a buffer that is checked against its length, and a lazy conjunction of such checks.\<close>

definition fetch :: "'a list \<Rightarrow> nat \<Rightarrow> 'a res" where
  "fetch m i = (if i < length m then Inr (m ! i) else Inl OutOfBounds)"

definition byte_is :: "bytes \<Rightarrow> nat \<Rightarrow> u8 \<Rightarrow> bool res" where
  "byte_is m i v = andthen (fetch m i) (\<lambda>b. Inr (b = v))"

fun all_of :: "bool res list \<Rightarrow> bool res" where
  "all_of [] = Inr True"
| "all_of (x # xs) = andthen x (\<lambda>b. if b then all_of xs else Inr False)"

text \<open>Decimal printing, as \<open>%d\<close> and \<open>%u\<close> do.\<close>

definition digit_char :: "nat \<Rightarrow> char" where
  "digit_char d = char_of (48 + d)"

lemma digit_chars:
  "digit_char 0 = CHR ''0''" "digit_char 1 = CHR ''1''" "digit_char (Suc 0) = CHR ''1''" "digit_char 2 = CHR ''2''"
  "digit_char 3 = CHR ''3''" "digit_char 4 = CHR ''4''" "digit_char 5 = CHR ''5''" "digit_char 6 = CHR ''6''"
  "digit_char 7 = CHR ''7''" "digit_char 8 = CHR ''8''" "digit_char 9 = CHR ''9''"
  by code_simp+

fun show_nat :: "nat \<Rightarrow> string" where
  "show_nat n = (if n < 10 then [digit_char n] else show_nat (n div 10) @ [digit_char (n mod 10)])"

declare show_nat.simps [simp del]

definition show_int :: "int \<Rightarrow> string" where
  "show_int i = (if i < 0 then ''-'' @ show_nat (nat (- i)) else show_nat (nat i))"

section \<open>Error codes\<close>

definition EGENERAL :: int where "EGENERAL = 1000"

text \<open>The errno values of Linux that the sources name.\<close>

definition EINTR :: int where "EINTR = 4"
definition EBUSY :: int where "EBUSY = 16"
definition EEXIST :: int where "EEXIST = 17"
definition EINVAL :: int where "EINVAL = 22"
definition EPROTO :: int where "EPROTO = 71"
definition ETIMEDOUT :: int where "ETIMEDOUT = 110"

lemmas errno_defs = EGENERAL_def EINTR_def EBUSY_def EEXIST_def EINVAL_def EPROTO_def ETIMEDOUT_def

section \<open>Bytes and byte order\<close>

text \<open>
  Reading past the memory a model knows about gives 0; the theorems about such reads say
  that the value does not matter.
\<close>

definition byte_at :: "bytes \<Rightarrow> nat \<Rightarrow> u8" where
  "byte_at m i = (if i < length m then m ! i else 0)"

text \<open>The load of a \<open>uint16_t\<close> on a little-endian host, and \<open>htons\<close> there.\<close>

definition load16 :: "bytes \<Rightarrow> u16" where
  "load16 m = ucast (byte_at m 0) OR push_bit 8 (ucast (byte_at m 1))"

definition htons :: "u16 \<Rightarrow> u16" where
  "htons w = push_bit 8 w OR drop_bit 8 w"

text \<open>The four-byte big-endian read the sources write out with shifts.\<close>

definition be32 :: "u8 \<Rightarrow> u8 \<Rightarrow> u8 \<Rightarrow> u8 \<Rightarrow> u32" where
  "be32 a b c d =
     push_bit 24 (ucast a) OR push_bit 16 (ucast b) OR push_bit 8 (ucast c) OR ucast d"

text \<open>\<open>htonl\<close> and \<open>ntohl\<close> on a little-endian host: the four bytes reversed.\<close>

definition htonl :: "u32 \<Rightarrow> u32" where
  "htonl w = be32 (ucast w) (ucast (drop_bit 8 w)) (ucast (drop_bit 16 w)) (ucast (drop_bit 24 w))"

text \<open>The bytes of a 32-bit value as the sources store them, most significant first.\<close>

definition to_be32 :: "u32 \<Rightarrow> bytes" where
  "to_be32 w = [ucast (drop_bit 24 w), ucast (drop_bit 16 w), ucast (drop_bit 8 w), ucast w]"

section \<open>Results\<close>

lemma andthen_simps [simp, ml_res]:
  "andthen (Inl e) f = Inl e"
  "andthen (Inr x) f = f x"
  by (simp_all add: andthen_def)

lemma andthen_cong [fundef_cong]:
  "m = m' \<Longrightarrow> (\<And>x. m' = Inr x \<Longrightarrow> f x = g x) \<Longrightarrow> andthen m f = andthen m' g"
  by (cases m') auto

lemma andthen_eq_Inr [ml_res]:
  "andthen m f = Inr y \<longleftrightarrow> (\<exists>x. m = Inr x \<and> f x = Inr y)"
  by (cases m) auto

lemma andthen_eq_Inl [ml_res]:
  "andthen m f = Inl e \<longleftrightarrow> m = Inl e \<or> (\<exists>x. m = Inr x \<and> f x = Inl e)"
  by (cases m) auto

lemma fetch_Inr [simp]: "i < length m \<Longrightarrow> fetch m i = Inr (m ! i)"
  by (simp add: fetch_def)

lemma byte_is_Inr [simp]: "i < length m \<Longrightarrow> byte_is m i v = Inr (m ! i = v)"
  by (simp add: byte_is_def)

section \<open>Lists updated in place\<close>

lemma map_update_same: "i < length xs \<Longrightarrow> f y = f (xs ! i) \<Longrightarrow> map f (xs[i := y]) = map f xs"
  by (metis list_update_id map_update nth_map)

lemma take_4_drop:
  assumes "i + 3 < length xs"
  shows "take 4 (drop i xs) = [xs ! i, xs ! (i + 1), xs ! (i + 2), xs ! (i + 3)]"
proof -
  have d: "drop k xs = xs ! k # drop (Suc k) xs" if "k < length xs" for k
    using that by (simp add: Cons_nth_drop_Suc)
  have "drop i xs = xs ! i # xs ! (i + 1) # xs ! (i + 2) # xs ! (i + 3) # drop (i + 4) xs"
    using d [of i] d [of "i + 1"] d [of "i + 2"] d [of "i + 3"] assms by (simp add: numeral_eq_Suc)
  then show ?thesis by simp
qed

lemma filter_update_other:
  "\<not> P y \<Longrightarrow> i < length xs \<Longrightarrow> \<not> P (xs ! i) \<Longrightarrow> filter P (xs[i := y]) = filter P xs"
  by (subst (2) id_take_nth_drop [of i xs]) (simp_all add: upd_conv_take_nth_drop)

section \<open>Words read as naturals\<close>

lemma unat_and_ffff [ml_word]: "unat (w AND 0xffff :: u32) = unat w mod 65536"
proof -
  have "w AND 0xffff = take_bit 16 w"
    by (simp add: take_bit_eq_mask mask_numeral)
  then show ?thesis
    by (simp add: take_bit_eq_mod unat_mod_distrib)
qed

lemma unat_drop16 [ml_word]: "unat (drop_bit 16 w :: u32) = unat w div 65536"
  by (simp add: drop_bit_eq_div unat_div_distrib)

lemma bit_u8_less: "bit (w :: u8) n \<Longrightarrow> n < 8"
  using bit_imp_le_length [of w n] by simp

lemma unat_u8_less: "unat (w :: u8) < 256"
  using unsigned_less [of w, where ?'a = nat] by simp

lemma unat_ucast_u8: "unat (ucast (w :: u8) :: u16) = unat w"
  using unat_u8_less [of w] by (simp add: unsigned_ucast_eq take_bit_nat_eq_self)

lemma htons_load16: "unat (htons (load16 m)) = 256 * unat (byte_at m 0) + unat (byte_at m 1)"
proof -
  have "htons (load16 m) = push_bit 8 (ucast (byte_at m 0)) OR ucast (byte_at m 1)"
    unfolding htons_def load16_def
    by (rule bit_word_eqI) (auto simp: bit_simps dest: bit_u8_less)
  moreover have "push_bit 8 (ucast (byte_at m 0)) OR (ucast (byte_at m 1) :: u16)
      = push_bit 8 (ucast (byte_at m 0)) + ucast (byte_at m 1)"
    by (subst disjunctive_add) (auto simp: bit_simps dest: bit_u8_less)
  ultimately show ?thesis
    using unat_u8_less [of "byte_at m 0"] unat_u8_less [of "byte_at m 1"]
    by (simp add: push_bit_eq_mult unat_word_ariths unat_ucast_u8)
qed

lemma htons_load16_high:
  "unat (htons (load16 m) AND 0xff00) = 256 * unat (byte_at m 0)"
proof -
  have m: "(0xff00 :: u16) = push_bit 8 (mask 8)"
    by (simp add: mask_numeral)
  have "htons (load16 m) AND push_bit 8 (mask 8) = push_bit 8 (ucast (byte_at m 0))"
    unfolding htons_def load16_def 
    by (intro bit_word_eqI) (auto simp: bit_simps dest: bit_u8_less)
  then show ?thesis
    using unat_u8_less [of "byte_at m 0"]
    by (simp add: m push_bit_eq_mult unat_word_ariths unat_ucast_u8)
qed

section \<open>Round trips of the byte helpers\<close>

lemma be32_to_be32 [simp]:
  "be32 (ucast (drop_bit 24 w)) (ucast (drop_bit 16 w)) (ucast (drop_bit 8 w)) (ucast w) = w"
proof (unfold be32_def, rule bit_word_eqI)
  fix n assume "n < LENGTH(32)"
  then consider "n < 8" | "8 \<le> n" "n < 16" | "16 \<le> n" "n < 24" | "24 \<le> n" "n < 32"
    by fastforce
  then show "bit (push_bit 24 (ucast (ucast (drop_bit 24 w) :: u8)) OR push_bit 16 (ucast (ucast (drop_bit 16 w):: u8)) OR 
    push_bit 8 (ucast (ucast (drop_bit 8 w):: u8)) OR (ucast (ucast w:: u8)::u32)) n = bit w n"
    by cases (auto simp: bit_simps)
qed

lemma be32_bytes [simp]:
  "ucast (be32 a b c d) = d"
  "ucast (drop_bit 8 (be32 a b c d)) = c"
  "ucast (drop_bit 16 (be32 a b c d)) = b"
  "ucast (drop_bit 24 (be32 a b c d)) = a"
  unfolding be32_def by (rule bit_word_eqI; auto simp: bit_simps dest: bit_u8_less)+

lemma htonl_htonl [simp]: "htonl (htonl w) = w"
  by (simp add: htonl_def)

lemma length_to_be32 [simp]: "length (to_be32 w) = 4"
  by (simp add: to_be32_def)

end
