(* ===== verification/Ml_Inet.thy ===== *)
theory Ml_Inet
  imports Ml_Prelude
begin

unbundle bit_operations_syntax

text \<open>
  The internet checksum of \<open>src/src/ml_inet.c\<close>. A buffer is the memory from \<open>buf_p\<close> on
  and the \<open>size\<close> argument (\<open>sz\<close> here); for an odd size the last \<open>uint16_t\<close> load of the code reads
  one byte past the buffer and masks it out, and the model does the same. The theorems say
  that the three-part computation is the checksum of RFC 1071 for every buffer whose sum fits
  the 32-bit accumulator, and that storing it in the buffer makes the buffer verify.
\<close>

section \<open>The routines\<close>

definition ml_inet_checksum_begin :: u32 where
  "ml_inet_checksum_begin = 0"

fun ml_inet_checksum_acc :: "u32 \<Rightarrow> bytes \<Rightarrow> nat \<Rightarrow> u32" where
  "ml_inet_checksum_acc acc buf sz =
     (if sz > 1
      then ml_inet_checksum_acc (acc + ucast (htons (load16 buf))) (drop 2 buf) (sz - 2)
      else if sz > 0 then acc + ucast (htons (load16 buf) AND 0xff00)
      else acc)"

definition ml_inet_checksum_end :: "u32 \<Rightarrow> u16" where
  "ml_inet_checksum_end acc0 =
     (let acc = drop_bit 16 acc0 + (acc0 AND 0xffff);
          acc' = (if acc AND 0xffff0000 \<noteq> 0 then drop_bit 16 acc + (acc AND 0xffff) else acc)
      in ucast (NOT acc'))"

definition ml_inet_checksum :: "bytes \<Rightarrow> nat \<Rightarrow> u16" where
  "ml_inet_checksum buf sz =
     ml_inet_checksum_end (ml_inet_checksum_acc ml_inet_checksum_begin buf sz)"

section \<open>The reference: RFC 1071\<close>

text \<open>
  The sum of the 16-bit big-endian words of a byte string, an odd last byte padded with zero,
  and the one's complement reduction of a natural number to 16 bits (end-around carry).
\<close>

fun word_sum :: "bytes \<Rightarrow> nat" where
  "word_sum [] = 0"
| "word_sum [a] = 256 * unat a"
| "word_sum (a # b # bs) = 256 * unat a + unat b + word_sum bs"

definition oc_fold :: "nat \<Rightarrow> nat" where
  "oc_fold s = (if s = 0 then 0 else (s - 1) mod 65535 + 1)"

definition rfc1071 :: "bytes \<Rightarrow> nat" where
  "rfc1071 bs = 65535 - oc_fold (word_sum bs)"

section \<open>Lemmas\<close>

declare ml_inet_checksum_acc.simps [simp del]

lemma acc_unfold:
  "ml_inet_checksum_acc acc buf 0 = acc"
  "ml_inet_checksum_acc acc buf (Suc 0) = acc + ucast (htons (load16 buf) AND 0xff00)"
  "ml_inet_checksum_acc acc buf (Suc (Suc n)) =
     ml_inet_checksum_acc (acc + ucast (htons (load16 buf))) (drop 2 buf) n"
  by (simp_all add: ml_inet_checksum_acc.simps [of acc buf])

lemma unat_ucast_u16 [ml_word]: "unat (ucast (w :: u16) :: u32) = unat w"
proof -
  have "unat w < 65536" using unsigned_less [of w, where ?'a = nat] by simp
  then show ?thesis by (simp add: unsigned_ucast_eq take_bit_nat_eq_self)
qed

lemma word_sum_bound: "word_sum bs \<le> 65535 * ((length bs + 1) div 2)"
proof (induction bs rule: word_sum.induct)
  case (2 a)
  then show ?case using unat_u8_less [of a] by simp
next
  case (3 a b bs)
  then show ?case using unat_u8_less [of a] unat_u8_less [of b] by simp
qed simp

text \<open>The accumulator holds the sum modulo \<open>2 ^ 32\<close>, and reads no byte outside the buffer.\<close>

lemma unat_acc:
  "sz \<le> length buf \<Longrightarrow>
   unat (ml_inet_checksum_acc acc buf sz) = (unat acc + word_sum (take sz buf)) mod 2 ^ 32"
proof (induction acc buf sz rule: ml_inet_checksum_acc.induct)
  case (1 acc buf sz)
  consider "sz = 0" | "sz = 1" | n where "sz = Suc (Suc n)"
    by (metis One_nat_def not0_implies_Suc)
  then show ?case
  proof cases
    case 1
    then show ?thesis using unsigned_less [of acc, where ?'a = nat] by (simp add: acc_unfold)
  next
    case 2
    with "1.prems" obtain a bs where "buf = a # bs" by (cases buf) auto
    with 2 show ?thesis
      by (simp add: acc_unfold unat_word_ariths unat_ucast_u16 htons_load16_high byte_at_def)
  next
    case 3
    with "1.prems" obtain a b bs where buf: "buf = a # b # bs"
      by (cases buf; cases "tl buf") auto
    with 3 "1.prems" have "n \<le> length bs" by simp
    with "1.IH" 3 buf show ?thesis
      by (simp add: acc_unfold unat_word_ariths unat_ucast_u16 htons_load16 byte_at_def
          mod_add_left_eq add.assoc)
  qed
qed

lemma acc_append:
  "even (length xs) \<Longrightarrow>
   ml_inet_checksum_acc acc (xs @ ys) (length xs + n)
     = ml_inet_checksum_acc (ml_inet_checksum_acc acc xs (length xs)) ys n"
proof (induction xs arbitrary: acc rule: word_sum.induct)
  case (3 a b bs)
  then show ?case by (simp add: acc_unfold load16_def byte_at_def)
qed (simp_all add: acc_unfold)

lemma word_sum_append: "even (length xs) \<Longrightarrow> word_sum (xs @ ys) = word_sum xs + word_sum ys"
  by (induction xs rule: word_sum.induct) simp_all

lemma oc_fold_le: "oc_fold s \<le> 65535"
proof -
  have "(s - 1) mod 65535 < 65535" by simp
  then show ?thesis unfolding oc_fold_def by (simp only: split: if_split) linarith
qed

text \<open>Two folds suffice: the second one cannot carry.\<close>

lemma two_folds:
  assumes s: "s < 2 ^ 32"
  defines "t \<equiv> s div 65536 + s mod 65536"
  shows "(if t \<ge> 65536 then t div 65536 + t mod 65536 else t) = oc_fold s"
proof -
  have split: "s = 65535 * (s div 65536) + t" unfolding t_def by simp
  have t: "t \<le> 131070" using s unfolding t_def by simp
  show ?thesis
  proof (cases "t \<ge> 65536")
    case True
    then have "t div 65536 = 1" "t mod 65536 = t - 65536" using t by (auto simp: mod_if)
    moreover have "(s - 1) mod 65535 = t - 65536"
    proof -
      have "s - 1 = (t - 65536) + 65535 * (s div 65536 + 1)" using split True by simp
      then have "(s - 1) mod 65535 = (t - 65536) mod 65535" by (simp only: mod_mult_self2)
      then show ?thesis using t by simp
    qed
    moreover have "s \<noteq> 0" using True split by auto
    ultimately show ?thesis using True t by (simp add: oc_fold_def)
  next
    case False
    show ?thesis
    proof (cases "t = 0")
      case True
      then have "s div 65536 = 0" "s mod 65536 = 0" unfolding t_def by simp_all
      then have "s = 0" by (metis div_mod_decomp mult_0 add_0)
      then show ?thesis by (simp add: t_def oc_fold_def)
    next
      case nz: False
      have "s - 1 = (t - 1) + 65535 * (s div 65536)" using split nz by simp
      then have "(s - 1) mod 65535 = (t - 1) mod 65535" by (simp only: mod_mult_self2)
      then show ?thesis using False nz split by (simp add: oc_fold_def)
    qed
  qed
qed

lemma high_half_zero_iff: "(w AND 0xffff0000 :: u32) = 0 \<longleftrightarrow> unat w < 65536"
proof -
  have m: "(0xffff0000 :: u32) = push_bit 16 (mask 16)" by (simp add: mask_numeral)
  have "(w AND push_bit 16 (mask 16)) = push_bit 16 (drop_bit 16 w)"
    by (rule bit_word_eqI) (auto simp: bit_simps)
  moreover have "push_bit 16 (drop_bit 16 w) = 0 \<longleftrightarrow> drop_bit 16 w = 0"
  proof
    assume z: "push_bit 16 (drop_bit 16 w) = 0"
    have "drop_bit 16 w = drop_bit 16 (push_bit 16 (drop_bit 16 w))"
      by (rule bit_word_eqI) (auto simp: bit_simps dest: bit_imp_le_length)
    then show "drop_bit 16 w = 0" using z by simp
  qed simp
  moreover have "drop_bit 16 w = 0 \<longleftrightarrow> unat w < 65536"
    by (metis div_eq_0_iff unat_drop16 unat_eq_0 unat_0 zero_neq_numeral)
  ultimately show ?thesis unfolding m by simp
qed

lemma unat_not_low: "unat (ucast (NOT (w :: u32)) :: u16) = 65535 - unat w" if "unat w < 65536"
proof -
  have "ucast (NOT w) = NOT (ucast w :: u16)"
    by (rule bit_word_eqI) (auto simp: bit_simps)
  moreover have "unat (ucast w :: u16) = unat w"
    using that by (simp add: unsigned_ucast_eq take_bit_nat_eq_self)
  moreover have "unat (NOT (v :: u16)) = 65535 - unat v" for v
  proof -
    have "NOT v = 65535 - v" by (simp add: not_eq_complement)
    moreover have "v \<le> 65535" 
      using unsigned_less [of v, where ?'a = nat] by (simp add: word_le_nat_alt)
    ultimately show ?thesis using unat_sub [of v 65535] by simp
  qed
  ultimately show ?thesis by simp
qed

lemma unat_checksum_end: "unat (ml_inet_checksum_end acc) = 65535 - oc_fold (unat acc)"
proof -
  define t where "t = unat acc div 65536 + unat acc mod 65536"
  define w where "w = drop_bit 16 acc + (acc AND 0xffff)"
  define w' where
    "w' = (if w AND 0xffff0000 \<noteq> 0 then drop_bit 16 w + (w AND 0xffff) else w)"
  have acc: "unat acc < 2 ^ 32" using unsigned_less [of acc, where ?'a = nat] by simp
  then have t: "t \<le> 131070" unfolding t_def by simp
  have w: "unat w = t"
    unfolding w_def using t by (simp add: unat_word_ariths ml_word t_def)
  have "unat w' = (if t \<ge> 65536 then t div 65536 + t mod 65536 else t)"
    unfolding w'_def using t
    by (auto simp: high_half_zero_iff w unat_word_ariths ml_word not_less mod_if)
  then have w': "unat w' = oc_fold (unat acc)"
    using two_folds [OF acc] by (simp only: t_def)
  have "ml_inet_checksum_end acc = ucast (NOT w')"
    by (simp add: ml_inet_checksum_end_def Let_def w'_def w_def)
  then show ?thesis
    using unat_not_low [of w'] oc_fold_le [of "unat acc"] by (simp add: w')
qed

lemma word_sum_fits:
  assumes "sz \<le> 131074"
  shows "word_sum (take sz buf) < 2 ^ 32"
proof -
  have "(length (take sz buf) + 1) div 2 \<le> 65537" using assms by simp
  then have "word_sum (take sz buf) \<le> 65535 * 65537"
    using word_sum_bound [of "take sz buf"] by (meson le_trans mult_le_mono2)
  then show ?thesis by simp
qed

lemma unat_checksum:
  assumes "sz \<le> length buf" and "sz \<le> 131074"
  shows "unat (ml_inet_checksum buf sz) = rfc1071 (take sz buf)"
  using word_sum_fits [OF assms(2), of buf] assms(1)
  by (simp add: ml_inet_checksum_def unat_checksum_end unat_acc ml_inet_checksum_begin_def
      rfc1071_def)

lemma word_sum_replace:
  assumes "even k" and "k + 1 < length bs" and "bs ! k = 0" and "bs ! (k + 1) = 0"
  shows "word_sum (bs[k := a, k + 1 := b]) = word_sum bs + 256 * unat a + unat b"
proof -
  have bs: "bs = take k bs @ 0 # 0 # drop (k + 2) bs"
    using assms(2-4) Cons_nth_drop_Suc [of k bs] Cons_nth_drop_Suc [of "Suc k" bs]
    by (metis Suc_eq_plus1 Suc_lessD add_2_eq_Suc' append_take_drop_id)
  have "bs[k := a, k + 1 := b] = take k bs @ a # b # drop (k + 2) bs"
    using assms(2) by (subst bs) (simp add: list_update_append)
  moreover have "even (length (take k bs))" using assms(1,2) by simp
  ultimately show ?thesis
    by (subst (2) bs) (simp add: word_sum_append)
qed

lemma oc_fold_multiple: "oc_fold (65535 * Suc k) = 65535"
proof -
  have "65535 * Suc k - 1 = 65534 + k * 65535" by simp
  then have "(65535 * Suc k - 1) mod 65535 = 65534" by (simp only: mod_mult_self1) simp
  then show ?thesis by (simp only: oc_fold_def) simp
qed

text \<open>A sum completed by its own one's complement reduces to all ones.\<close>

lemma oc_fold_complete: "oc_fold (s + (65535 - oc_fold s)) = 65535"
proof (cases "s = 0")
  case False
  then have "oc_fold s = (s - 1) mod 65535 + 1" by (simp add: oc_fold_def)
  moreover have "s - 1 = (s - 1) mod 65535 + 65535 * ((s - 1) div 65535)" by simp
  moreover have "(s - 1) mod 65535 < 65535" by simp
  moreover have "65535 * Suc ((s - 1) div 65535) = 65535 * ((s - 1) div 65535) + 65535" by simp
  moreover have "s = Suc (s - 1)" using False by simp
  ultimately have "s + (65535 - oc_fold s) = 65535 * Suc ((s - 1) div 65535)"
    by linarith
  then show ?thesis by (simp only: oc_fold_multiple)
qed (simp add: oc_fold_def)

lemma checksum_stored:
  assumes "length buf \<le> 131074" and "even k" and "k + 1 < length buf"
    and "buf ! k = 0" and "buf ! (k + 1) = 0"
    and "c = ml_inet_checksum buf (length buf)"
  shows "ml_inet_checksum (buf[k := ucast (drop_bit 8 c), k + 1 := ucast c]) (length buf) = 0"
proof -
  let ?buf = "buf[k := ucast (drop_bit 8 c), k + 1 := ucast c]"
  have c: "unat c = 65535 - oc_fold (word_sum buf)"
    using unat_checksum [of "length buf" buf] assms(1,6) by (simp add: rfc1071_def)
  have "unat (ucast c :: u8) = unat c mod 256"
    by (simp add: unsigned_ucast_eq take_bit_eq_mod)
  moreover have "unat (ucast (drop_bit 8 c) :: u8) = unat c div 256"
    using unsigned_less [of c, where ?'a = nat]
    by (simp add: unsigned_ucast_eq take_bit_eq_mod drop_bit_eq_div unat_div_distrib)
  ultimately have "word_sum ?buf = word_sum buf + (65535 - oc_fold (word_sum buf))"
    using word_sum_replace [OF assms(2-5)] c by simp
  then have "unat (ml_inet_checksum ?buf (length ?buf)) = 0"
    using unat_checksum [of "length ?buf" ?buf] assms(1)
    by (simp add: rfc1071_def oc_fold_complete)
  then show ?thesis by (simp add: unat_eq_0)
qed

section \<open>The properties\<close>

text \<open>
  C40: the internet checksum of a buffer of up to 131074 bytes is the one's complement of the
  one's complement sum of its 16-bit big-endian words (RFC 1071), an odd last byte padded with
  zero; the bytes behind the buffer do not matter.
\<close>

theorem checksum_is_rfc1071:
  assumes "sz \<le> length buf" and "sz \<le> 131074"
  shows "unat (ml_inet_checksum buf sz) = rfc1071 (take sz buf)"
  using assms by (rule unat_checksum)

theorem checksum_is_rfc1071_witness:
  "unat (ml_inet_checksum [0x45, 0x00, 0x07, 0xaa] 3) = rfc1071 [0x45, 0x00, 0x07]
     \<and> rfc1071 [0x45, 0x00, 0x07] = 0xb3ff"
  using checksum_is_rfc1071 [of 3 "[0x45, 0x00, 0x07, 0xaa]"]
  by (simp add: rfc1071_def oc_fold_def numeral_3_eq_3)

text \<open>
  Storing the checksum, high byte first, in a zeroed field at an even offset of the buffer
  makes the checksum of the whole buffer zero, which is what a receiver tests.
\<close>

theorem stored_checksum_verifies:
  assumes "length buf \<le> 131074" and "even k" and "k + 1 < length buf"
    and "buf ! k = 0" and "buf ! (k + 1) = 0"
    and "c = ml_inet_checksum buf (length buf)"
  shows "ml_inet_checksum (buf[k := ucast (drop_bit 8 c), k + 1 := ucast c]) (length buf) = 0"
  using assms by (rule checksum_stored)

theorem stored_checksum_verifies_witness:
  "ml_inet_checksum ([0x45, 0, 0x12, 0x34, 0, 0, 7] [4 := 0xa1, 4 + 1 := 0xcb]) 7 = 0"
  using stored_checksum_verifies [of "[0x45, 0, 0x12, 0x34, 0, 0, 7]" 4 "0xa1cb"]
  by (simp add: ml_inet_checksum_def ml_inet_checksum_begin_def ml_inet_checksum_acc.simps
      ml_inet_checksum_end_def Let_def htons_def load16_def byte_at_def)

text \<open>
  The accumulation may be split at any even offset, so a checksum can be taken over a
  header and a payload that are not contiguous.
\<close>

theorem checksum_acc_split:
  assumes "even (length xs)"
  shows "ml_inet_checksum_acc acc (xs @ ys) (length (xs @ ys))
       = ml_inet_checksum_acc (ml_inet_checksum_acc acc xs (length xs)) ys (length ys)"
  using acc_append [OF assms, of acc ys "length ys"] by simp

theorem checksum_acc_split_witness:
  "ml_inet_checksum_acc 0 ([1, 2] @ [3]) (length ([1, 2] @ [3] :: bytes))
     = ml_inet_checksum_acc (ml_inet_checksum_acc 0 [1, 2] (length [1, 2 :: u8])) [3] (length [3 :: u8])"
  by (rule checksum_acc_split) simp

end
