(* ===== verification/Ml_Stdlib.thy ===== *)
theory Ml_Stdlib
  imports Ml_Prelude "HOL-Library.Multiset" "HOL-Library.List_Lexorder" "HOL-Library.Char_ord"
begin

text \<open>
  The parts of the C library the components call with comparison callbacks: \<open>strcmp\<close>, \<open>strncmp\<close>, \<open>strstr\<close>,
  \<open>bsearch\<close> (the halving loop over an index range) and \<open>qsort\<close> (a comparison sort; the
  callers sort tables of distinct keys, for which the sorted order is the only result the
  standard allows). The locale \<open>sorted_table\<close> is the contract between a table of elements
  with a key and its two C comparators; the bus and the shell interpret it.
\<close>

section \<open>String comparison\<close>

fun strcmp :: "string \<Rightarrow> string \<Rightarrow> int" where
  "strcmp [] [] = 0"
| "strcmp [] (d # ds) = - 1"
| "strcmp (c # cs) [] = 1"
| "strcmp (c # cs) (d # ds) =
     (if c = d then strcmp cs ds else int (of_char c) - int (of_char d))"

fun strncmp :: "string \<Rightarrow> string \<Rightarrow> nat \<Rightarrow> int" where
  "strncmp a b 0 = 0"
| "strncmp [] [] (Suc n) = 0"
| "strncmp [] (d # ds) (Suc n) = - 1"
| "strncmp (c # cs) [] (Suc n) = 1"
| "strncmp (c # cs) (d # ds) (Suc n) =
     (if c = d then strncmp cs ds n else int (of_char c) - int (of_char d))"

text \<open>Whether \<open>strstr\<close> finds the needle.\<close>

fun strstr :: "string \<Rightarrow> string \<Rightarrow> bool" where
  "strstr [] needle \<longleftrightarrow> needle = []"
| "strstr (c # h) needle \<longleftrightarrow> take (length needle) (c # h) = needle \<or> strstr h needle"

section \<open>Searching and sorting with comparison callbacks\<close>

function bsearch_loop :: "('e \<Rightarrow> int) \<Rightarrow> 'e list \<Rightarrow> nat \<Rightarrow> nat \<Rightarrow> nat option" where
  "bsearch_loop cmp xs l u =
     (if l < u
      then let idx = (l + u) div 2; c = cmp (xs ! idx)
           in if c < 0 then bsearch_loop cmp xs l idx
              else if c > 0 then bsearch_loop cmp xs (idx + 1) u
              else Some idx
      else None)"
  by pat_completeness auto
termination
  by (relation "measure (\<lambda>(cmp, xs, l, u). u - l)") auto

definition bsearch :: "('e \<Rightarrow> int) \<Rightarrow> 'e list \<Rightarrow> nat option" where
  "bsearch cmp xs = bsearch_loop cmp xs 0 (length xs)"

fun qsort_insert :: "('e \<Rightarrow> 'e \<Rightarrow> int) \<Rightarrow> 'e \<Rightarrow> 'e list \<Rightarrow> 'e list" where
  "qsort_insert cmp x [] = [x]"
| "qsort_insert cmp x (y # ys) = (if cmp x y > 0 then y # qsort_insert cmp x ys else x # y # ys)"

fun qsort :: "('e \<Rightarrow> 'e \<Rightarrow> int) \<Rightarrow> 'e list \<Rightarrow> 'e list" where
  "qsort cmp [] = []"
| "qsort cmp (x # xs) = qsort_insert cmp x (qsort cmp xs)"

declare bsearch_loop.simps [simp del]

section \<open>The order of strcmp\<close>

lemma strcmp_zero: "strcmp a b = 0 \<longleftrightarrow> a = b"
  by (induction a b rule: strcmp.induct) auto

lemma strcmp_neg: "strcmp a b < 0 \<longleftrightarrow> a < b"
  by (induction a b rule: strcmp.induct) (auto simp: less_char_def)

lemma strncmp_zero: "strncmp a b n = 0 \<longleftrightarrow> take n a = take n b"
  by (induction a b n rule: strncmp.induct) auto

lemma strncmp_length: "strncmp a b (length b) = 0 \<longleftrightarrow> take (length b) a = b"
  by (simp add: strncmp_zero)

lemma strstr_iff: "strstr h needle \<longleftrightarrow> (\<exists>a b. h = a @ needle @ b)"
proof (induction h)
  case (Cons c h)
  have "(\<exists>a b. c # h = a @ needle @ b) \<longleftrightarrow> (\<exists>b. c # h = needle @ b) \<or> (\<exists>a b. h = a @ needle @ b)"
    by (metis append_Cons append_Nil list.exhaust list.inject)
  moreover have "(\<exists>b. c # h = needle @ b) \<longleftrightarrow> take (length needle) (c # h) = needle"
    by (metis append_eq_conv_conj append_take_drop_id)
  ultimately show ?case using Cons by simp
qed auto

section \<open>Tables sorted by a key\<close>

locale sorted_table =
  fixes key :: "'e \<Rightarrow> 'k::linorder"
    and compare_key :: "'k \<Rightarrow> 'e \<Rightarrow> int"
    and compare_elem :: "'e \<Rightarrow> 'e \<Rightarrow> int"
  assumes compare_key_neg: "compare_key k e < 0 \<longleftrightarrow> k < key e"
    and compare_key_zero: "compare_key k e = 0 \<longleftrightarrow> k = key e"
    and compare_elem_neg: "compare_elem a b < 0 \<longleftrightarrow> key a < key b"
    and compare_elem_zero: "compare_elem a b = 0 \<longleftrightarrow> key a = key b"
begin

lemma compare_key_pos: "compare_key k e > 0 \<longleftrightarrow> key e < k"
  using compare_key_neg [of k e] compare_key_zero [of k e] by fastforce

lemma compare_elem_pos: "compare_elem a b > 0 \<longleftrightarrow> key b < key a"
  using compare_elem_neg [of a b] compare_elem_zero [of a b] by fastforce

lemma bsearch_loop_correct:
  assumes "sorted_wrt (<) (map key xs)" and "u \<le> length xs"
  shows "bsearch_loop (compare_key k) xs l u = Some i
           \<longleftrightarrow> l \<le> i \<and> i < u \<and> key (xs ! i) = k"
  using assms
proof (induction "compare_key k" xs l u rule: bsearch_loop.induct)
  case (1 xs l u)
  let ?m = "(l + u) div 2"
  have mono: "key (xs ! i) < key (xs ! j)" if "i < j" "j < u" for i j
    using sorted_wrt_nth_less [OF "1.prems"(1), of i j] that "1.prems"(2) by simp
  show ?case
  proof (cases "l < u")
    case False
    then show ?thesis by (auto simp: bsearch_loop.simps [of _ xs l u])
  next
    case True
    then have m: "l \<le> ?m" "?m < u" by auto
    consider "k < key (xs ! ?m)" | "key (xs ! ?m) < k" | "k = key (xs ! ?m)"
      by fastforce
    then show ?thesis
    proof cases
      case 1
      moreover from 1 have "i < u \<and> key (xs ! i) = k \<longrightarrow> i < ?m"
        using mono [of ?m i] by (metis linorder_neqE_nat order_less_asym)
      ultimately show ?thesis
        using "1.hyps"(1) [OF True refl refl] "1.prems" m True
        by (auto simp: bsearch_loop.simps [of _ xs l u] Let_def compare_key_neg)
    next
      case 2
      moreover from 2 have "key (xs ! i) = k \<longrightarrow> ?m < i"
        using mono [of i ?m] m by (metis linorder_neqE_nat order_less_asym)
      ultimately show ?thesis
        using "1.hyps"(2) [OF True refl refl] "1.prems" m True
        by (auto simp: bsearch_loop.simps [of _ xs l u] Let_def compare_key_neg compare_key_pos)
    next
      case 3
      moreover from 3 have "i < u \<and> key (xs ! i) = k \<longrightarrow> i = ?m"
        using mono [of i ?m] mono [of ?m i] m by (metis linorder_neqE_nat order_less_irrefl)
      ultimately show ?thesis
        using m True
        by (auto simp: bsearch_loop.simps [of _ xs l u] Let_def compare_key_neg compare_key_pos)
    qed
  qed
qed

lemma bsearch_Some:
  "sorted_wrt (<) (map key xs) \<Longrightarrow>
   bsearch (compare_key k) xs = Some i \<longleftrightarrow> i < length xs \<and> key (xs ! i) = k"
  by (simp add: bsearch_def bsearch_loop_correct)

lemma bsearch_None:
  assumes "sorted_wrt (<) (map key xs)"
  shows "bsearch (compare_key k) xs = None \<longleftrightarrow> k \<notin> key ` set xs"
proof -
  have "bsearch (compare_key k) xs = None \<longleftrightarrow> (\<forall>i. bsearch (compare_key k) xs \<noteq> Some i)"
    by (cases "bsearch (compare_key k) xs") auto
  then show ?thesis using assms by (auto simp: bsearch_Some set_conv_nth)
qed

lemma mset_qsort_insert: "mset (qsort_insert compare_elem x ys) = add_mset x (mset ys)"
  by (induction ys) auto

lemma mset_qsort [simp]: "mset (qsort compare_elem xs) = mset xs"
  by (induction xs) (simp_all add: mset_qsort_insert)

lemma set_qsort [simp]: "set (qsort compare_elem xs) = set xs"
  by (metis mset_qsort set_mset_mset)

lemma length_qsort [simp]: "length (qsort compare_elem xs) = length xs"
  by (metis mset_qsort size_mset)

lemma sorted_qsort_insert:
  "sorted (map key ys) \<Longrightarrow> sorted (map key (qsort_insert compare_elem x ys))"
proof (induction ys)
  case (Cons y ys)
  have "set (qsort_insert compare_elem x ys) = insert x (set ys)"
    using mset_qsort_insert [of x ys] by (metis set_mset_add_mset_insert set_mset_mset)
  with Cons show ?case by (fastforce simp: compare_elem_pos not_less)
qed simp

lemma sorted_qsort: "sorted (map key (qsort compare_elem xs))"
  by (induction xs) (auto intro: sorted_qsort_insert)

lemma strict_sorted_qsort:
  assumes "distinct (map key xs)"
  shows "sorted_wrt (<) (map key (qsort compare_elem xs))"
proof -
  have "mset (map key (qsort compare_elem xs)) = mset (map key xs)"
    by (simp flip: mset_map [symmetric])
  then have "distinct (map key (qsort compare_elem xs))"
    using assms by (metis mset_eq_imp_distinct_iff)
  then show ?thesis using sorted_qsort [of xs] by (simp add: strict_sorted_iff)
qed

end

section \<open>Scanning\<close>

text \<open>
  The conversions of \<open>sscanf\<close> the program uses. A literal character must come next; a number and a
  word first skip white space; a number has an optional sign, saturates as \<open>strtoull\<close> does and is negated modulo
  \<open>2\<^sup>6\<^sup>4\<close> after a minus.
\<close>

definition is_space :: "char \<Rightarrow> bool" where
  "is_space c \<longleftrightarrow> c \<in> {CHR '' '', CHR 0x09, CHR 0x0A, CHR 0x0B, CHR 0x0C, CHR 0x0D}"

definition is_digit :: "char \<Rightarrow> bool" where
  "is_digit c \<longleftrightarrow> 48 \<le> (of_char c :: nat) \<and> (of_char c :: nat) \<le> 57"

definition skip_space :: "string \<Rightarrow> string" where
  "skip_space s = dropWhile is_space s"

fun scan_char :: "char \<Rightarrow> string \<Rightarrow> string option" where
  "scan_char c [] = None"
| "scan_char c (d # s) = (if d = c then Some s else None)"

definition scan_word :: "string \<Rightarrow> string option" where
  "scan_word s = (let s = skip_space s in if s = [] then None else Some (dropWhile (\<lambda>c. \<not> is_space c) s))"

definition digits_value :: "string \<Rightarrow> nat" where
  "digits_value s = foldl (\<lambda>n c. 10 * n + (of_char c - 48)) 0 s"

definition scan_number :: "string \<Rightarrow> (u64 \<times> string) option" where
  "scan_number s =
     (let s = skip_space s;
          negative = (case s of c # _ \<Rightarrow> c = CHR ''-'' | [] \<Rightarrow> False);
          s = (case s of c # t \<Rightarrow> if c = CHR ''-'' \<or> c = CHR ''+'' then t else s | [] \<Rightarrow> []);
          digits = takeWhile is_digit s;
          value = of_nat (min (digits_value digits) (2 ^ 64 - 1))
      in if digits = [] then None
         else Some (if negative then - value else value, dropWhile is_digit s))"

text \<open>\<open>atoi\<close>: \<open>strtol\<close> saturates at 64 bits and the result is cut to an \<open>int\<close>; without digits it is 0.\<close>

definition atoi :: "string \<Rightarrow> int" where
  "atoi s =
     (let s = skip_space s;
          negative = (case s of c # _ \<Rightarrow> c = CHR ''-'' | [] \<Rightarrow> False);
          s = (case s of c # t \<Rightarrow> if c = CHR ''-'' \<or> c = CHR ''+'' then t else s | [] \<Rightarrow> []);
          n = int (digits_value (takeWhile is_digit s));
          v = (if negative then max (- (2 ^ 63)) (- n) else min (2 ^ 63 - 1) n)
      in sint (word_of_int v :: u32))"

text \<open>\<open>%*[^c]\<close>: at least one character other than \<open>c\<close>.\<close>

definition scan_until :: "char \<Rightarrow> string \<Rightarrow> string option" where
  "scan_until c s = (if s = [] \<or> hd s = c then None else Some (dropWhile (\<lambda>d. d \<noteq> c) s))"

lemma show_nat_digits: "list_all is_digit (show_nat n) \<and> show_nat n \<noteq> []"
  by (induction n rule: show_nat.induct) (auto simp: is_digit_def digit_char_def show_nat.simps)

lemma digits_value_snoc: "digits_value (s @ [c]) = 10 * digits_value s + (of_char c - 48)"
  by (simp add: digits_value_def)

lemma digits_value_show: "digits_value (show_nat n) = n"
proof (induction n rule: show_nat.induct)
  case (1 n)
  have d: "m < 10 \<Longrightarrow> of_char (digit_char m) - 48 = m" for m :: nat
    by (simp add: digit_char_def)
  show ?case
  proof (cases "n < 10")
    case True
    then show ?thesis using d [of n] by (simp add: show_nat.simps [of n] digits_value_def)
  next
    case False
    then show ?thesis
      using 1 d [of "n mod 10"] by (simp add: show_nat.simps [of n] digits_value_snoc)
  qed
qed

lemma scan_number_show:
  assumes "n < 2 ^ 64" and "s = [] \<or> \<not> is_digit (hd s)"
  shows "scan_number (show_nat n @ s) = Some (of_nat n, s)"
proof -
  obtain c cs where c: "show_nat n = c # cs" using show_nat_digits [of n] by (cases "show_nat n") auto
  have dig: "list_all is_digit (show_nat n)" using show_nat_digits [of n] by simp
  then have "is_digit c" using c by simp
  then have nc: "\<not> is_space c" "c \<noteq> CHR ''-''" "c \<noteq> CHR ''+''" by (auto simp: is_digit_def is_space_def)
  have t: "takeWhile is_digit (show_nat n @ s) = show_nat n" "dropWhile is_digit (show_nat n @ s) = s"
    using dig assms(2) by (cases s; simp add: takeWhile_append2 dropWhile_append2 list_all_iff)+
  have sp: "skip_space (show_nat n @ s) = show_nat n @ s" using nc c by (simp add: skip_space_def)
  have e: "(case show_nat n @ s of d # t \<Rightarrow> if d = CHR ''-'' \<or> d = CHR ''+'' then t else show_nat n @ s | [] \<Rightarrow> [])
      = show_nat n @ s" "\<not> (case show_nat n @ s of d # _ \<Rightarrow> d = CHR ''-'' | [] \<Rightarrow> False)"
    using nc c by simp_all
  have v: "min n (2 ^ 64 - 1) = n" using assms(1) by linarith
  show ?thesis
    unfolding scan_number_def Let_def sp e(1) t digits_value_show v using e(2) c by simp
qed

end
