(* ===== verification/Ml_Message.thy ===== *)
theory Ml_Message
  imports Ml_Prelude
begin

text \<open>
  Reference-counted messages (\<open>src/src/ml_message.c\<close>, \<open>src/src/internal.h\<close>) and the memory
  they live in. A message is the address of its header; \<open>message_to_header\<close> and
  \<open>message_from_header\<close> are the pointer arithmetic between the two and cost nothing here.
  The world holds the heap of headers, the malloc oracle (whether the n-th allocation
  succeeds), the queues by address, and a log of the callbacks that were called.
\<close>

section \<open>The state\<close>

type_synonym addr = nat
type_synonym uid = nat
type_synonym callback = nat

text \<open>
  The data behind a header: nothing, the bytes of an application, or one of the two structs
  the library itself puts there (\<open>worker_pool_job_message_t\<close>, and the request and response
  of the one-wire component, whose temperature is kept as the raw count of 1/16 degrees).
\<close>

datatype payload =
    NoData
  | AppData bytes
  | JobData (job_entry: callback) (job_arg: addr)
  | ReadTemperatureReq u64 addr
  | ReadTemperatureRsp int int

record ml_message_header_t =
  uid_p :: uid
  count :: int
  on_free :: "callback option"
  data :: payload

record ml_queue_t =
  on_put :: "(callback \<times> addr) option"
  rdpos :: nat
  wrpos :: nat
  q_length :: nat
  messages_p :: "addr list"

record world =
  heap :: "addr \<Rightarrow> ml_message_header_t option"
  next_addr :: addr
  malloc_ok :: "addr \<Rightarrow> bool"
  queues :: "addr \<Rightarrow> ml_queue_t"
  put_calls :: "(callback \<times> addr) list"
  free_calls :: "(callback \<times> addr) list"

section \<open>The operations\<close>

text \<open>\<open>xmalloc\<close> returns memory or ends the process.\<close>

definition xmalloc :: "world \<Rightarrow> (addr \<times> world) res" where
  "xmalloc w =
     (if malloc_ok w (next_addr w)
      then Inr (next_addr w, w\<lparr>next_addr := Suc (next_addr w)\<rparr>)
      else Inl (Exit 1))"

definition load_header :: "world \<Rightarrow> addr \<Rightarrow> ml_message_header_t res" where
  "load_header w m = (case heap w m of None \<Rightarrow> Inl UseAfterFree | Some h \<Rightarrow> Inr h)"

definition store_header :: "world \<Rightarrow> addr \<Rightarrow> ml_message_header_t \<Rightarrow> world" where
  "store_header w m h = w\<lparr>heap := (heap w)(m := Some h)\<rparr>"

definition ml_message_alloc :: "world \<Rightarrow> uid \<Rightarrow> payload \<Rightarrow> (addr \<times> world) res" where
  "ml_message_alloc w u d =
     andthen (xmalloc w) (\<lambda>(m, w).
       Inr (m, store_header w m \<lparr>uid_p = u, count = 1, on_free = None, data = d\<rparr>))"

definition ml_message_set_on_free :: "world \<Rightarrow> addr \<Rightarrow> callback option \<Rightarrow> world res" where
  "ml_message_set_on_free w m f =
     andthen (load_header w m) (\<lambda>h. Inr (store_header w m (h\<lparr>on_free := f\<rparr>)))"

text \<open>\<open>free\<close> of a header, and the call of the on-free callback when there is one.\<close>

definition free_cell :: "world \<Rightarrow> addr \<Rightarrow> world" where
  "free_cell w m = w\<lparr>heap := (heap w)(m := None)\<rparr>"

definition call_on_free :: "world \<Rightarrow> callback option \<Rightarrow> addr \<Rightarrow> world" where
  "call_on_free w f m =
     (case f of None \<Rightarrow> w | Some f \<Rightarrow> w\<lparr>free_calls := free_calls w @ [(f, m)]\<rparr>)"

definition ml_message_free :: "world \<Rightarrow> addr \<Rightarrow> world res" where
  "ml_message_free w m =
     andthen (load_header w m) (\<lambda>h.
       let h = h\<lparr>count := count h - 1\<rparr>;
           w = store_header w m h
       in if count h = 0 then Inr (free_cell (call_on_free w (on_free h) m) m) else Inr w)"

definition ml_message_share :: "world \<Rightarrow> addr \<Rightarrow> int \<Rightarrow> world res" where
  "ml_message_share w m n =
     andthen (load_header w m) (\<lambda>h. Inr (store_header w m (h\<lparr>count := count h + n\<rparr>)))"

text \<open>A client that drops \<open>n\<close> references one after the other.\<close>

fun free_times :: "nat \<Rightarrow> world \<Rightarrow> addr \<Rightarrow> world res" where
  "free_times 0 w m = Inr w"
| "free_times (Suc n) w m = andthen (ml_message_free w m) (\<lambda>w. free_times n w m)"

section \<open>Well-formed heaps\<close>

text \<open>Every live message has a positive count and an address that was handed out.\<close>

definition heap_inv :: "world \<Rightarrow> bool" where
  "heap_inv w \<longleftrightarrow> (\<forall>m h. heap w m = Some h \<longrightarrow> 0 < count h \<and> m < next_addr w)"

section \<open>Lemmas\<close>

lemma heap_store_header [simp]: "heap (store_header w m h) = (heap w)(m := Some h)"
  by (simp add: store_header_def)

lemma store_header_frame [simp]:
  "next_addr (store_header w m h) = next_addr w"
  "queues (store_header w m h) = queues w"
  "put_calls (store_header w m h) = put_calls w"
  "free_calls (store_header w m h) = free_calls w"
  "malloc_ok (store_header w m h) = malloc_ok w"
  by (simp_all add: store_header_def)

lemma heap_invD: "heap_inv w \<Longrightarrow> heap w m = Some h \<Longrightarrow> 0 < count h \<and> m < next_addr w"
  by (auto simp: heap_inv_def)

lemma heap_inv_fresh: "heap_inv w \<Longrightarrow> heap w (next_addr w) = None"
  by (metis heap_invD less_irrefl not_Some_eq)

lemma alloc_Inr:
  "ml_message_alloc w u d = Inr (m, w') \<longleftrightarrow>
     malloc_ok w m \<and> m = next_addr w
     \<and> w' = store_header (w\<lparr>next_addr := Suc m\<rparr>) m \<lparr>uid_p = u, count = 1, on_free = None, data = d\<rparr>"
  by (auto simp: ml_message_alloc_def xmalloc_def)

lemma share_Inr:
  "ml_message_share w m n = Inr w' \<longleftrightarrow>
     (\<exists>h. heap w m = Some h \<and> w' = store_header w m (h\<lparr>count := count h + n\<rparr>))"
  by (auto simp: ml_message_share_def load_header_def split: option.splits)

lemma free_cell_simps [simp]:
  "heap (free_cell w m) = (heap w)(m := None)"
  "next_addr (free_cell w m) = next_addr w"
  "queues (free_cell w m) = queues w"
  "free_calls (free_cell w m) = free_calls w"
  "put_calls (free_cell w m) = put_calls w"
  by (simp_all add: free_cell_def)

lemma call_on_free_simps [simp]:
  "heap (call_on_free w f m) = heap w"
  "next_addr (call_on_free w f m) = next_addr w"
  "queues (call_on_free w f m) = queues w"
  "put_calls (call_on_free w f m) = put_calls w"
  "free_calls (call_on_free w f m) = free_calls w @ (case f of None \<Rightarrow> [] | Some f \<Rightarrow> [(f, m)])"
  by (simp_all add: call_on_free_def split: option.splits)

lemma free_store_collapse:
  "free_cell (call_on_free (store_header w m h) f m) m = free_cell (call_on_free w f m) m"
  by (simp add: free_cell_def call_on_free_def store_header_def split: option.splits)

lemma free_live:
  "heap w m = Some h \<Longrightarrow>
   ml_message_free w m = Inr
     (if count h = 1 then free_cell (call_on_free w (on_free h) m) m
      else store_header w m (h\<lparr>count := count h - 1\<rparr>))"
  by (simp add: ml_message_free_def load_header_def Let_def free_store_collapse)

lemma free_dead: "heap w m = None \<Longrightarrow> ml_message_free w m = Inl UseAfterFree"
  by (simp add: ml_message_free_def load_header_def)

lemma heap_inv_alloc: "heap_inv w \<Longrightarrow> ml_message_alloc w u d = Inr (m, w') \<Longrightarrow> heap_inv w'"
  by (auto simp: alloc_Inr heap_inv_def less_Suc_eq)

lemma heap_inv_store:
  "heap_inv w \<Longrightarrow> heap w m = Some h \<Longrightarrow> 0 < count h' \<Longrightarrow> heap_inv (store_header w m h')"
  by (auto simp: heap_inv_def)

lemma heap_inv_set_on_free:
  assumes "heap_inv w" and "ml_message_set_on_free w m f = Inr w'"
  shows "heap_inv w'"
proof -
  from assms(2) obtain h where "heap w m = Some h" "w' = store_header w m (h\<lparr>on_free := f\<rparr>)"
    by (auto simp: ml_message_set_on_free_def load_header_def split: option.splits)
  moreover from this have "0 < count h" using heap_invD [OF assms(1)] by blast
  ultimately show ?thesis using assms(1) by (simp add: heap_inv_store)
qed

lemma heap_inv_share:
  assumes "heap_inv w" and "0 \<le> n" and "ml_message_share w m n = Inr w'"
  shows "heap_inv w'"
proof -
  from assms(3) obtain h where "heap w m = Some h"
    and "w' = store_header w m (h\<lparr>count := count h + n\<rparr>)"
    by (auto simp: share_Inr)
  moreover from this have "0 < count h" using heap_invD [OF assms(1)] by blast
  ultimately show ?thesis using assms(1,2) by (simp add: heap_inv_store)
qed

lemma heap_inv_free: "heap_inv w \<Longrightarrow> ml_message_free w m = Inr w' \<Longrightarrow> heap_inv w'"
  by (cases "heap w m") (fastforce simp: free_live free_dead heap_inv_def split: if_splits)+

lemma free_times_live:
  assumes "heap w m = Some h" and "count h = int n" and "0 < n"
  shows "free_times n w m = Inr (free_cell (call_on_free w (on_free h) m) m)"
  using assms
proof (induction n arbitrary: w h)
  case (Suc n)
  then show ?case by (cases "n = 0") (simp_all add: free_live free_store_collapse)
qed simp

end
