(* ===== verification/Ml_Queue.thy ===== *)
theory Ml_Queue
  imports Ml_Message
begin

text \<open>
  The message queue of \<open>src/src/ml_queue.c\<close>: a ring buffer with one unused slot, protected by a
  mutex. A call that would wait on a condition variable is \<open>Inl Blocked\<close>. The locale
  \<open>bounded_fifo\<close> is the contract of a bounded first-in first-out queue; its lemmas are about
  arbitrary interleavings of puts and gets, and the ring buffer interprets it.
\<close>

section \<open>The operations\<close>

definition is_empty :: "ml_queue_t \<Rightarrow> bool" where
  "is_empty q \<longleftrightarrow> rdpos q = wrpos q"

definition is_full :: "ml_queue_t \<Rightarrow> bool" where
  "is_full q \<longleftrightarrow> (wrpos q + 1) mod q_length q = rdpos q"

definition push_message :: "ml_queue_t \<Rightarrow> addr \<Rightarrow> ml_queue_t" where
  "push_message q m =
     (let q = q\<lparr>messages_p := (messages_p q)[wrpos q := m]\<rparr>;
          q = q\<lparr>wrpos := wrpos q + 1\<rparr>
      in q\<lparr>wrpos := wrpos q mod q_length q\<rparr>)"

definition pop_message :: "ml_queue_t \<Rightarrow> addr \<times> ml_queue_t" where
  "pop_message q =
     (let m = messages_p q ! rdpos q;
          q = q\<lparr>rdpos := rdpos q + 1\<rparr>
      in (m, q\<lparr>rdpos := rdpos q mod q_length q\<rparr>))"

definition set_queue :: "world \<Rightarrow> addr \<Rightarrow> ml_queue_t \<Rightarrow> world" where
  "set_queue w q Q = w\<lparr>queues := (queues w)(q := Q)\<rparr>"

definition ml_queue_init :: "world \<Rightarrow> addr \<Rightarrow> nat \<Rightarrow> world res" where
  "ml_queue_init w q len =
     andthen (xmalloc w) (\<lambda>(_, w).
       Inr (set_queue w q \<lparr>on_put = None, rdpos = 0, wrpos = 0, q_length = len + 1,
                           messages_p = replicate (len + 1) 0\<rparr>))"

text \<open>After \<open>free(messages_p)\<close> the queue has no slots left.\<close>

definition ml_queue_destroy :: "world \<Rightarrow> addr \<Rightarrow> world" where
  "ml_queue_destroy w q = set_queue w q ((queues w q)\<lparr>messages_p := []\<rparr>)"

definition ml_queue_set_on_put :: "world \<Rightarrow> addr \<Rightarrow> callback \<Rightarrow> addr \<Rightarrow> world" where
  "ml_queue_set_on_put w q f arg = set_queue w q ((queues w q)\<lparr>on_put := Some (f, arg)\<rparr>)"

definition ml_queue_get :: "world \<Rightarrow> addr \<Rightarrow> (uid \<times> addr \<times> world) res" where
  "ml_queue_get w q =
     (if is_empty (queues w q) then Inl Blocked
      else let (m, Q) = pop_message (queues w q);
               w = set_queue w q Q
           in andthen (load_header w m) (\<lambda>h. Inr (uid_p h, m, w)))"

definition ml_queue_put :: "world \<Rightarrow> addr \<Rightarrow> addr \<Rightarrow> world res" where
  "ml_queue_put w q m =
     (if is_full (queues w q) then Inl Blocked
      else let w = set_queue w q (push_message (queues w q) m)
           in case on_put (queues w q) of
                None \<Rightarrow> Inr w
              | Some c \<Rightarrow> Inr (w\<lparr>put_calls := put_calls w @ [c]\<rparr>))"

section \<open>The abstract queue\<close>

definition fill_level :: "ml_queue_t \<Rightarrow> nat" where
  "fill_level q =
     (if rdpos q \<le> wrpos q then wrpos q - rdpos q else q_length q - rdpos q + wrpos q)"

definition contents :: "ml_queue_t \<Rightarrow> addr list" where
  "contents q =
     map (\<lambda>i. messages_p q ! ((rdpos q + i) mod q_length q)) [0..<fill_level q]"

definition queue_inv :: "ml_queue_t \<Rightarrow> bool" where
  "queue_inv q \<longleftrightarrow>
     rdpos q < q_length q \<and> wrpos q < q_length q \<and> length (messages_p q) = q_length q"

text \<open>The queue as a partial operation: \<open>None\<close> is the blocking case.\<close>

definition try_put :: "addr \<Rightarrow> ml_queue_t \<Rightarrow> ml_queue_t option" where
  "try_put m q = (if is_full q then None else Some (push_message q m))"

definition try_get :: "ml_queue_t \<Rightarrow> (addr \<times> ml_queue_t) option" where
  "try_get q = (if is_empty q then None else Some (pop_message q))"

text \<open>
  A schedule of puts and gets by any number of threads. Each call is one critical section, and
  a call that would block leaves the queue as it is (the thread waits and its call comes up
  again later in the schedule). The result is the queue, the messages put and the messages got.
\<close>

datatype 'm qop = Put 'm | Get

fun run_ops :: "('m \<Rightarrow> 'q \<Rightarrow> 'q option) \<Rightarrow> ('q \<Rightarrow> ('m \<times> 'q) option) \<Rightarrow> 'm qop list \<Rightarrow> 'q
    \<Rightarrow> 'q \<times> 'm list \<times> 'm list" where
  "run_ops p g [] q = (q, [], [])"
| "run_ops p g (Put m # ops) q =
     (case p m q of
        None \<Rightarrow> run_ops p g ops q
      | Some q' \<Rightarrow> (let (q'', ps, gs) = run_ops p g ops q' in (q'', m # ps, gs)))"
| "run_ops p g (Get # ops) q =
     (case g q of
        None \<Rightarrow> run_ops p g ops q
      | Some (m, q') \<Rightarrow> (let (q'', ps, gs) = run_ops p g ops q' in (q'', ps, m # gs)))"

text \<open>The same schedule on the world, with the calls of the library.\<close>

fun run_queue :: "addr \<Rightarrow> addr qop list \<Rightarrow> world \<Rightarrow> world \<times> addr list \<times> addr list" where
  "run_queue q [] w = (w, [], [])"
| "run_queue q (Put m # ops) w =
     (case ml_queue_put w q m of
        Inl _ \<Rightarrow> run_queue q ops w
      | Inr w' \<Rightarrow> (let (w'', ps, gs) = run_queue q ops w' in (w'', m # ps, gs)))"
| "run_queue q (Get # ops) w =
     (case ml_queue_get w q of
        Inl _ \<Rightarrow> run_queue q ops w
      | Inr (_, m, w') \<Rightarrow> (let (w'', ps, gs) = run_queue q ops w' in (w'', ps, m # gs)))"

section \<open>The contract of a bounded FIFO queue\<close>

locale bounded_fifo =
  fixes fput :: "'m \<Rightarrow> 'q \<Rightarrow> 'q option"
    and fget :: "'q \<Rightarrow> ('m \<times> 'q) option"
    and flist :: "'q \<Rightarrow> 'm list"
    and fcap :: "'q \<Rightarrow> nat"
    and finv :: "'q \<Rightarrow> bool"
  assumes put_Some: "finv q \<Longrightarrow> fput m q = Some q' \<Longrightarrow>
      finv q' \<and> flist q' = flist q @ [m] \<and> fcap q' = fcap q"
    and put_None: "finv q \<Longrightarrow> fput m q = None \<longleftrightarrow> length (flist q) = fcap q"
    and get_Some: "finv q \<Longrightarrow> fget q = Some (m, q') \<Longrightarrow>
      finv q' \<and> flist q = m # flist q' \<and> fcap q' = fcap q"
    and get_None: "finv q \<Longrightarrow> fget q = None \<longleftrightarrow> flist q = []"
    and bounded: "finv q \<Longrightarrow> length (flist q) \<le> fcap q"
begin

lemma run_ops_invariant:
  assumes "finv q" and "run_ops fput fget ops q = (q', ps, gs)"
  shows "finv q' \<and> fcap q' = fcap q \<and> flist q @ ps = gs @ flist q'"
  using assms
proof (induction ops arbitrary: q ps gs)
  case (Cons op ops)
  show ?case
  proof (cases op)
    case (Put m)
    show ?thesis
    proof (cases "fput m q")
      case None
      with Cons Put show ?thesis by simp
    next
      case (Some q1)
      obtain ps1 where rec: "run_ops fput fget ops q1 = (q', ps1, gs)" "ps = m # ps1"
        using Cons.prems(2) Some Put by (auto split: prod.splits)
      have q1: "finv q1" "flist q1 = flist q @ [m]" "fcap q1 = fcap q"
        using put_Some [OF Cons.prems(1) Some] by auto
      then show ?thesis using Cons.IH [OF q1(1) rec(1)] rec by simp
    qed
  next
    case Get
    show ?thesis
    proof (cases "fget q")
      case None
      with Cons Get show ?thesis by simp
    next
      case (Some r)
      then obtain m q1 where r: "fget q = Some (m, q1)" by (cases r) auto
      obtain gs1 where rec: "run_ops fput fget ops q1 = (q', ps, gs1)" "gs = m # gs1"
        using Cons.prems(2) r Get by (auto split: prod.splits)
      have q1: "finv q1" "flist q = m # flist q1" "fcap q1 = fcap q"
        using get_Some [OF Cons.prems(1) r] by auto
      then show ?thesis using Cons.IH [OF q1(1) rec(1)] rec by simp
    qed
  qed
qed simp

lemma run_ops_fifo:
  assumes "finv q" and "flist q = []" and "run_ops fput fget ops q = (q', ps, gs)"
  shows "ps = gs @ flist q' \<and> length ps - length gs \<le> fcap q"
  using run_ops_invariant [OF assms(1,3)] assms(2) bounded [of q'] by auto

lemma put_then_get:
  assumes "finv q" and "fput m q = Some q'"
  shows "\<exists>m' q''. fget q' = Some (m', q'')"
  using put_Some [OF assms] get_None [of q'] by (cases "fget q'") auto

end

section \<open>The ring buffer\<close>

lemma wrap_add: "(r::nat) < n \<Longrightarrow> i < n \<Longrightarrow> (r + i) mod n = (if r + i < n then r + i else r + i - n)"
  by (auto simp: le_mod_geq)

lemma push_fields [simp]:
  "rdpos (push_message q m) = rdpos q"
  "wrpos (push_message q m) = Suc (wrpos q) mod q_length q"
  "q_length (push_message q m) = q_length q"
  "messages_p (push_message q m) = (messages_p q)[wrpos q := m]"
  "on_put (push_message q m) = on_put q"
  by (simp_all add: push_message_def Let_def)

lemma fst_pop: "fst (pop_message q) = messages_p q ! rdpos q"
  by (simp add: pop_message_def Let_def)

lemma pop_fields [simp]:
  "rdpos (snd (pop_message q)) = Suc (rdpos q) mod q_length q"
  "wrpos (snd (pop_message q)) = wrpos q"
  "q_length (snd (pop_message q)) = q_length q"
  "messages_p (snd (pop_message q)) = messages_p q"
  "on_put (snd (pop_message q)) = on_put q"
  by (simp_all add: pop_message_def Let_def)

lemma fill_level_less: "queue_inv q \<Longrightarrow> fill_level q < q_length q"
  by (auto simp: queue_inv_def fill_level_def)

lemma length_contents [simp]: "length (contents q) = fill_level q"
  by (simp add: contents_def)

lemma is_empty_iff: "queue_inv q \<Longrightarrow> is_empty q \<longleftrightarrow> contents q = []"
  by (auto simp: is_empty_def contents_def fill_level_def queue_inv_def)

lemma is_full_iff: "queue_inv q \<Longrightarrow> is_full q \<longleftrightarrow> fill_level q = q_length q - 1"
  by (auto simp: is_full_def fill_level_def queue_inv_def mod_Suc)

lemma push_inv: "queue_inv q \<Longrightarrow> queue_inv (push_message q m)"
  by (auto simp: queue_inv_def)

lemma pop_inv: "queue_inv q \<Longrightarrow> queue_inv (snd (pop_message q))"
  by (auto simp: queue_inv_def)

lemma fill_level_push:
  "queue_inv q \<Longrightarrow> \<not> is_full q \<Longrightarrow> fill_level (push_message q m) = Suc (fill_level q)"
  by (auto simp: fill_level_def queue_inv_def is_full_def mod_Suc)

lemma fill_level_pop:
  "queue_inv q \<Longrightarrow> \<not> is_empty q \<Longrightarrow> fill_level (snd (pop_message q)) = fill_level q - 1"
  by (auto simp: fill_level_def queue_inv_def is_empty_def mod_Suc)

lemma slot_of_wrpos: "queue_inv q \<Longrightarrow> (rdpos q + fill_level q) mod q_length q = wrpos q"
  using fill_level_less [of q] by (auto simp: wrap_add queue_inv_def fill_level_def)

lemma slot_below_wrpos:
  "queue_inv q \<Longrightarrow> i < fill_level q \<Longrightarrow> (rdpos q + i) mod q_length q \<noteq> wrpos q"
  using fill_level_less [of q]
  by (auto simp: wrap_add queue_inv_def fill_level_def split: if_splits)

lemma contents_push:
  assumes "queue_inv q" and "\<not> is_full q"
  shows "contents (push_message q m) = contents q @ [m]"
proof (rule nth_equalityI)
  show "length (contents (push_message q m)) = length (contents q @ [m])"
    using assms by (simp add: fill_level_push)
  fix i assume "i < length (contents (push_message q m))"
  then have i: "i < Suc (fill_level q)" using assms by (simp add: fill_level_push)
  have "contents (push_message q m) ! i
      = (messages_p q)[wrpos q := m] ! ((rdpos q + i) mod q_length q)"
    using i assms by (simp add: contents_def fill_level_push del: upt_Suc)
  also have "\<dots> = (contents q @ [m]) ! i"
    using i assms slot_of_wrpos [of q] slot_below_wrpos [of q i]
    by (auto simp: less_Suc_eq nth_append contents_def queue_inv_def)
  finally show "contents (push_message q m) ! i = (contents q @ [m]) ! i" .
qed

lemma contents_pop:
  assumes "queue_inv q" and "\<not> is_empty q" and "pop_message q = (m, q')"
  shows "contents q = m # contents q'"
proof (rule nth_equalityI)
  have f: "0 < fill_level q" using is_empty_iff [OF assms(1)] assms(2)
    by (metis gr0I length_0_conv length_contents)
  have f': "fill_level q' = fill_level q - 1" using fill_level_pop [OF assms(1,2)] assms(3) by simp
  then show "length (contents q) = length (m # contents q')" using f by simp
  fix i assume "i < length (contents q)"
  then have i: "i < fill_level q" by simp
  have n: "rdpos q < q_length q" using assms(1) by (simp add: queue_inv_def)
  show "contents q ! i = (m # contents q') ! i"
  proof (cases i)
    case 0
    then show ?thesis using i n fst_pop [of q] assms(3) by (simp add: contents_def)
  next
    case (Suc j)
    have "((rdpos q + 1) mod q_length q + j) mod q_length q = (rdpos q + i) mod q_length q"
      by (simp add: Suc mod_add_left_eq)
    moreover have "messages_p q' = messages_p q" "q_length q' = q_length q"
      "rdpos q' = (rdpos q + 1) mod q_length q"
      using pop_fields(1,3,4) [of q] unfolding assms(3) by simp_all
    moreover have "j < fill_level q'" using i f' Suc by simp
    ultimately show ?thesis using i Suc by (simp add: contents_def)
  qed
qed

interpretation ring: bounded_fifo try_put try_get contents "\<lambda>q. q_length q - 1" queue_inv
proof unfold_locales
  fix q q' :: ml_queue_t and m
  assume q: "queue_inv q"
  show "try_put m q = Some q' \<Longrightarrow>
      queue_inv q' \<and> contents q' = contents q @ [m] \<and> q_length q' - 1 = q_length q - 1"
    using q by (auto simp: try_put_def push_inv contents_push split: if_splits)
  show "try_put m q = None \<longleftrightarrow> length (contents q) = q_length q - 1"
    using q by (simp add: try_put_def is_full_iff)
  show "try_get q = Some (m, q') \<Longrightarrow>
      queue_inv q' \<and> contents q = m # contents q' \<and> q_length q' - 1 = q_length q - 1"
    using q pop_inv [OF q] contents_pop [OF q] arg_cong [of _ _ "\<lambda>r. q_length (snd r)"]
    by (fastforce simp: try_get_def split: if_splits)
  show "try_get q = None \<longleftrightarrow> contents q = []"
    using q by (simp add: try_get_def is_empty_iff)
  show "length (contents q) \<le> q_length q - 1"
    using fill_level_less [OF q] by simp
qed

section \<open>The calls on the world\<close>

lemma set_queue_simps [simp]:
  "queues (set_queue w q Q) = (queues w)(q := Q)"
  "heap (set_queue w q Q) = heap w"
  "next_addr (set_queue w q Q) = next_addr w"
  "malloc_ok (set_queue w q Q) = malloc_ok w"
  "put_calls (set_queue w q Q) = put_calls w"
  "free_calls (set_queue w q Q) = free_calls w"
  by (simp_all add: set_queue_def)

lemma put_Inr_iff:
  "ml_queue_put w q m = Inr w' \<longleftrightarrow>
     \<not> is_full (queues w q)
     \<and> w' = (set_queue w q (push_message (queues w q) m))
              \<lparr>put_calls := put_calls w @ (case on_put (queues w q) of None \<Rightarrow> [] | Some c \<Rightarrow> [c])\<rparr>"
  by (auto simp: ml_queue_put_def Let_def set_queue_def split: option.splits)

lemma put_Inl_iff: "ml_queue_put w q m = Inl e \<longleftrightarrow> is_full (queues w q) \<and> e = Blocked"
  by (auto simp: ml_queue_put_def Let_def split: option.splits)

lemma get_Inr_iff:
  "ml_queue_get w q = Inr (u, m, w') \<longleftrightarrow>
     \<not> is_empty (queues w q) \<and> m = fst (pop_message (queues w q))
     \<and> w' = set_queue w q (snd (pop_message (queues w q)))
     \<and> (\<exists>h. heap w m = Some h \<and> u = uid_p h)"
  by (auto simp: ml_queue_get_def load_header_def split: prod.splits option.splits)

lemma get_Inl_iff:
  "ml_queue_get w q = Inl e \<longleftrightarrow>
     (if is_empty (queues w q) then e = Blocked
      else heap w (fst (pop_message (queues w q))) = None \<and> e = UseAfterFree)"
  by (auto simp: ml_queue_get_def load_header_def split: prod.splits option.splits)

lemma put_frame:
  assumes "ml_queue_put w q m = Inr w'"
  shows "heap w' = heap w" "next_addr w' = next_addr w" "malloc_ok w' = malloc_ok w"
    "free_calls w' = free_calls w" "queues w' = (queues w)(q := push_message (queues w q) m)"
  using assms by (auto simp: put_Inr_iff)

lemma get_frame:
  assumes "ml_queue_get w q = Inr (u, m, w')"
  shows "heap w' = heap w" "next_addr w' = next_addr w" "malloc_ok w' = malloc_ok w"
    "free_calls w' = free_calls w" "put_calls w' = put_calls w"
    "queues w' = (queues w)(q := snd (pop_message (queues w q)))"
  using assms by (auto simp: get_Inr_iff)

lemma put_contents:
  assumes "queue_inv (queues w q)" and "ml_queue_put w q m = Inr w'"
  shows "contents (queues w' q) = contents (queues w q) @ [m]"
    and "queue_inv (queues w' q)" and "q_length (queues w' q) = q_length (queues w q)"
  using assms by (auto simp: put_Inr_iff contents_push push_inv)

lemma get_contents:
  assumes "queue_inv (queues w q)" and "ml_queue_get w q = Inr (u, m, w')"
  shows "contents (queues w q) = m # contents (queues w' q)"
    and "queue_inv (queues w' q)" and "q_length (queues w' q) = q_length (queues w q)"
  using assms contents_pop [of "queues w q"] pop_inv [of "queues w q"]
  by (auto simp: get_Inr_iff prod_eq_iff)

lemma queue_init_queue:
  assumes "ml_queue_init w q len = Inr w'"
  shows "queue_inv (queues w' q)" "contents (queues w' q) = []" "q_length (queues w' q) = len + 1"
  using assms
  by (auto simp: ml_queue_init_def xmalloc_def queue_inv_def contents_def fill_level_def
      split: if_splits)

text \<open>The schedule on the world is the schedule on the ring buffer.\<close>

lemma run_queue_ring:
  assumes "queue_inv (queues w q)"
    and "\<forall>m \<in> set (contents (queues w q)). heap w m \<noteq> None"
    and "\<forall>m. Put m \<in> set ops \<longrightarrow> heap w m \<noteq> None"
    and "run_queue q ops w = (w', ps, gs)"
  shows "run_ops try_put try_get ops (queues w q) = (queues w' q, ps, gs)"
  using assms
proof (induction ops arbitrary: w ps gs)
  case (Cons op ops)
  show ?case
  proof (cases op)
    case (Put m)
    show ?thesis
    proof (cases "ml_queue_put w q m")
      case (Inl e)
      then have "try_put m (queues w q) = None" by (simp add: put_Inl_iff try_put_def)
      with Cons Put Inl show ?thesis by simp
    next
      case (Inr w1)
      then have t: "try_put m (queues w q) = Some (queues w1 q)"
        by (auto simp: put_Inr_iff try_put_def)
      obtain ps1 where rec: "run_queue q ops w1 = (w', ps1, gs)" "ps = m # ps1"
        using Cons.prems(4) Put Inr by (auto split: prod.splits)
      have "run_ops try_put try_get ops (queues w1 q) = (queues w' q, ps1, gs)"
        using Cons.prems Put
        by (intro Cons.IH rec(1)) (auto simp: put_contents [OF Cons.prems(1) Inr] put_frame(1) [OF Inr])
      with Put t rec show ?thesis by simp
    qed
  next
    case Get
    show ?thesis
    proof (cases "ml_queue_get w q")
      case (Inl e)
      have "is_empty (queues w q)"
      proof (rule ccontr)
        assume ne: "\<not> is_empty (queues w q)"
        obtain m q' where p: "pop_message (queues w q) = (m, q')" by fastforce
        then have "m \<in> set (contents (queues w q))" using contents_pop [OF Cons.prems(1) ne p] by simp
        then show False using Inl ne p Cons.prems(2) by (simp add: get_Inl_iff)
      qed
      then have "try_get (queues w q) = None" by (simp add: try_get_def)
      with Cons Get Inl show ?thesis by simp
    next
      case (Inr r)
      then obtain u m w1 where g: "ml_queue_get w q = Inr (u, m, w1)" by (cases r) auto
      then have t: "try_get (queues w q) = Some (m, queues w1 q)"
        by (auto simp: get_Inr_iff try_get_def prod_eq_iff)
      obtain gs1 where rec: "run_queue q ops w1 = (w', ps, gs1)" "gs = m # gs1"
        using Cons.prems(4) Get g by (auto split: prod.splits)
      have "run_ops try_put try_get ops (queues w1 q) = (queues w' q, ps, gs1)"
        using Cons.prems Get get_contents [OF Cons.prems(1) g]
        by (intro Cons.IH rec(1)) (auto simp: get_frame(1) [OF g])
      with Get t rec show ?thesis by simp
    qed
  qed
qed simp

section \<open>The properties\<close>

text \<open>
  C2: on a queue initialised for \<open>len\<close> messages, every schedule of puts and gets by any
  threads delivers the messages in the order they were put, each exactly once, and never holds
  more than \<open>len\<close> messages.
\<close>

theorem queue_schedule_fifo:
  assumes "ml_queue_init w0 q len = Inr w"
    and "\<forall>m. Put m \<in> set ops \<longrightarrow> heap w m \<noteq> None"
    and "run_queue q ops w = (w', ps, gs)"
  shows "ps = gs @ contents (queues w' q) \<and> length ps - length gs \<le> len"
proof -
  note init = queue_init_queue [OF assms(1)]
  have "run_ops try_put try_get ops (queues w q) = (queues w' q, ps, gs)"
    using init assms(2,3) by (intro run_queue_ring) auto
  then show ?thesis
    using ring.run_ops_fifo [OF init(1,2)] init(3) by simp
qed

definition example_world :: world where
  "example_world =
     \<lparr>heap = (\<lambda>_. None), next_addr = 0, malloc_ok = (\<lambda>_. True),
      queues = (\<lambda>_. \<lparr>on_put = None, rdpos = 0, wrpos = 0, q_length = 1, messages_p = [0]\<rparr>),
      put_calls = [], free_calls = []\<rparr>"

definition example_header :: ml_message_header_t where
  "example_header = \<lparr>uid_p = 5, count = 1, on_free = Some 9, data = NoData\<rparr>"

theorem queue_schedule_fifo_witness:
  "\<exists>w w' ps gs. ml_queue_init (example_world\<lparr>heap := (\<lambda>_. Some example_header)\<rparr>) 3 1 = Inr w
     \<and> run_queue 3 [Put 7, Put 8, Get, Put 8, Get] w = (w', ps, gs)
     \<and> gs = [7, 8] \<and> ps = gs @ contents (queues w' 3)"
proof -
  obtain w where w: "ml_queue_init (example_world\<lparr>heap := (\<lambda>_. Some example_header)\<rparr>) 3 1 = Inr w"
    by (simp add: ml_queue_init_def xmalloc_def example_world_def)
  have h: "heap w = (\<lambda>_. Some example_header)" and q: "queues w 3 =
      \<lparr>on_put = None, rdpos = 0, wrpos = 0, q_length = 2, messages_p = [0, 0]\<rparr>"
    using w by (auto simp: ml_queue_init_def xmalloc_def example_world_def numeral_2_eq_2)
  obtain w' ps gs where r: "run_queue 3 [Put 7, Put 8, Get, Put 8, Get] w = (w', ps, gs)"
    by (metis prod_cases3)
  have "gs = [7, 8]"
    using r by (auto simp: ml_queue_put_def ml_queue_get_def is_full_def is_empty_def q h
        push_message_def pop_message_def load_header_def Let_def)
  then show ?thesis
    using w r queue_schedule_fifo [OF w _ r] h by auto
qed

text \<open>
  A put blocks exactly when the queue holds as many messages as it was initialised for, a
  get blocks exactly when it is empty, and a put that returns has appended the message, left the
  other queues and the heap alone and called the on-put callback, if one is set, once.
\<close>

theorem queue_put_get_effect:
  assumes "queue_inv (queues w q)"
  shows "(ml_queue_put w q m = Inl Blocked
            \<longleftrightarrow> length (contents (queues w q)) + 1 = q_length (queues w q))
    \<and> (ml_queue_get w q = Inl Blocked \<longleftrightarrow> contents (queues w q) = [])
    \<and> (\<forall>w'. ml_queue_put w q m = Inr w' \<longrightarrow>
         contents (queues w' q) = contents (queues w q) @ [m]
         \<and> (\<forall>q'. q' \<noteq> q \<longrightarrow> queues w' q' = queues w q') \<and> heap w' = heap w
         \<and> put_calls w' = put_calls w @ (case on_put (queues w q) of None \<Rightarrow> [] | Some c \<Rightarrow> [c]))"
  using assms fill_level_less [OF assms] put_contents(1) [OF assms]
  by (auto simp: put_Inl_iff is_full_iff get_Inl_iff is_empty_iff put_frame)
     (auto simp: put_Inr_iff)

theorem queue_put_get_effect_witness:
  "ml_queue_put example_world 0 7 = Inl Blocked \<and> ml_queue_get example_world 0 = Inl Blocked"
  using queue_put_get_effect [of example_world 0 7]
  by (simp add: example_world_def queue_inv_def contents_def fill_level_def)

end
