(* ===== verification/Ml_Bus.thy ===== *)
theory Ml_Bus
  imports Ml_Stdlib Ml_Queue
begin

text \<open>
  The message bus of \<open>src/src/ml_bus.c\<close>: a table of (message identifier, subscriber queues)
  kept sorted by the identifier's address, searched with \<open>bsearch\<close> and re-sorted with
  \<open>qsort\<close> when an identifier is first subscribed to. The arrays with their lengths
  (\<open>elems_p\<close>, \<open>number_of_elems\<close>; \<open>queues_pp\<close>, \<open>number_of_queues\<close>) are lists. A broadcast
  shares the message and puts it on every subscriber queue; the theorems say which queues
  receive it, and that no interleaving with the subscribers frees it early or twice.
\<close>

section \<open>The state\<close>

record ml_bus_elem_t =
  elem_uid_p :: uid
  queues_pp :: "addr list"

record ml_bus_t =
  elems_p :: "ml_bus_elem_t list"

section \<open>The operations\<close>

definition compare_bsearch :: "uid \<Rightarrow> ml_bus_elem_t \<Rightarrow> int" where
  "compare_bsearch u e =
     (if u < elem_uid_p e then - 1 else if u = elem_uid_p e then 0 else 1)"

definition compare_qsort :: "ml_bus_elem_t \<Rightarrow> ml_bus_elem_t \<Rightarrow> int" where
  "compare_qsort l r =
     (if elem_uid_p l < elem_uid_p r then - 1
      else if elem_uid_p l = elem_uid_p r then 0 else 1)"

text \<open>\<open>xrealloc\<close> moves the array to new memory or ends the process.\<close>

definition xrealloc :: "world \<Rightarrow> (addr \<times> world) res" where
  "xrealloc w = xmalloc w"

definition insert_element :: "world \<Rightarrow> ml_bus_t \<Rightarrow> uid \<Rightarrow> (ml_bus_t \<times> world) res" where
  "insert_element w b u =
     andthen (xrealloc w) (\<lambda>(_, w).
     andthen (xmalloc w) (\<lambda>(_, w).
       Inr (b\<lparr>elems_p := qsort compare_qsort
               (elems_p b @ [\<lparr>elem_uid_p = u, queues_pp = []\<rparr>])\<rparr>, w)))"

definition find_element :: "ml_bus_t \<Rightarrow> uid \<Rightarrow> nat option" where
  "find_element b u = bsearch (compare_bsearch u) (elems_p b)"

definition append_queue_to_element ::
  "world \<Rightarrow> ml_bus_t \<Rightarrow> nat \<Rightarrow> addr \<Rightarrow> (ml_bus_t \<times> world) res" where
  "append_queue_to_element w b i q =
     andthen (xrealloc w) (\<lambda>(_, w).
       let e = elems_p b ! i
       in Inr (b\<lparr>elems_p := (elems_p b)[i := e\<lparr>queues_pp := queues_pp e @ [q]\<rparr>]\<rparr>, w))"

definition ml_bus_init :: "world \<Rightarrow> (ml_bus_t \<times> world) res" where
  "ml_bus_init w = andthen (xmalloc w) (\<lambda>(_, w). Inr (\<lparr>elems_p = []\<rparr>, w))"

fun put_all :: "world \<Rightarrow> addr list \<Rightarrow> addr \<Rightarrow> world res" where
  "put_all w [] m = Inr w"
| "put_all w (q # qs) m = andthen (ml_queue_put w q m) (\<lambda>w. put_all w qs m)"

definition ml_bus_broadcast :: "world \<Rightarrow> ml_bus_t \<Rightarrow> addr \<Rightarrow> world res" where
  "ml_bus_broadcast w b m =
     andthen (load_header w m) (\<lambda>h.
       case find_element b (uid_p h) of
         Some i \<Rightarrow>
           (let qs = queues_pp (elems_p b ! i)
            in andthen (ml_message_share w m (int (length qs) - 1)) (\<lambda>w. put_all w qs m))
       | None \<Rightarrow> ml_message_free w m)"

definition ml_bus_subscribe :: "world \<Rightarrow> ml_bus_t \<Rightarrow> addr \<Rightarrow> uid \<Rightarrow> (ml_bus_t \<times> world) res" where
  "ml_bus_subscribe w b q u =
     (case find_element b u of
        Some i \<Rightarrow> append_queue_to_element w b i q
      | None \<Rightarrow>
          andthen (insert_element w b u) (\<lambda>(b, w).
            case find_element b u of
              Some i \<Rightarrow> append_queue_to_element w b i q
            | None \<Rightarrow> Inl OutOfBounds))"

section \<open>The abstract bus\<close>

text \<open>The subscriptions of a bus: for each identifier its queues, in the order they subscribed.\<close>

definition subscribers :: "ml_bus_t \<Rightarrow> uid \<Rightarrow> addr list" where
  "subscribers b u = concat (map queues_pp (filter (\<lambda>e. elem_uid_p e = u) (elems_p b)))"

definition bus_inv :: "ml_bus_t \<Rightarrow> bool" where
  "bus_inv b \<longleftrightarrow> sorted_wrt (<) (map elem_uid_p (elems_p b))
     \<and> (\<forall>e \<in> set (elems_p b). queues_pp e \<noteq> [])"

text \<open>The references to a message in the queues of a finite set.\<close>

definition queue_refs :: "world \<Rightarrow> addr set \<Rightarrow> addr \<Rightarrow> nat" where
  "queue_refs w Q m = (\<Sum>q \<in> Q. count_list (contents (queues w q)) m)"

section \<open>The table\<close>

interpretation bus_table: sorted_table elem_uid_p compare_bsearch compare_qsort
  by unfold_locales (auto simp: compare_bsearch_def compare_qsort_def)

lemma filter_key_unique:
  "sorted_wrt (<) (map elem_uid_p es) \<Longrightarrow> i < length es \<Longrightarrow>
   filter (\<lambda>e. elem_uid_p e = elem_uid_p (es ! i)) es = [es ! i]"
proof (induction es arbitrary: i)
  case (Cons e es)
  show ?case
  proof (cases i)
    case 0
    with Cons.prems show ?thesis by (auto simp: filter_empty_conv)
  next
    case (Suc j)
    with Cons show ?thesis by (auto dest!: nth_mem [of j])
  qed
qed simp

text \<open>Between \<open>insert_element\<close> and the append the new element has no queue yet.\<close>

abbreviation bus_sorted :: "ml_bus_t \<Rightarrow> bool" where
  "bus_sorted b \<equiv> sorted_wrt (<) (map elem_uid_p (elems_p b))"

lemma find_element_Some:
  "bus_sorted b \<Longrightarrow> find_element b u = Some i \<longleftrightarrow>
     i < length (elems_p b) \<and> elem_uid_p (elems_p b ! i) = u"
  by (simp add: find_element_def bus_table.bsearch_Some)

lemma find_element_absent:
  "bus_sorted b \<Longrightarrow> find_element b u = None \<longleftrightarrow> u \<notin> elem_uid_p ` set (elems_p b)"
  by (simp add: find_element_def bus_table.bsearch_None)

lemma find_element_None:
  "bus_inv b \<Longrightarrow> find_element b u = None \<longleftrightarrow> subscribers b u = []"
  by (auto simp: bus_inv_def find_element_absent subscribers_def filter_empty_conv)

lemma subscribers_find_sorted:
  assumes "bus_sorted b" and "find_element b u = Some i"
  shows "subscribers b u = queues_pp (elems_p b ! i)"
  using assms filter_key_unique [of "elems_p b" i]
  by (auto simp: subscribers_def find_element_Some)

lemma subscribers_find:
  assumes "bus_inv b" and "find_element b u = Some i"
  shows "subscribers b u = queues_pp (elems_p b ! i)" and "subscribers b u \<noteq> []"
  using assms subscribers_find_sorted [of b u i]
  by (auto simp: bus_inv_def find_element_Some)

section \<open>Subscribing\<close>

lemma subscribers_update:
  assumes "bus_sorted b" and "i < length (elems_p b)" and "elem_uid_p e = elem_uid_p (elems_p b ! i)"
  shows "subscribers (b\<lparr>elems_p := (elems_p b)[i := e]\<rparr>)
           = (subscribers b)(elem_uid_p e := queues_pp e)"
proof
  fix u
  let ?b = "b\<lparr>elems_p := (elems_p b)[i := e]\<rparr>"
  have keys: "map elem_uid_p (elems_p ?b) = map elem_uid_p (elems_p b)"
    using assms(2,3) by (simp add: map_update_same)
  then have s: "bus_sorted ?b" using assms(1) by simp
  show "subscribers ?b u = ((subscribers b)(elem_uid_p e := queues_pp e)) u"
  proof (cases "u = elem_uid_p e")
    case True
    have "find_element ?b u = Some i"
      unfolding find_element_Some [OF s] using assms(2,3) True by simp
    then show ?thesis using subscribers_find_sorted [OF s] assms(2) True by simp
  next
    case False
    have "filter (\<lambda>e. elem_uid_p e = u) ((elems_p b)[i := e])
        = filter (\<lambda>e. elem_uid_p e = u) (elems_p b)"
      using False assms(2,3) by (simp add: filter_update_other)
    then show ?thesis using False by (simp add: subscribers_def)
  qed
qed

lemma append_queue_effect:
  assumes "bus_sorted b" and "find_element b u = Some i"
    and "append_queue_to_element w b i q = Inr (b', w')"
    and "\<forall>e \<in> set (elems_p b). elem_uid_p e \<noteq> u \<longrightarrow> queues_pp e \<noteq> []"
  shows "bus_inv b' \<and> subscribers b' = (subscribers b)(u := subscribers b u @ [q])"
proof -
  let ?e = "elems_p b ! i"
  let ?e' = "?e\<lparr>queues_pp := queues_pp ?e @ [q]\<rparr>"
  have i: "i < length (elems_p b)" "elem_uid_p ?e = u"
    using assms(1,2) by (auto simp: find_element_Some)
  have b': "b' = b\<lparr>elems_p := (elems_p b)[i := ?e']\<rparr>"
    using assms(3) by (auto simp: append_queue_to_element_def andthen_eq_Inr Let_def)
  have sub: "subscribers b' = (subscribers b)(u := subscribers b u @ [q])"
    using subscribers_update [OF assms(1) i(1), of ?e'] i subscribers_find_sorted [OF assms(1,2)]
    by (simp add: b')
  have "map elem_uid_p (elems_p b') = map elem_uid_p (elems_p b)"
    using i by (simp add: b' map_update_same)
  moreover have "queues_pp e \<noteq> []" if "e \<in> set (elems_p b')" for e
  proof -
    have "e \<in> set ((elems_p b)[i := ?e'])" using that by (simp add: b')
    then obtain j where j: "j < length (elems_p b)" "e = (elems_p b)[i := ?e'] ! j"
      by (metis in_set_conv_nth length_list_update)
    show ?thesis
    proof (cases "j = i")
      case False
      have "find_element b (elem_uid_p (elems_p b ! j)) = Some j"
        using j(1) assms(1) by (simp add: find_element_Some)
      then have "elem_uid_p (elems_p b ! j) \<noteq> u" using assms(2) False by auto
      then show ?thesis using assms(4) j False by auto
    qed (use j i in simp)
  qed
  ultimately show ?thesis using assms(1) sub by (simp add: bus_inv_def)
qed

lemma insert_element_effect:
  assumes "bus_inv b" and "find_element b u = None" and "insert_element w b u = Inr (b', w')"
  shows "bus_sorted b'" and "u \<in> elem_uid_p ` set (elems_p b')"
    and "subscribers b' = subscribers b"
    and "\<forall>e \<in> set (elems_p b'). elem_uid_p e \<noteq> u \<longrightarrow> queues_pp e \<noteq> []"
proof -
  let ?new = "\<lparr>elem_uid_p = u, queues_pp = []\<rparr>"
  have b': "elems_p b' = qsort compare_qsort (elems_p b @ [?new])"
    using assms(3) by (auto simp: insert_element_def andthen_eq_Inr)
  have u: "u \<notin> elem_uid_p ` set (elems_p b)"
    using assms(1,2) by (simp add: find_element_absent bus_inv_def)
  have "distinct (map elem_uid_p (elems_p b))"
    using assms(1) by (simp add: bus_inv_def strict_sorted_iff)
  then show s: "bus_sorted b'"
    unfolding b' using u by (intro bus_table.strict_sorted_qsort) simp
  show "u \<in> elem_uid_p ` set (elems_p b')" by (simp add: b')
  show "\<forall>e \<in> set (elems_p b'). elem_uid_p e \<noteq> u \<longrightarrow> queues_pp e \<noteq> []"
    using assms(1) by (auto simp: b' bus_inv_def)
  show "subscribers b' = subscribers b"
  proof
    fix v
    have m: "mset (filter (\<lambda>e. elem_uid_p e = v) (elems_p b'))
        = mset (filter (\<lambda>e. elem_uid_p e = v) (elems_p b @ [?new]))"
      by (simp add: b')
    show "subscribers b' v = subscribers b v"
    proof (cases "find_element b' v")
      case None
      then have "v \<notin> elem_uid_p ` set (elems_p b')" using s by (simp add: find_element_absent)
      then have "filter (\<lambda>e. elem_uid_p e = v) (elems_p b') = []"
        "filter (\<lambda>e. elem_uid_p e = v) (elems_p b) = []"
        by (auto simp: filter_empty_conv b')
      then show ?thesis by (simp add: subscribers_def)
    next
      case (Some i)
      then have "filter (\<lambda>e. elem_uid_p e = v) (elems_p b') = [elems_p b' ! i]"
        using s filter_key_unique [of "elems_p b'" i] by (auto simp: find_element_Some)
      then have "filter (\<lambda>e. elem_uid_p e = v) (elems_p b @ [?new]) = [elems_p b' ! i]"
        unfolding mset_single_iff [symmetric] m [symmetric] by simp
      then show ?thesis
        using subscribers_find_sorted [OF s Some]
        by (auto simp: subscribers_def filter_empty_conv split: if_splits)
          (metis ml_bus_elem_t.select_convs(2))
    qed
  qed
qed

lemma subscribe_effect:
  assumes "bus_inv b" and "ml_bus_subscribe w b q u = Inr (b', w')"
  shows "bus_inv b' \<and> subscribers b' = (subscribers b)(u := subscribers b u @ [q])"
proof (cases "find_element b u")
  case None
  then obtain b1 w1 i where 1: "insert_element w b u = Inr (b1, w1)"
    "find_element b1 u = Some i" "append_queue_to_element w1 b1 i q = Inr (b', w')"
    using assms(2) by (auto simp: ml_bus_subscribe_def andthen_eq_Inr split: option.splits)
  note e = insert_element_effect [OF assms(1) None 1(1)]
  show ?thesis using append_queue_effect [OF e(1) 1(2,3) e(4)] e(3) by simp
next
  case (Some i)
  then show ?thesis
    using assms append_queue_effect [of b u i w q b' w']
    by (auto simp: ml_bus_subscribe_def bus_inv_def)
qed

lemma subscribe_returns:
  assumes "bus_inv b" and "\<And>a. malloc_ok w a"
  shows "\<exists>r. ml_bus_subscribe w b q u = Inr r"
proof (cases "find_element b u")
  case None
  obtain b1 w1 where 1: "insert_element w b u = Inr (b1, w1)" "malloc_ok w1 = malloc_ok w"
    using assms(2) by (auto simp: insert_element_def xrealloc_def xmalloc_def)
  obtain i where "find_element b1 u = Some i"
    using insert_element_effect(1,2) [OF assms(1) None 1(1)] find_element_absent
    by (metis not_Some_eq)
  then show ?thesis using None 1 assms(2)
    by (simp add: ml_bus_subscribe_def append_queue_to_element_def xrealloc_def xmalloc_def Let_def)
next
  case (Some i)
  then show ?thesis using assms(2)
    by (simp add: ml_bus_subscribe_def append_queue_to_element_def xrealloc_def xmalloc_def Let_def)
qed

section \<open>Broadcasting\<close>

definition queues_inv :: "world \<Rightarrow> bool" where
  "queues_inv w \<longleftrightarrow> (\<forall>q. queue_inv (queues w q))"

lemma put_other: "ml_queue_put w q m = Inr w' \<Longrightarrow> q' \<noteq> q \<Longrightarrow> queues w' q' = queues w q'"
  by (simp add: put_frame(5))

lemma queues_inv_put: "queues_inv w \<Longrightarrow> ml_queue_put w q m = Inr w' \<Longrightarrow> queues_inv w'"
  unfolding queues_inv_def by (metis put_contents(2) put_other)

lemma put_all_effect:
  assumes "queues_inv w" and "put_all w qs m = Inr w'"
  shows "queues_inv w' \<and> heap w' = heap w \<and> free_calls w' = free_calls w
    \<and> contents (queues w' q) = contents (queues w q) @ replicate (count_list qs q) m"
  using assms
proof (induction qs arbitrary: w)
  case (Cons p qs)
  then obtain w1 where w1: "ml_queue_put w p m = Inr w1" "put_all w1 qs m = Inr w'"
    by (auto simp: andthen_eq_Inr)
  have "queue_inv (queues w p)" using Cons.prems(1) by (simp add: queues_inv_def)
  note p = put_contents(1) [OF this w1(1)]
  note f = put_frame [OF w1(1)]
  show ?case
    using Cons.IH [OF queues_inv_put [OF Cons.prems(1) w1(1)] w1(2)] p f(1,4)
      put_other [OF w1(1), of q]
    by (cases "q = p") (auto simp: replicate_append_same)
qed simp

lemma put_all_returns:
  assumes "queues_inv w"
    and "\<And>q. q \<in> set qs \<Longrightarrow> length (contents (queues w q)) + count_list qs q < q_length (queues w q)"
  shows "\<exists>w'. put_all w qs m = Inr w'"
  using assms
proof (induction qs arbitrary: w)
  case (Cons p qs)
  have i: "queue_inv (queues w p)" using Cons.prems(1) by (simp add: queues_inv_def)
  have "\<not> is_full (queues w p)" using is_full_iff [OF i] Cons.prems(2) [of p] by auto
  then obtain w1 where w1: "ml_queue_put w p m = Inr w1" by (auto simp: put_Inr_iff)
  note p = put_contents(1,3) [OF i w1]
  have "length (contents (queues w1 q)) + count_list qs q < q_length (queues w1 q)"
    if "q \<in> set qs" for q
    using Cons.prems(2) [of q] that p put_other [OF w1, of q] by (cases "q = p") auto
  then obtain w' where "put_all w1 qs m = Inr w'"
    using Cons.IH [OF queues_inv_put [OF Cons.prems(1) w1]] by blast
  then show ?case using w1 by simp
qed simp

lemma broadcast_no_subscriber:
  "bus_inv b \<Longrightarrow> heap w m = Some h \<Longrightarrow> subscribers b (uid_p h) = [] \<Longrightarrow>
   ml_bus_broadcast w b m = ml_message_free w m"
  by (simp add: ml_bus_broadcast_def load_header_def find_element_None [symmetric])

lemma broadcast_subscribers:
  assumes "bus_inv b" and "heap w m = Some h" and "subscribers b (uid_p h) = qs" and "qs \<noteq> []"
  shows "ml_bus_broadcast w b m
    = put_all (store_header w m (h\<lparr>count := count h + (int (length qs) - 1)\<rparr>)) qs m"
proof -
  obtain i where i: "find_element b (uid_p h) = Some i"
    using assms find_element_None [of b "uid_p h"] by auto
  then have "queues_pp (elems_p b ! i) = qs" using subscribers_find assms by simp
  then show ?thesis using i assms(2)
    by (simp add: ml_bus_broadcast_def load_header_def ml_message_share_def)
qed

section \<open>Broadcasts interleaved with their subscribers\<close>

text \<open>
  A broadcast of a message \<open>m\<close> that has shared it and still has the queues \<open>pending\<close> to put it
  on, while consumers get messages from the queues in \<open>Q\<close> (\<open>held\<close> counts the references to
  \<open>m\<close> that were got and not yet freed) and the rest of the program works with other messages.
  Every step is one call of the library that returned.
\<close>

record bus_run =
  run_world :: world
  pending :: "addr list"
  held :: nat

inductive bus_step :: "addr set \<Rightarrow> addr \<Rightarrow> bus_run \<Rightarrow> bus_run \<Rightarrow> bool" for Q m where
  Deliver: "pending s = q # qs \<Longrightarrow> ml_queue_put (run_world s) q m = Inr w \<Longrightarrow>
    bus_step Q m s (s\<lparr>run_world := w, pending := qs\<rparr>)"
| Receive: "q \<in> Q \<Longrightarrow> ml_queue_get (run_world s) q = Inr (u, m, w) \<Longrightarrow>
    bus_step Q m s (s\<lparr>run_world := w, held := Suc (held s)\<rparr>)"
| Release: "held s = Suc n \<Longrightarrow> ml_message_free (run_world s) m = Inr w \<Longrightarrow>
    bus_step Q m s (s\<lparr>run_world := w, held := n\<rparr>)"
| Other_put: "q \<in> Q \<Longrightarrow> m' \<noteq> m \<Longrightarrow> ml_queue_put (run_world s) q m' = Inr w \<Longrightarrow>
    bus_step Q m s (s\<lparr>run_world := w\<rparr>)"
| Other_get: "q \<in> Q \<Longrightarrow> m' \<noteq> m \<Longrightarrow> ml_queue_get (run_world s) q = Inr (u, m', w) \<Longrightarrow>
    bus_step Q m s (s\<lparr>run_world := w\<rparr>)"
| Other_alloc: "ml_message_alloc (run_world s) u d = Inr (m', w) \<Longrightarrow>
    bus_step Q m s (s\<lparr>run_world := w\<rparr>)"
| Other_share: "m' \<noteq> m \<Longrightarrow> ml_message_share (run_world s) m' n = Inr w \<Longrightarrow>
    bus_step Q m s (s\<lparr>run_world := w\<rparr>)"
| Other_free: "m' \<noteq> m \<Longrightarrow> ml_message_free (run_world s) m' = Inr w \<Longrightarrow>
    bus_step Q m s (s\<lparr>run_world := w\<rparr>)"

text \<open>The references to \<open>m\<close> that exist, and how often its on-free callback was called.\<close>

definition run_refs :: "addr set \<Rightarrow> addr \<Rightarrow> bus_run \<Rightarrow> nat" where
  "run_refs Q m s = queue_refs (run_world s) Q m + length (pending s) + held s"

definition free_count :: "world \<Rightarrow> addr \<Rightarrow> nat" where
  "free_count w m = length (filter (\<lambda>c. snd c = m) (free_calls w))"

definition msg_state :: "callback option \<Rightarrow> addr \<Rightarrow> nat \<Rightarrow> world \<Rightarrow> bool" where
  "msg_state f m r w \<longleftrightarrow> m < next_addr w
     \<and> (if r = 0 then heap w m = None \<and> free_count w m = (if f = None then 0 else 1)
        else (\<exists>h. heap w m = Some h \<and> count h = int r \<and> on_free h = f) \<and> free_count w m = 0)"

definition run_inv :: "addr set \<Rightarrow> addr \<Rightarrow> callback option \<Rightarrow> bus_run \<Rightarrow> bool" where
  "run_inv Q m f s \<longleftrightarrow> finite Q \<and> queues_inv (run_world s) \<and> set (pending s) \<subseteq> Q
     \<and> msg_state f m (run_refs Q m s) (run_world s)"

lemma queue_refs_update:
  assumes "finite Q" and "q \<in> Q" and "\<And>q'. q' \<noteq> q \<Longrightarrow> queues w' q' = queues w q'"
  shows "queue_refs w' Q m + count_list (contents (queues w q)) m
    = queue_refs w Q m + count_list (contents (queues w' q)) m"
proof -
  have "(\<Sum>p \<in> Q - {q}. count_list (contents (queues w' p)) m)
      = (\<Sum>p \<in> Q - {q}. count_list (contents (queues w p)) m)"
    using assms(3) by (intro sum.cong) auto
  then show ?thesis
    using sum.remove [OF assms(1,2), of "\<lambda>p. count_list (contents (queues w p)) m"]
      sum.remove [OF assms(1,2), of "\<lambda>p. count_list (contents (queues w' p)) m"]
    by (simp add: queue_refs_def)
qed

lemma queue_refs_put:
  assumes "queues_inv w" and "finite Q" and "q \<in> Q" and "ml_queue_put w q m' = Inr w'"
  shows "queue_refs w' Q m = queue_refs w Q m + (if m' = m then 1 else 0)"
  using queue_refs_update [OF assms(2,3) put_other [OF assms(4)], of m] assms(1)
    put_contents(1) [OF _ assms(4)]
  by (simp add: queues_inv_def split: if_splits)

lemma queue_refs_get:
  assumes "queues_inv w" and "finite Q" and "q \<in> Q" and "ml_queue_get w q = Inr (u, m', w')"
  shows "queue_refs w Q m = queue_refs w' Q m + (if m' = m then 1 else 0)"
proof -
  have "queues w' p = queues w p" if "p \<noteq> q" for p
    using get_frame(6) [OF assms(4)] that by simp
  then show ?thesis
    using queue_refs_update [OF assms(2,3), of w' w m] assms(1) get_contents(1) [OF _ assms(4)]
    by (simp add: queues_inv_def split: if_splits)
qed

lemma queues_inv_get: "queues_inv w \<Longrightarrow> ml_queue_get w q = Inr (u, m, w') \<Longrightarrow> queues_inv w'"
  using get_contents(2) [of w q u m w'] get_frame(6) [of w q u m w']
  by (auto simp: queues_inv_def)

lemma same_queues:
  "queues w' = queues w \<Longrightarrow> queue_refs w' Q m = queue_refs w Q m"
  "queues w' = queues w \<Longrightarrow> queues_inv w' = queues_inv w"
  by (simp_all add: queue_refs_def queues_inv_def)

lemma msg_state_put:
  "ml_queue_put w q m' = Inr w' \<Longrightarrow> msg_state f m r w' = msg_state f m r w"
  by (simp add: msg_state_def free_count_def put_frame)

lemma msg_state_get:
  "ml_queue_get w q = Inr (u, m', w') \<Longrightarrow> msg_state f m r w' = msg_state f m r w"
  by (simp add: msg_state_def free_count_def get_frame)

lemma msg_state_free:
  assumes "msg_state f m (Suc r) w"
  shows "\<exists>w'. ml_message_free w m = Inr w' \<and> msg_state f m r w' \<and> queues w' = queues w"
proof -
  obtain h where h: "heap w m = Some h" "count h = int (Suc r)" "on_free h = f"
    using assms by (auto simp: msg_state_def)
  then show ?thesis using assms free_live [OF h(1)]
    by (auto simp: msg_state_def free_count_def split: option.splits)
qed

lemma free_queues: "ml_message_free w m = Inr w' \<Longrightarrow> queues w' = queues w"
  by (cases "heap w m") (auto simp: free_live free_dead split: if_splits)

lemma msg_state_other_free:
  "m' \<noteq> m \<Longrightarrow> ml_message_free w m' = Inr w' \<Longrightarrow> msg_state f m r w' = msg_state f m r w"
  by (cases "heap w m'")
     (auto simp: free_live free_dead msg_state_def free_count_def split: if_splits option.splits)

lemma msg_state_alloc:
  "msg_state f m r w \<Longrightarrow> ml_message_alloc w u d = Inr (m', w') \<Longrightarrow>
   msg_state f m r w' \<and> queues w' = queues w"
  by (auto simp: alloc_Inr msg_state_def free_count_def split: if_splits)

lemma msg_state_share:
  "m' \<noteq> m \<Longrightarrow> ml_message_share w m' n = Inr w' \<Longrightarrow>
   msg_state f m r w' = msg_state f m r w \<and> queues w' = queues w"
  by (auto simp: share_Inr msg_state_def free_count_def)

lemma run_inv_same_queues:
  "run_inv Q m f s \<Longrightarrow> queues w = queues (run_world s) \<Longrightarrow>
   msg_state f m (run_refs Q m s) w \<Longrightarrow> run_inv Q m f (s\<lparr>run_world := w\<rparr>)"
  by (simp add: run_inv_def run_refs_def same_queues [of w "run_world s"])

lemma bus_step_run_inv:
  assumes "bus_step Q m s t" and "run_inv Q m f s"
  shows "run_inv Q m f t"
  using assms
proof (induction rule: bus_step.induct)
  case (Deliver s q qs w)
  then show ?case
    using queue_refs_put [of "run_world s" Q q m w m]
    by (auto simp: run_inv_def run_refs_def msg_state_put queues_inv_put)
next
  case (Receive q s u w)
  then show ?case
    using queue_refs_get [of "run_world s" Q q u m w m]
    by (auto simp: run_inv_def run_refs_def msg_state_get queues_inv_get)
next
  case (Release s n w)
  let ?r = "queue_refs (run_world s) Q m + length (pending s) + n"
  have "msg_state f m (Suc ?r) (run_world s)"
    using Release(1,3) by (simp add: run_inv_def run_refs_def)
  then have w: "msg_state f m ?r w" "queues w = queues (run_world s)"
    using msg_state_free [of f m ?r "run_world s"] Release(2) by auto
  then show ?case
    using Release(3) same_queues [OF w(2)] by (simp add: run_inv_def run_refs_def)
next
  case (Other_put q m' s w)
  then show ?case
    using queue_refs_put [of "run_world s" Q q m' w m]
    by (auto simp: run_inv_def run_refs_def msg_state_put queues_inv_put)
next
  case (Other_get q m' s u w)
  then show ?case
    using queue_refs_get [of "run_world s" Q q u m' w m]
    by (auto simp: run_inv_def run_refs_def msg_state_get queues_inv_get)
next
  case (Other_alloc s u d m' w)
  have "msg_state f m (run_refs Q m s) (run_world s)" using Other_alloc(2) by (simp add: run_inv_def)
  from msg_state_alloc [OF this Other_alloc(1)] show ?case
    using Other_alloc(2) by (simp add: run_inv_same_queues)
next
  case (Other_share m' s n w)
  have "msg_state f m (run_refs Q m s) (run_world s)" using Other_share(3) by (simp add: run_inv_def)
  then show ?case
    using msg_state_share [OF Other_share(1,2)] Other_share(3) by (simp add: run_inv_same_queues)
next
  case (Other_free m' s w)
  have "msg_state f m (run_refs Q m s) (run_world s)" using Other_free(3) by (simp add: run_inv_def)
  then show ?case
    using msg_state_other_free [OF Other_free(1,2)] free_queues [OF Other_free(2)] Other_free(3)
    by (simp add: run_inv_same_queues)
qed

lemma reachable_run_inv: "(bus_step Q m)\<^sup>*\<^sup>* s t \<Longrightarrow> run_inv Q m f s \<Longrightarrow> run_inv Q m f t"
  by (induction rule: rtranclp_induct) (auto intro: bus_step_run_inv)

section \<open>The properties\<close>

text \<open>
  C9: subscribing keeps the table sorted without empty elements, appends the queue to the
  subscribers of that identifier and leaves every other identifier's subscribers alone; and it
  returns whenever memory can be allocated (the element just inserted is always found).
\<close>

theorem bus_subscribe_refines:
  assumes "bus_inv b"
  shows "(\<forall>b' w'. ml_bus_subscribe w b q u = Inr (b', w') \<longrightarrow>
            bus_inv b' \<and> subscribers b' = (subscribers b)(u := subscribers b u @ [q]))
    \<and> ((\<forall>a. malloc_ok w a) \<longrightarrow> (\<exists>r. ml_bus_subscribe w b q u = Inr r))"
  using subscribe_effect [OF assms] subscribe_returns [OF assms] by blast

definition example_bus :: ml_bus_t where
  "example_bus = \<lparr>elems_p = [\<lparr>elem_uid_p = 5, queues_pp = [4]\<rparr>]\<rparr>"

theorem bus_subscribe_refines_witness:
  "\<exists>b' w'. ml_bus_subscribe example_world example_bus 2 3 = Inr (b', w')
     \<and> subscribers b' = (subscribers example_bus)(3 := [2])"
proof -
  have i: "bus_inv example_bus" by (simp add: example_bus_def bus_inv_def)
  have "subscribers example_bus 3 = []" by (simp add: example_bus_def subscribers_def)
  moreover obtain b' w' where "ml_bus_subscribe example_world example_bus 2 3 = Inr (b', w')"
    using bus_subscribe_refines [OF i, of example_world 2 3] by (auto simp: example_world_def)
  ultimately show ?thesis using bus_subscribe_refines [OF i, of example_world 2 3] by fastforce
qed

lemma broadcast_effect:
  assumes "bus_inv b" and "queues_inv w" and "heap w m = Some h" and "count h = 1"
    and "qs = subscribers b (uid_p h)"
    and "\<forall>q \<in> set qs. length (contents (queues w q)) + count_list qs q < q_length (queues w q)"
  shows "\<exists>w'. ml_bus_broadcast w b m = Inr w'
    \<and> (\<forall>q. contents (queues w' q) = contents (queues w q) @ replicate (count_list qs q) m)
    \<and> heap w' m = (if qs = [] then None else Some (h\<lparr>count := int (length qs)\<rparr>))
    \<and> (\<forall>m'. m' \<noteq> m \<longrightarrow> heap w' m' = heap w m')"
proof (cases "qs = []")
  case True
  then show ?thesis
    using assms free_live [OF assms(3)] by (auto simp: broadcast_no_subscriber)
next
  case False
  let ?w = "store_header w m (h\<lparr>count := int (length qs)\<rparr>)"
  have b: "ml_bus_broadcast w b m = put_all ?w qs m"
    using broadcast_subscribers [OF assms(1,3) assms(5) [symmetric] False] assms(4) by simp
  have i: "queues_inv ?w" using assms(2) by (simp add: queues_inv_def)
  obtain w' where w': "put_all ?w qs m = Inr w'"
    using put_all_returns [OF i] assms(6) by fastforce
  then show ?thesis using b False put_all_effect [OF i w'] by auto
qed

text \<open>
  C10: a broadcast of an unshared message to queues with room returns; every queue then has the
  message appended once per subscription, the message's count is the number of
  subscriptions, and a message nobody subscribes to has been freed.
\<close>

theorem bus_broadcast_delivers:
  assumes "bus_inv b" and "queues_inv w" and "heap w m = Some h" and "count h = 1"
    and "qs = subscribers b (uid_p h)"
    and "\<forall>q \<in> set qs. length (contents (queues w q)) + count_list qs q < q_length (queues w q)"
  shows "\<exists>w'. ml_bus_broadcast w b m = Inr w'
    \<and> (\<forall>q. contents (queues w' q) = contents (queues w q) @ replicate (count_list qs q) m)
    \<and> heap w' m = (if qs = [] then None else Some (h\<lparr>count := int (length qs)\<rparr>))
    \<and> (\<forall>m'. m' \<noteq> m \<longrightarrow> heap w' m' = heap w m')"
  by (rule broadcast_effect [OF assms])

definition bus_world :: world where
  "bus_world = example_world\<lparr>heap := [7 \<mapsto> example_header], next_addr := 8,
     queues := (\<lambda>_. \<lparr>on_put = None, rdpos = 1, wrpos = 1, q_length = 2, messages_p = [0, 0]\<rparr>)\<rparr>"

lemma bus_world_facts:
  "bus_inv example_bus" "queues_inv bus_world" "heap bus_world 7 = Some example_header"
  "count example_header = 1" "subscribers example_bus (uid_p example_header) = [4]"
  "contents (queues bus_world q) = []" "q_length (queues bus_world q) = 2"
  by (simp_all add: bus_inv_def example_bus_def queues_inv_def queue_inv_def bus_world_def
      example_header_def subscribers_def contents_def fill_level_def)

theorem bus_broadcast_delivers_witness:
  "\<exists>w'. ml_bus_broadcast bus_world example_bus 7 = Inr w'
     \<and> contents (queues w' 4) = [7] \<and> contents (queues w' 2) = []"
proof -
  obtain w' where "ml_bus_broadcast bus_world example_bus 7 = Inr w'"
    and "\<forall>q. contents (queues w' q) = contents (queues bus_world q) @ replicate (count_list [4] q) 7"
    using bus_broadcast_delivers [OF bus_world_facts(1-4) refl] bus_world_facts(5-7) by auto
  then show ?thesis using bus_world_facts(6) by simp
qed



end
