(* ===== verification/Ml_Worker_Pool.thy ===== *)
theory Ml_Worker_Pool
  imports Ml_Stdlib Ml_Queue
begin

text \<open>
  The worker pool of \<open>src/src/ml_worker_pool.c\<close>: jobs are messages on one queue, and every
  worker thread repeats get, call the entry, free. A schedule interleaves spawns with the single
  library calls of the workers; the theorem says that no schedule loses or repeats a job, touches
  a freed message or leaks one.
\<close>

section \<open>The operations\<close>

definition worker_pool_job_mid :: uid where
  "worker_pool_job_mid = 0"

definition ml_worker_pool_spawn :: "world \<Rightarrow> addr \<Rightarrow> callback \<Rightarrow> addr \<Rightarrow> world res" where
  "ml_worker_pool_spawn w jobs entry arg =
     andthen (ml_message_alloc w worker_pool_job_mid (JobData entry arg)) (\<lambda>(m, w).
       ml_queue_put w jobs m)"

text \<open>
  Where a worker is in its loop: about to get a job, about to call the entry of the job it got,
  or about to free its message.
\<close>

datatype worker = Getting | Calling addr | Freeing addr

type_synonym job = "callback \<times> addr"

text \<open>One call of the loop of \<open>worker_pool_main\<close>, with the job whose entry it called.\<close>

fun worker_pool_main :: "world \<Rightarrow> addr \<Rightarrow> worker \<Rightarrow> (world \<times> worker \<times> job list) res" where
  "worker_pool_main w jobs Getting =
     andthen (ml_queue_get w jobs) (\<lambda>(_, m, w). Inr (w, Calling m, []))"
| "worker_pool_main w jobs (Calling m) =
     andthen (load_header w m) (\<lambda>h. Inr (w, Freeing m, [(job_entry (data h), job_arg (data h))]))"
| "worker_pool_main w jobs (Freeing m) =
     andthen (ml_message_free w m) (\<lambda>w. Inr (w, Getting, []))"

record ml_worker_pool_t =
  pool_world :: world
  jobs_p :: addr
  workers :: "worker list"

definition ml_worker_pool_init :: "world \<Rightarrow> addr \<Rightarrow> nat \<Rightarrow> nat \<Rightarrow> ml_worker_pool_t res" where
  "ml_worker_pool_init w jobs number_of_workers job_queue_length =
     andthen (ml_queue_init w jobs job_queue_length) (\<lambda>w.
       Inr \<lparr>pool_world = w, jobs_p = jobs, workers = replicate number_of_workers Getting\<rparr>)"

section \<open>Schedules\<close>

text \<open>
  A schedule says which thread makes its next call: a client that spawns a job, or worker \<open>i\<close>. A
  call that waits leaves everything as it is. The trace records the jobs spawned and the jobs
  whose entry was called, in order.
\<close>

datatype pool_op = Spawn callback addr | Run nat

type_synonym pool_trace = "ml_worker_pool_t \<times> job list \<times> job list"

fun pool_call :: "pool_op \<Rightarrow> pool_trace \<Rightarrow> pool_trace res" where
  "pool_call (Spawn e a) (p, sp, ex) =
     (case ml_worker_pool_spawn (pool_world p) (jobs_p p) e a of
        Inr w \<Rightarrow> Inr (p\<lparr>pool_world := w\<rparr>, sp @ [(e, a)], ex)
      | Inl Blocked \<Rightarrow> Inr (p, sp, ex)
      | Inl err \<Rightarrow> Inl err)"
| "pool_call (Run i) (p, sp, ex) =
     (if i < length (workers p)
      then case worker_pool_main (pool_world p) (jobs_p p) (workers p ! i) of
             Inr (w, k, js) \<Rightarrow>
               Inr (p\<lparr>pool_world := w, workers := (workers p)[i := k]\<rparr>, sp, ex @ js)
           | Inl Blocked \<Rightarrow> Inr (p, sp, ex)
           | Inl err \<Rightarrow> Inl err
      else Inr (p, sp, ex))"

fun pool_run :: "pool_op list \<Rightarrow> pool_trace \<Rightarrow> pool_trace res" where
  "pool_run [] t = Inr t"
| "pool_run (op # ops) t = andthen (pool_call op t) (pool_run ops)"

section \<open>The invariant\<close>

definition job_of :: "world \<Rightarrow> addr \<Rightarrow> job" where
  "job_of w m = (let d = data (the (heap w m)) in (job_entry d, job_arg d))"

fun calling :: "worker \<Rightarrow> addr list" where
  "calling (Calling m) = [m]"
| "calling _ = []"

fun holding :: "worker \<Rightarrow> addr list" where
  "holding Getting = []"
| "holding (Calling m) = [m]"
| "holding (Freeing m) = [m]"

definition pool_messages :: "ml_worker_pool_t \<Rightarrow> addr multiset" where
  "pool_messages p = mset (contents (queues (pool_world p) (jobs_p p)))
     + (\<Sum>k \<in># mset (workers p). mset (holding k))"

text \<open>
  The messages of the pool are distinct, live, private and hold the jobs not yet called; every
  other cell of the heap is as it was when the pool was initialised.
\<close>

definition pool_heap :: "world \<Rightarrow> addr multiset \<Rightarrow> world \<Rightarrow> bool" where
  "pool_heap w0 M w \<longleftrightarrow> heap_inv w
     \<and> (\<forall>m. Multiset.count M m \<le> 1)
     \<and> (\<forall>m. if m \<in># M then \<exists>h. heap w m = Some h \<and> count h = 1 \<and> on_free h = None
            else heap w m = heap w0 m)
     \<and> (\<forall>m \<in># M. heap w0 m = None) \<and> next_addr w0 \<le> next_addr w"

definition pool_jobs :: "ml_worker_pool_t \<Rightarrow> job multiset" where
  "pool_jobs p = image_mset (job_of (pool_world p))
     (mset (contents (queues (pool_world p) (jobs_p p)))
       + (\<Sum>k \<in># mset (workers p). mset (calling k)))"

definition pool_inv :: "world \<Rightarrow> pool_trace \<Rightarrow> bool" where
  "pool_inv w0 t \<longleftrightarrow> (case t of (p, sp, ex) \<Rightarrow>
     queue_inv (queues (pool_world p) (jobs_p p))
     \<and> pool_heap w0 (pool_messages p) (pool_world p)
     \<and> malloc_ok (pool_world p) = malloc_ok w0
     \<and> mset sp = mset ex + pool_jobs p)"

section \<open>Heap steps\<close>

lemma workers_update:
  assumes "i < length ks"
  shows "(\<Sum>k \<in># mset (ks[i := k']). f k) + f (ks ! i) = (\<Sum>k \<in># mset ks. f k) + (f k' :: 'a multiset)"
proof -
  have "(\<Sum>k \<in># mset ks. f k) = f (ks ! i) + (\<Sum>k \<in># mset ks - {#ks ! i#}. f k)"
    using assms by (metis insert_DiffM image_mset_add_mset nth_mem_mset sum_mset.insert)
  then show ?thesis using assms by (simp add: mset_update)
qed

lemma pool_heap_frame:
  "heap w' = heap w \<Longrightarrow> next_addr w' = next_addr w \<Longrightarrow> pool_heap w0 M w' = pool_heap w0 M w"
  by (simp add: pool_heap_def heap_inv_def)

lemma job_of_frame: "heap w' = heap w \<Longrightarrow> job_of w' = job_of w"
  by (simp add: job_of_def fun_eq_iff)

lemma pool_heap_live:
  "pool_heap w0 M w \<Longrightarrow> m \<in># M \<Longrightarrow> \<exists>h. heap w m = Some h \<and> count h = 1 \<and> on_free h = None"
  by (auto simp: pool_heap_def)

lemma pool_heap_alloc:
  assumes "pool_heap w0 M w" and "ml_message_alloc w u (JobData e a) = Inr (m, w')"
  shows "pool_heap w0 (add_mset m M) w'" and "m \<notin># M" and "job_of w' m = (e, a)"
    and "m' \<noteq> m \<Longrightarrow> job_of w' m' = job_of w m'" and "queues w' = queues w"
    and "malloc_ok w' = malloc_ok w"
proof -
  have inv: "heap_inv w" using assms(1) by (simp add: pool_heap_def)
  have m: "m = next_addr w" "w' = store_header (w\<lparr>next_addr := Suc m\<rparr>) m
      \<lparr>uid_p = u, count = 1, on_free = None, data = JobData e a\<rparr>"
    using assms(2) by (auto simp: alloc_Inr)
  have n: "heap w m = None" using heap_inv_fresh [OF inv] m(1) by simp
  then show nM: "m \<notin># M" using pool_heap_live [OF assms(1), of m] by auto
  then have "Multiset.count M m = 0" by (simp add: not_in_iff)
  moreover have "heap w0 m = None" using assms(1) n nM by (auto simp: pool_heap_def split: if_splits)
  ultimately show "pool_heap w0 (add_mset m M) w'"
    using assms(1) heap_inv_alloc [OF inv assms(2)] m by (auto simp: pool_heap_def)
  show "job_of w' m = (e, a)" "m' \<noteq> m \<Longrightarrow> job_of w' m' = job_of w m'"
    "queues w' = queues w" "malloc_ok w' = malloc_ok w"
    by (simp_all add: m(2) job_of_def)
qed

lemma pool_heap_free:
  assumes "pool_heap w0 (add_mset m M) w"
  shows "\<exists>w'. ml_message_free w m = Inr w' \<and> pool_heap w0 M w' \<and> m \<notin># M
    \<and> (\<forall>m'. m' \<noteq> m \<longrightarrow> job_of w' m' = job_of w m') \<and> queues w' = queues w
    \<and> malloc_ok w' = malloc_ok w"
proof -
  obtain h where h: "heap w m = Some h" "count h = 1" "on_free h = None"
    using pool_heap_live [OF assms] by auto
  let ?w = "free_cell (call_on_free w None m) m"
  have f: "ml_message_free w m = Inr ?w" using free_live [OF h(1)] h by simp
  have "\<forall>m'. Multiset.count (add_mset m M) m' \<le> 1" using assms by (simp add: pool_heap_def)
  then have c: "m \<notin># M" "\<forall>m'. Multiset.count M m' \<le> 1"
    by (metis Suc_le_mono One_nat_def count_add_mset le_zero_eq not_in_iff,
        metis Suc_leD count_add_mset)
  moreover have "heap w0 m = None" using assms by (simp add: pool_heap_def)
  moreover have "heap_inv ?w" using assms heap_inv_free [OF _ f] by (simp add: pool_heap_def)
  ultimately have "pool_heap w0 M ?w" using assms by (auto simp: pool_heap_def)
  moreover have "malloc_ok ?w = malloc_ok w" by (simp add: free_cell_def call_on_free_def)
  ultimately show ?thesis using f c(1) by (auto simp: job_of_def)
qed

section \<open>Every call keeps the invariant\<close>

lemma pool_messages_member:
  assumes "m \<in> set (contents (queues (pool_world p) (jobs_p p)))
    \<or> (\<exists>k \<in> set (workers p). m \<in> set (calling k))"
  shows "m \<in># pool_messages p"
proof -
  have "set (calling k) \<subseteq> set (holding k)" for k by (cases k) auto
  then show ?thesis using assms by (auto simp: pool_messages_def)
qed

lemma pool_jobs_cong:
  assumes "\<And>m. m \<in># pool_messages p \<Longrightarrow> job_of (pool_world p) m = g m"
  shows "pool_jobs p = image_mset g (mset (contents (queues (pool_world p) (jobs_p p)))
      + (\<Sum>k \<in># mset (workers p). mset (calling k)))"
  unfolding pool_jobs_def using assms pool_messages_member [of _ p]
  by (intro image_mset_cong) fastforce

lemma pool_call_spawn:
  assumes "pool_inv w0 (p, sp, ex)" and "\<And>a. malloc_ok w0 a"
  shows "\<exists>t. pool_call (Spawn e a) (p, sp, ex) = Inr t \<and> pool_inv w0 t"
proof -
  let ?w = "pool_world p" and ?q = "jobs_p p"
  obtain m w1 where al: "ml_message_alloc ?w worker_pool_job_mid (JobData e a) = Inr (m, w1)"
    using assms by (fastforce simp: alloc_Inr pool_inv_def)
  have hp: "pool_heap w0 (pool_messages p) ?w" and qi: "queue_inv (queues ?w ?q)"
    using assms(1) by (auto simp: pool_inv_def)
  note al' = pool_heap_alloc [OF hp al]
  show ?thesis
  proof (cases "ml_queue_put w1 ?q m")
    case (Inl err)
    then have "err = Blocked" by (simp add: put_Inl_iff)
    then have "pool_call (Spawn e a) (p, sp, ex) = Inr (p, sp, ex)"
      using al Inl by (simp add: ml_worker_pool_spawn_def)
    then show ?thesis using assms(1) by blast
  next
    case (Inr w2)
    let ?p = "p\<lparr>pool_world := w2\<rparr>"
    have qi1: "queue_inv (queues w1 ?q)" using qi al'(5) by simp
    note c = put_contents [OF qi1 Inr] and f = put_frame [OF Inr]
    have c1: "contents (queues w2 ?q) = contents (queues ?w ?q) @ [m]" using c al'(5) by simp
    have M: "pool_messages ?p = add_mset m (pool_messages p)"
      by (simp add: pool_messages_def c1)
    have hp2: "pool_heap w0 (add_mset m (pool_messages p)) w2"
      using al'(1) pool_heap_frame [OF f(1,2)] by simp
    have "pool_jobs p = image_mset (job_of w2) (mset (contents (queues ?w ?q))
        + (\<Sum>k \<in># mset (workers p). mset (calling k)))"
      using al'(2,4) job_of_frame [OF f(1)] by (intro pool_jobs_cong) metis
    then have "pool_jobs ?p = add_mset (e, a) (pool_jobs p)"
      using al'(3) job_of_frame [OF f(1)] by (simp add: pool_jobs_def c1)
    then have "pool_inv w0 (?p, sp @ [(e, a)], ex)"
      using assms(1) hp2 M c(2) f(3) al'(6) by (simp add: pool_inv_def)
    moreover have "pool_call (Spawn e a) (p, sp, ex) = Inr (?p, sp @ [(e, a)], ex)"
      using al Inr by (simp add: ml_worker_pool_spawn_def)
    ultimately show ?thesis by blast
  qed
qed

text \<open>What one worker's step does to the messages and jobs of the pool.\<close>

definition set_worker :: "ml_worker_pool_t \<Rightarrow> world \<Rightarrow> nat \<Rightarrow> worker \<Rightarrow> ml_worker_pool_t" where
  "set_worker p w i k = p\<lparr>pool_world := w, workers := (workers p)[i := k]\<rparr>"

lemma set_worker_simps [simp]:
  "pool_world (set_worker p w i k) = w" "jobs_p (set_worker p w i k) = jobs_p p"
  "workers (set_worker p w i k) = (workers p)[i := k]"
  by (simp_all add: set_worker_def)

lemma set_worker_messages:
  assumes "i < length (workers p)"
  shows "pool_messages (set_worker p w i k) + mset (contents (queues (pool_world p) (jobs_p p)))
      + mset (holding (workers p ! i))
    = pool_messages p + mset (contents (queues w (jobs_p p))) + mset (holding k)"
  using workers_update [OF assms, of "\<lambda>k. mset (holding k)" k]
  by (simp add: pool_messages_def set_worker_def union_ac)

lemma set_worker_jobs:
  assumes "i < length (workers p)"
    and "\<And>m. m \<in># pool_messages (set_worker p w i k) \<Longrightarrow> job_of w m = job_of (pool_world p) m"
  shows "pool_jobs (set_worker p w i k)
      + image_mset (job_of (pool_world p)) (mset (contents (queues (pool_world p) (jobs_p p)))
          + mset (calling (workers p ! i)))
    = pool_jobs p
      + image_mset (job_of (pool_world p)) (mset (contents (queues w (jobs_p p))) + mset (calling k))"
proof -
  let ?p = "set_worker p w i k"
  have "pool_jobs ?p = image_mset (job_of (pool_world p))
      (mset (contents (queues w (jobs_p p))) + (\<Sum>k \<in># mset (workers ?p). mset (calling k)))"
    using pool_jobs_cong [of ?p "job_of (pool_world p)"] assms(2) by simp
  moreover have "image_mset f (\<Sum>k \<in># mset ((workers p)[i := k]). mset (calling k))
        + image_mset f (mset (calling (workers p ! i)))
      = image_mset f (\<Sum>k \<in># mset (workers p). mset (calling k)) + image_mset f (mset (calling k))"
    for f :: "addr \<Rightarrow> job"
    using workers_update [OF assms(1), of "\<lambda>k. mset (calling k)" k] by (metis image_mset_union)
  ultimately show ?thesis by (simp add: pool_jobs_def set_worker_def union_ac)
qed

lemma pool_call_run:
  assumes "i < length (workers p)"
    and "worker_pool_main (pool_world p) (jobs_p p) (workers p ! i) = Inr (w, k, js)"
  shows "pool_call (Run i) (p, sp, ex) = Inr (set_worker p w i k, sp, ex @ js)"
  using assms by (simp add: set_worker_def)

lemma run_getting:
  assumes "pool_inv w0 (p, sp, ex)" and "i < length (workers p)" and "workers p ! i = Getting"
  shows "\<exists>t. pool_call (Run i) (p, sp, ex) = Inr t \<and> pool_inv w0 t"
proof (cases "is_empty (queues (pool_world p) (jobs_p p))")
  case True
  then have "ml_queue_get (pool_world p) (jobs_p p) = Inl Blocked" by (simp add: get_Inl_iff)
  then show ?thesis using assms by simp
next
  case False
  let ?w = "pool_world p" and ?q = "jobs_p p"
  have hp: "pool_heap w0 (pool_messages p) ?w" and qi: "queue_inv (queues ?w ?q)"
    using assms(1) by (auto simp: pool_inv_def)
  let ?m = "fst (pop_message (queues ?w ?q))"
  have "?m \<in> set (contents (queues ?w ?q))"
    using contents_pop [OF qi False surjective_pairing] by simp
  then have "?m \<in># pool_messages p" by (simp add: pool_messages_def)
  then obtain h where "heap ?w ?m = Some h" using pool_heap_live [OF hp] by blast
  then obtain u w where g: "ml_queue_get ?w ?q = Inr (u, ?m, w)" using False by (auto simp: get_Inr_iff)
  note c = get_contents [OF qi g] and f = get_frame [OF g]
  let ?p = "set_worker p w i (Calling ?m)"
  have M: "pool_messages ?p = pool_messages p"
    using set_worker_messages [OF assms(2), of w "Calling ?m"] c(1) assms(3) by simp
  have "pool_jobs ?p = pool_jobs p"
    using set_worker_jobs [OF assms(2), of w "Calling ?m"] job_of_frame [OF f(1)] c(1) assms(3)
    by simp
  moreover have "pool_heap w0 (pool_messages ?p) w" using hp M pool_heap_frame [OF f(1,2)] by simp
  ultimately have "pool_inv w0 (?p, sp, ex @ [])"
    using assms(1) c(2) f(3) by (simp add: pool_inv_def)
  moreover have "pool_call (Run i) (p, sp, ex) = Inr (?p, sp, ex @ [])"
    using g assms(2,3) by (intro pool_call_run) simp_all
  ultimately show ?thesis by blast
qed

lemma run_calling:
  assumes "pool_inv w0 (p, sp, ex)" and "i < length (workers p)" and "workers p ! i = Calling m"
  shows "\<exists>t. pool_call (Run i) (p, sp, ex) = Inr t \<and> pool_inv w0 t"
proof -
  let ?w = "pool_world p"
  have hp: "pool_heap w0 (pool_messages p) ?w" using assms(1) by (auto simp: pool_inv_def)
  have "m \<in># pool_messages p"
    using pool_messages_member [of m p] assms(2,3) by (metis calling.simps(1) list.set_intros(1) nth_mem)
  then obtain h where h: "heap ?w m = Some h" using pool_heap_live [OF hp] by blast
  let ?p = "set_worker p ?w i (Freeing m)"
  have M: "pool_messages ?p = pool_messages p"
    using set_worker_messages [OF assms(2), of ?w "Freeing m"] assms(3) by simp
  have J: "add_mset (job_of ?w m) (pool_jobs ?p) = pool_jobs p"
    using set_worker_jobs [OF assms(2), of ?w "Freeing m"] assms(3) by simp
  have "pool_inv w0 (?p, sp, ex @ [job_of ?w m])"
    using assms(1) M J [symmetric] by (simp add: pool_inv_def)
  moreover have "pool_call (Run i) (p, sp, ex) = Inr (?p, sp, ex @ [job_of ?w m])"
    using h assms(2,3) by (intro pool_call_run) (simp_all add: load_header_def job_of_def Let_def)
  ultimately show ?thesis by blast
qed

lemma run_freeing:
  assumes "pool_inv w0 (p, sp, ex)" and "i < length (workers p)" and "workers p ! i = Freeing m"
  shows "\<exists>t. pool_call (Run i) (p, sp, ex) = Inr t \<and> pool_inv w0 t"
proof -
  let ?w = "pool_world p"
  have hp: "pool_heap w0 (pool_messages p) ?w" using assms(1) by (auto simp: pool_inv_def)
  let ?M = "\<lambda>w. pool_messages (set_worker p w i Getting)"
  have M: "pool_messages p = add_mset m (?M ?w)"
    using set_worker_messages [OF assms(2), of ?w Getting] assms(3) by simp
  have M': "?M w = ?M ?w" if "queues w = queues ?w" for w
    using that by (simp add: pool_messages_def)
  obtain w where w: "ml_message_free ?w m = Inr w" "queues w = queues ?w" "malloc_ok w = malloc_ok ?w"
    "pool_heap w0 (?M w) w" "\<And>m'. m' \<in># ?M w \<Longrightarrow> job_of w m' = job_of ?w m'"
    using pool_heap_free [of w0 m "?M ?w" ?w] hp [unfolded M] M' by metis
  let ?p = "set_worker p w i Getting"
  have "pool_jobs ?p = pool_jobs p"
    using set_worker_jobs [OF assms(2) w(5)] assms(3) w(2) by simp
  then have "pool_inv w0 (?p, sp, ex @ [])"
    using assms(1) w by (simp add: pool_inv_def)
  moreover have "pool_call (Run i) (p, sp, ex) = Inr (?p, sp, ex @ [])"
    using w(1) assms(2,3) by (intro pool_call_run) simp_all
  ultimately show ?thesis by blast
qed

lemma pool_run_inv:
  assumes "pool_inv w0 t" and "\<And>a. malloc_ok w0 a"
  shows "\<exists>t'. pool_run ops t = Inr t' \<and> pool_inv w0 t'"
  using assms(1)
proof (induction ops arbitrary: t)
  case (Cons op ops)
  obtain p sp ex where t: "t = (p, sp, ex)" by (cases t)
  have "\<exists>t1. pool_call op t = Inr t1 \<and> pool_inv w0 t1"
  proof (cases op)
    case (Run i)
    show ?thesis
    proof (cases "i < length (workers p)")
      case True
      then show ?thesis
        using Cons.prems run_getting run_calling run_freeing Run t by (cases "workers p ! i") blast+
    qed (use Cons.prems Run t in simp)
  qed (use Cons.prems assms(2) pool_call_spawn t in blast)
  then show ?case using Cons.IH by fastforce
qed simp

section \<open>The property\<close>

text \<open>
  C6: after \<open>ml_worker_pool_init\<close>, with memory available, every schedule of spawns and worker
  calls runs without touching a freed message; at any time the jobs spawned are the jobs called
  plus the jobs still queued or taken, so when the queue is empty and all workers are back at
  \<open>ml_queue_get\<close> every spawned job was called exactly once and the heap is as before.
\<close>

theorem worker_pool_runs_every_job:
  assumes "ml_worker_pool_init w jobs n len = Inr p" and "heap_inv w" and "\<And>a. malloc_ok w a"
  shows "\<exists>p' sp ex. pool_run ops (p, [], []) = Inr (p', sp, ex)
    \<and> mset sp = mset ex + pool_jobs p'
    \<and> (contents (queues (pool_world p') (jobs_p p')) = [] \<and> set (workers p') \<subseteq> {Getting} \<longrightarrow>
         mset ex = mset sp \<and> heap (pool_world p') = heap w)"
proof -
  obtain w1 where w1: "ml_queue_init w jobs len = Inr w1"
    and p: "p = \<lparr>pool_world = w1, jobs_p = jobs, workers = replicate n Getting\<rparr>"
    using assms(1) by (auto simp: ml_worker_pool_init_def andthen_eq_Inr)
  note qi = queue_init_queue [OF w1]
  have f: "heap w1 = heap w" "malloc_ok w1 = malloc_ok w" "next_addr w1 = Suc (next_addr w)"
    using w1 by (auto simp: ml_queue_init_def xmalloc_def split: if_splits)
  have e: "pool_messages p = {#}" "pool_jobs p = {#}"
    using qi(2) by (simp_all add: p pool_messages_def pool_jobs_def sum_mset_constant)
  have "pool_heap w {#} w1" using assms(2) f by (auto simp: pool_heap_def heap_inv_def intro: less_SucI)
  then have "pool_inv w (p, [], [])" using qi(1) e f(2) by (simp add: pool_inv_def) (simp add: p)
  then obtain p' sp ex where r: "pool_run ops (p, [], []) = Inr (p', sp, ex)" "pool_inv w (p', sp, ex)"
    using pool_run_inv [OF _ assms(3)] by (metis prod_cases3)
  have "mset ex = mset sp \<and> heap (pool_world p') = heap w"
    if "contents (queues (pool_world p') (jobs_p p')) = []" "set (workers p') \<subseteq> {Getting}"
  proof -
    have "(\<Sum>k \<in># mset (workers p'). mset (holding k)) = {#}"
      "(\<Sum>k \<in># mset (workers p'). mset (calling k)) = {#}"
      using that(2) by (auto intro!: sum_mset.neutral)
    then have "pool_messages p' = {#}" "pool_jobs p' = {#}"
      using that(1) by (simp_all add: pool_messages_def pool_jobs_def)
    then show ?thesis using r(2) by (auto simp: pool_inv_def pool_heap_def)
  qed
  then show ?thesis using r by (auto simp: pool_inv_def)
qed

theorem worker_pool_runs_every_job_witness:
  "\<exists>p p' sp ex. ml_worker_pool_init example_world 3 2 1 = Inr p
     \<and> pool_run [Spawn 5 6, Run 1, Spawn 7 8, Run 0, Run 0, Run 1] (p, [], []) = Inr (p', sp, ex)
     \<and> mset sp = mset ex + pool_jobs p'"
proof -
  obtain p where p: "ml_worker_pool_init example_world 3 2 1 = Inr p"
    by (simp add: ml_worker_pool_init_def ml_queue_init_def xmalloc_def example_world_def)
  have "heap_inv example_world" "\<And>a. malloc_ok example_world a"
    by (simp_all add: heap_inv_def example_world_def)
  from worker_pool_runs_every_job [OF p this] show ?thesis using p by metis
qed

end
