(* ===== verification/Ml_Timer.thy ===== *)
theory Ml_Timer
  imports Ml_Queue
begin

text \<open>
  The timer handler of \<open>src/src/ml_timer.c\<close>. The active timers form a linked list in which
  every timer stores its expiry relative to its predecessor (\<open>delta\<close>), closed by a tail
  element whose delta is \<open>UINT_MAX\<close>. Here the timers are a store by address and the chain of
  \<open>next_p\<close> pointers from \<open>head_p\<close> to the tail is the list of addresses, the tail being its
  end. The abstraction is the absolute number of ticks until each timer expires; the theorems
  say what starting, stopping and a tick do to it, that a tick always ends, and which timeout
  messages a stop makes invalid. Arithmetic on ticks is 32-bit and wraps.
\<close>

section \<open>The state\<close>

record ml_timer_t =
  initial_ticks :: u32
  repeat_ticks :: u32
  delta :: u32
  timer_message :: uid
  timer_queue :: addr
  number_of_outstanding_timeouts :: int
  number_of_timeouts_to_ignore :: int

record ml_timer_handler_t =
  timers :: "addr \<Rightarrow> ml_timer_t"
  timer_list :: "addr list"

section \<open>The operations\<close>

definition DIV_CEIL :: "u32 \<Rightarrow> u32 \<Rightarrow> u32" where
  "DIV_CEIL a b = (a + b - 1) div b"

definition set_delta :: "(addr \<Rightarrow> ml_timer_t) \<Rightarrow> addr \<Rightarrow> u32 \<Rightarrow> addr \<Rightarrow> ml_timer_t" where
  "set_delta ts t d = ts(t := (ts t)\<lparr>delta := d\<rparr>)"

text \<open>
  The search stops at the tail at the latest, since no delta exceeds \<open>UINT_MAX\<close>, and the tail
  is not adjusted.
\<close>

fun timer_list_insert ::
  "(addr \<Rightarrow> ml_timer_t) \<Rightarrow> addr list \<Rightarrow> addr \<Rightarrow> (addr \<Rightarrow> ml_timer_t) \<times> addr list" where
  "timer_list_insert ts [] t = (ts, [t])"
| "timer_list_insert ts (e # es) t =
     (if delta (ts e) < delta (ts t)
      then let (ts', l) = timer_list_insert (set_delta ts t (delta (ts t) - delta (ts e))) es t
           in (ts', e # l)
      else (set_delta ts e (delta (ts e) - delta (ts t)), t # e # es))"

fun timer_list_remove ::
  "(addr \<Rightarrow> ml_timer_t) \<Rightarrow> addr list \<Rightarrow> addr \<Rightarrow> (addr \<Rightarrow> ml_timer_t) \<times> addr list" where
  "timer_list_remove ts [] t = (ts, [])"
| "timer_list_remove ts (e # es) t =
     (if e = t
      then case es of
             [] \<Rightarrow> (ts, [])
           | n # _ \<Rightarrow> (set_delta ts n (delta (ts n) + delta (ts e)), es)
      else let (ts', l) = timer_list_remove ts es t in (ts', e # l))"

definition insert_timer :: "ml_timer_handler_t \<Rightarrow> addr \<Rightarrow> ml_timer_handler_t" where
  "insert_timer h t =
     (let (ts, l) = timer_list_insert (timers h) (timer_list h) t in h\<lparr>timers := ts, timer_list := l\<rparr>)"

text \<open>The loop of \<open>tick\<close>: the head timer is popped, its message put, and a periodic timer set again.\<close>

definition post_timeout :: "world \<Rightarrow> ml_timer_t \<Rightarrow> world res" where
  "post_timeout w x =
     andthen (ml_message_alloc w (timer_message x) NoData) (\<lambda>(m, w). ml_queue_put w (timer_queue x) m)"

definition fire_head :: "ml_timer_handler_t \<Rightarrow> addr \<Rightarrow> addr list \<Rightarrow> ml_timer_handler_t" where
  "fire_head h t es =
     (let x = timers h t;
          x = x\<lparr>number_of_outstanding_timeouts := number_of_outstanding_timeouts x + 1\<rparr>
      in if 0 < repeat_ticks x
         then insert_timer
                (h\<lparr>timers := (timers h)(t := x\<lparr>delta := repeat_ticks x\<rparr>), timer_list := es\<rparr>) t
         else h\<lparr>timers := (timers h)(t := x), timer_list := es\<rparr>)"

partial_function (option) tick_loop ::
  "ml_timer_handler_t \<Rightarrow> world \<Rightarrow> (ml_timer_handler_t \<times> world) res option" where
  "tick_loop h w =
     (case timer_list h of
        [] \<Rightarrow> Some (Inr (h, w))
      | t # es \<Rightarrow>
          if delta (timers h t) = 0
          then (case post_timeout w (timers h t) of
                  Inl e \<Rightarrow> Some (Inl e)
                | Inr w \<Rightarrow> tick_loop (fire_head h t es) w)
          else Some (Inr (h, w)))"

definition tick ::
  "ml_timer_handler_t \<Rightarrow> world \<Rightarrow> (ml_timer_handler_t \<times> world) res option" where
  "tick h w =
     (case timer_list h of
        [] \<Rightarrow> Some (Inr (h, w))
      | t # _ \<Rightarrow> tick_loop (h\<lparr>timers := set_delta (timers h) t (delta (timers h t) - 1)\<rparr>) w)"

text \<open>
  \<open>handler_main\<close> ticks for every full read of the timer file descriptor; the reads are a list of
  the numbers of bytes read.
\<close>

fun handler_main :: "int list \<Rightarrow> ml_timer_handler_t \<Rightarrow> world
    \<Rightarrow> (ml_timer_handler_t \<times> world) res option" where
  "handler_main [] h w = Some (Inr (h, w))"
| "handler_main (r # rs) h w =
     (if r \<noteq> 8 then handler_main rs h w
      else case tick h w of
             None \<Rightarrow> None
           | Some (Inl e) \<Rightarrow> Some (Inl e)
           | Some (Inr (h, w)) \<Rightarrow> handler_main rs h w)"

definition ml_timer_handler_init :: "ml_timer_handler_t \<Rightarrow> ml_timer_handler_t" where
  "ml_timer_handler_init h = h\<lparr>timer_list := []\<rparr>"

definition ml_timer_handler_timer_init ::
  "ml_timer_handler_t \<Rightarrow> addr \<Rightarrow> uid \<Rightarrow> addr \<Rightarrow> ml_timer_handler_t" where
  "ml_timer_handler_timer_init h t u q =
     h\<lparr>timers := (timers h)(t := (timers h t)\<lparr>timer_message := u, timer_queue := q,
        number_of_outstanding_timeouts := 0, number_of_timeouts_to_ignore := 0\<rparr>)\<rparr>"

definition ml_timer_handler_timer_stop :: "ml_timer_handler_t \<Rightarrow> addr \<Rightarrow> ml_timer_handler_t" where
  "ml_timer_handler_timer_stop h t =
     (let x = timers h t;
          ts = (timers h)(t := x\<lparr>number_of_timeouts_to_ignore := number_of_outstanding_timeouts x\<rparr>);
          (ts, l) = timer_list_remove ts (timer_list h) t
      in h\<lparr>timers := ts, timer_list := l\<rparr>)"

definition ml_timer_handler_timer_start ::
  "ml_timer_handler_t \<Rightarrow> addr \<Rightarrow> u32 \<Rightarrow> u32 \<Rightarrow> ml_timer_handler_t" where
  "ml_timer_handler_timer_start h t initial repeat =
     (let h = ml_timer_handler_timer_stop h t;
          x = (timers h t)\<lparr>initial_ticks := DIV_CEIL initial 100, repeat_ticks := DIV_CEIL repeat 100\<rparr>;
          x = x\<lparr>delta := initial_ticks x\<rparr>;
          x = x\<lparr>delta := delta x + 1\<rparr>
      in insert_timer (h\<lparr>timers := (timers h)(t := x)\<rparr>) t)"

definition ml_timer_is_message_valid :: "ml_timer_handler_t \<Rightarrow> addr \<Rightarrow> bool \<times> ml_timer_handler_t" where
  "ml_timer_is_message_valid h t =
     (let x = timers h t;
          x = x\<lparr>number_of_outstanding_timeouts := number_of_outstanding_timeouts x - 1\<rparr>
      in if 0 < number_of_timeouts_to_ignore x
         then (False, h\<lparr>timers := (timers h)(t :=
                 x\<lparr>number_of_timeouts_to_ignore := number_of_timeouts_to_ignore x - 1\<rparr>)\<rparr>)
         else (True, h\<lparr>timers := (timers h)(t := x)\<rparr>))"

section \<open>The abstract timers\<close>

text \<open>The number of ticks until an active timer expires.\<close>

fun list_expiry :: "(addr \<Rightarrow> ml_timer_t) \<Rightarrow> addr list \<Rightarrow> addr \<Rightarrow> nat option" where
  "list_expiry ts [] t = None"
| "list_expiry ts (e # es) t =
     (if t = e then Some (unat (delta (ts e)))
      else map_option (\<lambda>n. unat (delta (ts e)) + n) (list_expiry ts es t))"

definition expiry :: "ml_timer_handler_t \<Rightarrow> addr \<Rightarrow> nat option" where
  "expiry h = list_expiry (timers h) (timer_list h)"

definition total :: "(addr \<Rightarrow> ml_timer_t) \<Rightarrow> addr list \<Rightarrow> nat" where
  "total ts l = sum_list (map (\<lambda>e. unat (delta (ts e))) l)"

text \<open>
  No timer is in the list twice, the last expiry fits 32 bits, and between ticks the first timer
  has not expired.
\<close>

definition list_inv :: "(addr \<Rightarrow> ml_timer_t) \<Rightarrow> addr list \<Rightarrow> bool" where
  "list_inv ts l \<longleftrightarrow> distinct l \<and> total ts l < 2 ^ 32"

definition timer_inv :: "ml_timer_handler_t \<Rightarrow> bool" where
  "timer_inv h \<longleftrightarrow> list_inv (timers h) (timer_list h)
     \<and> (\<forall>t es. timer_list h = t # es \<longrightarrow> 0 < delta (timers h t))"

text \<open>A timer without its place in the list.\<close>

definition settings :: "ml_timer_t \<Rightarrow> ml_timer_t" where
  "settings x = x\<lparr>delta := 0\<rparr>"

text \<open>The messages of the expired timers, put one after the other.\<close>

fun post_timeouts :: "world \<Rightarrow> ml_timer_t list \<Rightarrow> world res" where
  "post_timeouts w [] = Inr w"
| "post_timeouts w (x # xs) = andthen (post_timeout w x) (\<lambda>w. post_timeouts w xs)"

section \<open>The list operations\<close>

lemma set_delta_simps [simp]:
  "x \<noteq> t \<Longrightarrow> set_delta ts t d x = ts x"
  "delta (set_delta ts t d t) = d"
  "settings (set_delta ts t d x) = settings (ts x)"
  by (simp_all add: set_delta_def settings_def)

lemma settings_update [simp]:
  "settings (x\<lparr>initial_ticks := n'\<rparr>) = (settings x)\<lparr>initial_ticks := n'\<rparr>"
  "settings (x\<lparr>repeat_ticks := n'\<rparr>) = (settings x)\<lparr>repeat_ticks := n'\<rparr>"
  "settings (x\<lparr>number_of_outstanding_timeouts := n\<rparr>) = (settings x)\<lparr>number_of_outstanding_timeouts := n\<rparr>"
  "settings (x\<lparr>number_of_timeouts_to_ignore := n\<rparr>) = (settings x)\<lparr>number_of_timeouts_to_ignore := n\<rparr>"
  "settings (x\<lparr>delta := d\<rparr>) = settings x"
  by (simp_all add: settings_def)

lemma settings_select [simp]:
  "repeat_ticks (settings x) = repeat_ticks x"
  "timer_message (settings x) = timer_message x"
  "timer_queue (settings x) = timer_queue x"
  "number_of_outstanding_timeouts (settings x) = number_of_outstanding_timeouts x"
  "number_of_timeouts_to_ignore (settings x) = number_of_timeouts_to_ignore x"
  by (simp_all add: settings_def)

lemma list_expiry_None [simp]: "list_expiry ts l t = None \<longleftrightarrow> t \<notin> set l"
  by (induction l) auto

lemma list_expiry_cong:
  "(\<And>e. e \<in> set l \<Longrightarrow> delta (ts e) = delta (ts' e)) \<Longrightarrow> list_expiry ts l t = list_expiry ts' l t"
  by (induction l) auto

lemma total_simps [simp]:
  "total ts [] = 0" "total ts (e # es) = unat (delta (ts e)) + total ts es"
  by (simp_all add: total_def)

lemma total_cong:
  "(\<And>e. e \<in> set l \<Longrightarrow> delta (ts e) = delta (ts' e)) \<Longrightarrow> total ts l = total ts' l"
  by (induction l) auto

lemma insert_frame:
  assumes "timer_list_insert ts l t = (ts', l')"
  shows "settings (ts' x) = settings (ts x)" and "x \<notin> set l \<Longrightarrow> x \<noteq> t \<Longrightarrow> ts' x = ts x"
    and "set l' = insert t (set l)"
  using assms
proof (induction ts l t arbitrary: ts' l' rule: timer_list_insert.induct)
  case (2 ts e es t)
  note ih = "2.IH"
  { case 1 with ih show ?case by (cases "delta (ts e) < delta (ts t)") (auto split: prod.splits) }
  { case 2 with ih show ?case by (cases "delta (ts e) < delta (ts t)") (auto split: prod.splits) }
  { case 3 with ih show ?case by (cases "delta (ts e) < delta (ts t)") (auto split: prod.splits) }
qed auto

lemma insert_expiry:
  assumes "timer_list_insert ts l t = (ts', l')" and "distinct l" and "t \<notin> set l"
  shows "distinct l' \<and> total ts' l' = max (total ts l) (unat (delta (ts t)))
    \<and> (\<forall>x. list_expiry ts' l' x
         = (if x = t then Some (unat (delta (ts t))) else list_expiry ts l x))"
  using assms
proof (induction ts l t arbitrary: ts' l' rule: timer_list_insert.induct)
  case (2 ts e es t)
  show ?case
  proof (cases "delta (ts e) < delta (ts t)")
    case True
    let ?ts = "set_delta ts t (delta (ts t) - delta (ts e))"
    obtain l1 where r: "timer_list_insert ?ts es t = (ts', l1)" and l': "l' = e # l1"
      using "2.prems"(1) True by (auto split: prod.splits)
    have n: "e \<noteq> t" "e \<notin> set es" "t \<notin> set es" "distinct es" using "2.prems" by auto
    note ih = "2.IH" [OF True r n(4,3)]
    have e: "ts' e = ts e" using insert_frame(2) [OF r, of e] n by simp
    have u: "unat (delta (ts t) - delta (ts e)) = unat (delta (ts t)) - unat (delta (ts e))"
      using True by (simp add: unat_sub)
    have c: "list_expiry ?ts es x = list_expiry ts es x" for x
      using n by (intro list_expiry_cong) (metis set_delta_simps(1))
    have tc: "total ?ts es = total ts es" using n by (intro total_cong) (metis set_delta_simps(1))
    have "unat (delta (ts e)) \<le> unat (delta (ts t))" using True by (simp add: word_less_nat_alt)
    then show ?thesis using ih e u c tc n insert_frame(3) [OF r] by (auto simp: l')
  next
    case False
    then have le: "delta (ts t) \<le> delta (ts e)" by simp
    have n: "e \<noteq> t" "e \<notin> set es" "t \<notin> set es" using "2.prems" by auto
    have r: "ts' = set_delta ts e (delta (ts e) - delta (ts t))" "l' = t # e # es"
      using "2.prems"(1) False by auto
    have u: "unat (delta (ts e) - delta (ts t)) = unat (delta (ts e)) - unat (delta (ts t))"
      using le by (simp add: unat_sub)
    have c: "list_expiry ts' es x = list_expiry ts es x" for x
      unfolding r using n by (intro list_expiry_cong) (metis set_delta_simps(1))
    have tc: "total ts' es = total ts es" unfolding r using n by (intro total_cong) (metis set_delta_simps(1))
    have "unat (delta (ts t)) \<le> unat (delta (ts e))" using le by (simp add: word_le_nat_alt)
    then have f: "(\<lambda>k. unat (delta (ts t)) + (unat (delta (ts e)) - unat (delta (ts t)) + k))
        = (\<lambda>k. unat (delta (ts e)) + k)" by (simp add: fun_eq_iff)
    have d: "delta (ts' t) = delta (ts t)" "delta (ts' e) = delta (ts e) - delta (ts t)"
      using n by (simp_all add: r(1))
    show ?thesis using "2.prems"(2,3) u c tc n d \<open>unat _ \<le> _\<close>
      by (auto simp: r(2) option.map_comp comp_def f)
  qed
qed auto

lemma remove_frame:
  assumes "timer_list_remove ts l t = (ts', l')"
  shows "settings (ts' x) = settings (ts x)" and "x \<notin> set l \<Longrightarrow> ts' x = ts x"
    and "distinct l \<Longrightarrow> set l' = set l - {t}"
  using assms
proof (induction ts l t arbitrary: ts' l' rule: timer_list_remove.induct)
  case (2 ts e es t)
  note ih = "2.IH"
  { case 1 with ih show ?case by (cases "e = t") (auto split: prod.splits list.splits) }
  { case 2 with ih show ?case by (cases "e = t") (auto split: prod.splits list.splits) }
  { case 3 with ih show ?case by (cases "e = t") (auto split: prod.splits list.splits) }
qed auto

lemma expiry_less_total:
  "list_expiry ts l x = Some n \<Longrightarrow> n \<le> total ts l"
  by (induction l arbitrary: n) (auto split: if_splits)

lemma remove_expiry:
  assumes "timer_list_remove ts l t = (ts', l')" and "distinct l" and "total ts l < 2 ^ 32"
  shows "distinct l' \<and> total ts' l' \<le> total ts l
    \<and> (\<forall>x. list_expiry ts' l' x = (if x = t then None else list_expiry ts l x))"
  using assms
proof (induction ts l t arbitrary: ts' l' rule: timer_list_remove.induct)
  case (2 ts e es t)
  show ?case
  proof (cases "e = t")
    case False
    obtain l1 where r: "timer_list_remove ts es t = (ts', l1)" and l': "l' = e # l1"
      using "2.prems"(1) False by (auto split: prod.splits)
    have n: "e \<notin> set es" "distinct es" "total ts es < 2 ^ 32" using "2.prems" by auto
    note ih = "2.IH" [OF False r n(2,3)]
    have "ts' e = ts e" using remove_frame(2) [OF r] n by simp
    then show ?thesis using ih False n remove_frame(3) [OF r n(2)] by (auto simp: l')
  next
    case True
    show ?thesis
    proof (cases es)
      case Nil
      then show ?thesis using "2.prems"(1) True by auto
    next
      case (Cons n ns)
      then have r: "ts' = set_delta ts n (delta (ts n) + delta (ts e))" "l' = n # ns"
        using "2.prems"(1) True by auto
      have d: "n \<noteq> e" "n \<notin> set ns" "e \<notin> set ns" "distinct ns" using "2.prems"(2) Cons by auto
      have "unat (delta (ts n)) + unat (delta (ts e)) < 2 ^ 32" using "2.prems"(3) Cons by simp
      then have u: "unat (delta (ts n) + delta (ts e)) = unat (delta (ts n)) + unat (delta (ts e))"
        by (simp add: unat_word_ariths)
      have c: "list_expiry ts' ns x = list_expiry ts ns x" for x
        unfolding r using d by (intro list_expiry_cong) (metis set_delta_simps(1))
      have tc: "total ts' ns = total ts ns"
        unfolding r using d by (intro total_cong) (metis set_delta_simps(1))
      have "(\<lambda>k. unat (delta (ts e)) + (unat (delta (ts n)) + k))
          = (\<lambda>k. unat (delta (ts n)) + unat (delta (ts e)) + k)" by (simp add: fun_eq_iff)
      moreover have "delta (ts' n) = delta (ts n) + delta (ts e)" by (simp add: r(1))
      ultimately show ?thesis using u c tc d True
        by (auto simp: r(2) Cons option.map_comp comp_def)
    qed
  qed
qed auto

lemma insert_timer_effect:
  assumes "list_inv (timers h) (timer_list h)" and "t \<notin> set (timer_list h)"
  shows "list_inv (timers (insert_timer h t)) (timer_list (insert_timer h t))"
    and "expiry (insert_timer h t) = (expiry h)(t \<mapsto> unat (delta (timers h t)))"
    and "settings (timers (insert_timer h t) x) = settings (timers h x)"
proof -
  obtain ts l where r: "timer_list_insert (timers h) (timer_list h) t = (ts, l)" by fastforce
  then have i: "insert_timer h t = h\<lparr>timers := ts, timer_list := l\<rparr>" by (simp add: insert_timer_def)
  have d: "distinct (timer_list h)" using assms(1) by (simp add: list_inv_def)
  note e = insert_expiry [OF r d assms(2)]
  have "unat (delta (timers h t)) < 2 ^ 32" using unsigned_less [of "delta (timers h t)"] by simp
  then show "list_inv (timers (insert_timer h t)) (timer_list (insert_timer h t))"
    using e assms(1) by (simp add: i list_inv_def)
  show "expiry (insert_timer h t) = (expiry h)(t \<mapsto> unat (delta (timers h t)))"
    using e by (simp add: i expiry_def fun_eq_iff)
  show "settings (timers (insert_timer h t) x) = settings (timers h x)"
    using insert_frame(1) [OF r] by (simp add: i)
qed

lemma insert_order:
  "timer_list_insert ts l t = (ts', l') \<Longrightarrow> t \<notin> set l \<Longrightarrow> filter (\<lambda>x. x \<noteq> t) l' = l"
proof (induction ts l t arbitrary: ts' l' rule: timer_list_insert.induct)
  case (2 ts e es t)
  show ?case
  proof (cases "delta (ts e) < delta (ts t)")
    case True
    then obtain l1 where "timer_list_insert (set_delta ts t (delta (ts t) - delta (ts e))) es t = (ts', l1)"
      and "l' = e # l1"
      using "2.prems"(1) by (auto split: prod.splits)
    then show ?thesis using "2.IH" True "2.prems"(2) by auto
  next
    case False
    then show ?thesis using "2.prems" by (auto intro!: filter_True)
  qed
qed auto

lemma timer_inv_iff:
  "timer_inv h \<longleftrightarrow> list_inv (timers h) (timer_list h) \<and> (\<forall>t n. expiry h t = Some n \<longrightarrow> 0 < n)"
proof (cases "timer_list h")
  case (Cons t es)
  have "(\<forall>x n. expiry h x = Some n \<longrightarrow> 0 < n) \<longleftrightarrow> 0 < unat (delta (timers h t))"
    by (auto simp: expiry_def Cons split: if_splits)
  then show ?thesis by (simp add: timer_inv_def Cons word_less_nat_alt)
qed (simp add: timer_inv_def expiry_def)

lemma expiry_active: "expiry h t = None \<longleftrightarrow> t \<notin> set (timer_list h)"
  by (simp add: expiry_def)

section \<open>Stopping and starting\<close>

lemma stop_effect:
  assumes "timer_inv h"
  shows "timer_inv (ml_timer_handler_timer_stop h t)"
    and "expiry (ml_timer_handler_timer_stop h t) = (expiry h)(t := None)"
    and "settings (timers (ml_timer_handler_timer_stop h t) x)
      = (let y = settings (timers h x)
         in if x = t then y\<lparr>number_of_timeouts_to_ignore := number_of_outstanding_timeouts y\<rparr> else y)"
proof -
  let ?ts = "(timers h)(t := (timers h t)
    \<lparr>number_of_timeouts_to_ignore := number_of_outstanding_timeouts (timers h t)\<rparr>)"
  obtain ts l where r: "timer_list_remove ?ts (timer_list h) t = (ts, l)" by fastforce
  then have s: "ml_timer_handler_timer_stop h t = h\<lparr>timers := ts, timer_list := l\<rparr>"
    by (simp add: ml_timer_handler_timer_stop_def Let_def)
  have c: "list_expiry ?ts (timer_list h) x = expiry h x" for x
    unfolding expiry_def by (intro list_expiry_cong) simp
  have tc: "total ?ts (timer_list h) = total (timers h) (timer_list h)"
    by (intro total_cong) simp
  have d: "distinct (timer_list h)" "total ?ts (timer_list h) < 2 ^ 32"
    using assms tc by (simp_all add: timer_inv_def list_inv_def)
  note e = remove_expiry [OF r d]
  show ex: "expiry (ml_timer_handler_timer_stop h t) = (expiry h)(t := None)"
    using e c by (simp add: s expiry_def [of "h\<lparr>timers := ts, timer_list := l\<rparr>"] fun_eq_iff)
  have "list_inv ts l" using e d(2) by (simp add: list_inv_def)
  then show "timer_inv (ml_timer_handler_timer_stop h t)"
    using assms unfolding timer_inv_iff ex by (simp add: s)
  show "settings (timers (ml_timer_handler_timer_stop h t) x)
      = (let y = settings (timers h x)
         in if x = t then y\<lparr>number_of_timeouts_to_ignore := number_of_outstanding_timeouts y\<rparr> else y)"
    using remove_frame(1) [OF r, of x] by (auto simp: s Let_def)
qed

lemma list_inv_update_other:
  "t \<notin> set (timer_list h) \<Longrightarrow> list_inv (timers h) (timer_list h) \<Longrightarrow>
   list_inv ((timers h)(t := x)) (timer_list h)"
  unfolding list_inv_def using total_cong [of "timer_list h" "(timers h)(t := x)" "timers h"]
  by (metis fun_upd_other)

lemma expiry_update_other:
  "t \<notin> set (timer_list h) \<Longrightarrow> expiry (h\<lparr>timers := (timers h)(t := x)\<rparr>) = expiry h"
  by (auto simp: expiry_def fun_eq_iff intro!: list_expiry_cong)

lemma start_effect:
  assumes "timer_inv h"
  shows "expiry (ml_timer_handler_timer_start h t i r) = (expiry h)(t \<mapsto> unat (DIV_CEIL i 100 + 1))"
    and "list_inv (timers (ml_timer_handler_timer_start h t i r))
      (timer_list (ml_timer_handler_timer_start h t i r))"
    and "settings (timers (ml_timer_handler_timer_start h t i r) x)
      = (let y = settings (timers h x)
         in if x = t then y\<lparr>initial_ticks := DIV_CEIL i 100, repeat_ticks := DIV_CEIL r 100,
                 number_of_timeouts_to_ignore := number_of_outstanding_timeouts y\<rparr> else y)"
proof -
  let ?s = "ml_timer_handler_timer_stop h t"
  let ?x = "(timers ?s t)\<lparr>initial_ticks := DIV_CEIL i 100, repeat_ticks := DIV_CEIL r 100,
     delta := DIV_CEIL i 100 + 1\<rparr>"
  let ?h = "?s\<lparr>timers := (timers ?s)(t := ?x)\<rparr>"
  have st: "ml_timer_handler_timer_start h t i r = insert_timer ?h t"
    by (simp add: ml_timer_handler_timer_start_def Let_def)
  note e = stop_effect [OF assms, of t]
  have t: "t \<notin> set (timer_list ?s)" using e(2) expiry_active [of ?s t] by simp
  have "list_inv (timers ?s) (timer_list ?s)" using e(1) by (simp add: timer_inv_def)
  then have li: "list_inv (timers ?h) (timer_list ?h)" using list_inv_update_other [OF t] by simp
  have t': "t \<notin> set (timer_list ?h)" using t by simp
  have ex: "expiry ?h = (expiry h)(t := None)" using expiry_update_other [OF t] e(2) by simp
  note i = insert_timer_effect [OF li t']
  show "expiry (ml_timer_handler_timer_start h t i r) = (expiry h)(t \<mapsto> unat (DIV_CEIL i 100 + 1))"
    using i(2) ex by (simp add: st)
  show "list_inv (timers (ml_timer_handler_timer_start h t i r))
      (timer_list (ml_timer_handler_timer_start h t i r))" using i(1) by (simp add: st)
  show "settings (timers (ml_timer_handler_timer_start h t i r) x)
      = (let y = settings (timers h x)
         in if x = t then y\<lparr>initial_ticks := DIV_CEIL i 100, repeat_ticks := DIV_CEIL r 100,
                 number_of_timeouts_to_ignore := number_of_outstanding_timeouts y\<rparr> else y)"
    using i(3) [of x] e(3) [of x] by (auto simp: st Let_def)
qed

text \<open>The rounding up to ticks of 100 ms, and that the timer never has zero ticks left.\<close>

lemma unat_DIV_CEIL: "unat (DIV_CEIL i 100) = ((unat i + 99) mod 2 ^ 32) div 100"
proof -
  have "DIV_CEIL i 100 = (i + 99) div 100" by (simp add: DIV_CEIL_def add.commute)
  moreover have "unat (i + 99) = (unat i + 99) mod 2 ^ 32" by (simp add: unat_word_ariths)
  ultimately show ?thesis by (simp add: unat_div_distrib)
qed

lemma unat_ticks: "unat (DIV_CEIL i 100 + 1) = unat (DIV_CEIL i 100) + 1"
proof -
  have "unat (DIV_CEIL i 100) \<le> (2 ^ 32 - 1) div 100" unfolding unat_DIV_CEIL by (intro div_le_mono) simp
  then show ?thesis by (simp add: unat_word_ariths)
qed

lemma start_timer_inv: "timer_inv h \<Longrightarrow> timer_inv (ml_timer_handler_timer_start h t i r)"
  unfolding timer_inv_iff [of "ml_timer_handler_timer_start h t i r"]
  by (auto simp: start_effect unat_ticks timer_inv_iff split: if_splits)

section \<open>A tick\<close>

lemma post_timeout_settings: "settings x = settings y \<Longrightarrow> post_timeout w x = post_timeout w y"
  by (metis post_timeout_def settings_select(2,3))

lemma post_timeouts_settings:
  "map settings xs = map settings ys \<Longrightarrow> post_timeouts w xs = post_timeouts w ys"
proof (induction xs arbitrary: ys w)
  case (Cons x xs)
  then obtain y ys' where "ys = y # ys'" "settings x = settings y" "map settings xs = map settings ys'"
    by (cases ys) auto
  then show ?case
    using Cons.IH [of ys'] post_timeout_settings [of x y w] by (cases "post_timeout w y") auto
qed simp

text \<open>The expiry a fired timer has afterwards.\<close>

definition rearm :: "ml_timer_t \<Rightarrow> nat option" where
  "rearm x = (if 0 < repeat_ticks x then Some (unat (repeat_ticks x)) else None)"

lemma map_option_plus0: "map_option ((+) (0::nat)) x = x"
  by (cases x) auto

lemma rearm_settings: "settings x = settings y \<Longrightarrow> rearm x = rearm y"
  by (metis rearm_def settings_select(1))

lemma rearm_not_0: "rearm x \<noteq> Some 0"
  by (auto simp: rearm_def word_less_nat_alt)

lemma fire_head_effect:
  assumes "list_inv (timers h) (t # es)" and "timer_list h = t # es" and "delta (timers h t) = 0"
  shows "list_inv (timers (fire_head h t es)) (timer_list (fire_head h t es))"
    and "expiry (fire_head h t es) = (expiry h)(t := rearm (timers h t))"
    and "settings (timers (fire_head h t es) x)
      = (let y = settings (timers h x)
         in if x = t
            then y\<lparr>number_of_outstanding_timeouts := number_of_outstanding_timeouts y + 1\<rparr> else y)"
    and "filter (\<lambda>x. x \<noteq> t) (timer_list (fire_head h t es)) = es"
proof -
  let ?y = "(timers h t)\<lparr>number_of_outstanding_timeouts := number_of_outstanding_timeouts (timers h t) + 1\<rparr>"
  have d: "t \<notin> set es" "list_inv (timers h) es" using assms(1) by (auto simp: list_inv_def)
  let ?h = "\<lambda>z. h\<lparr>timers := (timers h)(t := z), timer_list := es\<rparr>"
  have li: "list_inv (timers (?h z)) (timer_list (?h z))" for z
    using list_inv_update_other [of t "h\<lparr>timer_list := es\<rparr>" z] d by simp
  have eh: "expiry (?h z) = (expiry h)(t := None)" for z
    using expiry_update_other [of t "h\<lparr>timer_list := es\<rparr>" z] d
    by (simp add: expiry_def assms(2,3) map_option_plus0 fun_eq_iff)
  have "list_inv (timers (fire_head h t es)) (timer_list (fire_head h t es))
    \<and> expiry (fire_head h t es) = (expiry h)(t := rearm (timers h t))
    \<and> settings (timers (fire_head h t es) x) = (if x = t then settings ?y else settings (timers h x))
    \<and> filter (\<lambda>x. x \<noteq> t) (timer_list (fire_head h t es)) = es"
  proof (cases "0 < repeat_ticks (timers h t)")
    case True
    let ?z = "?y\<lparr>delta := repeat_ticks (timers h t)\<rparr>"
    have f: "fire_head h t es = insert_timer (?h ?z) t" using True by (simp add: fire_head_def Let_def)
    have t: "t \<notin> set (timer_list (?h ?z))" using d by simp
    obtain ts l where "timer_list_insert (timers (?h ?z)) (timer_list (?h ?z)) t = (ts, l)" by fastforce
    then have "filter (\<lambda>x. x \<noteq> t) (timer_list (insert_timer (?h ?z) t)) = es"
      using insert_order [of "timers (?h ?z)" es t ts l] d by (simp add: insert_timer_def)
    then show ?thesis
      using insert_timer_effect [OF li t] eh [of ?z] True by (simp add: f rearm_def)
  next
    case False
    have "filter (\<lambda>x. x \<noteq> t) es = es" using d by (intro filter_True) auto
    moreover have "fire_head h t es = ?h ?y" using False by (simp add: fire_head_def Let_def)
    ultimately show ?thesis using li [of ?y] eh [of ?y] False by (simp add: rearm_def)
  qed
  then show "list_inv (timers (fire_head h t es)) (timer_list (fire_head h t es))"
    "expiry (fire_head h t es) = (expiry h)(t := rearm (timers h t))"
    "settings (timers (fire_head h t es) x)
      = (let y = settings (timers h x)
         in if x = t
            then y\<lparr>number_of_outstanding_timeouts := number_of_outstanding_timeouts y + 1\<rparr> else y)"
    "filter (\<lambda>x. x \<noteq> t) (timer_list (fire_head h t es)) = es"
    by (auto simp: Let_def)
qed

text \<open>The handler after the loop, with the timers that had expired fired.\<close>

definition fired :: "ml_timer_handler_t \<Rightarrow> (addr \<Rightarrow> bool) \<Rightarrow> (addr \<Rightarrow> nat option)
    \<Rightarrow> ml_timer_handler_t \<Rightarrow> bool" where
  "fired h E ex h' \<longleftrightarrow> timer_inv h'
     \<and> expiry h' = (\<lambda>t. if E t then rearm (timers h t) else ex t)
     \<and> (\<forall>t. settings (timers h' t)
          = (let y = settings (timers h t)
             in if E t then y\<lparr>number_of_outstanding_timeouts := number_of_outstanding_timeouts y + 1\<rparr>
                else y))"

definition expired_in :: "nat \<Rightarrow> ml_timer_handler_t \<Rightarrow> addr list" where
  "expired_in n h = filter (\<lambda>t. expiry h t = Some n) (timer_list h)"

lemma fired_trans:
  assumes f: "expiry h1 = (expiry h)(t := rearm (timers h t))" "expiry h t = Some 0"
    "\<And>x. settings (timers h1 x)
      = (let y = settings (timers h x)
         in if x = t
            then y\<lparr>number_of_outstanding_timeouts := number_of_outstanding_timeouts y + 1\<rparr> else y)"
    and h': "fired h1 (\<lambda>t. expiry h1 t = Some 0) (expiry h1) h'"
  shows "fired h (\<lambda>t. expiry h t = Some 0) (expiry h) h'"
proof -
  have r: "rearm (timers h1 x) = rearm (timers h x)" if "x \<noteq> t" for x
    using f(3) [of x] that by (intro rearm_settings) simp
  have h1: "expiry h' = (\<lambda>t. if expiry h1 t = Some 0 then rearm (timers h1 t) else expiry h1 t)"
    "\<And>t. settings (timers h' t) = (let y = settings (timers h1 t)
      in if expiry h1 t = Some 0
         then y\<lparr>number_of_outstanding_timeouts := number_of_outstanding_timeouts y + 1\<rparr> else y)"
    using h' by (simp_all add: fired_def)
  have t: "expiry h1 t \<noteq> Some 0" using rearm_not_0 by (simp add: f(1))
  have "expiry h' x = (if expiry h x = Some 0 then rearm (timers h x) else expiry h x)" for x
    using t f(1,2) r [of x] by (cases "x = t") (simp_all add: h1(1))
  moreover have "settings (timers h' x) = (let y = settings (timers h x)
      in if expiry h x = Some 0
         then y\<lparr>number_of_outstanding_timeouts := number_of_outstanding_timeouts y + 1\<rparr> else y)" for x
    using t f(1,2) f(3) [of x] by (cases "x = t") (simp_all add: h1(2) Let_def)
  ultimately show ?thesis using h' by (simp add: fired_def fun_eq_iff)
qed

lemma tick_loop_effect:
  assumes "list_inv (timers h) (timer_list h)"
  shows "\<exists>h'. (\<forall>w. tick_loop h w = Some (andthen (post_timeouts w (map (timers h) (expired_in 0 h)))
                                (\<lambda>w. Inr (h', w))))
    \<and> fired h (\<lambda>t. expiry h t = Some 0) (expiry h) h'"
  using assms
proof (induction "length (expired_in 0 h)" arbitrary: h rule: less_induct)
  case less
  show ?case
  proof (cases "\<exists>t es. timer_list h = t # es \<and> delta (timers h t) = 0")
    case False
    then have inv: "timer_inv h" using less.prems by (auto simp: timer_inv_def word_neq_0_conv)
    then have "expiry h t \<noteq> Some 0" for t by (metis timer_inv_iff less_irrefl)
    moreover have "tick_loop h w = Some (Inr (h, w))" for w
      using False by (subst tick_loop.simps) (auto split: list.splits)
    ultimately show ?thesis using inv
      by (intro exI [of _ h]) (simp add: fired_def expired_in_def)
  next
    case True
    then obtain t es where l: "timer_list h = t # es" and d: "delta (timers h t) = 0" by blast
    let ?h = "fire_head h t es"
    note f = fire_head_effect [OF less.prems [unfolded l] l d]
    have t0: "expiry h t = Some 0" by (simp add: expiry_def l d)
    have "expired_in 0 ?h = filter (\<lambda>x. expiry h x = Some 0) (filter (\<lambda>x. x \<noteq> t) (timer_list ?h))"
      unfolding expired_in_def filter_filter using rearm_not_0 by (intro filter_cong) (auto simp: f(2))
    then have ei: "expired_in 0 h = t # expired_in 0 ?h"
      using t0 by (simp add: f(4) expired_in_def l)
    then obtain h' where h': "\<And>w. tick_loop ?h w
        = Some (andthen (post_timeouts w (map (timers ?h) (expired_in 0 ?h))) (\<lambda>w. Inr (h', w)))"
      "fired ?h (\<lambda>t. expiry ?h t = Some 0) (expiry ?h) h'"
      using less.hyps [of ?h] f(1) by auto
    have "t \<notin> set (expired_in 0 ?h)" using rearm_not_0 by (simp add: expired_in_def f(2))
    then have "post_timeouts w (map (timers ?h) (expired_in 0 ?h))
        = post_timeouts w (map (timers h) (expired_in 0 ?h))" for w
      by (intro post_timeouts_settings) (auto simp: f(3) Let_def)
    then have "tick_loop h w
        = Some (andthen (post_timeouts w (map (timers h) (expired_in 0 h))) (\<lambda>w. Inr (h', w)))" for w
      using h'(1) by (subst tick_loop.simps) (simp add: l d ei andthen_def split: sum.splits)
    moreover have "fired h (\<lambda>t. expiry h t = Some 0) (expiry h) h'"
      using fired_trans [OF f(2) t0 f(3) h'(2)] .
    ultimately show ?thesis by blast
  qed
qed

lemma tick_effect:
  assumes "timer_inv h"
  shows "\<exists>h'. (\<forall>w. tick h w = Some (andthen (post_timeouts w (map (timers h) (expired_in 1 h)))
                                (\<lambda>w. Inr (h', w))))
    \<and> fired h (\<lambda>t. expiry h t = Some 1) (\<lambda>t. map_option (\<lambda>n. n - 1) (expiry h t)) h'"
proof (cases "timer_list h")
  case Nil
  then have "expiry h t = None" for t by (simp add: expiry_active)
  then show ?thesis using assms Nil
    by (intro exI [of _ h]) (simp add: tick_def expired_in_def fired_def fun_eq_iff)
next
  case (Cons t es)
  let ?d = "delta (timers h t) - 1"
  let ?h = "h\<lparr>timers := set_delta (timers h) t ?d\<rparr>"
  have pos: "0 < delta (timers h t)" and li: "list_inv (timers h) (t # es)"
    using assms Cons by (auto simp: timer_inv_def)
  then have u: "unat ?d = unat (delta (timers h t)) - 1" "0 < unat (delta (timers h t))"
    by (simp_all add: unat_minus_one word_less_nat_alt word_neq_0_conv)
  have n: "t \<notin> set es" using li by (simp add: list_inv_def)
  have c: "list_expiry (timers ?h) es x = list_expiry (timers h) es x" for x
    using n by (intro list_expiry_cong) (auto simp: set_delta_def)
  have tc: "total (timers ?h) es = total (timers h) es"
    using n by (intro total_cong) (auto simp: set_delta_def)
  have ex: "expiry ?h x = map_option (\<lambda>n. n - 1) (expiry h x)" for x
    using u c by (auto simp: expiry_def Cons option.map_comp comp_def intro!: option.map_cong0)
  have "list_inv (timers ?h) (timer_list ?h)"
    using li u tc by (simp add: list_inv_def Cons less_imp_diff_less)
  from tick_loop_effect [OF this] obtain h' where
    h': "\<And>w. tick_loop ?h w = Some (andthen (post_timeouts w (map (timers ?h) (expired_in 0 ?h)))
      (\<lambda>w. Inr (h', w)))" "fired ?h (\<lambda>t. expiry ?h t = Some 0) (expiry ?h) h'" by blast
  have pos': "expiry h x \<noteq> Some 0" for x using assms by (metis timer_inv_iff less_irrefl)
  then have e0: "expiry ?h x = Some 0 \<longleftrightarrow> expiry h x = Some 1" for x
    by (cases "expiry h x") (auto simp: ex le_Suc_eq)
  then have "expired_in 0 ?h = expired_in 1 h" by (simp add: expired_in_def)
  then have "post_timeouts w (map (timers ?h) (expired_in 0 ?h))
      = post_timeouts w (map (timers h) (expired_in 1 h))" for w
    by (intro post_timeouts_settings) simp
  moreover have "rearm (timers ?h x) = rearm (timers h x)" for x
    by (intro rearm_settings) simp
  then have "fired h (\<lambda>t. expiry h t = Some 1) (\<lambda>t. map_option (\<lambda>n. n - 1) (expiry h t)) h'"
    using h'(2) unfolding fired_def e0 by (simp add: ex fun_eq_iff)
  ultimately show ?thesis using h'(1) by (intro exI [of _ h']) (simp add: tick_def Cons)
qed

section \<open>The messages of a tick\<close>

lemma post_timeout_Inr:
  assumes "post_timeout w x = Inr w'" and "heap_inv w" and "\<And>q. queue_inv (queues w q)"
  shows "heap_inv w'" and "queue_inv (queues w' q)"
    and "contents (queues w' q) = contents (queues w q) @ (if q = timer_queue x then [next_addr w] else [])"
    and "heap w' = (heap w)(next_addr w \<mapsto> \<lparr>uid_p = timer_message x, count = 1, on_free = None, data = NoData\<rparr>)"
    and "next_addr w' = Suc (next_addr w)"
proof -
  obtain m w1 where a: "ml_message_alloc w (timer_message x) NoData = Inr (m, w1)"
    and p: "ml_queue_put w1 (timer_queue x) m = Inr w'"
    using assms(1) by (auto simp: post_timeout_def andthen_eq_Inr)
  have m: "m = next_addr w" "queues w1 = queues w" "next_addr w1 = Suc (next_addr w)"
    "heap w1 = (heap w)(next_addr w \<mapsto> \<lparr>uid_p = timer_message x, count = 1, on_free = None, data = NoData\<rparr>)"
    using a by (auto simp: alloc_Inr)
  note f = put_frame [OF p]
  have "heap_inv w1" using heap_inv_alloc [OF assms(2) a] .
  then show "heap_inv w'" using f(1,2) by (simp add: heap_inv_def)
  have qi: "queue_inv (queues w1 (timer_queue x))" using assms(3) m(2) by simp
  note c = put_contents [OF qi p]
  show "queue_inv (queues w' q)" using c(2) f(5) assms(3) m(2) by (cases "q = timer_queue x") auto
  show "contents (queues w' q) = contents (queues w q) @ (if q = timer_queue x then [next_addr w] else [])"
    using c(1) f(5) m by (cases "q = timer_queue x") auto
  show "heap w' = (heap w)(next_addr w \<mapsto> \<lparr>uid_p = timer_message x, count = 1, on_free = None, data = NoData\<rparr>)"
    "next_addr w' = Suc (next_addr w)" using m f(1,2) by simp_all
qed

lemma post_timeouts_effect:
  assumes "post_timeouts w xs = Inr w'" and "heap_inv w" and "\<And>q. queue_inv (queues w q)"
  shows "\<exists>ms. contents (queues w' q) = contents (queues w q) @ ms
    \<and> map (\<lambda>m. map_option uid_p (heap w' m)) ms
        = map (\<lambda>x. Some (timer_message x)) (filter (\<lambda>x. timer_queue x = q) xs)
    \<and> (\<forall>m < next_addr w. heap w' m = heap w m)"
  using assms
proof (induction xs arbitrary: w)
  case (Cons x xs)
  then obtain w1 where w1: "post_timeout w x = Inr w1" "post_timeouts w1 xs = Inr w'"
    by (auto simp: andthen_eq_Inr)
  note p = post_timeout_Inr [OF w1(1) Cons.prems(2,3)]
  obtain ms where ms: "contents (queues w' q) = contents (queues w1 q) @ ms"
    "map (\<lambda>m. map_option uid_p (heap w' m)) ms
      = map (\<lambda>x. Some (timer_message x)) (filter (\<lambda>x. timer_queue x = q) xs)"
    "\<forall>m < next_addr w1. heap w' m = heap w1 m"
    using Cons.IH [OF w1(2) p(1,2)] by auto
  have "heap w' (next_addr w) = heap w1 (next_addr w)" using ms(3) p(5) by simp
  then have "map_option uid_p (heap w' (next_addr w)) = Some (timer_message x)" by (simp add: p(4))
  moreover have "\<forall>m < next_addr w. heap w' m = heap w m" using ms(3) p(4,5) by simp
  ultimately show ?case
    using ms(1,2) p(3) [of q]
    by (intro exI [of _ "(if q = timer_queue x then [next_addr w] else []) @ ms"]) simp
qed simp

section \<open>Schedules of the timer interface\<close>

text \<open>
  The handler together with a ghost: for each timer the timeout messages that are in flight, in
  the order they were put, tagged with whether the timer has not been stopped or started since.
  Between the steps the rest of the program may change the world in any way.
\<close>

type_synonym timer_run = "ml_timer_handler_t \<times> (addr \<Rightarrow> bool list)"

inductive timer_step :: "timer_run \<Rightarrow> timer_run \<Rightarrow> bool" where
  Tick: "tick h w = Some (Inr (h', w')) \<Longrightarrow>
    timer_step (h, f) (h', \<lambda>t. if expiry h t = Some 1 then f t @ [True] else f t)"
| Stop: "timer_step (h, f) (ml_timer_handler_timer_stop h t, f(t := map (\<lambda>_. False) (f t)))"
| Start: "timer_step (h, f) (ml_timer_handler_timer_start h t i r, f(t := map (\<lambda>_. False) (f t)))"
| Check: "f t = b # bs \<Longrightarrow> ml_timer_is_message_valid h t = (v, h') \<Longrightarrow>
    timer_step (h, f) (h', f(t := bs))"

definition in_flight :: "ml_timer_t \<Rightarrow> bool list \<Rightarrow> bool" where
  "in_flight x bs \<longleftrightarrow>
     (\<exists>i k. number_of_timeouts_to_ignore x = int i \<and> number_of_outstanding_timeouts x = int (i + k)
        \<and> bs = replicate i False @ replicate k True)"

definition timer_run_inv :: "timer_run \<Rightarrow> bool" where
  "timer_run_inv s \<longleftrightarrow> timer_inv (fst s) \<and> (\<forall>t. in_flight (timers (fst s) t) (snd s t))"

lemma in_flightI:
  "number_of_timeouts_to_ignore x = int i \<Longrightarrow> number_of_outstanding_timeouts x = int (i + k) \<Longrightarrow>
   bs = replicate i False @ replicate k True \<Longrightarrow> in_flight x bs"
  by (auto simp: in_flight_def)

lemma in_flight_settings: "settings x = settings y \<Longrightarrow> in_flight x bs = in_flight y bs"
  by (metis in_flight_def settings_select(4,5))

lemma in_flight_fire:
  assumes "in_flight x bs"
    and "settings y = (settings x)\<lparr>number_of_outstanding_timeouts := number_of_outstanding_timeouts (settings x) + 1\<rparr>"
  shows "in_flight y (bs @ [True])"
proof -
  obtain i k where "number_of_timeouts_to_ignore x = int i" "number_of_outstanding_timeouts x = int (i + k)"
    "bs = replicate i False @ replicate k True" using assms(1) by (auto simp: in_flight_def)
  moreover have "number_of_timeouts_to_ignore y = number_of_timeouts_to_ignore x"
    "number_of_outstanding_timeouts y = number_of_outstanding_timeouts x + 1"
    using arg_cong [OF assms(2), of number_of_timeouts_to_ignore]
      arg_cong [OF assms(2), of number_of_outstanding_timeouts] by simp_all
  ultimately show ?thesis
    unfolding in_flight_def by (intro exI [of _ i] exI [of _ "Suc k"]) (simp add: replicate_append_same)
qed

lemma in_flight_stop:
  assumes "in_flight x bs"
    and "number_of_timeouts_to_ignore y = number_of_outstanding_timeouts x"
    and "number_of_outstanding_timeouts y = number_of_outstanding_timeouts x"
  shows "in_flight y (map (\<lambda>_. False) bs)"
proof -
  obtain i k where "number_of_outstanding_timeouts x = int (i + k)" "length bs = i + k"
    using assms(1) by (auto simp: in_flight_def)
  then show ?thesis using assms(2,3) unfolding in_flight_def
    by (intro exI [of _ "i + k"] exI [of _ 0]) (simp add: map_replicate_const)
qed

lemma in_flight_stopped:
  assumes "\<And>t. in_flight (ts t) (f t)"
    and "x \<noteq> t \<Longrightarrow> settings (ts' x) = settings (ts x)"
    and "number_of_timeouts_to_ignore (settings (ts' t)) = number_of_outstanding_timeouts (settings (ts t))"
    and "number_of_outstanding_timeouts (settings (ts' t)) = number_of_outstanding_timeouts (settings (ts t))"
  shows "in_flight (ts' x) ((f(t := map (\<lambda>_. False) (f t))) x)"
proof (cases "x = t")
  case True
  then show ?thesis using in_flight_stop [OF assms(1) [of t], of "ts' t"] assms(3,4) by simp
next
  case False
  then show ?thesis using assms(1) [of x] in_flight_settings [OF assms(2)] by simp
qed

lemma valid_effect:
  assumes "ml_timer_is_message_valid h t = (v, h')" and "in_flight (timers h t) (b # bs)"
  shows "v = b" and "in_flight (timers h' t) bs" and "timer_list h' = timer_list h"
    and "x \<noteq> t \<Longrightarrow> timers h' x = timers h x" and "delta (timers h' x) = delta (timers h x)"
proof -
  obtain i k where ik: "number_of_timeouts_to_ignore (timers h t) = int i"
    "number_of_outstanding_timeouts (timers h t) = int (i + k)"
    "b # bs = replicate i False @ replicate k True"
    using assms(2) by (auto simp: in_flight_def)
  have "v = b \<and> in_flight (timers h' t) bs"
  proof (cases i)
    case 0
    then obtain k' where "k = Suc k'" using ik(3) by (cases k) auto
    then show ?thesis using assms(1) ik 0
      by (auto simp: ml_timer_is_message_valid_def Let_def intro!: in_flightI [of _ 0 k'])
  next
    case (Suc j)
    then show ?thesis using assms(1) ik
      by (auto simp: ml_timer_is_message_valid_def Let_def intro!: in_flightI [of _ j k])
  qed
  then show "v = b" "in_flight (timers h' t) bs" by auto
  show "timer_list h' = timer_list h" "x \<noteq> t \<Longrightarrow> timers h' x = timers h x"
    "delta (timers h' x) = delta (timers h x)"
    using assms(1) by (auto simp: ml_timer_is_message_valid_def Let_def split: if_splits)
qed

lemma timer_inv_same_deltas:
  assumes "timer_list h' = timer_list h" and "\<And>x. delta (timers h' x) = delta (timers h x)"
  shows "timer_inv h' = timer_inv h"
  using assms total_cong [of "timer_list h" "timers h'" "timers h"]
  by (simp add: timer_inv_def list_inv_def)

lemma timer_step_inv: "timer_step s s' \<Longrightarrow> timer_run_inv s \<Longrightarrow> timer_run_inv s'"
proof (induction rule: timer_step.induct)
  case (Tick h w h' w' f)
  have inv: "timer_inv h" and fl: "\<And>t. in_flight (timers h t) (f t)"
    using Tick(2) by (auto simp: timer_run_inv_def)
  have fd: "fired h (\<lambda>t. expiry h t = Some 1) (\<lambda>t. map_option (\<lambda>n. n - 1) (expiry h t)) h'"
    using tick_effect [OF inv] Tick(1) by (auto simp: andthen_eq_Inr)
  have "in_flight (timers h' t) (if expiry h t = Some 1 then f t @ [True] else f t)" for t
    using fd fl [of t] in_flight_fire [OF fl, of "timers h' t" t] in_flight_settings [of "timers h' t" "timers h t"]
    by (auto simp: fired_def Let_def)
  then show ?case using fd by (simp add: timer_run_inv_def fired_def)
next
  case (Stop h f t)
  have inv: "timer_inv h" and fl: "\<And>t. in_flight (timers h t) (f t)"
    using Stop by (auto simp: timer_run_inv_def)
  have "in_flight (timers (ml_timer_handler_timer_stop h t) x) ((f(t := map (\<lambda>_. False) (f t))) x)" for x
    by (intro in_flight_stopped [OF fl]) (simp_all add: stop_effect(3) [OF inv] Let_def)
  then show ?case using stop_effect(1) [OF inv] by (simp add: timer_run_inv_def)
next
  case (Start h f t i r)
  have inv: "timer_inv h" and fl: "\<And>t. in_flight (timers h t) (f t)"
    using Start by (auto simp: timer_run_inv_def)
  have "in_flight (timers (ml_timer_handler_timer_start h t i r) x) ((f(t := map (\<lambda>_. False) (f t))) x)" for x
    by (intro in_flight_stopped [OF fl]) (simp_all add: start_effect(3) [OF inv] Let_def)
  then show ?case using start_timer_inv [OF inv] by (simp add: timer_run_inv_def)
next
  case (Check f t b bs h v h')
  have fl: "in_flight (timers h t) (b # bs)" "timer_inv h"
    using Check by (auto simp: timer_run_inv_def) (metis Check(1))
  note e = valid_effect [OF Check(2) fl(1)]
  have "timer_inv h'" using timer_inv_same_deltas [OF e(3)] e(5) fl(2) by simp
  moreover have "in_flight (timers h' x) ((f(t := bs)) x)" for x
    using e(2,4) Check(3) by (cases "x = t") (auto simp: timer_run_inv_def)
  ultimately show ?case by (simp add: timer_run_inv_def)
qed

lemma timer_steps_inv: "timer_step\<^sup>*\<^sup>* s s' \<Longrightarrow> timer_run_inv s \<Longrightarrow> timer_run_inv s'"
  by (induction rule: rtranclp_induct) (auto intro: timer_step_inv)

section \<open>Sequences of ticks\<close>

lemma handler_main_returns: "timer_inv h \<Longrightarrow> \<exists>r. handler_main rs h w = Some r"
proof (induction rs arbitrary: h w)
  case (Cons r rs)
  obtain h' where t: "tick h w = Some (andthen (post_timeouts w (map (timers h) (expired_in 1 h)))
      (\<lambda>w. Inr (h', w)))" "timer_inv h'"
    using tick_effect [OF Cons.prems] by (auto simp: fired_def)
  then show ?case using Cons.IH Cons.prems by (auto simp: andthen_def split: sum.splits)
qed simp

lemma handler_main_countdown:
  assumes "timer_inv h" and "expiry h t = Some k" and "n \<le> k"
    and "handler_main (replicate n 8) h w = Some (Inr (h', w'))"
  shows "number_of_outstanding_timeouts (timers h' t)
      = number_of_outstanding_timeouts (timers h t) + (if n = k then 1 else 0)
    \<and> (n < k \<longrightarrow> expiry h' t = Some (k - n))"
  using assms
proof (induction n arbitrary: h k w)
  case 0
  then show ?case by (auto simp: timer_inv_iff)
next
  case (Suc n)
  obtain h1 w1 where t: "tick h w = Some (Inr (h1, w1))"
    and m: "handler_main (replicate n 8) h1 w1 = Some (Inr (h', w'))"
    using Suc.prems(4) by (auto split: option.splits sum.splits)
  have f: "fired h (\<lambda>t. expiry h t = Some 1) (\<lambda>t. map_option (\<lambda>n. n - 1) (expiry h t)) h1"
    using tick_effect [OF Suc.prems(1)] t by (auto simp: andthen_eq_Inr)
  then have "settings (timers h1 t) = (let y = settings (timers h t)
      in if k = 1 then y\<lparr>number_of_outstanding_timeouts := number_of_outstanding_timeouts y + 1\<rparr> else y)"
    using Suc.prems(2) by (simp add: fired_def)
  from arg_cong [OF this, of number_of_outstanding_timeouts]
  have s: "number_of_outstanding_timeouts (timers h1 t)
      = number_of_outstanding_timeouts (timers h t) + (if k = 1 then 1 else 0)"
    by (simp add: Let_def)
  show ?case
  proof (cases "k = 1")
    case True
    then show ?thesis using Suc.prems(3) m s by simp
  next
    case False
    then have "expiry h1 t = Some (k - 1)" "timer_inv h1" using f Suc.prems(2) by (auto simp: fired_def)
    then show ?thesis using Suc.IH [OF _ _ _ m, of "k - 1"] Suc.prems(3) s False by auto
  qed
qed

section \<open>The properties\<close>

text \<open>
  C3: a tick always ends. It posts the message of every timer whose last tick this was, in list
  order (and fails only when such a put blocks or memory ends); afterwards a single-shot timer
  that fired is inactive, a periodic one expires its repeat ticks later, every other active
  timer is one tick closer, the fired timers have one more outstanding timeout and nothing else
  about any timer changed.
\<close>

theorem timer_tick_refines:
  assumes "timer_inv h"
  shows "\<exists>h'. (\<forall>w. tick h w = Some (andthen (post_timeouts w (map (timers h) (expired_in 1 h)))
                                (\<lambda>w. Inr (h', w))))
    \<and> timer_inv h'
    \<and> (\<forall>t. expiry h' t =
         (if expiry h t = Some 1
          then if 0 < repeat_ticks (timers h t) then Some (unat (repeat_ticks (timers h t))) else None
          else map_option (\<lambda>n. n - 1) (expiry h t)))
    \<and> (\<forall>t. settings (timers h' t)
          = (let y = settings (timers h t)
             in if expiry h t = Some 1
                then y\<lparr>number_of_outstanding_timeouts := number_of_outstanding_timeouts y + 1\<rparr>
                else y))"
  using tick_effect [OF assms] unfolding fired_def rearm_def by auto

definition example_timer :: ml_timer_t where
  "example_timer = \<lparr>initial_ticks = 0, repeat_ticks = 0, delta = 0, timer_message = 5, timer_queue = 4,
     number_of_outstanding_timeouts = 0, number_of_timeouts_to_ignore = 0\<rparr>"

definition example_handler :: ml_timer_handler_t where
  "example_handler = \<lparr>timers = (\<lambda>_. example_timer\<lparr>delta := 1, repeat_ticks := 3\<rparr>), timer_list = [2]\<rparr>"

lemma example_handler_facts:
  "timer_inv example_handler" "expiry example_handler 2 = Some 1"
  by (simp_all add: example_handler_def timer_inv_def list_inv_def expiry_def)

theorem timer_tick_refines_witness:
  "\<exists>h'. tick example_handler example_world = Some (Inl Blocked) \<and> timer_inv h' \<and> expiry h' 2 = Some 3"
proof -
  obtain h' where h': "tick example_handler example_world = Some (andthen
      (post_timeouts example_world (map (timers example_handler) (expired_in 1 example_handler)))
      (\<lambda>w. Inr (h', w)))" "timer_inv h'"
    "expiry h' 2 = (if expiry example_handler 2 = Some 1
       then if 0 < repeat_ticks (timers example_handler 2)
            then Some (unat (repeat_ticks (timers example_handler 2))) else None
       else map_option (\<lambda>n. n - 1) (expiry example_handler 2))"
    using timer_tick_refines [OF example_handler_facts(1)] by blast
  have "repeat_ticks (timers example_handler 2) = 3" by (simp add: example_handler_def)
  then have "expiry h' 2 = Some 3" using h'(3) example_handler_facts(2) by simp
  moreover have "expired_in 1 example_handler = [2]"
    using example_handler_facts(2) by (simp add: expired_in_def) (simp add: example_handler_def)
  moreover have "post_timeout example_world (timers example_handler 2) = Inl Blocked"
    by (simp add: post_timeout_def ml_message_alloc_def xmalloc_def example_world_def ml_queue_put_def
        is_full_def)
  ultimately show ?thesis using h'(1,2) by auto
qed

text \<open>
  Starting a timer with \<open>initial\<close> milliseconds (where the rounding does not wrap) makes it
  expire after that many ticks of 100 ms, rounded up, plus one for the tick in progress, so
  never early; stopping it makes it inactive. Neither changes when any other timer expires.
\<close>

theorem timer_start_stop_expiry:
  assumes "timer_inv h"
  shows "timer_inv (ml_timer_handler_timer_stop h t)
    \<and> expiry (ml_timer_handler_timer_stop h t) = (expiry h)(t := None)
    \<and> timer_inv (ml_timer_handler_timer_start h t i r)
    \<and> (unat i + 99 < 2 ^ 32 \<longrightarrow>
         expiry (ml_timer_handler_timer_start h t i r) = (expiry h)(t \<mapsto> (unat i + 99) div 100 + 1))
    \<and> (unat r + 99 < 2 ^ 32 \<longrightarrow>
         unat (repeat_ticks (timers (ml_timer_handler_timer_start h t i r) t)) = (unat r + 99) div 100)"
proof -
  have "repeat_ticks (timers (ml_timer_handler_timer_start h t i r) t) = DIV_CEIL r 100"
    using arg_cong [OF start_effect(3) [OF assms, of t i r t], of repeat_ticks] by (simp add: Let_def)
  then show ?thesis
    using stop_effect(1,2) [OF assms] start_timer_inv [OF assms] start_effect(1) [OF assms]
    by (simp add: unat_ticks unat_DIV_CEIL)
qed

theorem timer_start_stop_expiry_witness:
  "expiry (ml_timer_handler_timer_start example_handler 7 250 0) 7 = Some 4
   \<and> expiry (ml_timer_handler_timer_start example_handler 7 250 0) 2 = Some 1"
  using timer_start_stop_expiry [OF example_handler_facts(1), of 7 250 0] example_handler_facts(2)
  by simp

text \<open>
  With the handler thread reading full 8-byte timer events, a timer that expires in \<open>k\<close>
  ticks fires at the \<open>k\<close>-th one and not before; and the thread's loop body always returns.
\<close>

theorem timer_fires_on_time:
  assumes "timer_inv h" and "expiry h t = Some k" and "n \<le> k"
  shows "(\<exists>res. handler_main (replicate n 8) h w = Some res)
    \<and> (\<forall>h' w'. handler_main (replicate n 8) h w = Some (Inr (h', w')) \<longrightarrow>
         number_of_outstanding_timeouts (timers h' t)
           = number_of_outstanding_timeouts (timers h t) + (if n = k then 1 else 0)
         \<and> (n < k \<longrightarrow> expiry h' t = Some (k - n)))"
  using handler_main_returns [OF assms(1)] handler_main_countdown [OF assms] by blast

theorem timer_fires_on_time_witness:
  "\<exists>res. handler_main (replicate 1 8) example_handler example_world = Some res"
  using timer_fires_on_time [OF example_handler_facts, of 1 example_world] by blast

text \<open>
  A tick that returns has appended to every queue exactly one live message for each timer
  of that queue that expired, with the timer's identifier and in list order.
\<close>

theorem timer_tick_messages:
  assumes "timer_inv h" and "heap_inv w" and "\<And>q. queue_inv (queues w q)"
    and "tick h w = Some (Inr (h', w'))"
  shows "\<exists>ms. contents (queues w' q) = contents (queues w q) @ ms
    \<and> map (\<lambda>m. map_option uid_p (heap w' m)) ms
        = map (\<lambda>t. Some (timer_message (timers h t)))
            (filter (\<lambda>t. expiry h t = Some 1 \<and> timer_queue (timers h t) = q) (timer_list h))"
proof -
  have "post_timeouts w (map (timers h) (expired_in 1 h)) = Inr w'"
    using tick_effect [OF assms(1)] assms(4) by (auto simp: andthen_eq_Inr)
  from post_timeouts_effect [OF this assms(2,3), of q] show ?thesis
    by (auto simp: expired_in_def filter_map comp_def conj_commute)
qed

theorem timer_tick_messages_witness:
  "\<exists>h' w' ms. tick example_handler (example_world\<lparr>queues :=
        (\<lambda>_. \<lparr>on_put = None, rdpos = 0, wrpos = 0, q_length = 2, messages_p = [0, 0]\<rparr>)\<rparr>)
      = Some (Inr (h', w'))
    \<and> contents (queues w' 4) = ms \<and> map (\<lambda>m. map_option uid_p (heap w' m)) ms = [Some 5]"
proof -
  let ?w = "example_world\<lparr>queues :=
        (\<lambda>_. \<lparr>on_put = None, rdpos = 0, wrpos = 0, q_length = 2, messages_p = [0, 0]\<rparr>)\<rparr>"
  have e: "expired_in 1 example_handler = [2]"
    using example_handler_facts(2) by (simp add: expired_in_def) (simp add: example_handler_def)
  have "\<exists>w'. post_timeout ?w (timers example_handler 2) = Inr w'"
    by (simp add: post_timeout_def ml_message_alloc_def xmalloc_def example_world_def put_Inr_iff
        is_full_def)
  then obtain h' w' where t: "tick example_handler ?w = Some (Inr (h', w'))"
    using tick_effect [OF example_handler_facts(1)] e by fastforce
  have i: "heap_inv ?w" "\<And>q. queue_inv (queues ?w q)"
    by (simp_all add: heap_inv_def example_world_def queue_inv_def)
  have f: "filter (\<lambda>t. expiry example_handler t = Some 1 \<and> timer_queue (timers example_handler t) = 4)
      (timer_list example_handler) = [2]"
    using example_handler_facts(2) by (simp add: example_handler_def example_timer_def)
  have "contents (queues ?w 4) = []" "timer_message (timers example_handler 2) = 5"
    by (simp_all add: contents_def fill_level_def example_handler_def example_timer_def)
  then show ?thesis
    using timer_tick_messages [OF example_handler_facts(1) i t, of 4] t by (auto simp: f [unfolded One_nat_def])
qed

text \<open>
  C32: in every reachable state of ticks, starts, stops and checks, \<open>ml_timer_is_message_valid\<close>
  for the oldest message in flight answers false exactly when the timer was stopped or
  restarted after that message was sent.
\<close>

theorem timer_message_validity:
  assumes "timer_step\<^sup>*\<^sup>* (ml_timer_handler_init h0, f0) (h, f)"
    and "\<And>t. in_flight (timers h0 t) (f0 t)"
    and "f t = b # bs"
  shows "fst (ml_timer_is_message_valid h t) = b"
proof -
  have "timer_run_inv (ml_timer_handler_init h0, f0)"
    using assms(2) by (simp add: timer_run_inv_def ml_timer_handler_init_def timer_inv_def list_inv_def)
  then have "timer_run_inv (h, f)" using timer_steps_inv [OF assms(1)] by simp
  then have "in_flight (timers h t) (b # bs)" using assms(3) by (metis fst_conv snd_conv timer_run_inv_def)
  then show ?thesis using valid_effect(1) [of h t] by (metis prod.collapse)
qed

theorem timer_message_validity_witness:
  "fst (ml_timer_is_message_valid
     (ml_timer_handler_timer_stop
       (ml_timer_handler_init
         (example_handler\<lparr>timers := \<lambda>_. example_timer\<lparr>number_of_outstanding_timeouts := 1\<rparr>\<rparr>)) 2) 2)
   = False"
proof -
  let ?h = "example_handler\<lparr>timers := \<lambda>_. example_timer\<lparr>number_of_outstanding_timeouts := 1\<rparr>\<rparr>"
  let ?f = "\<lambda>_::addr. [True]"
  have st: "timer_step (ml_timer_handler_init ?h, ?f)
      (ml_timer_handler_timer_stop (ml_timer_handler_init ?h) 2, ?f(2 := map (\<lambda>_. False) (?f 2)))"
    by (rule timer_step.Stop)
  have "in_flight (timers ?h t) (?f t)" for t
    by (rule in_flightI [of _ 0 1]) (simp_all add: example_timer_def)
  from timer_message_validity [OF r_into_rtranclp [of timer_step, OF st] this, of 2 False "[]"]
  show ?thesis by simp
qed

end
