(* ===== verification/Ml_Os.thy ===== *)
theory Ml_Os
  imports Ml_Prelude
begin

text \<open>
  The operating system as the clients of the library see it: a sequence of calls, each with a
  result the kernel chooses. The state is the trace of the calls made so far with their
  results; the n-th call returns what the oracle says, and delivers the oracle's n-th input.
  Nothing is assumed about the oracle except where a theorem says so. Calls of
  \<open>src/src/ml_network.c\<close> that only wrap system calls are calls of this layer too.
\<close>

section \<open>Calls\<close>

datatype family = AF_PACKET | AF_INET

datatype dest = To_interface int | To_address u32 nat

datatype syscall =
    Socket family
  | Bind int family int
  | Set_broadcast int
  | Close int
  | Read int nat
  | Timerfd_create
  | Timerfd_settime int int int
  | Sendto int bytes dest
  | Poll "int list"
  | Sleep nat
  | Fmemopen nat
  | Interface_index string
  | Interface_mac_address string
  | Interface_configure string string string int
  | Interface_add_route string string
  | Pthread_create
  | Pthread_join

record os =
  trace :: "(syscall \<times> int) list"
  result :: "nat \<Rightarrow> int"
  input :: "nat \<Rightarrow> bytes"

definition sys :: "os \<Rightarrow> syscall \<Rightarrow> int \<times> os" where
  "sys s c = (let r = result s (length (trace s)) in (r, s\<lparr>trace := trace s @ [(c, r)]\<rparr>))"

text \<open>A read delivers at most as many bytes as were asked for, and as many as it returns.\<close>

definition sys_read :: "os \<Rightarrow> int \<Rightarrow> nat \<Rightarrow> int \<times> bytes \<times> os" where
  "sys_read s fd n =
     (let k = length (trace s);
          r = min (result s k) (int n)
      in (r, map (byte_at (input s k)) [0..<nat r], s\<lparr>trace := trace s @ [(Read fd n, r)]\<rparr>))"

text \<open>A poll of the given descriptors delivers their \<open>revents\<close>.\<close>

definition sys_poll :: "os \<Rightarrow> int list \<Rightarrow> int \<times> nat list \<times> os" where
  "sys_poll s fds =
     (let k = length (trace s); r = result s k
      in (r, map (\<lambda>i. unat (byte_at (input s k) i)) [0..<length fds], s\<lparr>trace := trace s @ [(Poll fds, r)]\<rparr>))"

section \<open>One-shot timers\<close>

text \<open>
  Whether a timer descriptor will still become readable: setting it with a nonzero time arms
  it, setting it to zero disarms it, and reading its 8-byte expiration count consumes it.
\<close>

fun armed_step :: "int \<Rightarrow> bool \<Rightarrow> syscall \<times> int \<Rightarrow> bool" where
  "armed_step fd b (Timerfd_settime fd' s ns, r) =
     (if fd' = fd \<and> r = 0 then s \<noteq> 0 \<or> ns \<noteq> 0 else b)"
| "armed_step fd b (Read fd' n, r) = (if fd' = fd \<and> n = 8 \<and> r = 8 then False else b)"
| "armed_step fd b _ = b"

definition armed :: "os \<Rightarrow> int \<Rightarrow> bool" where
  "armed s fd = foldl (armed_step fd) False (trace s)"

section \<open>Open descriptors\<close>

text \<open>
  The descriptors a trace has opened and not closed, and that the kernel only hands out
  descriptors that are not in use.
\<close>

fun open_step :: "int set \<Rightarrow> syscall \<times> int \<Rightarrow> int set" where
  "open_step F (Socket f, r) = (if r = - 1 then F else insert r F)"
| "open_step F (Timerfd_create, r) = (if r = - 1 then F else insert r F)"
| "open_step F (Close fd, r) = F - {fd}"
| "open_step F _ = F"

definition open_fds :: "os \<Rightarrow> int set" where
  "open_fds s = foldl open_step {} (trace s)"

fun opens :: "syscall \<Rightarrow> bool" where
  "opens (Socket f) = True"
| "opens Timerfd_create = True"
| "opens _ = False"

fun fresh_from :: "int set \<Rightarrow> (syscall \<times> int) list \<Rightarrow> bool" where
  "fresh_from F [] = True"
| "fresh_from F ((c, r) # es) =
     ((opens c \<longrightarrow> r \<notin> F) \<and> fresh_from (open_step F (c, r)) es)"

section \<open>Lemmas\<close>

lemma sys_Pair:
  "sys s c = (r, s') \<longleftrightarrow> r = result s (length (trace s)) \<and> s' = s\<lparr>trace := trace s @ [(c, r)]\<rparr>"
  by (auto simp: sys_def Let_def)

lemma length_sys_read: "sys_read s fd n = (r, bs, s') \<Longrightarrow> length bs = nat r \<and> r \<le> int n"
  by (auto simp: sys_read_def Let_def)

lemma armed_snoc [simp]: "armed (s\<lparr>trace := trace s @ [e]\<rparr>) fd = armed_step fd (armed s fd) e"
  by (simp add: armed_def)

end
