(* ===== verification/Ml_Dhcp_Packet.thy ===== *)
theory Ml_Dhcp_Packet
  imports Ml_Inet Ml_Os
begin

unbundle bit_operations_syntax

text \<open>
  The packets of the DHCP client, \<open>src/src/ml_dhcp_client.c\<close>: parsing of received packets into
  the client's state and packing of the packets it sends. A received buffer is the list of the
  bytes that were read; every read of it is checked against that list. The theorems say that
  no packet makes the parser read outside the buffer, what an accepted packet looks like, and
  that the packed packets parse back and carry a valid IP checksum.
\<close>

section \<open>The client's state\<close>

datatype ml_dhcp_client_state_t = Init | Selecting | Requesting | Bound | Renewing

datatype ml_dhcp_client_packet_type_t = Offer | Ack | Nak | No_packet

record pollfd =
  fd :: int
  revents :: nat

record ml_dhcp_client_t =
  state :: ml_dhcp_client_state_t
  packet_type :: ml_dhcp_client_packet_type_t
  ip_address :: u32
  subnet_mask :: u32
  gateway :: u32
  dns :: u32
  lease_time :: int
  renewal_interval :: int
  rebinding_time :: int
  renewal_timer_expired :: bool
  rebinding_timer_expired :: bool
  response_timer_expired :: bool
  init_timer_expired :: bool
  is_packet_socket :: bool
  fds :: "pollfd list"
  server_ip_address :: u32
  name_p :: string
  if_index :: int
  mac_address :: bytes

text \<open>The parsed options; a struct with a value and a valid flag is an option.\<close>

record options_t =
  opt_message_type :: "u8 option"
  opt_subnet_mask :: "u32 option"
  opt_gateway :: "u32 option"
  opt_dns :: "u32 option"
  opt_lease_time :: "u32 option"
  opt_renewal_time :: "u32 option"
  opt_rebinding_time :: "u32 option"
  opt_server_ip_address :: "u32 option"

definition no_options :: options_t where
  "no_options = \<lparr>opt_message_type = None, opt_subnet_mask = None, opt_gateway = None, opt_dns = None,
     opt_lease_time = None, opt_renewal_time = None, opt_rebinding_time = None,
     opt_server_ip_address = None\<rparr>"

section \<open>Names for the log\<close>

fun packet_type_str :: "ml_dhcp_client_packet_type_t \<Rightarrow> string" where
  "packet_type_str Offer = ''OFFER''"
| "packet_type_str Ack = ''ACK''"
| "packet_type_str Nak = ''NAK''"
| "packet_type_str No_packet = ''NONE''"

definition message_type_str :: "u8 \<Rightarrow> string" where
  "message_type_str t =
     (if t = 1 then ''DISCOVER'' else if t = 2 then ''OFFER'' else if t = 3 then ''REQUEST''
      else if t = 4 then ''DECLINE'' else if t = 5 then ''ACK'' else if t = 6 then ''NAK''
      else if t = 7 then ''RELEASE'' else if t = 8 then ''INFORM'' else ''UNKNOWN'')"

fun state_string :: "ml_dhcp_client_state_t \<Rightarrow> string" where
  "state_string Init = ''INIT''"
| "state_string Selecting = ''SELECTING''"
| "state_string Requesting = ''REQUESTING''"
| "state_string Bound = ''BOUND''"
| "state_string Renewing = ''RENEWING''"

section \<open>Unpacking\<close>

text \<open>The option unpackers get the option's bytes and its size; \<open>None\<close> is the result -1.\<close>

definition unpack_option_u8 :: "bytes \<Rightarrow> nat \<Rightarrow> u8 option" where
  "unpack_option_u8 buf sz = (if sz \<noteq> 1 then None else Some (byte_at buf 0))"

definition unpack_option_u32 :: "bytes \<Rightarrow> nat \<Rightarrow> u32 option" where
  "unpack_option_u32 buf sz =
     (if sz \<noteq> 4 then None
      else Some (be32 (byte_at buf 0) (byte_at buf 1) (byte_at buf 2) (byte_at buf 3)))"

definition unpack_option_in_addr :: "bytes \<Rightarrow> nat \<Rightarrow> u32 option" where
  "unpack_option_in_addr buf sz =
     (if sz \<noteq> 4 then None
      else Some (htonl (be32 (byte_at buf 0) (byte_at buf 1) (byte_at buf 2) (byte_at buf 3))))"

definition unpack_option :: "options_t \<Rightarrow> u8 \<Rightarrow> bytes \<Rightarrow> nat \<Rightarrow> options_t option" where
  "unpack_option opts opt buf len =
     (if opt = 1 then map_option (\<lambda>v. opts\<lparr>opt_subnet_mask := Some v\<rparr>) (unpack_option_in_addr buf len)
      else if opt = 3 then map_option (\<lambda>v. opts\<lparr>opt_gateway := Some v\<rparr>) (unpack_option_in_addr buf len)
      else if opt = 6 then
        (let len = (if len > 4 then 4 else len)
         in map_option (\<lambda>v. opts\<lparr>opt_dns := Some v\<rparr>) (unpack_option_in_addr buf len))
      else if opt = 53 then map_option (\<lambda>v. opts\<lparr>opt_message_type := Some v\<rparr>) (unpack_option_u8 buf len)
      else if opt = 51 then map_option (\<lambda>v. opts\<lparr>opt_lease_time := Some v\<rparr>) (unpack_option_u32 buf len)
      else if opt = 58 then map_option (\<lambda>v. opts\<lparr>opt_renewal_time := Some v\<rparr>) (unpack_option_u32 buf len)
      else if opt = 59 then map_option (\<lambda>v. opts\<lparr>opt_rebinding_time := Some v\<rparr>) (unpack_option_u32 buf len)
      else if opt = 54 then
        map_option (\<lambda>v. opts\<lparr>opt_server_ip_address := Some v\<rparr>) (unpack_option_in_addr buf len)
      else Some opts)"

text \<open>
  The loop over the stream of bytes. \<open>fgetc\<close> at the end of the stream is \<open>EOF\<close>, and
  \<open>fread\<close> of one item returns 1 only if the item is not empty and all of it is there.
\<close>

fun unpack_options_loop :: "options_t \<Rightarrow> bytes \<Rightarrow> options_t option" where
  "unpack_options_loop opts [] = None"
| "unpack_options_loop opts (opt # file) =
     (if opt = 255 then Some opts
      else case file of
             [] \<Rightarrow> None
           | len # file \<Rightarrow>
               if unat len = 0 \<or> length file < unat len then None
               else case unpack_option opts opt (take (unat len) file) (unat len) of
                      None \<Rightarrow> None
                    | Some opts \<Rightarrow> unpack_options_loop opts (drop (unat len) file))"

definition unpack_all_options :: "bytes \<Rightarrow> options_t option" where
  "unpack_all_options file = unpack_options_loop no_options file"

definition unpack_options :: "os \<Rightarrow> bytes \<Rightarrow> options_t option \<times> os" where
  "unpack_options s buf =
     (let (file_p, s) = sys s (Fmemopen (length buf))
      in if file_p \<noteq> 0 then (unpack_all_options buf, s) else (None, s))"

text \<open>C division truncates towards zero.\<close>

definition div2 :: "int \<Rightarrow> int" where
  "div2 i = (if i < 0 then - ((- i) div 2) else i div 2)"

definition unpack_message_type_offer :: "ml_dhcp_client_t \<Rightarrow> options_t \<Rightarrow> u8 \<Rightarrow> u8 \<Rightarrow> u8 \<Rightarrow> u8
    \<Rightarrow> ml_dhcp_client_t" where
  "unpack_message_type_offer self opts a b c d =
     (case (opt_server_ip_address opts, opt_lease_time opts, opt_subnet_mask opts,
            opt_gateway opts, opt_dns opts) of
        (Some server, Some lease, Some netmask, Some gw, Some ns) \<Rightarrow>
          if lease \<ge> 1
          then self\<lparr>ip_address := htonl (be32 a b c d), server_ip_address := server,
                 subnet_mask := netmask, gateway := gw, dns := ns, lease_time := sint lease,
                 renewal_interval := div2 (sint lease), rebinding_time := div2 (sint lease) + 10,
                 packet_type := Offer\<rparr>
          else self
      | _ \<Rightarrow> self)"

definition unpack_message_type_ack :: "ml_dhcp_client_t \<Rightarrow> ml_dhcp_client_t" where
  "unpack_message_type_ack self = self\<lparr>packet_type := Ack\<rparr>"

definition unpack_message_type_nak :: "ml_dhcp_client_t \<Rightarrow> ml_dhcp_client_t" where
  "unpack_message_type_nak self = self\<lparr>packet_type := Nak\<rparr>"

definition is_ip_valid :: "bytes \<Rightarrow> bool res" where
  "is_ip_valid buf =
     (if length buf < 20 then Inr False
      else all_of [Inr (ml_inet_checksum buf 20 = 0), byte_is buf 0 0x45, byte_is buf 9 17,
             byte_is buf 16 255, byte_is buf 17 255, byte_is buf 18 255, byte_is buf 19 255])"

text \<open>The caller passes the size of the whole packet together with a pointer to the UDP header.\<close>

definition is_udp_valid :: "bytes \<Rightarrow> nat \<Rightarrow> bool res" where
  "is_udp_valid buf sz =
     (if sz < 28 then Inr False
      else all_of [byte_is buf 0 0, byte_is buf 1 67, byte_is buf 2 0, byte_is buf 3 68])"

definition is_packet_valid :: "bytes \<Rightarrow> bool res" where
  "is_packet_valid buf = all_of [is_ip_valid buf, is_udp_valid (drop 20 buf) (length buf)]"

text \<open>\<open>memcmp\<close> of a part of the buffer.\<close>

definition memcmp_at :: "bytes \<Rightarrow> nat \<Rightarrow> bytes \<Rightarrow> bool res" where
  "memcmp_at buf i xs = all_of (map (\<lambda>(k, x). byte_is buf (i + k) x) (enumerate 0 xs))"

definition unpack_bootp :: "ml_dhcp_client_t \<Rightarrow> os \<Rightarrow> bytes \<Rightarrow> (ml_dhcp_client_t \<times> os) res" where
  "unpack_bootp self s buf =
     (if length buf \<le> 240 then Inr (self, s)
      else andthen (all_of [byte_is buf 0 2, byte_is buf 1 1, memcmp_at buf 28 (mac_address self),
                    byte_is buf 236 0x63, byte_is buf 237 0x82, byte_is buf 238 0x53,
                    byte_is buf 239 0x63]) (\<lambda>ok.
        if \<not> ok then Inr (self, s)
        else case unpack_options s (drop 240 buf) of
               (None, s) \<Rightarrow> Inr (self, s)
             | (Some opts, s) \<Rightarrow>
                 (case opt_message_type opts of
                    None \<Rightarrow> Inr (self, s)
                  | Some t \<Rightarrow>
                      if t = 2 then
                        andthen (fetch buf 16) (\<lambda>a. andthen (fetch buf 17) (\<lambda>b.
                        andthen (fetch buf 18) (\<lambda>c. andthen (fetch buf 19) (\<lambda>d.
                          Inr (unpack_message_type_offer self opts a b c d, s)))))
                      else if t = 5 then Inr (unpack_message_type_ack self, s)
                      else if t = 6 then Inr (unpack_message_type_nak self, s)
                      else Inr (self, s))))"

definition unpack_packet :: "ml_dhcp_client_t \<Rightarrow> os \<Rightarrow> bytes \<Rightarrow> (ml_dhcp_client_t \<times> os) res" where
  "unpack_packet self s buf =
     (if is_packet_socket self
      then andthen (is_packet_valid buf) (\<lambda>ok.
             if ok then unpack_bootp self s (drop 28 buf) else Inr (self, s))
      else unpack_bootp self s buf)"

section \<open>Packing\<close>

text \<open>\<open>f(&buf[k])\<close>: the callee gets the rest of the buffer from offset \<open>k\<close> on.\<close>

definition at_offset :: "nat \<Rightarrow> (bytes \<Rightarrow> bytes) \<Rightarrow> bytes \<Rightarrow> bytes" where
  "at_offset k f buf = take k buf @ f (drop k buf)"

text \<open>The caller has cleared the buffer.\<close>

definition pack_ip_header :: "nat \<Rightarrow> bytes \<Rightarrow> bytes" where
  "pack_ip_header sz buf =
     (let buf = buf[0 := 0x45, 2 := of_nat (sz div 256), 3 := of_nat sz, 5 := 0x11, 8 := 255,
                9 := 17, 16 := 255, 17 := 255, 18 := 255, 19 := 255];
          c = ml_inet_checksum buf 20
      in buf[10 := ucast (drop_bit 8 c), 11 := ucast c])"

definition pack_udp_header :: "nat \<Rightarrow> bytes \<Rightarrow> bytes" where
  "pack_udp_header sz buf =
     buf[0 := 0, 1 := 68, 2 := 0, 3 := 67, 4 := of_nat (sz div 256), 5 := of_nat sz]"

definition pack_dhcp_fixed :: "bytes \<Rightarrow> u8 \<Rightarrow> bytes \<Rightarrow> bytes" where
  "pack_dhcp_fixed mac message_type buf =
     (let buf = buf[0 := 1, 1 := 1, 2 := 6, 4 := 0x32, 5 := 0x49, 6 := 0x36, 7 := 0x78,
                10 := 0x80, 11 := 0];
          buf = buf[28 := byte_at mac 0, 29 := byte_at mac 1, 30 := byte_at mac 2,
                31 := byte_at mac 3, 32 := byte_at mac 4, 33 := byte_at mac 5]
      in buf[236 := 0x63, 237 := 0x82, 238 := 0x53, 239 := 0x63, 240 := 53, 241 := 1,
             242 := message_type])"

definition pack_dhcp_request :: "ml_dhcp_client_t \<Rightarrow> bytes \<Rightarrow> bytes" where
  "pack_dhcp_request self buf =
     (let buf = buf[0 := 54, 1 := 4];
          v = htonl (server_ip_address self);
          buf = buf[2 := ucast (drop_bit 24 v), 3 := ucast (drop_bit 16 v), 4 := ucast (drop_bit 8 v),
                5 := ucast v, 6 := 50, 7 := 4];
          v = htonl (ip_address self);
          buf = buf[8 := ucast (drop_bit 24 v), 9 := ucast (drop_bit 16 v), 10 := ucast (drop_bit 8 v),
                11 := ucast v, 12 := 51, 13 := 4];
          v = word_of_int (lease_time self) :: u32
      in buf[14 := ucast (drop_bit 24 v), 15 := ucast (drop_bit 16 v), 16 := ucast (drop_bit 8 v),
             17 := ucast v, 18 := 255])"

text \<open>The buffers of \<open>broadcast_discover\<close>, \<open>broadcast_request\<close> and \<open>send_request\<close>.\<close>

definition discover_packet :: "ml_dhcp_client_t \<Rightarrow> bytes" where
  "discover_packet self =
     (let buf = replicate 604 0;
          buf = pack_ip_header 604 buf;
          buf = at_offset 20 (pack_udp_header 584) buf;
          buf = at_offset 28 (pack_dhcp_fixed (mac_address self) 1) buf
      in buf[271 := 57, 272 := 2, 273 := 4, 274 := 0, 275 := 55, 276 := 3, 277 := 1, 278 := 6,
             279 := 3, 280 := 255])"

definition request_packet :: "ml_dhcp_client_t \<Rightarrow> bytes" where
  "request_packet self =
     (let buf = replicate 604 0;
          buf = pack_ip_header 604 buf;
          buf = at_offset 20 (pack_udp_header 584) buf;
          buf = at_offset 28 (pack_dhcp_fixed (mac_address self) 3) buf
      in at_offset 271 (pack_dhcp_request self) buf)"

definition unicast_request_packet :: "ml_dhcp_client_t \<Rightarrow> bytes" where
  "unicast_request_packet self =
     (let buf = replicate 576 0;
          buf = pack_dhcp_fixed (mac_address self) 3 buf
      in at_offset 243 (pack_dhcp_request self) buf)"

section \<open>Options on the wire\<close>

fun encode_options :: "(u8 \<times> bytes) list \<Rightarrow> bytes" where
  "encode_options [] = []"
| "encode_options ((c, v) # os) = c # of_nat (length v) # v @ encode_options os"

definition option_ok :: "u8 \<times> bytes \<Rightarrow> bool" where
  "option_ok = (\<lambda>(c, v). c \<noteq> 255 \<and> 1 \<le> length v \<and> length v \<le> 255)"

fun fold_options :: "options_t \<Rightarrow> (u8 \<times> bytes) list \<Rightarrow> options_t option" where
  "fold_options opts [] = Some opts"
| "fold_options opts ((c, v) # os) =
     (case unpack_option opts c v (length v) of None \<Rightarrow> None | Some opts \<Rightarrow> fold_options opts os)"

lemma unat_of_nat_u8: "n \<le> 255 \<Longrightarrow> unat (of_nat n :: u8) = n"
  by (simp add: unat_of_nat take_bit_nat_eq_self)

lemma unpack_encoded:
  "\<forall>x \<in> set os. option_ok x \<Longrightarrow>
   unpack_options_loop opts (encode_options os @ 255 # junk) = fold_options opts os"
proof (induction os arbitrary: opts)
  case (Cons x os)
  obtain c v where x: "x = (c, v)" by (cases x)
  have "c \<noteq> 255" "v \<noteq> []" "unat (of_nat (length v) :: u8) = length v"
    using Cons.prems unat_of_nat_u8 by (auto simp: x option_ok_def)
  then show ?case using Cons by (simp add: x split: option.splits)
qed simp

lemma unpack_decodes:
  "unpack_options_loop opts rdbuf = Some opts' \<Longrightarrow>
   \<exists>os junk. rdbuf = encode_options os @ 255 # junk \<and> (\<forall>x \<in> set os. option_ok x)
     \<and> fold_options opts os = Some opts'"
proof (induction opts rdbuf rule: unpack_options_loop.induct)
  case (2 opts opt rdbuf)
  show ?case
  proof (cases "opt = 255")
    case True
    then show ?thesis using "2.prems" by (intro exI [of _ "[]"] exI [of _ rdbuf]) simp
  next
    case False
    then obtain len rest o1 where f: "rdbuf = len # rest" "unat len \<noteq> 0" "unat len \<le> length rest"
      and u: "unpack_option opts opt (take (unat len) rest) (unat len) = Some o1"
      and r: "unpack_options_loop o1 (drop (unat len) rest) = Some opts'"
      using "2.prems" by (auto split: list.splits if_splits option.splits)
    then obtain os junk where os: "drop (unat len) rest = encode_options os @ 255 # junk"
      "\<forall>x \<in> set os. option_ok x" "fold_options o1 os = Some opts'"
      using "2.IH" [OF False f(1) _ u r] by auto
    let ?v = "take (unat len) rest"
    have "rest = ?v @ encode_options os @ 255 # junk" using os(1) by (metis append_take_drop_id)
    moreover have "length ?v = unat len" "of_nat (length ?v) = len" using f(3) by simp_all
    ultimately show ?thesis using os f False u unat_u8_less [of len]
      by (intro exI [of _ "(opt, ?v) # os"] exI [of _ junk]) (auto simp: option_ok_def)
  qed
qed simp

section \<open>Bounds\<close>

lemma all_of_Inr:
  "\<forall>x \<in> set xs. \<exists>b. x = Inr b \<Longrightarrow> all_of xs = Inr (\<forall>x \<in> set xs. x = Inr True)"
  by (induction xs) auto

lemma is_ip_valid_Inr:
  "is_ip_valid buf = Inr (20 \<le> length buf \<and> ml_inet_checksum buf 20 = 0 \<and> buf ! 0 = 0x45
     \<and> buf ! 9 = 17 \<and> buf ! 16 = 255 \<and> buf ! 17 = 255 \<and> buf ! 18 = 255 \<and> buf ! 19 = 255)"
proof (cases "20 \<le> length buf")
  case True
  then have "buf \<noteq> []" by auto
  with True show ?thesis by (auto simp: is_ip_valid_def)
qed (simp add: is_ip_valid_def)

definition ip_ok :: "bytes \<Rightarrow> bool" where
  "ip_ok buf \<longleftrightarrow> 28 \<le> length buf \<and> ml_inet_checksum buf 20 = 0 \<and> buf ! 0 = 0x45 \<and> buf ! 9 = 17
     \<and> take 4 (drop 16 buf) = [255, 255, 255, 255] \<and> take 4 (drop 20 buf) = [0, 67, 0, 68]"

lemma is_udp_valid_Inr:
  "is_udp_valid (drop 20 buf) (length buf)
     = Inr (28 \<le> length buf \<and> take 4 (drop 20 buf) = [0, 67, 0, 68])"
proof (cases "28 \<le> length buf")
  case True
  then have t: "take 4 (drop 20 buf) = [buf ! 20, buf ! 21, buf ! 22, buf ! 23]"
    using take_4_drop [of 20 buf] by simp
  have "byte_is (drop 20 buf) k v = Inr (buf ! (20 + k) = v)" if "k < 8" for k v
    using True that by simp
  with True t show ?thesis by (simp add: is_udp_valid_def)
qed (simp add: is_udp_valid_def)

lemma is_packet_valid_Inr: "is_packet_valid buf = Inr (ip_ok buf)"
proof (cases "28 \<le> length buf")
  case True
  then have "take 4 (drop 16 buf) = [buf ! 16, buf ! 17, buf ! 18, buf ! 19]"
    using take_4_drop [of 16 buf] by simp
  with True show ?thesis
    unfolding is_packet_valid_def is_udp_valid_Inr is_ip_valid_Inr ip_ok_def by auto
qed (simp add: is_packet_valid_def is_udp_valid_Inr is_ip_valid_Inr ip_ok_def)

lemma ball_enumerate: "(\<forall>p \<in> set (enumerate 0 xs). P p) \<longleftrightarrow> (\<forall>k < length xs. P (k, xs ! k))"
proof -
  have "set (enumerate 0 xs) = {(k, xs ! k) |k. k < length xs}" by (auto simp: in_set_enumerate_eq)
  then show ?thesis by auto
qed

lemma memcmp_at_Inr:
  assumes "i + length xs \<le> length buf"
  shows "memcmp_at buf i xs = Inr (take (length xs) (drop i buf) = xs)"
proof -
  have "memcmp_at buf i xs = Inr (\<forall>x \<in> set (map (\<lambda>(k, x). byte_is buf (i + k) x) (enumerate 0 xs)). x = Inr True)"
    unfolding memcmp_at_def using assms
    by (intro all_of_Inr) (auto simp: in_set_enumerate_eq)
  moreover have "(\<forall>x \<in> set (map (\<lambda>(k, x). byte_is buf (i + k) x) (enumerate 0 xs)). x = Inr True)
      \<longleftrightarrow> (\<forall>k < length xs. buf ! (i + k) = xs ! k)"
    using assms by (simp add: ball_enumerate)
  moreover have "\<dots> \<longleftrightarrow> take (length xs) (drop i buf) = xs"
    using assms by (auto simp: list_eq_iff_nth_eq)
  ultimately show ?thesis by simp
qed

text \<open>The fixed part of a DHCP reply for this client, and what its options must then be.\<close>

definition bootp_ok :: "ml_dhcp_client_t \<Rightarrow> bytes \<Rightarrow> bool" where
  "bootp_ok self b \<longleftrightarrow> 240 < length b \<and> b ! 0 = 2 \<and> b ! 1 = 1
     \<and> take 6 (drop 28 b) = mac_address self \<and> take 4 (drop 236 b) = [0x63, 0x82, 0x53, 0x63]"

definition apply_message :: "ml_dhcp_client_t \<Rightarrow> bytes \<Rightarrow> options_t \<Rightarrow> ml_dhcp_client_t" where
  "apply_message self b opts =
     (if opt_message_type opts = Some 2
      then unpack_message_type_offer self opts (b ! 16) (b ! 17) (b ! 18) (b ! 19)
      else if opt_message_type opts = Some 5 then unpack_message_type_ack self
      else if opt_message_type opts = Some 6 then unpack_message_type_nak self
      else self)"

lemma bootp_checks:
  assumes "240 < length b" and "length (mac_address self) = 6"
  shows "all_of [byte_is b 0 2, byte_is b 1 1, memcmp_at b 28 (mac_address self), byte_is b 236 0x63,
      byte_is b 237 0x82, byte_is b 238 0x53, byte_is b 239 0x63] = Inr (bootp_ok self b)"
proof -
  have "b \<noteq> []" using assms by auto
  moreover have "take 4 (drop 236 b) = [b ! 236, b ! 237, b ! 238, b ! 239]"
    using assms take_4_drop [of 236 b] by simp
  ultimately show ?thesis using assms memcmp_at_Inr [of 28 "mac_address self" b]
    by (auto simp: bootp_ok_def)
qed

lemma unpack_bootp_Inr:
  assumes "length (mac_address self) = 6"
  shows "\<exists>s'. unpack_bootp self s b = Inr
    (if bootp_ok self b
     then case unpack_options s (drop 240 b) of
            (None, s) \<Rightarrow> (self, s) | (Some opts, s) \<Rightarrow> (apply_message self b opts, s)
     else (self, s'))"
proof (cases "240 < length b")
  case True
  then show ?thesis unfolding unpack_bootp_def bootp_checks [OF True assms]
    by (auto simp: apply_message_def split: prod.splits option.splits)
qed (auto simp: unpack_bootp_def bootp_ok_def)

section \<open>Packed packets\<close>

lemma length_at_offset [simp]:
  "(\<And>b. length (f b) = length b) \<Longrightarrow> length (at_offset k f buf) = length buf"
  by (simp add: at_offset_def)

lemma length_pack [simp]:
  "length (pack_ip_header sz buf) = length buf" "length (pack_udp_header sz buf) = length buf"
  "length (pack_dhcp_fixed mac t buf) = length buf" "length (pack_dhcp_request self buf) = length buf"
  by (simp_all add: pack_ip_header_def pack_udp_header_def pack_dhcp_fixed_def pack_dhcp_request_def
      Let_def)

lemma checksum_take: "20 \<le> length buf \<Longrightarrow> ml_inet_checksum buf 20 = ml_inet_checksum (take 20 buf) 20"
  using unat_checksum [of 20 buf] unat_checksum [of 20 "take 20 buf"] by (simp add: word_unat_eq_iff)

lemma pack_ip_header_valid:
  assumes "20 \<le> length buf" and "buf ! 10 = 0" and "buf ! 11 = 0"
  shows "is_ip_valid (pack_ip_header sz buf) = Inr True"
proof -
  let ?b = "buf[0 := 0x45, 2 := of_nat (sz div 256), 3 := of_nat sz, 5 := 0x11, 8 := 255,
                9 := 17, 16 := 255, 17 := 255, 18 := 255, 19 := 255]"
  let ?c = "ml_inet_checksum ?b 20"
  have p: "pack_ip_header sz buf = ?b[10 := ucast (drop_bit 8 ?c), 11 := ucast ?c]"
    by (simp add: pack_ip_header_def Let_def)
  have c: "?c = ml_inet_checksum (take 20 ?b) 20" using checksum_take [of ?b] assms(1) by simp
  have "ml_inet_checksum ((take 20 ?b)[10 := ucast (drop_bit 8 ?c), 10 + 1 := ucast ?c]) 20 = 0"
    using checksum_stored [of "take 20 ?b" 10 ?c] c assms by (simp del: take_update_swap)
  moreover have "take 20 (pack_ip_header sz buf) = (take 20 ?b)[10 := ucast (drop_bit 8 ?c), 11 := ucast ?c]"
    unfolding p by (simp only: take_update_swap)
  ultimately have "ml_inet_checksum (pack_ip_header sz buf) 20 = 0"
    using checksum_take [of "pack_ip_header sz buf"] assms(1) by simp
  moreover have "buf \<noteq> []" using assms(1) by auto
  ultimately show ?thesis using assms(1) by (auto simp: is_ip_valid_Inr p)
qed

lemma length_3: "3 \<le> length xs \<Longrightarrow> \<exists>x y z r. xs = x # y # z # r"
  by (auto simp: numeral_eq_Suc Suc_le_length_iff)

lemma pack_dhcp_fixed_tail:
  assumes "243 \<le> length buf"
  shows "drop 240 (pack_dhcp_fixed mac t buf) = 53 # 1 # t # drop 243 buf"
proof -
  have "3 \<le> length (drop 240 buf)" using assms by simp
  then obtain x y z r where d: "drop 240 buf = x # y # z # r" using length_3 by blast
  then have "drop 243 buf = r" using drop_drop [of 3 240 buf] by simp
  then show ?thesis by (simp add: pack_dhcp_fixed_def Let_def drop_update_swap d)
qed

lemma pack_dhcp_request_bytes:
  assumes "19 \<le> length buf"
  shows "pack_dhcp_request self buf
    = [54, 4] @ to_be32 (htonl (server_ip_address self)) @ [50, 4] @ to_be32 (htonl (ip_address self))
      @ [51, 4] @ to_be32 (word_of_int (lease_time self)) @ 255 # drop 19 buf"
proof -
  obtain a0 a1 a2 a3 a4 a5 a6 a7 a8 a9 b0 b1 b2 b3 b4 b5 b6 b7 b8 r where
    "buf = a0 # a1 # a2 # a3 # a4 # a5 # a6 # a7 # a8 # a9 # b0 # b1 # b2 # b3 # b4 # b5 # b6 # b7 # b8 # r"
    using assms by (auto simp: numeral_eq_Suc Suc_le_length_iff)
  then show ?thesis by (simp add: pack_dhcp_request_def to_be32_def Let_def)
qed

lemma request_options:
  "encode_options [(53, [3]), (54, to_be32 (htonl a)), (50, to_be32 (htonl b)), (51, to_be32 c)]
     = [53, 1, 3, 54, 4] @ to_be32 (htonl a) @ [50, 4] @ to_be32 (htonl b) @ [51, 4] @ to_be32 c"
  by simp

lemma unpack_to_be32 [simp]:
  "unpack_option_in_addr (to_be32 v) 4 = Some (htonl v)" "unpack_option_u32 (to_be32 v) 4 = Some v"
  by (simp_all add: unpack_option_in_addr_def unpack_option_u32_def to_be32_def byte_at_def)

lemma unpack_request_options:
  "unpack_all_options ([53, 1, 3, 54, 4] @ to_be32 (htonl a) @ [50, 4] @ to_be32 (htonl b)
       @ [51, 4] @ to_be32 c @ 255 # junk)
     = Some (no_options\<lparr>opt_message_type := Some 3, opt_server_ip_address := Some a,
               opt_lease_time := Some c\<rparr>)"
proof -
  let ?os = "[(53, [3]), (54, to_be32 (htonl a)), (50, to_be32 (htonl b)), (51, to_be32 c)]"
  have "unpack_options_loop no_options (encode_options ?os @ 255 # junk) = fold_options no_options ?os"
    by (rule unpack_encoded) (auto simp: option_ok_def)
  moreover have "fold_options no_options ?os = Some (no_options\<lparr>opt_message_type := Some 3,
      opt_server_ip_address := Some a, opt_lease_time := Some c\<rparr>)"
    by (simp add: unpack_option_def unpack_option_u8_def byte_at_def no_options_def)
  ultimately show ?thesis unfolding request_options unpack_all_options_def by simp
qed

lemma drop_at_offset:
  "k \<le> n \<Longrightarrow> k \<le> length buf \<Longrightarrow> drop n (at_offset k f buf) = drop (n - k) (f (drop k buf))"
  by (simp add: at_offset_def)

lemma drop_pack_headers:
  "20 \<le> n \<Longrightarrow> drop n (pack_ip_header sz buf) = drop n buf"
  "6 \<le> n \<Longrightarrow> drop n (pack_udp_header sz buf) = drop n buf"
  by (simp_all add: pack_ip_header_def pack_udp_header_def Let_def)

lemma headers_tail:
  "drop 268 (at_offset 28 (pack_dhcp_fixed mac t) (at_offset 20 (pack_udp_header n)
      (pack_ip_header m (replicate 604 0)))) = 53 # 1 # t # replicate 333 0"
  by (simp add: drop_at_offset pack_dhcp_fixed_tail drop_pack_headers)

lemma request_packet_options:
  "drop 268 (request_packet self) = [53, 1, 3] @ pack_dhcp_request self (replicate 333 0)"
  "drop 240 (unicast_request_packet self) = [53, 1, 3] @ pack_dhcp_request self (replicate 333 0)"
  "drop 268 (discover_packet self)
     = [53, 1, 1, 57, 2, 4, 0, 55, 3, 1, 6, 3, 255] @ replicate 323 0"
proof -
  let ?b = "\<lambda>t. at_offset 28 (pack_dhcp_fixed (mac_address self) t) (at_offset 20 (pack_udp_header 584)
      (pack_ip_header 604 (replicate 604 0)))"
  have t: "drop 268 (at_offset 271 f b) = take 3 (drop 268 b) @ f (drop 3 (drop 268 b))"
    if "length b = 604" for f and b :: bytes
    using that by (simp add: at_offset_def drop_take)
  show "drop 268 (request_packet self) = [53, 1, 3] @ pack_dhcp_request self (replicate 333 0)"
    unfolding request_packet_def Let_def using t [of "?b 3"] headers_tail by simp
  let ?u = "pack_dhcp_fixed (mac_address self) 3 (replicate 576 0)"
  have u: "drop 240 ?u = 53 # 1 # 3 # replicate 333 0" by (simp add: pack_dhcp_fixed_tail)
  moreover have "drop 243 ?u = replicate 333 0" using drop_drop [of 3 240 ?u] u by simp
  moreover have "drop 240 (at_offset 243 f b) = take 3 (drop 240 b) @ f (drop 3 (drop 240 b))"
    if "length b = 576" for f and b :: bytes
    using that by (simp add: at_offset_def drop_take)
  ultimately show "drop 240 (unicast_request_packet self) = [53, 1, 3] @ pack_dhcp_request self (replicate 333 0)"
    unfolding unicast_request_packet_def Let_def by simp
  have "replicate 10 (0::u8) = [0, 0, 0, 0, 0, 0, 0, 0, 0, 0]" by (simp add: numeral_eq_Suc)
  moreover have "replicate 333 (0::u8) = replicate 10 0 @ replicate 323 0" by (simp flip: replicate_add)
  ultimately have "drop 268 (?b 1) = [53, 1, 1, 0, 0, 0, 0, 0, 0, 0, 0, 0, 0] @ replicate 323 0"
    using headers_tail [of "mac_address self" 1 584 604] by simp
  then show "drop 268 (discover_packet self)
     = [53, 1, 1, 57, 2, 4, 0, 55, 3, 1, 6, 3, 255] @ replicate 323 0"
    unfolding discover_packet_def Let_def by (simp add: drop_update_swap)
qed

text \<open>The length fields and ports of the broadcast packets.\<close>

lemma take_at_offset: "n \<le> k \<Longrightarrow> k \<le> length buf \<Longrightarrow> take n (at_offset k f buf) = take n buf"
  by (simp add: at_offset_def min_def)

lemma is_ip_valid_take:
  assumes "take 20 a = take 20 b" and "20 \<le> length a" and "20 \<le> length b"
  shows "is_ip_valid a = is_ip_valid b"
proof -
  have "a ! i = b ! i" if "i < 20" for i using assms(1) that by (metis nth_take)
  then show ?thesis using assms checksum_take [of a] checksum_take [of b]
    by (simp add: is_ip_valid_Inr)
qed

lemma broadcast_packet_headers:
  assumes "p = request_packet self \<or> p = discover_packet self"
  shows "length p = 604" and "is_ip_valid p = Inr True"
proof -
  let ?h = "pack_ip_header 604 (replicate 604 0)"
  have "length p = 604 \<and> take 20 p = take 20 ?h"
    using assms
  proof
    assume "p = request_packet self"
    then show ?thesis by (simp add: request_packet_def Let_def take_at_offset)
  next
    assume "p = discover_packet self"
    then show ?thesis by (simp add: discover_packet_def Let_def take_at_offset)
  qed
  then show "length p = 604" and "is_ip_valid p = Inr True"
    using is_ip_valid_take [of p ?h] pack_ip_header_valid [of "replicate 604 0" 604] by auto
qed

section \<open>The properties\<close>

text \<open>
  C7: whatever bytes are received, the parser never reads outside them, and it changes nothing
  unless the packet is for this client: with a packet socket the IP header verifies and is a
  broadcast from the server port to the client port, the BOOTP part is a reply with this
  client's hardware address and the DHCP magic cookie, and the options parse; then exactly the
  message named by the options is applied.
\<close>

theorem dhcp_unpack_packet_safe:
  assumes "length (mac_address self) = 6"
    and "b = (if is_packet_socket self then drop 28 buf else buf)"
  shows "\<exists>self' s'. unpack_packet self s buf = Inr (self', s')
    \<and> (self' = self
       \<or> (is_packet_socket self \<longrightarrow> ip_ok buf) \<and> bootp_ok self b
          \<and> (\<exists>opts. unpack_all_options (drop 240 b) = Some opts \<and> self' = apply_message self b opts))"
proof -
  obtain s' where b: "unpack_bootp self s b = Inr
    (if bootp_ok self b
     then case unpack_options s (drop 240 b) of
            (None, s) \<Rightarrow> (self, s) | (Some opts, s) \<Rightarrow> (apply_message self b opts, s)
     else (self, s'))"
    using unpack_bootp_Inr [OF assms(1)] by blast
  then obtain self' s1 where r: "unpack_bootp self s b = Inr (self', s1)"
    "self' = self \<or> bootp_ok self b
        \<and> (\<exists>opts. unpack_all_options (drop 240 b) = Some opts \<and> self' = apply_message self b opts)"
    by (auto simp: unpack_options_def split: if_splits prod.splits option.splits)
  show ?thesis
  proof (cases "is_packet_socket self \<and> \<not> ip_ok buf")
    case True
    then show ?thesis by (auto simp: unpack_packet_def is_packet_valid_Inr)
  next
    case False
    then have "unpack_packet self s buf = Inr (self', s1)"
      using r(1) assms(2) by (auto simp: unpack_packet_def is_packet_valid_Inr)
    then show ?thesis using r(2) False by auto
  qed
qed

definition example_client :: ml_dhcp_client_t where
  "example_client = \<lparr>state = Init, packet_type = No_packet, ip_address = 0, subnet_mask = 0,
     gateway = 0, dns = 0, lease_time = 0, renewal_interval = 0, rebinding_time = 0,
     renewal_timer_expired = False, rebinding_timer_expired = False, response_timer_expired = False,
     init_timer_expired = False, is_packet_socket = False,
     fds = [\<lparr>fd = 3, revents = 0\<rparr>, \<lparr>fd = 4, revents = 0\<rparr>, \<lparr>fd = 5, revents = 0\<rparr>,
            \<lparr>fd = 6, revents = 0\<rparr>, \<lparr>fd = 7, revents = 0\<rparr>],
     server_ip_address = 0, name_p = ''eth0'', if_index = 2, mac_address = [1, 2, 3, 4, 5, 6]\<rparr>"

definition example_os :: os where
  "example_os = \<lparr>trace = [], result = (\<lambda>_. 1), input = (\<lambda>_. [])\<rparr>"

theorem dhcp_unpack_packet_safe_witness:
  "\<exists>s'. unpack_packet example_client example_os [2, 1] = Inr (example_client, s')"
  using dhcp_unpack_packet_safe [of example_client "[2, 1]" "[2, 1]" example_os]
  by (auto simp: example_client_def bootp_ok_def)


text \<open>
  The packets the client broadcasts are 604 bytes with a valid IP header for the broadcast
  address, and parse back to what was packed: a discover to message type 1 and a request, also
  the unicast one, to message type 3, the server it answers and the lease time asked for.
\<close>

theorem dhcp_packets_parse_back:
  "length (discover_packet self) = 604 \<and> is_ip_valid (discover_packet self) = Inr True
   \<and> length (request_packet self) = 604 \<and> is_ip_valid (request_packet self) = Inr True
   \<and> map_option opt_message_type (unpack_all_options (drop 268 (discover_packet self))) = Some (Some 1)
   \<and> unpack_all_options (drop 268 (request_packet self))
       = Some (no_options\<lparr>opt_message_type := Some 3, opt_server_ip_address := Some (server_ip_address self),
                 opt_lease_time := Some (word_of_int (lease_time self))\<rparr>)
   \<and> unpack_all_options (drop 240 (unicast_request_packet self))
       = unpack_all_options (drop 268 (request_packet self))"
proof -
  let ?os = "[(53, [1]), (57, [4, 0]), (55, [1, 6, 3])] :: (u8 \<times> bytes) list"
  have l: "unpack_options_loop no_options (encode_options ?os @ 255 # replicate 323 0)
      = fold_options no_options ?os"
    by (rule unpack_encoded) (auto simp: option_ok_def)
  have e: "encode_options ?os @ 255 # replicate 323 0
      = [53, 1, 1, 57, 2, 4, 0, 55, 3, 1, 6, 3, 255] @ replicate 323 0" by simp
  have f: "fold_options no_options ?os = Some (no_options\<lparr>opt_message_type := Some 1\<rparr>)"
    by (simp add: unpack_option_def unpack_option_u8_def byte_at_def)
  have d: "map_option opt_message_type (unpack_all_options (drop 268 (discover_packet self))) = Some (Some 1)"
    unfolding request_packet_options unpack_all_options_def e [symmetric] l f by simp
  have r: "unpack_all_options (drop 268 (request_packet self))
       = Some (no_options\<lparr>opt_message_type := Some 3, opt_server_ip_address := Some (server_ip_address self),
                 opt_lease_time := Some (word_of_int (lease_time self))\<rparr>)"
    unfolding request_packet_options using unpack_request_options
    by (simp add: pack_dhcp_request_bytes)
  show ?thesis
    using d r broadcast_packet_headers [of "request_packet self" self]
      broadcast_packet_headers [of "discover_packet self" self]
    unfolding request_packet_options by simp
qed

end
