(* ===== verification/Ml_Dhcp_Client.thy ===== *)
theory Ml_Dhcp_Client
  imports Ml_Dhcp_Packet
begin

unbundle bit_operations_syntax

text \<open>
  The state machine of the DHCP client, \<open>src/src/ml_dhcp_client.c\<close>: sockets and timers are
  descriptors of the operating system layer, every handler takes the client and the layer's
  state and returns both. A log line has no effect on either. The theorems say which transitions
  the handlers make and on which events, that a started client always has a timer running that
  will wake it up, that a failed start closes what it opened, and where the code falls short.
\<close>

section \<open>Events\<close>

definition is_offer :: "ml_dhcp_client_t \<Rightarrow> bool" where
  "is_offer self \<longleftrightarrow> packet_type self = Offer"

definition is_ack :: "ml_dhcp_client_t \<Rightarrow> bool" where
  "is_ack self \<longleftrightarrow> packet_type self = Ack"

definition is_nak :: "ml_dhcp_client_t \<Rightarrow> bool" where
  "is_nak self \<longleftrightarrow> packet_type self = Nak"

definition is_response_timeout :: "ml_dhcp_client_t \<Rightarrow> bool" where
  "is_response_timeout self = response_timer_expired self"

definition is_renewal_timeout :: "ml_dhcp_client_t \<Rightarrow> bool" where
  "is_renewal_timeout self = renewal_timer_expired self"

definition is_rebinding_timeout :: "ml_dhcp_client_t \<Rightarrow> bool" where
  "is_rebinding_timeout self = rebinding_timer_expired self"

definition is_init_timeout :: "ml_dhcp_client_t \<Rightarrow> bool" where
  "is_init_timeout self = init_timer_expired self"

section \<open>Sockets, timers and the interface\<close>

abbreviation fd_at :: "ml_dhcp_client_t \<Rightarrow> nat \<Rightarrow> int" where
  "fd_at self i \<equiv> fd (fds self ! i)"

abbreviation SOCK_IX :: nat where "SOCK_IX \<equiv> 0"
abbreviation RENEW_IX :: nat where "RENEW_IX \<equiv> 1"
abbreviation REBIND_IX :: nat where "REBIND_IX \<equiv> 2"
abbreviation RESP_IX :: nat where "RESP_IX \<equiv> 3"
abbreviation INIT_IX :: nat where "INIT_IX \<equiv> 4"

type_synonym dhcp = "ml_dhcp_client_t \<times> os"

definition init_pollfd :: "nat \<Rightarrow> int \<Rightarrow> ml_dhcp_client_t \<Rightarrow> ml_dhcp_client_t" where
  "init_pollfd i f self = self\<lparr>fds := (fds self)[i := (fds self ! i)\<lparr>fd := f\<rparr>]\<rparr>"

definition setup_packet_socket :: "dhcp \<Rightarrow> int \<times> dhcp" where
  "setup_packet_socket = (\<lambda>(self, s).
     let (sock, s) = sys s (Socket AF_PACKET)
     in if sock = - 1 then (- 1, self, s)
        else let (res, s) = sys s (Bind sock AF_PACKET (if_index self))
             in if res \<noteq> 0 then (let (_, s) = sys s (Close sock) in (res, self, s))
                else let (res, s) = sys s (Set_broadcast sock)
                     in if res \<noteq> 0 then (let (_, s) = sys s (Close sock) in (res, self, s))
                        else (0, init_pollfd SOCK_IX sock (self\<lparr>is_packet_socket := True\<rparr>), s))"

definition setup_udp_socket :: "dhcp \<Rightarrow> int \<times> dhcp" where
  "setup_udp_socket = (\<lambda>(self, s).
     let (sock, s) = sys s (Socket AF_INET)
     in if sock = - 1 then (- 1, self, s)
        else let (res, s) = sys s (Bind sock AF_INET 68)
             in if res \<noteq> 0 then (let (_, s) = sys s (Close sock) in (res, self, s))
                else (0, init_pollfd SOCK_IX sock (self\<lparr>is_packet_socket := False\<rparr>), s))"

text \<open>An address in network byte order is stored low byte first on a little-endian host.\<close>

definition inet_ntoa :: "u32 \<Rightarrow> string" where
  "inet_ntoa a =
     show_nat (unat (ucast a :: u8)) @ ''.'' @ show_nat (unat (ucast (drop_bit 8 a) :: u8)) @ ''.''
     @ show_nat (unat (ucast (drop_bit 16 a) :: u8)) @ ''.'' @ show_nat (unat (ucast (drop_bit 24 a) :: u8))"

definition configure_interface :: "dhcp \<Rightarrow> dhcp" where
  "configure_interface = (\<lambda>(self, s).
     let (_, s) = sys s (Interface_configure (name_p self) (inet_ntoa (ip_address self))
                    (inet_ntoa (subnet_mask self)) 1500);
         (_, s) = sys s (Interface_add_route (name_p self) (inet_ntoa (gateway self)))
     in (self, s))"

text \<open>\<open>POLLIN\<close> is bit 0 of \<open>revents\<close> and \<open>POLLERR\<close> bit 3.\<close>

definition is_timeout :: "pollfd \<Rightarrow> os \<Rightarrow> bool \<times> os" where
  "is_timeout p s =
     (if bit (revents p) 0
      then let (n, _, s) = sys_read s (fd p) 8 in (n = 8, s)
      else (False, s))"

definition update_events :: "dhcp \<Rightarrow> dhcp res" where
  "update_events = (\<lambda>(self, s).
     let self = self\<lparr>packet_type := No_packet\<rparr>
     in andthen
          (if bit (revents (fds self ! SOCK_IX)) 3 then (let (_, s) = sys s (Sleep 1) in Inr (self, s))
           else if bit (revents (fds self ! SOCK_IX)) 0
           then let (n, buf, s) = sys_read s (fd_at self SOCK_IX) 1024
                in if n > 0 then unpack_packet self s buf else Inr (self, s)
           else Inr (self, s)) (\<lambda>(self, s).
        let (renewal, s) = is_timeout (fds self ! RENEW_IX) s;
            (rebinding, s) = is_timeout (fds self ! REBIND_IX) s;
            (response, s) = is_timeout (fds self ! RESP_IX) s;
            (initial, s) = is_timeout (fds self ! INIT_IX) s
        in Inr (self\<lparr>renewal_timer_expired := renewal, rebinding_timer_expired := rebinding,
                  response_timer_expired := response, init_timer_expired := initial\<rparr>, s)))"

definition set_timer :: "int \<Rightarrow> int \<Rightarrow> int \<Rightarrow> os \<Rightarrow> int \<times> os" where
  "set_timer f seconds nanoseconds s = sys s (Timerfd_settime f seconds nanoseconds)"

definition set_renewal_timer :: "dhcp \<Rightarrow> int \<times> dhcp" where
  "set_renewal_timer = (\<lambda>(self, s).
     let (r, s) = set_timer (fd_at self RENEW_IX) (renewal_interval self) 0 s in (r, self, s))"

definition set_rebinding_timer :: "dhcp \<Rightarrow> int \<times> dhcp" where
  "set_rebinding_timer = (\<lambda>(self, s).
     let (r, s) = set_timer (fd_at self REBIND_IX) (rebinding_time self) 0 s in (r, self, s))"

definition set_response_timer :: "dhcp \<Rightarrow> int \<times> dhcp" where
  "set_response_timer = (\<lambda>(self, s).
     let (r, s) = set_timer (fd_at self RESP_IX) 5 0 s in (r, self, s))"

definition cancel_rebinding_timer :: "dhcp \<Rightarrow> dhcp" where
  "cancel_rebinding_timer = (\<lambda>(self, s).
     let (_, s) = set_timer (fd_at self REBIND_IX) 0 0 s in (self, s))"

definition cancel_response_timer :: "dhcp \<Rightarrow> dhcp" where
  "cancel_response_timer = (\<lambda>(self, s).
     let (_, s) = set_timer (fd_at self RESP_IX) 0 0 s in (self, s))"

definition set_init_timer :: "int \<Rightarrow> int \<Rightarrow> dhcp \<Rightarrow> int \<times> dhcp" where
  "set_init_timer seconds nanoseconds = (\<lambda>(self, s).
     let (r, s) = set_timer (fd_at self INIT_IX) seconds nanoseconds s in (r, self, s))"

section \<open>Sending\<close>

definition send_packet :: "bytes \<Rightarrow> dhcp \<Rightarrow> bool \<times> dhcp" where
  "send_packet buf = (\<lambda>(self, s).
     let (res, s) = sys s (Sendto (fd_at self SOCK_IX) buf (To_address (server_ip_address self) 67))
     in if res = int (length buf)
        then let (res, d) = set_response_timer (self, s) in (res \<noteq> - 1, d)
        else (False, self, s))"

definition broadcast_packet :: "bytes \<Rightarrow> dhcp \<Rightarrow> bool \<times> dhcp" where
  "broadcast_packet buf = (\<lambda>(self, s).
     let (res, s) = sys s (Sendto (fd_at self SOCK_IX) buf (To_interface (if_index self)))
     in if res = int (length buf)
        then let (res, d) = set_response_timer (self, s) in (res \<noteq> - 1, d)
        else (False, self, s))"

definition broadcast_discover :: "dhcp \<Rightarrow> bool \<times> dhcp" where
  "broadcast_discover d = broadcast_packet (discover_packet (fst d)) d"

definition broadcast_request :: "dhcp \<Rightarrow> bool \<times> dhcp" where
  "broadcast_request d = broadcast_packet (request_packet (fst d)) d"

definition send_request :: "dhcp \<Rightarrow> bool \<times> dhcp" where
  "send_request d = send_packet (unicast_request_packet (fst d)) d"

section \<open>States\<close>

definition change_state :: "ml_dhcp_client_state_t \<Rightarrow> dhcp \<Rightarrow> dhcp" where
  "change_state st = (\<lambda>(self, s). (self\<lparr>state := st\<rparr>, s))"

definition close_socket :: "dhcp \<Rightarrow> dhcp" where
  "close_socket = (\<lambda>(self, s). let (_, s) = sys s (Close (fd_at self SOCK_IX)) in (self, s))"

definition enter_init :: "dhcp \<Rightarrow> dhcp" where
  "enter_init d =
     (let d = cancel_response_timer d;
          d = cancel_rebinding_timer d;
          (_, d) = set_init_timer 10 0 d;
          d = close_socket d;
          (_, d) = setup_packet_socket d
      in change_state Init d)"

definition enter_selecting :: "dhcp \<Rightarrow> dhcp" where
  "enter_selecting d = change_state Selecting d"

definition enter_requesting :: "dhcp \<Rightarrow> dhcp" where
  "enter_requesting d = change_state Requesting d"

definition enter_bound :: "dhcp \<Rightarrow> dhcp" where
  "enter_bound d =
     (let d = cancel_response_timer d;
          (_, d) = set_renewal_timer d;
          (_, d) = set_rebinding_timer d;
          d = configure_interface d;
          d = close_socket d;
          d = change_state Bound d;
          (res, d) = setup_udp_socket d
      in if res \<noteq> 0 then enter_init d else d)"

definition enter_renewing :: "dhcp \<Rightarrow> dhcp" where
  "enter_renewing d = change_state Renewing d"

definition process_events_init :: "dhcp \<Rightarrow> dhcp" where
  "process_events_init d =
     (if is_init_timeout (fst d)
      then let (ok, d) = broadcast_discover d
           in if ok then enter_selecting d else snd (set_init_timer 10 0 d)
      else d)"

definition process_events_selecting :: "dhcp \<Rightarrow> dhcp" where
  "process_events_selecting d =
     (if is_offer (fst d)
      then let (ok, d) = broadcast_request d in if ok then enter_requesting d else enter_init d
      else if is_response_timeout (fst d) then enter_init d
      else d)"

definition process_events_requesting :: "dhcp \<Rightarrow> dhcp" where
  "process_events_requesting d =
     (if is_ack (fst d) then enter_bound d
      else if is_nak (fst d) then enter_init d
      else if is_response_timeout (fst d) then enter_init d
      else d)"

definition process_events_bound :: "dhcp \<Rightarrow> dhcp" where
  "process_events_bound d =
     (if is_renewal_timeout (fst d)
      then let (ok, d) = send_request d in if ok then enter_renewing d else enter_init d
      else d)"

definition process_events_renewing :: "dhcp \<Rightarrow> dhcp" where
  "process_events_renewing d =
     (if is_ack (fst d) then enter_bound d
      else if is_nak (fst d) then enter_init d
      else if is_response_timeout (fst d) then enter_init d
      else if is_rebinding_timeout (fst d) then enter_init d
      else d)"

definition process_events :: "dhcp \<Rightarrow> dhcp" where
  "process_events d =
     (case state (fst d) of
        Init \<Rightarrow> process_events_init d
      | Selecting \<Rightarrow> process_events_selecting d
      | Requesting \<Rightarrow> process_events_requesting d
      | Bound \<Rightarrow> process_events_bound d
      | Renewing \<Rightarrow> process_events_renewing d)"

section \<open>Starting and running\<close>

definition setup_timer :: "nat \<Rightarrow> dhcp \<Rightarrow> int \<times> dhcp" where
  "setup_timer i = (\<lambda>(self, s).
     let (f, s) = sys s Timerfd_create
     in if f \<noteq> - 1 then (0, init_pollfd i f self, s) else (f, self, s))"

definition close_at :: "nat \<Rightarrow> dhcp \<Rightarrow> dhcp" where
  "close_at i = (\<lambda>(self, s). let (_, s) = sys s (Close (fd_at self i)) in (self, s))"

text \<open>
  The calls of \<open>ml_network_interface_index\<close> and \<open>ml_network_interface_mac_address\<close> deliver the
  index and the address as input.
\<close>

definition init_interface :: "dhcp \<Rightarrow> int \<times> dhcp" where
  "init_interface = (\<lambda>(self, s).
     let k = length (trace s);
         (res, s) = sys s (Interface_index (name_p self))
     in if res \<noteq> 0 then (res, self, s)
        else
     let self = self\<lparr>if_index := sint (be32 (byte_at (input s k) 3) (byte_at (input s k) 2)
                  (byte_at (input s k) 1) (byte_at (input s k) 0))\<rparr>;
         k = length (trace s);
         (res, s) = sys s (Interface_mac_address (name_p self))
     in if res \<noteq> 0 then (res, self, s)
        else (res, self\<lparr>mac_address := map (byte_at (input s k)) [0..<6]\<rparr>, s))"

definition init_timers :: "dhcp \<Rightarrow> int \<times> dhcp" where
  "init_timers d =
     (let (res, d) = setup_timer RENEW_IX d
     in if res \<noteq> 0 then (res, close_at SOCK_IX d)
        else
     let (res, d) = setup_timer REBIND_IX d
     in if res \<noteq> 0 then (res, close_at SOCK_IX (close_at RENEW_IX d))
        else
     let (res, d) = setup_timer RESP_IX d
     in if res \<noteq> 0 then (res, close_at SOCK_IX (close_at RENEW_IX (close_at REBIND_IX d)))
        else
     let (res, d) = setup_timer INIT_IX d
     in if res \<noteq> 0
        then (res, close_at SOCK_IX (close_at RENEW_IX (close_at REBIND_IX (close_at RESP_IX d))))
        else (res, d))"

definition init :: "dhcp \<Rightarrow> int \<times> dhcp" where
  "init d =
     (let (res, d) = init_interface d
      in if res \<noteq> 0 then (res, d)
         else
      let (res, d) = setup_packet_socket d
      in if res \<noteq> 0 then (res, d)
         else init_timers d)"

definition destroy :: "dhcp \<Rightarrow> dhcp" where
  "destroy d = foldl (\<lambda>d i. close_at i d) d [0..<length (fds (fst d))]"

text \<open>One round of \<open>client_main\<close>; \<open>False\<close> when the loop ends because the poll failed.\<close>

definition client_round :: "dhcp \<Rightarrow> (bool \<times> dhcp) res" where
  "client_round = (\<lambda>(self, s).
     let (res, evs, s) = sys_poll s (map fd (fds self));
         self = self\<lparr>fds := map (\<lambda>(p, e). p\<lparr>revents := e\<rparr>) (zip (fds self) evs)\<rparr>
     in if res \<le> 0 then Inr (False, self, s)
        else andthen (update_events (self, s)) (\<lambda>d. Inr (True, process_events d)))"

fun client_main :: "nat \<Rightarrow> dhcp \<Rightarrow> dhcp res" where
  "client_main 0 d = Inr d"
| "client_main (Suc n) d =
     andthen (client_round d) (\<lambda>(go, d). if go then client_main n d else Inr d)"

definition ml_dhcp_client_init :: "string \<Rightarrow> ml_dhcp_client_t \<Rightarrow> ml_dhcp_client_t" where
  "ml_dhcp_client_init interface_name self = self\<lparr>name_p := interface_name, state := Init\<rparr>"

definition ml_dhcp_client_start :: "dhcp \<Rightarrow> int \<times> dhcp" where
  "ml_dhcp_client_start d =
     (let (res, d) = init d
      in if res = 0
         then let (_, d) = set_init_timer 0 1 d;
                  (self, s) = d;
                  (res, s) = sys s Pthread_create
              in if res \<noteq> 0 then (res, destroy (self, s)) else (res, self, s)
         else (res, d))"

definition ml_dhcp_client_stop :: "dhcp \<Rightarrow> dhcp" where
  "ml_dhcp_client_stop d = destroy d"

definition ml_dhcp_client_join :: "dhcp \<Rightarrow> int \<times> dhcp" where
  "ml_dhcp_client_join = (\<lambda>(self, s). let (r, s) = sys s Pthread_join in (r, self, s))"

section \<open>Timers that keep the client running\<close>

text \<open>The timer calls of a trace that were refused by the kernel would leave a timer unarmed.\<close>

definition settime_ok :: "os \<Rightarrow> bool" where
  "settime_ok s \<longleftrightarrow> (\<forall>f a b r. (Timerfd_settime f a b, r) \<in> set (trace s) \<longrightarrow> r = 0)"

text \<open>In every state the timer whose expiration the state waits for is armed.\<close>

definition live :: "dhcp \<Rightarrow> bool" where
  "live = (\<lambda>(self, s). case state self of
     Init \<Rightarrow> armed s (fd_at self INIT_IX)
   | Bound \<Rightarrow> armed s (fd_at self RENEW_IX)
   | _ \<Rightarrow> armed s (fd_at self RESP_IX))"

definition timers_distinct :: "ml_dhcp_client_t \<Rightarrow> bool" where
  "timers_distinct self \<longleftrightarrow> length (fds self) = 5
     \<and> distinct [fd_at self RENEW_IX, fd_at self REBIND_IX, fd_at self RESP_IX, fd_at self INIT_IX]"

text \<open>The same after the expirations of this round were read into the flags.\<close>

definition awake :: "dhcp \<Rightarrow> bool" where
  "awake = (\<lambda>(self, s). case state self of
     Init \<Rightarrow> armed s (fd_at self INIT_IX) \<or> init_timer_expired self
   | Bound \<Rightarrow> armed s (fd_at self RENEW_IX) \<or> renewal_timer_expired self
   | _ \<Rightarrow> armed s (fd_at self RESP_IX) \<or> response_timer_expired self)"

lemmas dhcp_call_defs = sys_def set_timer_def set_renewal_timer_def set_rebinding_timer_def
  set_response_timer_def cancel_rebinding_timer_def cancel_response_timer_def set_init_timer_def
  close_socket_def setup_packet_socket_def setup_udp_socket_def configure_interface_def
  change_state_def init_pollfd_def

lemma enter_init_live:
  assumes "timers_distinct self" and "enter_init (self, s) = (self', s')" and "settime_ok s'"
  shows "live (self', s') \<and> state self' = Init \<and> timers_distinct self'"
  using assms
  by (auto simp: enter_init_def dhcp_call_defs Let_def live_def armed_def settime_ok_def
      timers_distinct_def split: if_splits)

lemma enter_init_trace: "\<exists>es. trace (snd (enter_init (self, s))) = trace s @ es"
  by (auto simp: enter_init_def dhcp_call_defs Let_def)

lemma setup_udp_fields:
  assumes "setup_udp_socket (self, s) = (res, self', s')"
  shows "\<exists>es. trace s' = trace s @ es \<and> (\<forall>fd b. foldl (armed_step fd) b es = b)"
    and "state self' = state self" and "timers_distinct self' = timers_distinct self"
    and "length (fds self) = 5 \<Longrightarrow> 0 < i \<Longrightarrow> fd_at self' i = fd_at self i"
  using assms by (auto simp: setup_udp_socket_def sys_def Let_def init_pollfd_def timers_distinct_def
      split: if_splits)

text \<open>\<open>enter_bound\<close> up to the setup of the UDP socket.\<close>

definition bind_lease :: "dhcp \<Rightarrow> dhcp" where
  "bind_lease d =
     (let d = cancel_response_timer d;
          (_, d) = set_renewal_timer d;
          (_, d) = set_rebinding_timer d;
          d = configure_interface d;
          d = close_socket d
      in change_state Bound d)"

lemma enter_bound_bind_lease:
  "enter_bound d = (let (res, d) = setup_udp_socket (bind_lease d) in if res \<noteq> 0 then enter_init d else d)"
  by (simp add: enter_bound_def bind_lease_def Let_def split: prod.splits)

lemma bind_lease_live:
  assumes "timers_distinct self" and "bind_lease (self, s) = (self', s')" and "settime_ok s'"
    and "renewal_interval self \<noteq> 0"
  shows "live (self', s') \<and> timers_distinct self' \<and> state self' = Bound"
  using assms
  by (auto simp: bind_lease_def dhcp_call_defs Let_def live_def armed_def settime_ok_def
      timers_distinct_def)

lemma settime_ok_prefix: "trace s' = trace s @ es \<Longrightarrow> settime_ok s' \<Longrightarrow> settime_ok s"
  by (simp add: settime_ok_def)

lemma enter_bound_live:
  assumes "timers_distinct self" and "enter_bound (self, s) = (self', s')" and "settime_ok s'"
    and "renewal_interval self \<noteq> 0"
  shows "live (self', s') \<and> timers_distinct self'"
proof -
  obtain self1 s1 where 1: "bind_lease (self, s) = (self1, s1)" by fastforce
  obtain res self2 s2 where 2: "setup_udp_socket (self1, s1) = (res, self2, s2)" using prod_cases3 by blast
  obtain es where es: "trace s2 = trace s1 @ es" "\<And>fd b. foldl (armed_step fd) b es = b"
    using setup_udp_fields(1) [OF 2] by blast
  show ?thesis
  proof (cases "res = 0")
    case True
    then have eq: "self' = self2" "s' = s2" using assms(2) 1 2 by (auto simp: enter_bound_bind_lease)
    have "settime_ok s1" using settime_ok_prefix [OF es(1)] assms(3) eq by simp
    then have l: "live (self1, s1)" "timers_distinct self1" "state self1 = Bound"
      using bind_lease_live [OF assms(1) 1 _ assms(4)] by auto
    then show ?thesis using setup_udp_fields(2,3) [OF 2] setup_udp_fields(4) [OF 2, of 1] es
      by (auto simp: eq live_def armed_def timers_distinct_def)
  next
    case False
    then have e: "enter_init (self2, s2) = (self', s')" using assms(2) 1 2 by (simp add: enter_bound_bind_lease)
    obtain fs where fs: "trace s' = trace s2 @ fs" using enter_init_trace [of self2 s2] e by auto
    have "settime_ok s1" using settime_ok_prefix [of s' s1 "es @ fs"] fs es(1) assms(3) by simp
    then have "timers_distinct self2"
      using bind_lease_live [OF assms(1) 1 _ assms(4)] setup_udp_fields(3) [OF 2] by simp
    then show ?thesis using enter_init_live [OF _ e assms(3)] by blast
  qed
qed

text \<open>Both ways of sending a packet: what was sent arms the response timer.\<close>

definition sends :: "dhcp \<Rightarrow> bool \<times> dhcp \<Rightarrow> bool" where
  "sends d r \<longleftrightarrow> (\<exists>buf. r = broadcast_packet buf d \<or> r = send_packet buf d)"

lemma sends_self: "sends (self, s) (ok, self', s') \<Longrightarrow> self' = self"
  by (auto simp: sends_def broadcast_packet_def send_packet_def dhcp_call_defs Let_def split: if_splits)

lemma sends_armed:
  "sends (self, s) (True, self', s') \<Longrightarrow> settime_ok s' \<Longrightarrow> armed s' (fd_at self RESP_IX)"
  by (auto simp: sends_def broadcast_packet_def send_packet_def dhcp_call_defs Let_def armed_def
      settime_ok_def split: if_splits)

lemma sends_discover: "sends d (broadcast_discover d)"
  by (auto simp: sends_def broadcast_discover_def)

lemma sends_request: "sends d (broadcast_request d)" "sends d (send_request d)"
  by (auto simp: sends_def broadcast_request_def send_request_def)

text \<open>A state that is entered by sending a packet, or left for \<open>Init\<close> when that fails.\<close>

lemma send_and_enter_live:
  assumes "timers_distinct self" and "sends (self, s) r" and "settime_ok s'"
    and "(let (ok, d) = r in if ok then change_state st d else enter_init d) = (self', s')"
    and "st \<noteq> Init" and "st \<noteq> Bound"
  shows "live (self', s') \<and> timers_distinct self'"
proof -
  obtain ok self1 s1 where r: "r = (ok, self1, s1)" using prod_cases3 by blast
  have self1: "self1 = self" using sends_self assms(2) r by blast
  show ?thesis
  proof (cases ok)
    case True
    then have "self' = self\<lparr>state := st\<rparr>" "s' = s1" using assms(4) r self1 by (auto simp: change_state_def)
    then show ?thesis using sends_armed [of self s self1 s1] assms True r
      by (cases st) (auto simp: live_def timers_distinct_def)
  next
    case False
    then have "enter_init (self, s1) = (self', s')" using assms(4) r self1 by simp
    then show ?thesis using enter_init_live [OF assms(1) _ assms(3)] by blast
  qed
qed

lemma process_events_live:
  assumes "timers_distinct self" and "awake (self, s)" and "process_events (self, s) = (self', s')"
    and "settime_ok s'" and "renewal_interval self \<noteq> 0"
  shows "live (self', s') \<and> timers_distinct self'"
proof -
  have init: "live (self', s') \<and> timers_distinct self'" if "enter_init (self, s) = (self', s')"
    using enter_init_live [OF assms(1) that assms(4)] by blast
  have bound: "live (self', s') \<and> timers_distinct self'" if "enter_bound (self, s) = (self', s')"
    using enter_bound_live [OF assms(1) that assms(4,5)] .
  note enter = send_and_enter_live [OF assms(1) _ assms(4)]
  show ?thesis
  proof (cases "state self")
    case Init
    obtain ok self1 s1 where r: "broadcast_discover (self, s) = (ok, self1, s1)" using prod_cases3 by blast
    have self1: "self1 = self" using sends_self sends_discover r by metis
    show ?thesis
    proof (cases "init_timer_expired self \<and> \<not> ok")
      case True
      then have "(self', s') = snd (set_init_timer 10 0 (self, s1))"
        using assms(3) Init r self1 by (simp add: process_events_def process_events_init_def is_init_timeout_def)
      then show ?thesis using assms(1,4) Init
        by (auto simp: dhcp_call_defs Let_def live_def armed_def settime_ok_def timers_distinct_def)
    next
      case False
      show ?thesis
      proof (cases "init_timer_expired self")
        case True
        then have "(let (ok, d) = broadcast_discover (self, s)
            in if ok then change_state Selecting d else enter_init d) = (self', s')"
          using assms(3) Init r False
          by (simp add: process_events_def process_events_init_def is_init_timeout_def enter_selecting_def)
        then show ?thesis by (rule enter [OF sends_discover]) simp_all
      next
        case False
        then show ?thesis using assms(1-3) Init
          by (auto simp: process_events_def process_events_init_def is_init_timeout_def live_def awake_def)
      qed
    qed
  next
    case Selecting
    then show ?thesis
      using assms(1-3) init enter [OF sends_request(1), where self' = self' and st = Requesting]
      unfolding process_events_def process_events_selecting_def enter_requesting_def
      by (auto simp: is_response_timeout_def live_def awake_def split: if_splits)
  next
    case Requesting
    then show ?thesis using assms(1-3) init bound
      by (auto simp: process_events_def process_events_requesting_def is_response_timeout_def
          live_def awake_def split: if_splits)
  next
    case Bound
    then show ?thesis
      using assms(1-3) enter [OF sends_request(2), where self' = self' and st = Renewing]
      unfolding process_events_def process_events_bound_def enter_renewing_def
      by (auto simp: is_renewal_timeout_def live_def awake_def split: if_splits)
  next
    case Renewing
    then show ?thesis using assms(1-3) init bound
      by (auto simp: process_events_def process_events_renewing_def is_response_timeout_def
          live_def awake_def split: if_splits)
  qed
qed

lemma is_timeout_effect:
  assumes "is_timeout p s = (b, s')"
  shows "armed s' f = (armed s f \<and> \<not> (b \<and> f = fd p))" and "\<exists>es. trace s' = trace s @ es"
  using assms by (auto simp: is_timeout_def sys_read_def Let_def armed_def split: if_splits)

lemma offer_frame [simp]:
  "state (unpack_message_type_offer self opts a b c d) = state self"
  "fds (unpack_message_type_offer self opts a b c d) = fds self"
  by (simp_all add: unpack_message_type_offer_def split: option.splits)

lemma apply_message_frame [simp]:
  "state (apply_message self b opts) = state self" "fds (apply_message self b opts) = fds self"
  by (simp_all add: apply_message_def unpack_message_type_ack_def unpack_message_type_nak_def)

lemma unpack_bootp_frame:
  assumes "unpack_bootp self s buf = Inr (self', s')"
  shows "state self' = state self" and "fds self' = fds self" and "armed s' f = armed s f"
    and "\<exists>es. trace s' = trace s @ es"
  using assms
  by (auto simp: unpack_bootp_def unpack_options_def sys_def Let_def andthen_eq_Inr armed_def
      unpack_message_type_ack_def unpack_message_type_nak_def split: if_splits option.splits)

lemma unpack_packet_frame:
  assumes "unpack_packet self s buf = Inr (self', s')"
  shows "state self' = state self" and "fds self' = fds self" and "armed s' f = armed s f"
    and "\<exists>es. trace s' = trace s @ es"
  using assms unpack_bootp_frame [of self s _ self' s']
  by (auto simp: unpack_packet_def andthen_eq_Inr split: if_splits)

lemma update_events_awake:
  assumes "live (self, s)" and "timers_distinct self" and "update_events (self, s) = Inr (self', s')"
  shows "awake (self', s')" and "timers_distinct self'" and "\<exists>es. trace s' = trace s @ es"
proof -
  let ?self = "self\<lparr>packet_type := No_packet\<rparr>"
  obtain self1 s1 where 1: "(if bit (revents (fds ?self ! SOCK_IX)) 3
       then (let (_, s) = sys s (Sleep 1) in Inr (?self, s))
       else if bit (revents (fds ?self ! SOCK_IX)) 0
       then let (n, buf, s) = sys_read s (fd_at ?self SOCK_IX) 1024
            in if n > 0 then unpack_packet ?self s buf else Inr (?self, s)
       else Inr (?self, s)) = Inr (self1, s1)"
    using assms(3) unfolding update_events_def Let_def by (auto simp: andthen_eq_Inr)
  have f1: "state self1 = state self \<and> fds self1 = fds self \<and> (\<forall>f. armed s1 f = armed s f)
      \<and> (\<exists>es. trace s1 = trace s @ es)"
    using 1 unpack_packet_frame [of ?self _ _ self1 s1]
    by (auto simp: sys_def sys_read_def Let_def armed_def split: if_splits)
      (fastforce dest: unpack_packet_frame(4))
  obtain b1 s2 where 2: "is_timeout (fds self1 ! RENEW_IX) s1 = (b1, s2)" by fastforce
  obtain b2 s3 where 3: "is_timeout (fds self1 ! REBIND_IX) s2 = (b2, s3)" by fastforce
  obtain b3 s4 where 4: "is_timeout (fds self1 ! RESP_IX) s3 = (b3, s4)" by fastforce
  obtain b4 s5 where 5: "is_timeout (fds self1 ! INIT_IX) s4 = (b4, s5)" by fastforce
  have r: "self' = self1\<lparr>renewal_timer_expired := b1, rebinding_timer_expired := b2,
      response_timer_expired := b3, init_timer_expired := b4\<rparr>" "s' = s5"
    using assms(3) 1 2 3 4 5 unfolding update_events_def Let_def by auto
  note t = is_timeout_effect(1) [OF 2] is_timeout_effect(1) [OF 3] is_timeout_effect(1) [OF 4]
    is_timeout_effect(1) [OF 5]
  show "awake (self', s')"
    using assms(1,2) f1 t
    by (cases "state self") (auto simp: r live_def awake_def timers_distinct_def)
  show "timers_distinct self'" using assms(2) f1 by (simp add: r timers_distinct_def)
  show "\<exists>es. trace s' = trace s @ es"
    using f1 is_timeout_effect(2) [OF 2] is_timeout_effect(2) [OF 3] is_timeout_effect(2) [OF 4]
      is_timeout_effect(2) [OF 5] r(2) by (metis append_assoc)
qed

lemma renewal_interval_enter_init: "renewal_interval (fst (enter_init d)) = renewal_interval (fst d)"
  by (cases d) (simp add: enter_init_def dhcp_call_defs Let_def)

lemma renewal_interval_enter_bound: "renewal_interval (fst (enter_bound d)) = renewal_interval (fst d)"
proof -
  obtain res d1 where u: "setup_udp_socket (bind_lease d) = (res, d1)" by (meson surj_pair)
  then have "renewal_interval (fst d1) = renewal_interval (fst (bind_lease d))"
    by (cases "bind_lease d") (auto simp: setup_udp_socket_def sys_def init_pollfd_def Let_def split: if_splits)
  moreover have "renewal_interval (fst (bind_lease d)) = renewal_interval (fst d)"
    by (cases d) (simp add: bind_lease_def dhcp_call_defs Let_def)
  ultimately show ?thesis by (simp add: enter_bound_bind_lease u renewal_interval_enter_init)
qed

section \<open>Transitions\<close>

lemma enter_init_state: "state (fst (enter_init d)) = Init"
  by (cases d) (simp add: enter_init_def dhcp_call_defs Let_def)

lemma enter_bound_state: "state (fst (enter_bound d)) = Bound \<or> state (fst (enter_bound d)) = Init"
proof -
  obtain self s where d: "bind_lease d = (self, s)" by fastforce
  have "state self = Bound" using d by (cases d) (auto simp: bind_lease_def dhcp_call_defs Let_def)
  then show ?thesis
    using enter_init_state setup_udp_fields(2) [of self s]
    by (auto simp: enter_bound_bind_lease d split: prod.splits)
qed

text \<open>The events on which the client may go from one state to another.\<close>

fun transition :: "ml_dhcp_client_t \<Rightarrow> ml_dhcp_client_state_t \<Rightarrow> ml_dhcp_client_state_t \<Rightarrow> bool" where
  "transition self Init Selecting = init_timer_expired self"
| "transition self Selecting Requesting = (packet_type self = Offer)"
| "transition self Selecting Init = (packet_type self = Offer \<or> response_timer_expired self)"
| "transition self Requesting Bound = (packet_type self = Ack)"
| "transition self Requesting Init =
     (packet_type self = Ack \<or> packet_type self = Nak \<or> response_timer_expired self)"
| "transition self Bound Renewing = renewal_timer_expired self"
| "transition self Bound Init = renewal_timer_expired self"
| "transition self Renewing Bound = (packet_type self = Ack)"
| "transition self Renewing Init =
     (packet_type self = Ack \<or> packet_type self = Nak \<or> response_timer_expired self
      \<or> rebinding_timer_expired self)"
| "transition self a b = False"

lemmas process_defs = process_events_def process_events_init_def process_events_selecting_def
  process_events_requesting_def process_events_bound_def process_events_renewing_def
  is_init_timeout_def is_offer_def is_response_timeout_def is_ack_def is_nak_def
  is_renewal_timeout_def is_rebinding_timeout_def

lemma change_state_state [simp]: "state (fst (change_state st d)) = st"
  by (cases d) (simp add: change_state_def)

lemma set_init_timer_self: "fst (snd (set_init_timer a b d)) = fst d"
  by (cases d) (simp add: dhcp_call_defs Let_def)

lemma sends_fst: "sends d r \<Longrightarrow> fst (snd r) = fst d"
  using sends_self by (metis prod.collapse)

lemma renewal_interval_process_events:
  "renewal_interval (fst (process_events d)) = renewal_interval (fst d)"
proof -
  have c: "renewal_interval (fst (change_state st d)) = renewal_interval (fst d)" for st d
    by (cases d) (simp add: change_state_def)
  show ?thesis
    using sends_fst [OF sends_discover, of d] sends_fst [OF sends_request(1), of d]
      sends_fst [OF sends_request(2), of d] set_init_timer_self
    by (cases "state (fst d)")
      (auto simp: process_defs enter_selecting_def enter_requesting_def enter_renewing_def c
        renewal_interval_enter_init renewal_interval_enter_bound split: prod.splits)
qed

lemma process_events_transition:
  assumes "state (fst (process_events d)) \<noteq> state (fst d)"
  shows "transition (fst d) (state (fst d)) (state (fst (process_events d)))"
proof (cases "state (fst d)")
  case Init
  then show ?thesis
    using assms set_init_timer_self sends_fst [OF sends_discover, of d]
    by (auto simp: process_defs enter_selecting_def split: prod.splits if_splits)
next
  case Selecting
  then show ?thesis
    using assms enter_init_state sends_fst [OF sends_request(1), of d]
    by (auto simp: process_defs enter_requesting_def split: prod.splits if_splits)
next
  case Requesting
  then show ?thesis using assms enter_init_state enter_bound_state [of d]
    by (auto simp: process_defs split: if_splits)
next
  case Bound
  then show ?thesis
    using assms enter_init_state sends_fst [OF sends_request(2), of d]
    by (auto simp: process_defs enter_renewing_def split: prod.splits if_splits)
next
  case Renewing
  then show ?thesis using assms enter_init_state enter_bound_state [of d]
    by (auto simp: process_defs split: if_splits)
qed

section \<open>Starting\<close>

text \<open>The calls made since an earlier state, and what they leave open.\<close>

definition since :: "os \<Rightarrow> os \<Rightarrow> (syscall \<times> int) list" where
  "since s s' = drop (length (trace s)) (trace s')"

lemma open_fds_since:
  "trace s' = trace s @ es \<Longrightarrow> open_fds s' = foldl open_step (open_fds s) es \<and> since s s' = es"
  by (simp add: open_fds_def since_def)

lemma setup_packet_socket_cases:
  assumes "setup_packet_socket (self, s) = (res, self', s')"
  obtains "res = 0" and "\<exists>sock a b. sock \<noteq> - 1 \<and> self' = init_pollfd SOCK_IX sock (self\<lparr>is_packet_socket := True\<rparr>)
      \<and> s' = s\<lparr>trace := trace s @ [(Socket AF_PACKET, sock), (Bind sock AF_PACKET (if_index self), a), (Set_broadcast sock, b)]\<rparr>"
  | "res \<noteq> 0" and "self' = self" and "\<exists>es. s' = s\<lparr>trace := trace s @ es\<rparr>
      \<and> (\<forall>F. fresh_from F es \<longrightarrow> foldl open_step F es = F)"
  using assms by (fastforce simp: setup_packet_socket_def sys_def Let_def split: if_splits)

lemma length_5: "length xs = 5 \<Longrightarrow> \<exists>a b c d e. xs = [a, b, c, d, e]"
  by (auto simp: numeral_eq_Suc length_Suc_conv)

lemma init_timers_effect:
  assumes "length (fds self) = 5" and "init_timers (self, s) = (res, self', s')"
  shows "\<exists>es. trace s' = trace s @ es \<and> state self' = state self \<and> length (fds self') = 5
    \<and> (\<forall>F. fd_at self SOCK_IX \<notin> F \<longrightarrow> fresh_from (insert (fd_at self SOCK_IX) F) es \<longrightarrow>
         (if res = 0
          then foldl open_step (insert (fd_at self SOCK_IX) F) es = F \<union> fd ` set (fds self')
            \<and> timers_distinct self' \<and> fd ` set (fds self') \<inter> F = {}
          else foldl open_step (insert (fd_at self SOCK_IX) F) es = F))"
proof -
  obtain a b c d e where f: "fds self = [a, b, c, d, e]" using length_5 [OF assms(1)] by blast
  show ?thesis
    using assms f
    by (auto simp: init_timers_def setup_timer_def close_at_def sys_def Let_def init_pollfd_def
        timers_distinct_def split: if_splits)
qed

lemma init_interface_effect:
  assumes "init_interface (self, s) = (res, self', s')"
  shows "\<exists>es. trace s' = trace s @ es \<and> (\<forall>F. fresh_from F es \<and> foldl open_step F es = F)"
    and "state self' = state self" and "fds self' = fds self" and "renewal_interval self' = renewal_interval self"
  using assms by (auto simp: init_interface_def sys_def Let_def split: if_splits)

lemma fresh_from_append:
  "fresh_from F (as @ bs) \<longleftrightarrow> fresh_from F as \<and> fresh_from (foldl open_step F as) bs"
  by (induction F as rule: fresh_from.induct) auto

lemma init_effect:
  assumes "length (fds self) = 5" and "init (self, s) = (res, self', s')"
  shows "\<exists>es. trace s' = trace s @ es \<and> state self' = state self \<and> length (fds self') = 5
    \<and> (fresh_from (open_fds s) es \<longrightarrow>
         (if res = 0 then open_fds s' = open_fds s \<union> fd ` set (fds self') \<and> timers_distinct self'
            \<and> fd ` set (fds self') \<inter> open_fds s = {}
          else open_fds s' = open_fds s))"
proof -
  obtain r1 self1 s1 where 1: "init_interface (self, s) = (r1, self1, s1)" using prod_cases3 by blast
  note e1 = init_interface_effect [OF 1]
  obtain es1 where es1: "trace s1 = trace s @ es1" "\<And>F. foldl open_step F es1 = F"
    using e1(1) by blast
  obtain r2 self2 s2 where 2: "setup_packet_socket (self1, s1) = (r2, self2, s2)" using prod_cases3 by blast
  show ?thesis
  proof (cases "r1 = 0")
    case False
    then have "(res, self', s') = (r1, self1, s1)" using assms(2) 1 by (simp add: init_def)
    then show ?thesis using e1 es1 assms(1) False by (auto simp: open_fds_def)
  next
    case r1: True
    from 2 show ?thesis
    proof (cases rule: setup_packet_socket_cases)
      case 1
      then obtain sock a b where k: "sock \<noteq> - 1"
        "self2 = init_pollfd SOCK_IX sock (self1\<lparr>is_packet_socket := True\<rparr>)"
        "trace s2 = trace s1 @ [(Socket AF_PACKET, sock), (Bind sock AF_PACKET (if_index self1), a),
           (Set_broadcast sock, b)]" by auto
      have f: "length (fds self2) = 5" "fd_at self2 SOCK_IX = sock" "state self2 = state self"
        using assms(1) e1(2,3) length_5 [of "fds self"] by (auto simp: k(2) init_pollfd_def)
      have "init_timers (self2, s2) = (res, self', s')"
        using assms(2) \<open>init_interface (self, s) = _\<close> 2 r1 1(1) by (simp add: init_def)
      from init_timers_effect [OF f(1) this] f obtain es where es: "trace s' = trace s2 @ es"
        "state self' = state self" "length (fds self') = 5"
        "\<And>F. sock \<notin> F \<Longrightarrow> fresh_from (insert sock F) es \<Longrightarrow>
           (if res = 0 then foldl open_step (insert sock F) es = F \<union> fd ` set (fds self') \<and> timers_distinct self'
              \<and> fd ` set (fds self') \<inter> F = {}
            else foldl open_step (insert sock F) es = F)" by auto
      let ?es = "es1 @ [(Socket AF_PACKET, sock), (Bind sock AF_PACKET (if_index self1), a),
          (Set_broadcast sock, b)] @ es"
      have t: "trace s' = trace s @ ?es" using es(1) k(3) es1(1) by simp
      then have "open_fds s' = foldl open_step (insert sock (open_fds s)) es"
        using k(1) es1(2) by (simp add: open_fds_def)
      moreover have "fresh_from (open_fds s) ?es \<longrightarrow> sock \<notin> open_fds s \<and> fresh_from (insert sock (open_fds s)) es"
        using k(1) es1(2) by (simp add: fresh_from_append)
      ultimately show ?thesis using t es(2,3) es(4) [of "open_fds s"] by (intro exI [of _ ?es]) auto
    next
      case 2
      then obtain es where "trace s2 = trace s1 @ es" "\<And>F. fresh_from F es \<Longrightarrow> foldl open_step F es = F"
        by auto
      moreover have "(res, self', s') = (r2, self2, s2)"
        using assms(2) \<open>init_interface (self, s) = _\<close> \<open>setup_packet_socket _ = _\<close> r1 2(1)
        by (simp add: init_def)
      ultimately show ?thesis using e1(2,3) es1 2(1,2) assms(1)
        by (intro exI [of _ "es1 @ es"]) (auto simp: open_fds_def fresh_from_append)
    qed
  qed
qed

section \<open>The properties\<close>


definition example_run :: dhcp where
  "example_run = (example_client, example_os\<lparr>trace := [(Timerfd_settime 7 0 1, 0)],
     result := \<lambda>n. if n = 1 then 1 else 0, input := \<lambda>n. [0, 0, 0, 0, 0]\<rparr>)"


text \<open>
  The state changes only along the edges of the DHCP state machine, each on its event; in
  particular the client becomes bound only by an acknowledgement while requesting or renewing.
\<close>

theorem dhcp_transitions:
  assumes "process_events d = d'" and "state (fst d') \<noteq> state (fst d)"
  shows "transition (fst d) (state (fst d)) (state (fst d'))
    \<and> (state (fst d') = Bound \<longrightarrow>
         packet_type (fst d) = Ack \<and> (state (fst d) = Requesting \<or> state (fst d) = Renewing))"
proof -
  have "transition (fst d) (state (fst d)) (state (fst d'))"
    using process_events_transition [of d] assms by simp
  moreover have "transition self a Bound \<Longrightarrow> packet_type self = Ack \<and> (a = Requesting \<or> a = Renewing)" for self a
    by (cases a) auto
  ultimately show ?thesis by metis
qed

theorem dhcp_transitions_witness:
  "\<exists>d'. process_events (example_client\<lparr>state := Requesting, packet_type := Nak\<rparr>, example_os) = d'
     \<and> transition (example_client\<lparr>packet_type := Nak\<rparr>) Requesting (state (fst d'))"
proof -
  let ?d = "(example_client\<lparr>state := Requesting, packet_type := Nak\<rparr>, example_os)"
  have "process_events ?d = enter_init ?d" by (simp add: process_defs)
  then have s: "state (fst (process_events ?d)) = Init" using enter_init_state by simp
  then have "transition (fst ?d) (state (fst ?d)) (state (fst (process_events ?d)))"
    using dhcp_transitions [of ?d, OF refl] by simp
  then show ?thesis using s by simp
qed

text \<open>
  C33: starting is all or nothing. If the kernel hands out descriptors that are not in use, a
  start that fails has closed every descriptor it opened; one that succeeds has opened the
  client's five descriptors and, with the timer settings accepted, the init timer is armed.
\<close>

theorem dhcp_start_all_or_nothing:
  assumes "length (fds self) = 5" and "state self = Init"
    and "ml_dhcp_client_start (self, s) = (res, self', s')"
    and "fresh_from (open_fds s) (since s s')"
  shows "(res \<noteq> 0 \<longrightarrow> open_fds s' = open_fds s)
    \<and> (res = 0 \<longrightarrow> open_fds s' = open_fds s \<union> fd ` set (fds self') \<and> timers_distinct self'
         \<and> (settime_ok s' \<longrightarrow> live (self', s')))"
proof -
  obtain r1 self1 s1 where 1: "init (self, s) = (r1, self1, s1)" using prod_cases3 by blast
  obtain es where es: "trace s1 = trace s @ es" "state self1 = Init" "length (fds self1) = 5"
    "fresh_from (open_fds s) es \<Longrightarrow>
       (if r1 = 0 then open_fds s1 = open_fds s \<union> fd ` set (fds self1) \<and> timers_distinct self1
          \<and> fd ` set (fds self1) \<inter> open_fds s = {}
        else open_fds s1 = open_fds s)"
    using init_effect [OF assms(1) 1] assms(2) by auto
  show ?thesis
  proof (cases "r1 = 0")
    case False
    then have "(res, self', s') = (r1, self1, s1)" using assms(3) 1 by (simp add: ml_dhcp_client_start_def)
    then show ?thesis using es assms(4) False by (auto simp: since_def)
  next
    case True
    obtain a b c d e where f: "fds self1 = [a, b, c, d, e]" using length_5 [OF es(3)] by blast
    obtain x y fs where t: "trace s' = trace s1 @ (Timerfd_settime (fd e) 0 1, x) # (Pthread_create, y) # fs"
      "self' = self1" "res = y"
      "fs = (if y = 0 then [] else fs) \<and> (y \<noteq> 0 \<longrightarrow> (\<exists>z0 z1 z2 z3 z4. fs = [(Close (fd a), z0), (Close (fd b), z1),
         (Close (fd c), z2), (Close (fd d), z3), (Close (fd e), z4)]))"
      using assms(3) 1 True f
      by (auto simp: ml_dhcp_client_start_def destroy_def close_at_def dhcp_call_defs Let_def
          upt_rec numeral_eq_Suc split: if_splits)
    have "fresh_from (open_fds s) es" using assms(4) es(1) t(1) by (simp add: since_def fresh_from_append)
    then have o1: "open_fds s1 = open_fds s \<union> fd ` set (fds self1)" "timers_distinct self1"
      "fd ` set (fds self1) \<inter> open_fds s = {}" using es(4) True by auto
    have o: "open_fds s' = foldl open_step (open_fds s1) fs" using t(1) by (simp add: open_fds_def)
    show ?thesis
    proof (cases "y = 0")
      case True
      then have "fs = []" using t(4) by simp
      then have "settime_ok s' \<longrightarrow> live (self', s')"
        using t(1,2) es(2) f by (auto simp: live_def armed_def settime_ok_def)
      then show ?thesis using o o1 t \<open>fs = []\<close> True by simp
    next
      case False
      then have "open_fds s' = open_fds s1 - fd ` set (fds self1)" using o t(4) f by auto
      then show ?thesis using o1(1,3) t(3) False by auto
    qed
  qed
qed

theorem dhcp_start_all_or_nothing_witness:
  "\<exists>self' s'. ml_dhcp_client_start (example_client, example_os) = (1, self', s')
     \<and> open_fds s' = open_fds example_os"
proof -
  have "ml_dhcp_client_start (example_client, example_os)
      = (1, example_client, example_os\<lparr>trace := [(Interface_index ''eth0'', 1)]\<rparr>)"
    by (simp add: ml_dhcp_client_start_def init_def init_interface_def sys_def example_client_def
        example_os_def Let_def)
  then show ?thesis
    using dhcp_start_all_or_nothing [of example_client example_os 1]
    by (auto simp: example_client_def since_def example_os_def)
qed



text \<open>
  A lease of one second, which the offer check accepts, leaves a bound client without any
  way on: half of it is zero, so the renewal timer is disarmed instead of armed, and a bound
  client reacts to nothing but that timer.
\<close>

theorem dhcp_one_second_lease_stuck:
  assumes "opts = no_options\<lparr>opt_lease_time := Some 1, opt_server_ip_address := Some srv,
      opt_subnet_mask := Some sm, opt_gateway := Some gw, opt_dns := Some ns\<rparr>"
    and "self = unpack_message_type_offer self0 opts a b c d"
    and "enter_bound (self, s) = (self', s')" and "state self' = Bound"
    and "settime_ok s'" and "timers_distinct self"
  shows "packet_type self = Offer \<and> \<not> armed s' (fd_at self' RENEW_IX)
    \<and> (\<forall>e. state (fst e) = Bound \<and> \<not> renewal_timer_expired (fst e) \<longrightarrow> process_events e = e)"
proof -
  have s: "packet_type self = Offer" "renewal_interval self = 0"
    using assms(1,2) by (simp_all add: unpack_message_type_offer_def no_options_def div2_def)
  obtain self1 s1 where 1: "bind_lease (self, s) = (self1, s1)" by fastforce
  obtain res self2 s2 where 2: "setup_udp_socket (self1, s1) = (res, self2, s2)" using prod_cases3 by blast
  have "res = 0"
  proof (rule ccontr)
    assume "res \<noteq> 0"
    then have "enter_init (self2, s2) = (self', s')" using assms(3) 1 2 by (simp add: enter_bound_bind_lease)
    then show False using enter_init_state [of "(self2, s2)"] assms(4) by simp
  qed
  then have eq: "self' = self2" "s' = s2" using assms(3) 1 2 by (auto simp: enter_bound_bind_lease)
  obtain es where es: "trace s2 = trace s1 @ es" "\<And>fd b. foldl (armed_step fd) b es = b"
    using setup_udp_fields(1) [OF 2] by blast
  have "settime_ok s1" using settime_ok_prefix [OF es(1)] assms(5) eq by simp
  then have "\<not> armed s1 (fd_at self1 RENEW_IX)" "length (fds self1) = 5"
    using 1 assms(6) s(2)
    by (auto simp: bind_lease_def dhcp_call_defs Let_def armed_def settime_ok_def timers_distinct_def)
  then have "\<not> armed s' (fd_at self' RENEW_IX)"
    using setup_udp_fields(4) [OF 2, of 1] es by (simp add: eq armed_def)
  then show ?thesis using s(1) by (auto simp: process_defs)
qed

theorem dhcp_one_second_lease_stuck_witness:
  "\<exists>self' s'. enter_bound (unpack_message_type_offer example_client
        (no_options\<lparr>opt_lease_time := Some 1, opt_server_ip_address := Some 9, opt_subnet_mask := Some 8,
           opt_gateway := Some 7, opt_dns := Some 6\<rparr>) 1 2 3 4, example_os\<lparr>result := \<lambda>_. 0\<rparr>)
      = (self', s') \<and> state self' = Bound \<and> \<not> armed s' (fd_at self' RENEW_IX)"
proof -
  let ?opts = "no_options\<lparr>opt_lease_time := Some 1, opt_server_ip_address := Some 9,
      opt_subnet_mask := Some 8, opt_gateway := Some 7, opt_dns := Some 6\<rparr>"
  let ?self = "unpack_message_type_offer example_client ?opts 1 2 3 4"
  obtain self' s' where e: "enter_bound (?self, example_os\<lparr>result := \<lambda>_. 0\<rparr>) = (self', s')" by fastforce
  have "state self' = Bound" "settime_ok s'"
    using e by (auto simp: enter_bound_def dhcp_call_defs Let_def example_os_def settime_ok_def)
  moreover have "timers_distinct ?self"
    by (simp add: timers_distinct_def) (simp add: example_client_def)
  ultimately show ?thesis using dhcp_one_second_lease_stuck [OF refl refl e] e by auto
qed

text \<open>
  When the UDP socket cannot be created after the lease was acknowledged, the descriptor of
  the packet socket is closed twice, with nothing in between that could have made it the
  client's own again.
\<close>

theorem dhcp_bound_double_close:
  assumes "result s (length (trace s) + 6) = - 1"
  shows "\<exists>xs x ys y zs. trace (snd (enter_bound (self, s)))
      = xs @ (Close (fd_at self SOCK_IX), x) # ys @ (Close (fd_at self SOCK_IX), y) # zs
    \<and> (\<forall>(c, r) \<in> set ys. opens c \<longrightarrow> r = - 1)"
proof -
  let ?n = "length (trace s)" and ?r = "result s"
  define T where "T = (\<lambda>k i (a::int). (Timerfd_settime (fd_at self i) a 0, ?r (?n + k)))"
  have "\<exists>zs. trace (snd (enter_bound (self, s))) =
      (trace s @ [T 0 RESP_IX 0, T 1 RENEW_IX (renewal_interval self), T 2 REBIND_IX (rebinding_time self),
        (Interface_configure (name_p self) (inet_ntoa (ip_address self)) (inet_ntoa (subnet_mask self)) 1500,
         ?r (?n + 3)),
        (Interface_add_route (name_p self) (inet_ntoa (gateway self)), ?r (?n + 4))])
      @ (Close (fd_at self SOCK_IX), ?r (?n + 5))
      # [(Socket AF_INET, - 1), T 7 RESP_IX 0, T 8 REBIND_IX 0, T 9 INIT_IX 10]
      @ (Close (fd_at self SOCK_IX), ?r (?n + 10)) # zs"
    using assms by (auto simp: enter_bound_def enter_init_def dhcp_call_defs T_def Let_def numeral_eq_Suc)
  then obtain zs where z: "trace (snd (enter_bound (self, s))) =
      (trace s @ [T 0 RESP_IX 0, T 1 RENEW_IX (renewal_interval self), T 2 REBIND_IX (rebinding_time self),
        (Interface_configure (name_p self) (inet_ntoa (ip_address self)) (inet_ntoa (subnet_mask self)) 1500,
         ?r (?n + 3)),
        (Interface_add_route (name_p self) (inet_ntoa (gateway self)), ?r (?n + 4))])
      @ (Close (fd_at self SOCK_IX), ?r (?n + 5))
      # [(Socket AF_INET, - 1), T 7 RESP_IX 0, T 8 REBIND_IX 0, T 9 INIT_IX 10]
      @ (Close (fd_at self SOCK_IX), ?r (?n + 10)) # zs" by blast
  show ?thesis by (intro exI, rule conjI, rule z) (simp add: T_def)
qed

theorem dhcp_bound_double_close_witness:
  "\<exists>xs x ys y zs. trace (snd (enter_bound (example_client, example_os\<lparr>result := \<lambda>_. - 1\<rparr>)))
      = xs @ (Close 3, x) # ys @ (Close 3, y) # zs \<and> (\<forall>(c, r) \<in> set ys. opens c \<longrightarrow> r = - 1)"
  using dhcp_bound_double_close [of "example_os\<lparr>result := \<lambda>_. - 1\<rparr>" example_client]
  by (simp add: example_client_def)

end
