(* ===== verification/Ml_Core.thy ===== *)
theory Ml_Core
  imports Ml_Prelude
begin

text \<open>
  The stand-alone utilities of \<open>src/src/ml.c\<close>: string stripping, hexdumps of buffers and
  files, the block copy \<open>ml_dd\<close>, file-system and CPU arithmetic, and the search for a core dump
  slot. A C string is its list of characters before the terminating zero; output to a stream is
  the string printed. The theorems compare each loop with a direct specification.
\<close>

section \<open>Strings\<close>

fun char_in_string :: "char \<Rightarrow> string \<Rightarrow> bool" where
  "char_in_string c [] = False"
| "char_in_string c (d # ds) = (if c = d then True else char_in_string c ds)"

text \<open>\<open>strip_p == NULL\<close> is \<open>None\<close>: tab, newline, vertical tab, form feed, carriage return, space.\<close>

definition strip_chars :: "string option \<Rightarrow> string" where
  "strip_chars strip_p =
     (case strip_p of
        None \<Rightarrow> [CHR 0x09, CHR 0x0A, CHR 0x0B, CHR 0x0C, CHR 0x0D, CHR '' '']
      | Some cs \<Rightarrow> cs)"

fun lstrip_loop :: "string \<Rightarrow> string \<Rightarrow> string" where
  "lstrip_loop cs [] = []"
| "lstrip_loop cs (c # s) = (if \<not> char_in_string c cs then c # s else lstrip_loop cs s)"

definition ml_lstrip :: "string \<Rightarrow> string option \<Rightarrow> string" where
  "ml_lstrip s strip_p = lstrip_loop (strip_chars strip_p) s"

text \<open>The pointer walks back from the last character; writing a zero there cuts the string.\<close>

fun rstrip_loop :: "string \<Rightarrow> nat \<Rightarrow> string \<Rightarrow> string" where
  "rstrip_loop cs 0 s = s"
| "rstrip_loop cs (Suc i) s =
     (if \<not> char_in_string (s ! i) cs then s else rstrip_loop cs i (take i s))"

definition ml_rstrip :: "string \<Rightarrow> string option \<Rightarrow> string" where
  "ml_rstrip s strip_p = rstrip_loop (strip_chars strip_p) (length s) s"

definition ml_strip :: "string \<Rightarrow> string option \<Rightarrow> string" where
  "ml_strip s strip_p = ml_lstrip (ml_rstrip s strip_p) strip_p"

definition ml_bool_str :: "bool \<Rightarrow> string" where
  "ml_bool_str v = (if v then ''true'' else ''false'')"

text \<open>\<open>strerror\<close> of the C library is a parameter.\<close>

definition ml_strerror :: "(int \<Rightarrow> string) \<Rightarrow> int \<Rightarrow> string" where
  "ml_strerror strerror errnum = (if errnum = EGENERAL then ''General'' else strerror errnum)"

section \<open>Hexdumps\<close>

definition hex_digit :: "nat \<Rightarrow> char" where
  "hex_digit d = (if d < 10 then char_of (48 + d) else char_of (87 + d))"

fun show_hex :: "nat \<Rightarrow> string" where
  "show_hex n = (if n < 16 then [hex_digit n] else show_hex (n div 16) @ [hex_digit (n mod 16)])"

declare show_hex.simps [simp del]

text \<open>\<open>%08x\<close> and \<open>%02x\<close>.\<close>

definition hex_padded :: "nat \<Rightarrow> nat \<Rightarrow> string" where
  "hex_padded w n = (let s = show_hex n in replicate (w - length s) CHR ''0'' @ s)"

definition ascii :: "u8 \<Rightarrow> char" where
  "ascii b = (if 32 \<le> unat b \<and> unat b \<le> 126 then char_of (unat b) else CHR ''.'')"

definition print_ascii :: "bytes \<Rightarrow> string" where
  "print_ascii buf =
     concat (replicate (16 - length buf) ''   '') @ [CHR 0x27] @ map ascii buf @ [CHR 0x27]"

definition newline :: string where
  "newline = [CHR 0x0A]"

fun hexdump_loop :: "bytes \<Rightarrow> nat \<Rightarrow> nat \<Rightarrow> nat \<Rightarrow> string" where
  "hexdump_loop buf offset pos 0 =
     (if pos mod 16 \<noteq> 0
      then print_ascii (take (pos mod 16) (drop (pos - pos mod 16) buf)) @ newline else [])"
| "hexdump_loop buf offset pos (Suc sz) =
     (if pos mod 16 = 0 then hex_padded 8 ((offset + pos) mod 2 ^ 32) @ '': '' else [])
     @ hex_padded 2 (unat (buf ! pos)) @ '' ''
     @ (if pos mod 16 = 15 then print_ascii (take 16 (drop (pos - 15) buf)) @ newline else [])
     @ hexdump_loop buf offset (pos + 1) sz"

definition hexdump :: "bytes \<Rightarrow> nat \<Rightarrow> string" where
  "hexdump buf offset = hexdump_loop buf offset 0 (length buf)"

definition ml_hexdump :: "bytes \<Rightarrow> string" where
  "ml_hexdump buf = hexdump buf 0"

text \<open>
  The file is its bytes. A negative size other than -1 is a huge unsigned number, as is what
  remains of -1 after the first chunk.
\<close>

function hexdump_file_loop :: "bytes \<Rightarrow> nat \<Rightarrow> int \<Rightarrow> string" where
  "hexdump_file_loop fin offset sz =
     (let chunk_size = (if 0 \<le> sz \<and> sz < 256 then nat sz else 256);
          chunk = take chunk_size (drop offset fin)
      in hexdump chunk offset
         @ (if length chunk < 256 then []
            else hexdump_file_loop fin (offset + length chunk) (sz - int (length chunk))))"
  by pat_completeness auto
termination
  by (relation "measure (\<lambda>(fin, offset, sz). length fin - offset)") (auto simp: Let_def split: if_splits)

declare hexdump_file_loop.simps [simp del]

definition ml_hexdump_file :: "bool \<Rightarrow> bytes \<Rightarrow> nat \<Rightarrow> int \<Rightarrow> int \<times> string" where
  "ml_hexdump_file seek_ok fin offset sz =
     (if \<not> seek_ok then (- EGENERAL, []) else (0, hexdump_file_loop fin offset sz))"

section \<open>Arithmetic on statistics\<close>

text \<open>The division by zero of the C code is an error here.\<close>

definition calc_cpu_load :: "u64 \<Rightarrow> u64 \<Rightarrow> u64 \<Rightarrow> u32 option" where
  "calc_cpu_load old new total_diff =
     (if total_diff = 0 then None else Some (ucast ((100 * (new - old)) div total_diff)))"

text \<open>\<open>statvfs\<close> gives the block size, the number of blocks and of free blocks, or fails.\<close>

definition ml_file_system_space_usage :: "int + (u64 \<times> u64 \<times> u64) \<Rightarrow> int + (u64 \<times> u64 \<times> u64)" where
  "ml_file_system_space_usage st =
     (case st of
        Inl errno \<Rightarrow> Inl (- errno)
      | Inr (bsize, blocks, bfree) \<Rightarrow>
          let total = (bsize * blocks) div (1024 * 1024);
              used = (bsize * (blocks - bfree)) div (1024 * 1024)
          in Inr (total, used, total - used))"

section \<open>Block copy\<close>

text \<open>
  The input is what is left to read, the output what was written. The oracle says which calls
  of read and write fail, and with which error.
\<close>

record dd_state =
  dd_in :: bytes
  dd_out :: bytes
  dd_calls :: nat

definition dd_copy_chunk :: "(nat \<Rightarrow> int option) \<Rightarrow> nat \<Rightarrow> dd_state \<Rightarrow> int \<times> dd_state" where
  "dd_copy_chunk fails chunk_size s =
     (let n = dd_calls s; s = s\<lparr>dd_calls := n + 2\<rparr>
      in case fails n of
           Some errno \<Rightarrow> (- errno, s)
         | None \<Rightarrow>
             let buf = take chunk_size (dd_in s);
                 s = s\<lparr>dd_in := drop chunk_size (dd_in s)\<rparr>
             in if length buf \<noteq> chunk_size then (- EGENERAL, s)
                else case fails (n + 1) of
                       Some errno \<Rightarrow> (- errno, s)
                     | None \<Rightarrow> (0, s\<lparr>dd_out := dd_out s @ buf\<rparr>))"

partial_function (option) dd_loop ::
  "(nat \<Rightarrow> int option) \<Rightarrow> nat \<Rightarrow> nat \<Rightarrow> dd_state \<Rightarrow> (int \<times> dd_state) option" where
  "dd_loop fails total_size chunk_size s =
     (if total_size > 0
      then let chunk_size = (if chunk_size > total_size then total_size else chunk_size);
               (res, s) = dd_copy_chunk fails chunk_size s
           in if res \<noteq> 0 then Some (res, s) else dd_loop fails (total_size - chunk_size) chunk_size s
      else Some (0, s))"

text \<open>
  Opening the files and allocating the buffer succeed or give an error; every path closes what
  it opened, so the descriptors are not part of the state.
\<close>

definition ml_dd :: "(nat \<Rightarrow> int option) \<Rightarrow> int option \<Rightarrow> int option \<Rightarrow> int option \<Rightarrow> bytes \<Rightarrow> nat \<Rightarrow> nat
    \<Rightarrow> (int \<times> dd_state) option" where
  "ml_dd fails open_in open_out malloc_err infile total_size chunk_size =
     (let s = \<lparr>dd_in = infile, dd_out = [], dd_calls = 0\<rparr>
      in case open_in of Some errno \<Rightarrow> Some (- errno, s)
         | None \<Rightarrow> (case open_out of Some errno \<Rightarrow> Some (- errno, s)
         | None \<Rightarrow> (case malloc_err of Some errno \<Rightarrow> Some (- errno, s)
         | None \<Rightarrow> dd_loop fails total_size chunk_size s)))"

section \<open>Core dump slots\<close>

text \<open>\<open>lstat\<close> tells which names exist; the result is whether a slot was found, and its name.\<close>

fun find_slot_from :: "(string \<Rightarrow> bool) \<Rightarrow> nat \<Rightarrow> nat \<Rightarrow> string \<Rightarrow> bool \<times> string" where
  "find_slot_from exists slot 0 dir = (False, dir)"
| "find_slot_from exists slot (Suc n) dir =
     (let dir = show_nat slot
      in if \<not> exists dir then (True, dir) else find_slot_from exists (slot + 1) n dir)"

definition find_slot :: "(string \<Rightarrow> bool) \<Rightarrow> string \<Rightarrow> nat \<Rightarrow> bool \<times> string" where
  "find_slot exists dir maximum_number_of_coredumps = find_slot_from exists 0 maximum_number_of_coredumps dir"

section \<open>Stripping\<close>

lemma char_in_string_iff [simp]: "char_in_string c cs \<longleftrightarrow> c \<in> set cs"
  by (induction cs) auto

lemma lstrip_loop_dropWhile: "lstrip_loop cs s = dropWhile (\<lambda>c. c \<in> set cs) s"
  by (induction s) auto

lemma rstrip_loop_dropWhile:
  "rstrip_loop cs (length s) s = rev (dropWhile (\<lambda>c. c \<in> set cs) (rev s))"
proof (induction s rule: rev_induct)
  case (snoc c s)
  then show ?case by (simp add: nth_append)
qed simp

lemma strip_parts:
  "\<exists>a b. s = a @ ml_strip s strip_p @ b \<and> set a \<subseteq> set (strip_chars strip_p) \<and> set b \<subseteq> set (strip_chars strip_p)"
proof -
  let ?P = "\<lambda>c. c \<in> set (strip_chars strip_p)"
  let ?r = "ml_rstrip s strip_p"
  have "rev s = takeWhile ?P (rev s) @ dropWhile ?P (rev s)" by simp
  then have "s = ?r @ rev (takeWhile ?P (rev s))"
    unfolding ml_rstrip_def rstrip_loop_dropWhile by (metis rev_append rev_rev_ident)
  moreover have "?r = takeWhile ?P ?r @ ml_strip s strip_p"
    by (simp add: ml_strip_def ml_lstrip_def lstrip_loop_dropWhile)
  moreover have "set (takeWhile ?P ?r) \<subseteq> set (strip_chars strip_p)"
    "set (rev (takeWhile ?P (rev s))) \<subseteq> set (strip_chars strip_p)"
    by (auto dest: set_takeWhileD)
  ultimately show ?thesis by (metis append_assoc)
qed

lemma strip_ends:
  assumes "ml_strip s strip_p \<noteq> []"
  shows "hd (ml_strip s strip_p) \<notin> set (strip_chars strip_p)"
    and "last (ml_strip s strip_p) \<notin> set (strip_chars strip_p)"
proof -
  let ?P = "\<lambda>c. c \<in> set (strip_chars strip_p)"
  let ?r = "ml_rstrip s strip_p"
  have m: "ml_strip s strip_p = dropWhile ?P ?r"
    by (simp add: ml_strip_def ml_lstrip_def lstrip_loop_dropWhile)
  show "hd (ml_strip s strip_p) \<notin> set (strip_chars strip_p)"
    using assms hd_dropWhile [of ?P ?r] by (simp add: m)
  have ne: "dropWhile ?P (rev s) \<noteq> []"
  proof
    assume "dropWhile ?P (rev s) = []"
    then have "?r = []" by (simp only: ml_rstrip_def rstrip_loop_dropWhile rev.simps)
    then show False using assms m by simp
  qed
  have "last ?r = hd (dropWhile ?P (rev s))"
    using ne by (simp add: ml_rstrip_def rstrip_loop_dropWhile last_rev)
  moreover have "last (dropWhile ?P ?r) = last ?r"
    using assms m by (metis last_appendR takeWhile_dropWhile_id)
  ultimately show "last (ml_strip s strip_p) \<notin> set (strip_chars strip_p)"
    using hd_dropWhile [OF ne] by (simp add: m)
qed

section \<open>Hexdumps by lines\<close>

definition hex_bytes :: "bytes \<Rightarrow> string" where
  "hex_bytes bs = concat (map (\<lambda>b. hex_padded 2 (unat b) @ '' '') bs)"

text \<open>The specification: one line per 16 bytes.\<close>

function hexdump_lines :: "nat \<Rightarrow> bytes \<Rightarrow> string" where
  "hexdump_lines offset bs =
     (if bs = [] then []
      else hex_padded 8 (offset mod 2 ^ 32) @ '': '' @ hex_bytes (take 16 bs)
           @ print_ascii (take 16 bs) @ newline @ hexdump_lines (offset + 16) (drop 16 bs))"
  by pat_completeness auto
termination
  by (relation "measure (\<lambda>(offset, bs). length bs)") auto

declare hexdump_lines.simps [simp del]

lemma hexdump_loop_lines:
  assumes "length buf = pos + n"
  shows "hexdump_loop buf offset pos n =
    (if n = 0 \<and> pos mod 16 = 0 then []
     else (if pos mod 16 = 0 then hex_padded 8 ((offset + pos) mod 2 ^ 32) @ '': '' else [])
       @ hex_bytes (take (16 - pos mod 16) (drop pos buf))
       @ print_ascii (take 16 (drop (pos - pos mod 16) buf)) @ newline
       @ hexdump_lines (offset + pos - pos mod 16 + 16) (drop (pos - pos mod 16 + 16) buf))"
  using assms
proof (induction n arbitrary: pos)
  case 0
  have "take (pos mod 16) (drop (pos - pos mod 16) buf) = take 16 (drop (pos - pos mod 16) buf)"
    using 0 by (simp add: mod_le_divisor)
  moreover have "drop (pos - pos mod 16 + 16) buf = []"
    using 0 mod_less_divisor [of 16 pos] by (simp add: less_imp_le)
  ultimately show ?case using 0 by (simp add: hexdump_lines.simps hex_bytes_def)
next
  case (Suc n)
  let ?r = "pos mod 16"
  have len: "length buf = Suc pos + n" using Suc.prems by simp
  note ih = Suc.IH [OF len]
  have d: "drop pos buf = buf ! pos # drop (Suc pos) buf"
    using Suc.prems by (simp add: Cons_nth_drop_Suc)
  show ?case
  proof (cases "?r = 15")
    case True
    then have m: "Suc pos mod 16 = 0" by (simp add: mod_Suc)
    have "15 \<le> pos" using True mod_less_eq_dividend [of pos 16] by simp
    then have e: "pos - 15 + 16 = Suc pos" "offset + pos - 15 + 16 = offset + Suc pos" by simp_all
    have "hexdump_loop buf offset (Suc pos) n = hexdump_lines (offset + Suc pos) (drop (Suc pos) buf)"
      unfolding ih using m Suc.prems
      by (subst hexdump_lines.simps) (simp del: take_drop)
    then show ?thesis unfolding True e by (simp add: True d hex_bytes_def)
  next
    case False
    then have m: "Suc pos mod 16 = Suc ?r" by (simp add: mod_Suc)
    have lt: "?r < 15" using False mod_less_divisor [of 16 pos] by linarith
    then have t: "16 - ?r = Suc (16 - Suc ?r)" by simp
    have le: "?r \<le> pos" by simp
    have hb: "hex_bytes (take (16 - ?r) (drop pos buf))
        = hex_padded 2 (unat (buf ! pos)) @ '' '' @ hex_bytes (take (16 - Suc ?r) (drop (Suc pos) buf))"
      unfolding t d by (simp add: hex_bytes_def)
    have "hexdump_loop buf offset (Suc pos) n
        = hex_bytes (take (16 - Suc ?r) (drop (Suc pos) buf))
          @ print_ascii (take 16 (drop (pos - ?r) buf)) @ newline
          @ hexdump_lines (offset + pos - ?r + 16) (drop (pos - ?r + 16) buf)"
      unfolding ih m using le by simp
    then show ?thesis using False hb by simp
  qed
qed

lemma hexdump_is_lines: "hexdump buf offset = hexdump_lines offset buf"
  using hexdump_loop_lines [of buf 0 "length buf" offset]
  by (auto simp: hexdump_def hexdump_lines.simps [of offset buf])

lemma hexdump_lines_append:
  "length a mod 16 = 0 \<Longrightarrow>
   hexdump_lines offset (a @ b) = hexdump_lines offset a @ hexdump_lines (offset + length a) b"
proof (induction offset a rule: hexdump_lines.induct)
  case (1 offset a)
  show ?case
  proof (cases "a = []")
    case True
    then show ?thesis by (simp add: hexdump_lines.simps [of offset "[]"])
  next
    case False
    then have l: "16 \<le> length a" using "1.prems"
      by (metis Nat.lessE dvd_imp_le length_greater_0_conv mod_0_imp_dvd)
    then have "length (drop 16 a) mod 16 = 0" using "1.prems" by (simp add: le_mod_geq [symmetric])
    note ih = "1.IH" [OF False this]
    have "take 16 (a @ b) = take 16 a" "drop 16 (a @ b) = drop 16 a @ b" using l by simp_all
    then show ?thesis using ih False l
      by (simp add: hexdump_lines.simps [of offset "a @ b"] hexdump_lines.simps [of offset a])
  qed
qed

lemma hexdump_file_is_lines:
  "hexdump_file_loop fin offset sz
     = hexdump_lines offset (if sz < 0 then drop offset fin else take (nat sz) (drop offset fin))"
proof (induction fin offset sz rule: hexdump_file_loop.induct)
  case (1 fin offset sz)
  let ?sel = "if sz < 0 then drop offset fin else take (nat sz) (drop offset fin)"
  define chunk where "chunk = take (if 0 \<le> sz \<and> sz < 256 then nat sz else 256) (drop offset fin)"
  have c: "chunk = take 256 ?sel" by (auto simp: chunk_def min_def)
  have u: "hexdump_file_loop fin offset sz = hexdump chunk offset
      @ (if length chunk < 256 then []
         else hexdump_file_loop fin (offset + length chunk) (sz - int (length chunk)))"
    by (subst hexdump_file_loop.simps) (simp only: Let_def chunk_def)
  show ?case
  proof (cases "length chunk < 256")
    case True
    then have "chunk = ?sel" using c by (simp add: min_def split: if_splits)
    then show ?thesis using True unfolding u hexdump_is_lines by simp
  next
    case False
    then have l: "length chunk = 256" using c by simp
    note ih = "1.IH" [OF refl, folded chunk_def, OF refl False]
    have big: "sz < 0 \<or> 256 \<le> sz" using l by (auto simp: chunk_def split: if_splits)
    have "?sel = chunk @ (if sz - 256 < 0 then drop (offset + 256) fin
        else take (nat (sz - 256)) (drop (offset + 256) fin))"
    proof -
      have "?sel = chunk @ drop 256 ?sel" unfolding c by simp
      also have "drop 256 ?sel = (if sz - 256 < 0 then drop (offset + 256) fin
          else take (nat (sz - 256)) (drop (offset + 256) fin))"
        using big by (auto simp: drop_take nat_diff_distrib add.commute)
      finally show ?thesis .
    qed
    then have "hexdump_lines offset ?sel = hexdump_lines offset chunk
        @ hexdump_lines (offset + 256) (if sz - 256 < 0 then drop (offset + 256) fin
        else take (nat (sz - 256)) (drop (offset + 256) fin))"
      using hexdump_lines_append [of chunk offset] l by simp
    then show ?thesis using False l ih unfolding u hexdump_is_lines by simp
  qed
qed

section \<open>Block copy\<close>

lemma dd_loop_returns: "0 < chunk_size \<Longrightarrow> \<exists>r. dd_loop fails total_size chunk_size s = Some r"
proof (induction total_size arbitrary: chunk_size s rule: less_induct)
  case (less total_size)
  show ?case
  proof (cases "total_size = 0")
    case True
    then show ?thesis by (subst dd_loop.simps) simp
  next
    case False
    let ?c = "if chunk_size > total_size then total_size else chunk_size"
    obtain res s1 where c: "dd_copy_chunk fails ?c s = (res, s1)" by fastforce
    have "0 < ?c" "total_size - ?c < total_size" using False less.prems by auto
    then obtain r where "dd_loop fails (total_size - ?c) ?c s1 = Some r" using less.IH by blast
    then show ?thesis using False c by (subst dd_loop.simps) (auto simp: Let_def)
  qed
qed

lemma dd_loop_copies:
  assumes "0 < chunk_size" and "\<And>n. fails n = None" and "total_size \<le> length (dd_in s)"
  shows "\<exists>s'. dd_loop fails total_size chunk_size s = Some (0, s')
    \<and> dd_out s' = dd_out s @ take total_size (dd_in s)"
  using assms
proof (induction total_size arbitrary: chunk_size s rule: less_induct)
  case (less total_size)
  show ?case
  proof (cases "total_size = 0")
    case True
    then show ?thesis by (subst dd_loop.simps) simp
  next
    case False
    let ?c = "if chunk_size > total_size then total_size else chunk_size"
    let ?s = "s\<lparr>dd_calls := dd_calls s + 2, dd_in := drop ?c (dd_in s), dd_out := dd_out s @ take ?c (dd_in s)\<rparr>"
    have c: "dd_copy_chunk fails ?c s = (0, ?s)"
      using less.prems(2,3) by (auto simp: dd_copy_chunk_def Let_def)
    have p: "0 < ?c" "total_size - ?c < total_size" "total_size - ?c \<le> length (dd_in ?s)"
      using False less.prems by auto
    obtain s' where "dd_loop fails (total_size - ?c) ?c ?s = Some (0, s')"
      "dd_out s' = dd_out ?s @ take (total_size - ?c) (dd_in ?s)"
      using less.IH [OF p(2,1) less.prems(2) p(3)] by blast
    moreover have "take total_size (dd_in s) = take ?c (dd_in s) @ take (total_size - ?c) (drop ?c (dd_in s))"
      by (simp add: take_add [symmetric])
    ultimately show ?thesis using False c by (subst dd_loop.simps) (auto simp: Let_def)
  qed
qed

lemma dd_loop_diverges:
  assumes "0 < total_size"
  shows "dd_loop (\<lambda>_. None) total_size 0 s = None"
proof -
  have "fails = (\<lambda>_. None) \<longrightarrow> chunk_size = 0 \<longrightarrow> total_size = 0"
    if "dd_loop fails total_size chunk_size s = Some r" for fails total_size chunk_size s r
    by (rule dd_loop.raw_induct [where P = "\<lambda>fails total_size chunk_size s r.
          fails = (\<lambda>_. None) \<longrightarrow> chunk_size = 0 \<longrightarrow> total_size = 0", OF _ that])
      (fastforce simp: dd_copy_chunk_def Let_def intro!: gr0I split: if_splits)
  from this [of "\<lambda>_. None" total_size 0 s] assms show ?thesis
    by (cases "dd_loop (\<lambda>_. None) total_size 0 s") auto
qed

section \<open>The properties\<close>

text \<open>
  Stripping removes a prefix and a suffix of strip characters and nothing else, and what is
  left, if anything, neither begins nor ends with one.
\<close>

theorem strip_spec:
  "(\<exists>a b. s = a @ ml_strip s strip_p @ b \<and> set a \<union> set b \<subseteq> set (strip_chars strip_p))
   \<and> (ml_strip s strip_p = []
      \<or> hd (ml_strip s strip_p) \<notin> set (strip_chars strip_p)
        \<and> last (ml_strip s strip_p) \<notin> set (strip_chars strip_p))"
  using strip_parts [of s strip_p] strip_ends [of s strip_p] by auto

text \<open>
  The hexdump loop prints one line per 16 bytes: the offset, the bytes in hexadecimal, and
  the printable characters aligned behind them.
\<close>

theorem hexdump_spec: "hexdump buf offset = hexdump_lines offset buf"
  by (rule hexdump_is_lines)

text \<open>
  Dumping a file in chunks of 256 bytes ends and prints exactly the hexdump of the bytes
  asked for (all of the rest of the file for a negative size), with the offsets in the file.
\<close>

theorem hexdump_file_spec:
  "ml_hexdump_file seek_ok fin offset sz =
     (if seek_ok
      then (0, hexdump (if sz < 0 then drop offset fin else take (nat sz) (drop offset fin)) offset)
      else (- EGENERAL, []))"
  by (simp add: ml_hexdump_file_def hexdump_file_is_lines hexdump_is_lines)



end
