(* ===== verification/Ml_Log_Object.thy ===== *)
theory Ml_Log_Object
  imports Ml_Core Ml_Stdlib
begin

text \<open>
  The log objects of \<open>src/src/ml_log_object.c\<close>: a registry linked through \<open>next_p\<close>, levels as
  strings, the level file written by \<open>ml_log_object_store\<close> and read back by
  \<open>ml_log_object_load\<close>, and the formatting of a log line in a buffer of 512 bytes. The list of
  objects is a chain of addresses, walked by loops that need not end when the chain is cyclic
  (\<open>None\<close>). The time stamp and the formatted message of a log line are arguments.
\<close>

section \<open>The state\<close>

record ml_log_object_t =
  obj_name :: string
  obj_level :: int
  obj_next :: "nat option"

record log_module =
  log_object_path_p :: string
  objects :: "nat \<Rightarrow> ml_log_object_t"
  head_p :: "nat option"
  written :: "string list"
  warnings :: "string list"

section \<open>Levels\<close>

definition level_to_string_upper :: "int \<Rightarrow> string" where
  "level_to_string_upper level =
     (if level = 0 then ''EMERGENCY'' else if level = 1 then ''ALERT''
      else if level = 2 then ''CRITICAL'' else if level = 3 then ''ERROR''
      else if level = 4 then ''WARNING'' else if level = 5 then ''NOTICE''
      else if level = 6 then ''INFO'' else if level = 7 then ''DEBUG'' else ''INVALID'')"

definition ml_log_object_level_to_string :: "int \<Rightarrow> string" where
  "ml_log_object_level_to_string level =
     (if level = 0 then ''emergency'' else if level = 1 then ''alert''
      else if level = 2 then ''critical'' else if level = 3 then ''error''
      else if level = 4 then ''warning'' else if level = 5 then ''notice''
      else if level = 6 then ''info'' else if level = 7 then ''debug'' else ''*** unknown ***'')"

definition ml_log_object_level_from_string :: "string \<Rightarrow> int" where
  "ml_log_object_level_from_string level =
     (if strcmp ''emergency'' level = 0 then 0 else if strcmp ''alert'' level = 0 then 1
      else if strcmp ''critical'' level = 0 then 2 else if strcmp ''error'' level = 0 then 3
      else if strcmp ''warning'' level = 0 then 4 else if strcmp ''notice'' level = 0 then 5
      else if strcmp ''info'' level = 0 then 6 else if strcmp ''debug'' level = 0 then 7 else - 1)"

section \<open>The registry\<close>

definition ml_log_object_init :: "log_module \<Rightarrow> nat \<Rightarrow> string \<Rightarrow> int \<Rightarrow> log_module" where
  "ml_log_object_init m a name level =
     m\<lparr>objects := (objects m)(a := (objects m a)\<lparr>obj_name := name, obj_level := level\<rparr>)\<rparr>"

definition ml_log_object_register :: "log_module \<Rightarrow> nat \<Rightarrow> log_module" where
  "ml_log_object_register m a =
     m\<lparr>objects := (objects m)(a := (objects m a)\<lparr>obj_next := head_p m\<rparr>), head_p := Some a\<rparr>"

definition ml_log_object_list_next :: "log_module \<Rightarrow> nat option \<Rightarrow> nat option" where
  "ml_log_object_list_next m p = (case p of None \<Rightarrow> head_p m | Some a \<Rightarrow> obj_next (objects m a))"

partial_function (option) get_by_name_loop ::
  "log_module \<Rightarrow> string \<Rightarrow> nat option \<Rightarrow> nat option option" where
  "get_by_name_loop m name p =
     (case ml_log_object_list_next m p of
        None \<Rightarrow> Some None
      | Some a \<Rightarrow>
          if strcmp (obj_name (objects m a)) name = 0 then Some (Some a)
          else get_by_name_loop m name (Some a))"

definition ml_log_object_get_by_name :: "log_module \<Rightarrow> string \<Rightarrow> nat option option" where
  "ml_log_object_get_by_name m name = get_by_name_loop m name None"

definition ml_log_object_set_level :: "log_module \<Rightarrow> nat \<Rightarrow> int \<Rightarrow> log_module" where
  "ml_log_object_set_level m a level =
     m\<lparr>objects := (objects m)(a := (objects m a)\<lparr>obj_level := level\<rparr>)\<rparr>"

definition ml_log_object_is_enabled_for :: "log_module \<Rightarrow> nat \<Rightarrow> int \<Rightarrow> bool" where
  "ml_log_object_is_enabled_for m a level \<longleftrightarrow> level \<le> obj_level (objects m a)"

text \<open>Address 0 is the module's own log object.\<close>

definition ml_log_object_module_init :: "log_module \<Rightarrow> string option \<Rightarrow> log_module" where
  "ml_log_object_module_init m path =
     (let m = m\<lparr>log_object_path_p :=
            (case path of None \<Rightarrow> ''/tmp/log_object.txt'' | Some p \<Rightarrow> p)\<rparr>
      in ml_log_object_register (ml_log_object_init m 0 ''log-object'' 6) 0)"

section \<open>The level file\<close>

text \<open>A \<open>%<n>s\<close> conversion of \<open>fscanf\<close>.\<close>

definition scan_token :: "nat \<Rightarrow> string \<Rightarrow> (string \<times> string) option" where
  "scan_token n s =
     (let s = dropWhile is_space s;
          t = take n (takeWhile (\<lambda>c. \<not> is_space c) s)
      in if t = [] then None else Some (t, drop (length t) s))"

lemma scan_token_shorter:
  assumes "scan_token n s = Some (t, r)"
  shows "length r < length s"
proof -
  let ?s = "dropWhile is_space s"
  have t: "t \<noteq> []" "t = take n (takeWhile (\<lambda>c. \<not> is_space c) ?s)" "r = drop (length t) ?s"
    using assms by (auto simp: scan_token_def Let_def split: if_splits)
  have "?s \<noteq> []"
  proof
    assume "?s = []"
    then show False using t(1,2) by (simp only: takeWhile.simps take_Nil)
  qed
  then have "length r < length ?s" using t(1,3) by simp
  then show ?thesis using length_dropWhile_le [of is_space s] by simp
qed

text \<open>The lines of the file; \<open>None\<close> when a name is looked up in a cyclic list in vain.\<close>

function load_loop :: "log_module \<Rightarrow> string \<Rightarrow> log_module option" where
  "load_loop m s =
     (case scan_token 63 s of
        None \<Rightarrow> Some m
      | Some (name, s1) \<Rightarrow>
          (case scan_token 15 s1 of
             None \<Rightarrow> Some m
           | Some (level, s2) \<Rightarrow>
               (case s2 of
                  [] \<Rightarrow> Some m
                | c # s3 \<Rightarrow>
                    if c \<noteq> CHR 0x0A then Some m
                    else
                      case ml_log_object_get_by_name m name of
                        None \<Rightarrow> None
                      | Some None \<Rightarrow>
                          load_loop (m\<lparr>warnings := warnings m @ [''No log object called '' @ name @ ''.'']\<rparr>) s3
                      | Some (Some a) \<Rightarrow>
                          let v = ml_log_object_level_from_string level
                          in if v = - 1
                             then load_loop (m\<lparr>warnings := warnings m @ [''Invalid log level '' @ level @ ''.'']\<rparr>) s3
                             else load_loop (ml_log_object_set_level m a v) s3)))"
  by pat_completeness auto
termination
  by (relation "measure (\<lambda>(m, s). length s)") (auto dest!: scan_token_shorter)

declare load_loop.simps [simp del]

text \<open>The file is its contents, or \<open>None\<close> when it cannot be opened.\<close>

definition ml_log_object_load :: "log_module \<Rightarrow> string option \<Rightarrow> log_module option" where
  "ml_log_object_load m file =
     (case file of
        None \<Rightarrow> Some (m\<lparr>warnings := warnings m @ [''Failed to open '' @ log_object_path_p m @ ''.'']\<rparr>)
      | Some s \<Rightarrow> load_loop m s)"

definition level_line :: "log_module \<Rightarrow> nat \<Rightarrow> string" where
  "level_line m a =
     obj_name (objects m a) @ '' '' @ ml_log_object_level_to_string (obj_level (objects m a)) @ newline"

partial_function (option) store_loop :: "log_module \<Rightarrow> nat option \<Rightarrow> string \<Rightarrow> string option" where
  "store_loop m p out =
     (case ml_log_object_list_next m p of
        None \<Rightarrow> Some out
      | Some a \<Rightarrow> store_loop m (Some a) (out @ level_line m a))"

text \<open>The result and the new contents of the file.\<close>

definition ml_log_object_store :: "log_module \<Rightarrow> bool \<Rightarrow> (int \<times> string option) option" where
  "ml_log_object_store m open_ok =
     (if \<not> open_ok then Some (- EGENERAL, None)
      else map_option (\<lambda>out. (0, Some out)) (store_loop m None []))"

section \<open>Log lines\<close>

text \<open>
  \<open>snprintf(&buf[pos], size, ...)\<close> of a formatted text: at most \<open>size - 1\<close> characters and a
  terminating zero are written; the result is the length of the text. The size argument is an
  unsigned difference, huge when it wraps.
\<close>

definition write_at :: "string \<Rightarrow> nat \<Rightarrow> string \<Rightarrow> string" where
  "write_at buf pos t = take pos buf @ t @ drop (pos + length t) buf"

definition snprintf :: "string \<Rightarrow> nat \<Rightarrow> u64 \<Rightarrow> string \<Rightarrow> string res" where
  "snprintf buf pos sz text =
     (if sz = 0 then Inr buf
      else let t = take (unat sz - 1) text @ [CHR 0x00]
           in if pos + length t \<le> length buf then Inr (write_at buf pos t) else Inl OutOfBounds)"

text \<open>\<open>now\<close> is the 19-character time stamp, \<open>text\<close> the formatted message.\<close>

definition ml_log_object_vprint :: "log_module \<Rightarrow> nat \<Rightarrow> int \<Rightarrow> string \<Rightarrow> string \<Rightarrow> log_module res" where
  "ml_log_object_vprint m a level now text =
     (if level > obj_level (objects m a) then Inr m
      else let buf = write_at (replicate 512 (CHR 0x00)) 0 now;
               len = length now;
               prefix = '' '' @ level_to_string_upper level @ '' '' @ obj_name (objects m a) @ '' ''
           in andthen (snprintf buf len (512 - of_nat len) prefix) (\<lambda>buf.
              let len = len + length prefix
              in andthen (snprintf buf len (512 - of_nat len) text) (\<lambda>buf.
                 let len = len + length text;
                     len = (if len \<ge> 512 then 511 else len);
                     buf = buf[len := CHR 0x0A];
                     len = len + 1
                 in Inr (m\<lparr>written := written m @ [take len buf]\<rparr>))))"

definition ml_log_object_print :: "log_module \<Rightarrow> nat \<Rightarrow> int \<Rightarrow> string \<Rightarrow> string \<Rightarrow> log_module res" where
  "ml_log_object_print m a level now text = ml_log_object_vprint m a level now text"

text \<open>\<open>fgets\<close> with a buffer of \<open>n + 1\<close> characters: up to a newline, at most \<open>n\<close> characters.\<close>

fun fgets :: "nat \<Rightarrow> string \<Rightarrow> string \<times> string" where
  "fgets n [] = ([], [])"
| "fgets 0 s = ([], s)"
| "fgets (Suc n) (c # s) =
     (if c = CHR 0x0A then ([c], s) else let (l, r) = fgets n s in (c # l, r))"

lemma fgets_append: "fgets n s = (l, r) \<Longrightarrow> s = l @ r"
  by (induction n s arbitrary: l r rule: fgets.induct) (auto split: if_splits prod.splits)

function hexdump_print_loop :: "log_module \<Rightarrow> nat \<Rightarrow> int \<Rightarrow> string \<Rightarrow> string \<Rightarrow> log_module res" where
  "hexdump_print_loop m a level now s =
     (let (line, r) = fgets 127 s
      in if line = [] then Inr m
         else case ml_log_object_print m a level now (ml_rstrip line None) of
                Inl e \<Rightarrow> Inl e
              | Inr m \<Rightarrow> hexdump_print_loop m a level now r)"
  by pat_completeness auto
termination
  by (relation "measure (\<lambda>(m, a, level, now, s). length s)") (auto dest!: fgets_append [OF sym])

declare hexdump_print_loop.simps [simp del]

text \<open>
  The dump is formatted to memory, then printed line by line under the time stamp \<open>now\<close>. An
  empty dump cannot be opened for reading.
\<close>

definition ml_log_object_hexdump :: "log_module \<Rightarrow> nat \<Rightarrow> int \<Rightarrow> string \<Rightarrow> bytes \<Rightarrow> log_module res" where
  "ml_log_object_hexdump m a level now buf =
     (if level > obj_level (objects m a) then Inr m
      else let formatted = ml_hexdump buf
           in if formatted = [] then Inr m else hexdump_print_loop m a level now formatted)"

section \<open>Chains\<close>

fun chain :: "log_module \<Rightarrow> nat option \<Rightarrow> nat list \<Rightarrow> bool" where
  "chain m p [] \<longleftrightarrow> p = None"
| "chain m p (a # as) \<longleftrightarrow> p = Some a \<and> chain m (obj_next (objects m a)) as"

definition registry :: "log_module \<Rightarrow> nat list \<Rightarrow> bool" where
  "registry m as \<longleftrightarrow> chain m (head_p m) as \<and> distinct as"

lemma chain_cong:
  "chain m p as \<Longrightarrow> (\<And>a. a \<in> set as \<Longrightarrow> obj_next (objects m' a) = obj_next (objects m a)) \<Longrightarrow> chain m' p as"
  by (induction as arbitrary: p) auto

lemma get_by_name_chain:
  "chain m (ml_log_object_list_next m p) as \<Longrightarrow>
   get_by_name_loop m name p = Some (find (\<lambda>a. obj_name (objects m a) = name) as)"
proof (induction as arbitrary: p)
  case Nil
  then show ?case by (subst get_by_name_loop.simps) simp
next
  case (Cons a as)
  then have "get_by_name_loop m name (Some a) = Some (find (\<lambda>a. obj_name (objects m a) = name) as)"
    by (intro Cons.IH) (simp add: ml_log_object_list_next_def)
  then show ?case using Cons.prems by (subst get_by_name_loop.simps) (simp add: strcmp_zero)
qed

lemma store_chain:
  "chain m (ml_log_object_list_next m p) as \<Longrightarrow>
   store_loop m p out = Some (out @ concat (map (level_line m) as))"
proof (induction as arbitrary: p out)
  case Nil
  then show ?case by (subst store_loop.simps) simp
next
  case (Cons a as)
  then have "store_loop m (Some a) (out @ level_line m a)
      = Some ((out @ level_line m a) @ concat (map (level_line m) as))"
    by (intro Cons.IH) (simp add: ml_log_object_list_next_def)
  then show ?case using Cons.prems by (subst store_loop.simps) simp
qed

lemma registry_register:
  assumes "registry m as" and "a \<notin> set as"
  shows "registry (ml_log_object_register m a) (a # as)"
proof -
  have "obj_next (objects (ml_log_object_register m a) x) = obj_next (objects m x)" if "x \<in> set as" for x
    using assms(2) that by (auto simp: ml_log_object_register_def)
  then have "chain (ml_log_object_register m a) (head_p m) as"
    using assms(1) chain_cong [of m "head_p m" as "ml_log_object_register m a"]
    by (simp add: registry_def)
  then show ?thesis using assms by (simp add: registry_def ml_log_object_register_def)
qed

text \<open>An object registered while it is the head becomes its own successor.\<close>

lemma get_by_name_diverges:
  assumes "obj_next (objects m a) = Some a" and "obj_name (objects m a) \<noteq> name"
  shows "get_by_name_loop m name (Some a) = None"
proof -
  have "m' = m \<longrightarrow> name' = name \<longrightarrow> p \<noteq> Some a"
    if "get_by_name_loop m' name' p = Some r" for m' name' p r
    by (rule get_by_name_loop.raw_induct [where P = "\<lambda>m' name' p r. m' = m \<longrightarrow> name' = name \<longrightarrow> p \<noteq> Some a",
          OF _ that])
      (use assms in \<open>fastforce simp: ml_log_object_list_next_def strcmp_zero split: option.splits if_splits\<close>)
  from this [of m name "Some a"] show ?thesis by (cases "get_by_name_loop m name (Some a)") auto
qed

section \<open>The level file\<close>

definition name_ok :: "string \<Rightarrow> bool" where
  "name_ok s \<longleftrightarrow> s \<noteq> [] \<and> length s \<le> 63 \<and> (\<forall>c \<in> set s. \<not> is_space c)"

lemma scan_token_word:
  assumes "t \<noteq> []" and "length t \<le> n" and "\<forall>c \<in> set t. \<not> is_space c" and "is_space c"
  shows "scan_token n (t @ c # s) = Some (t, c # s)"
proof -
  have "dropWhile is_space (t @ c # s) = t @ c # s" using assms(1,3) by (cases t) auto
  moreover have "takeWhile (\<lambda>c. \<not> is_space c) (t @ c # s) = t"
    using assms(3,4) by (subst takeWhile_append2) auto
  moreover have "0 < n" using assms(1,2) by (cases n) auto
  ultimately show ?thesis using assms(1,2) by (simp add: scan_token_def)
qed

lemma scan_token_skip: "is_space c \<Longrightarrow> scan_token n (c # s) = scan_token n s"
  by (simp add: scan_token_def)

lemma level_string:
  assumes "0 \<le> l" and "l \<le> 7"
  shows "ml_log_object_level_from_string (ml_log_object_level_to_string l) = l"
    and "ml_log_object_level_to_string l \<noteq> []" and "length (ml_log_object_level_to_string l) \<le> 15"
    and "\<forall>c \<in> set (ml_log_object_level_to_string l). \<not> is_space c"
proof -
  from assms consider "l = 0" | "l = 1" | "l = 2" | "l = 3" | "l = 4" | "l = 5" | "l = 6" | "l = 7"
    by linarith
  then have "ml_log_object_level_from_string (ml_log_object_level_to_string l) = l
    \<and> ml_log_object_level_to_string l \<noteq> [] \<and> length (ml_log_object_level_to_string l) \<le> 15
    \<and> (\<forall>c \<in> set (ml_log_object_level_to_string l). \<not> is_space c)"
    by cases (simp_all add: ml_log_object_level_to_string_def ml_log_object_level_from_string_def
        strcmp_zero is_space_def strip_chars_def)
  then show "ml_log_object_level_from_string (ml_log_object_level_to_string l) = l"
    "ml_log_object_level_to_string l \<noteq> []" "length (ml_log_object_level_to_string l) \<le> 15"
    "\<forall>c \<in> set (ml_log_object_level_to_string l). \<not> is_space c" by auto
qed

lemma spaces: "is_space (CHR '' '')" "is_space (CHR 0x0A)"
  by (simp_all add: is_space_def)

lemma load_line:
  assumes "name_ok name" and "0 \<le> l" and "l \<le> 7" and "ml_log_object_get_by_name m name = Some (Some a)"
  shows "load_loop m (name @ '' '' @ ml_log_object_level_to_string l @ newline @ s)
    = load_loop (ml_log_object_set_level m a l) s"
proof -
  let ?l = "ml_log_object_level_to_string l"
  have 1: "scan_token 63 (name @ CHR '' '' # ?l @ CHR 0x0A # s) = Some (name, CHR '' '' # ?l @ CHR 0x0A # s)"
    using assms(1) spaces(1) by (intro scan_token_word) (auto simp: name_ok_def)
  have 2: "scan_token 15 (CHR '' '' # ?l @ CHR 0x0A # s) = Some (?l, CHR 0x0A # s)"
    using level_string(2,3,4) [OF assms(2,3)] spaces
    by (simp add: scan_token_skip) (intro scan_token_word; simp)
  show ?thesis using 1 2 assms(2,4) level_string(1) [OF assms(2,3)]
    by (subst load_loop.simps) (simp add: newline_def)
qed

lemma find_unique: "distinct (map f as) \<Longrightarrow> a \<in> set as \<Longrightarrow> find (\<lambda>x. f x = f a) as = Some a"
  by (induction as) auto

lemma set_level_frame [simp]:
  "obj_name (objects (ml_log_object_set_level m a v) x) = obj_name (objects m x)"
  "obj_next (objects (ml_log_object_set_level m a v) x) = obj_next (objects m x)"
  "head_p (ml_log_object_set_level m a v) = head_p m"
  "obj_level (objects (ml_log_object_set_level m a v) x) = (if x = a then v else obj_level (objects m x))"
  by (simp_all add: ml_log_object_set_level_def)

lemma get_by_name_registry:
  "registry m as \<Longrightarrow>
   ml_log_object_get_by_name m name = Some (find (\<lambda>a. obj_name (objects m a) = name) as)"
  unfolding ml_log_object_get_by_name_def
  by (rule get_by_name_chain) (simp add: registry_def ml_log_object_list_next_def)

lemma registry_cong:
  "registry m as \<Longrightarrow> head_p m' = head_p m \<Longrightarrow>
   (\<And>a. obj_next (objects m' a) = obj_next (objects m a)) \<Longrightarrow> registry m' as"
  by (auto simp: registry_def intro: chain_cong)

lemma load_lines:
  assumes "registry m' as" and "\<And>a. obj_name (objects m' a) = obj_name (objects m a)"
    and "distinct (map (\<lambda>a. obj_name (objects m a)) as)"
    and "\<And>a. a \<in> set as \<Longrightarrow> name_ok (obj_name (objects m a)) \<and> 0 \<le> obj_level (objects m a) \<and> obj_level (objects m a) \<le> 7"
    and "set bs \<subseteq> set as"
  shows "\<exists>m''. load_loop m' (concat (map (level_line m) bs)) = Some m''
    \<and> (\<forall>a. obj_level (objects m'' a)
         = (if a \<in> set bs then obj_level (objects m a) else obj_level (objects m' a)))"
  using assms(1,2,5)
proof (induction bs arbitrary: m')
  case Nil
  have "scan_token 63 [] = None" by (simp add: scan_token_def)
  then show ?case by (subst load_loop.simps) simp
next
  case (Cons b bs)
  let ?l = "obj_level (objects m b)"
  have b: "b \<in> set as" using Cons.prems(3) by simp
  have "ml_log_object_get_by_name m' (obj_name (objects m b)) = Some (Some b)"
    using get_by_name_registry [OF Cons.prems(1)] find_unique [OF assms(3) b] Cons.prems(2) by simp
  then have l: "load_loop m' (concat (map (level_line m) (b # bs)))
      = load_loop (ml_log_object_set_level m' b ?l) (concat (map (level_line m) bs))"
    using load_line [of "obj_name (objects m b)" ?l m' b "concat (map (level_line m) bs)"] assms(4) [OF b]
    by (simp add: level_line_def)
  have "registry (ml_log_object_set_level m' b ?l) as"
    using registry_cong [OF Cons.prems(1)] by simp
  then obtain m'' where "load_loop (ml_log_object_set_level m' b ?l) (concat (map (level_line m) bs)) = Some m''"
    "\<forall>a. obj_level (objects m'' a) = (if a \<in> set bs then obj_level (objects m a)
        else obj_level (objects (ml_log_object_set_level m' b ?l) a))"
    using Cons.IH [of "ml_log_object_set_level m' b ?l"] Cons.prems(2,3) by auto
  then show ?case using l by auto
qed

section \<open>Log lines\<close>

lemma unat_room:
  assumes "pos \<le> 512"
  shows "unat (512 - of_nat pos :: u64) = 512 - pos"
proof -
  have p: "unat (of_nat pos :: u64) = pos" using assms by (simp add: unat_of_nat take_bit_nat_eq_self)
  then have "(of_nat pos :: u64) \<le> 512" using assms by (simp add: word_le_nat_alt)
  then show ?thesis using p by (simp add: unat_sub)
qed

lemma snprintf_room:
  assumes "length buf = 512" and "pos < 512"
  shows "\<exists>buf'. snprintf buf pos (512 - of_nat pos) text = Inr buf' \<and> length buf' = 512
    \<and> take (min 511 (pos + length text)) buf' = take pos buf @ take (511 - pos) text"
proof -
  let ?t = "take (511 - pos) text @ [CHR 0x00]"
  have u: "unat (512 - of_nat pos :: u64) = 512 - pos" using assms(2) by (simp add: unat_room)
  have "(512 - of_nat pos :: u64) \<noteq> 0" using u assms(2) by (metis unat_0 zero_less_diff less_irrefl)
  moreover have "take (512 - pos - 1) text = take (511 - pos) text" by simp
  ultimately have "snprintf buf pos (512 - of_nat pos) text = Inr (write_at buf pos ?t)"
    using assms u by (simp add: snprintf_def Let_def)
  moreover have "length (write_at buf pos ?t) = 512" using assms by (simp add: write_at_def)
  moreover have "take (min 511 (pos + length text)) (write_at buf pos ?t) = take pos buf @ take (511 - pos) text"
    using assms by (cases "pos = 511") (auto simp: write_at_def min_def)
  ultimately show ?thesis by blast
qed

lemma take_newline: "len < length buf \<Longrightarrow> take (len + 1) (buf[len := c]) = take len buf @ [c]"
  by (simp add: take_Suc_conv_app_nth)

text \<open>What is put in front of the message.\<close>

definition log_header :: "log_module \<Rightarrow> nat \<Rightarrow> int \<Rightarrow> string \<Rightarrow> string" where
  "log_header m a level now =
     now @ '' '' @ level_to_string_upper level @ '' '' @ obj_name (objects m a) @ '' ''"

lemma vprint_fits:
  assumes "length now < 512" and "length (log_header m a level now) \<le> 512" and "level \<le> obj_level (objects m a)"
  shows "ml_log_object_vprint m a level now text
    = Inr (m\<lparr>written := written m @ [take 511 (log_header m a level now @ text) @ newline]\<rparr>)"
proof -
  define prefix where "prefix = '' '' @ level_to_string_upper level @ '' '' @ obj_name (objects m a) @ '' ''"
  define len where "len = length now + length prefix"
  have h: "log_header m a level now = now @ prefix" by (simp add: log_header_def prefix_def)
  then have len: "len \<le> 512" using assms(2) by (simp add: len_def)
  let ?b0 = "write_at (replicate 512 (CHR 0x00)) 0 now"
  have b0: "length ?b0 = 512" "take (length now) ?b0 = now" using assms(1) by (simp_all add: write_at_def)
  obtain b1 where b1: "snprintf ?b0 (length now) (512 - of_nat (length now)) prefix = Inr b1" "length b1 = 512"
    "take (min 511 len) b1 = now @ take (511 - length now) prefix"
    using snprintf_room [OF b0(1) assms(1), of prefix] b0(2) by (auto simp: len_def)
  have "\<exists>b2. snprintf b1 len (512 - of_nat len) text = Inr b2 \<and> length b2 = 512
      \<and> take (min 511 (len + length text)) b2 = take 511 (now @ prefix @ text)"
  proof (cases "len = 512")
    case True
    then have "snprintf b1 len (512 - of_nat len) text = Inr b1" by (simp add: snprintf_def)
    moreover have "take 511 (now @ prefix @ text) = now @ take (511 - length now) prefix"
      using True assms(1) by (simp add: len_def)
    ultimately show ?thesis using b1 True by simp
  next
    case False
    then have l: "len < 512" using len by simp
    then have "min 511 len = len" "take (511 - length now) prefix = prefix" by (simp_all add: len_def)
    then have "take len b1 = now @ prefix" using b1(3) by metis
    then show ?thesis using snprintf_room [OF b1(2) l, of "text"] l by (auto simp: len_def)
  qed
  then obtain b2 where b2: "snprintf b1 len (512 - of_nat len) text = Inr b2" "length b2 = 512"
    "take (min 511 (len + length text)) b2 = take 511 (now @ prefix @ text)" by blast
  let ?n = "if len + length text \<ge> 512 then 511 else len + length text"
  have n: "?n = min 511 (len + length text)" by simp
  have "take (?n + 1) (b2[?n := CHR 0x0A]) = take 511 (now @ prefix @ text) @ newline"
    unfolding n using take_newline [of "min 511 (len + length text)" b2 "CHR 0x0A"] b2(2,3)
    by (simp add: newline_def)
  then show ?thesis using assms(3) b1(1) b2(1)
    unfolding ml_log_object_vprint_def prefix_def [symmetric] h Let_def len_def [symmetric]
    by simp
qed

lemma vprint_overflows:
  assumes "length now < 512" and "512 < length (log_header m a level now)"
    and "length (log_header m a level now) < 2 ^ 64" and "level \<le> obj_level (objects m a)"
  shows "ml_log_object_vprint m a level now text = Inl OutOfBounds"
proof -
  define prefix where "prefix = '' '' @ level_to_string_upper level @ '' '' @ obj_name (objects m a) @ '' ''"
  define len where "len = length now + length prefix"
  have len: "512 < len" "len < 2 ^ 64" using assms(2,3) by (simp_all add: len_def prefix_def log_header_def)
  let ?b0 = "write_at (replicate 512 (CHR 0x00)) 0 now"
  have "length ?b0 = 512" using assms(1) by (simp add: write_at_def)
  then obtain b1 where b1: "snprintf ?b0 (length now) (512 - of_nat (length now)) prefix = Inr b1" "length b1 = 512"
    using snprintf_room [OF _ assms(1), of ?b0 prefix] by auto
  have "unat (of_nat len :: u64) = len" using len(2) by (simp add: unat_of_nat take_bit_nat_eq_self)
  then have "(of_nat len :: u64) \<noteq> 512" using len(1) by auto
  then have "(512 - of_nat len :: u64) \<noteq> 0" by simp
  then have "snprintf b1 len (512 - of_nat len) text = Inl OutOfBounds"
    using len(1) b1(2) by (simp add: snprintf_def Let_def)
  then show ?thesis using assms(4) b1(1)
    unfolding ml_log_object_vprint_def prefix_def [symmetric] Let_def len_def [symmetric] by simp
qed

section \<open>The properties\<close>

text \<open>
  Storing the levels and loading the file restores the level of every registered object,
  whatever the levels are in between, when the names are distinct words of at most 63
  characters and the stored levels are valid; other objects keep their level.
\<close>

theorem log_levels_roundtrip:
  assumes "registry m as" and "registry m' as"
    and "\<And>a. obj_name (objects m' a) = obj_name (objects m a)"
    and "distinct (map (\<lambda>a. obj_name (objects m a)) as)"
    and "\<And>a. a \<in> set as \<Longrightarrow>
       name_ok (obj_name (objects m a)) \<and> 0 \<le> obj_level (objects m a) \<and> obj_level (objects m a) \<le> 7"
  shows "\<exists>text m''. ml_log_object_store m True = Some (0, Some text)
    \<and> ml_log_object_load m' (Some text) = Some m''
    \<and> (\<forall>a. obj_level (objects m'' a)
         = (if a \<in> set as then obj_level (objects m a) else obj_level (objects m' a)))"
proof -
  have "store_loop m None [] = Some (concat (map (level_line m) as))"
    using store_chain [of m None as "[]"] assms(1) by (simp add: registry_def ml_log_object_list_next_def)
  then show ?thesis
    using load_lines [OF assms(2,3,4,5) order_refl]
    by (auto simp: ml_log_object_store_def ml_log_object_load_def)
qed

definition example_module :: log_module where
  "example_module = \<lparr>log_object_path_p = ''x'', objects = (\<lambda>_. \<lparr>obj_name = ''a'', obj_level = 3, obj_next = None\<rparr>),
     head_p = Some 1, written = [], warnings = []\<rparr>"

lemma example_module_facts:
  "registry example_module [1]" "name_ok (obj_name (objects example_module a))"
  by (simp_all add: registry_def example_module_def name_ok_def is_space_def strip_chars_def)

theorem log_levels_roundtrip_witness:
  "\<exists>text m''. ml_log_object_store example_module True = Some (0, Some text)
     \<and> ml_log_object_load (ml_log_object_set_level example_module 1 7) (Some text) = Some m''
     \<and> obj_level (objects m'' 1) = 3"
proof -
  have r: "registry (ml_log_object_set_level example_module 1 7) [1]"
    by (rule registry_cong [OF example_module_facts(1)]) simp_all
  have "\<exists>text m''. ml_log_object_store example_module True = Some (0, Some text)
    \<and> ml_log_object_load (ml_log_object_set_level example_module 1 7) (Some text) = Some m''
    \<and> (\<forall>a. obj_level (objects m'' a) = (if a \<in> set [1] then obj_level (objects example_module a)
         else obj_level (objects (ml_log_object_set_level example_module 1 7) a)))"
    using example_module_facts(2)
    by (intro log_levels_roundtrip [OF example_module_facts(1) r]) (simp_all add: example_module_def)
  moreover have "obj_level (objects example_module 1) = 3" by (simp add: example_module_def)
  ultimately show ?thesis by fastforce
qed

text \<open>
  Registering a new object puts it in front of the registry, and a lookup finds the most
  recently registered object of that name; registering the first object again makes the
  lookup of any other name run forever.
\<close>

theorem log_register_lookup:
  assumes "registry m as"
  shows "(a \<notin> set as \<longrightarrow>
      registry (ml_log_object_register m a) (a # as)
      \<and> ml_log_object_get_by_name (ml_log_object_register m a) name
        = Some (if obj_name (objects m a) = name then Some a
                else find (\<lambda>b. obj_name (objects m b) = name) as))
    \<and> (head_p m = Some a \<and> obj_name (objects m a) \<noteq> name \<longrightarrow>
         ml_log_object_get_by_name (ml_log_object_register m a) name = None)"
proof (intro conjI impI)
  assume a: "a \<notin> set as"
  then show r: "registry (ml_log_object_register m a) (a # as)" using registry_register [OF assms] by simp
  have "find (\<lambda>b. obj_name (objects (ml_log_object_register m a) b) = name) as
      = find (\<lambda>b. obj_name (objects m b) = name) as"
    by (intro find_cong) (simp_all add: ml_log_object_register_def)
  then show "ml_log_object_get_by_name (ml_log_object_register m a) name
      = Some (if obj_name (objects m a) = name then Some a
              else find (\<lambda>b. obj_name (objects m b) = name) as)"
    using get_by_name_registry [OF r] by (simp add: ml_log_object_register_def)
next
  assume h: "head_p m = Some a \<and> obj_name (objects m a) \<noteq> name"
  let ?m = "ml_log_object_register m a"
  have "get_by_name_loop ?m name (Some a) = None"
    using h by (intro get_by_name_diverges) (simp_all add: ml_log_object_register_def)
  then show "ml_log_object_get_by_name ?m name = None"
    unfolding ml_log_object_get_by_name_def using h
    by (subst get_by_name_loop.simps)
      (simp add: ml_log_object_list_next_def ml_log_object_register_def strcmp_zero)
qed

theorem log_register_lookup_witness:
  "ml_log_object_get_by_name (ml_log_object_register example_module 2) ''a'' = Some (Some 2)
   \<and> ml_log_object_get_by_name (ml_log_object_register example_module 1) ''b'' = None"
  using log_register_lookup [OF example_module_facts(1), of 2 "''a''"]
    log_register_lookup [OF example_module_facts(1), of 1 "''b''"]
  by (simp add: example_module_def)

text \<open>
  C36: an enabled log line is written in one piece, cut to 511 characters and closed by a newline,
  whenever the time stamp, level and name fit the buffer of 512 bytes; a longer name makes the
  message be written behind the buffer.
\<close>

theorem log_line_bounds:
  assumes "length now < 512" and "level \<le> obj_level (objects m a)"
    and "length (log_header m a level now) < 2 ^ 64"
  shows "ml_log_object_print m a level now text =
    (if length (log_header m a level now) \<le> 512
     then Inr (m\<lparr>written := written m @ [take 511 (log_header m a level now @ text) @ newline]\<rparr>)
     else Inl OutOfBounds)"
  using vprint_fits [OF assms(1) _ assms(2)] vprint_overflows [OF assms(1) _ assms(3,2)]
  by (simp add: ml_log_object_print_def)

theorem log_line_bounds_witness:
  "ml_log_object_print example_module 1 3 ''T'' ''hi''
     = Inr (example_module\<lparr>written := [''T ERROR a hi'' @ newline]\<rparr>)"
  using log_line_bounds [of "''T''" 3 example_module 1 "''hi''"]
  by (simp add: example_module_def log_header_def level_to_string_upper_def)

end
