(* ===== verification/Ml_Shell_Line.thy ===== *)
theory Ml_Shell_Line
  imports Ml_Prelude
begin

text \<open>
  The edited line of the shell (\<open>struct line_t\<close> and the \<open>line_*\<close> functions of
  \<open>src/src/ml_shell.c\<close>): a buffer of 256 characters with a length and a cursor, changed by
  \<open>memmove\<close>. Every access is checked against the buffer. The locale \<open>line_editor\<close> is the
  contract a text with a cursor keeps (the text before and behind it); the composed edits of the
  key handlers are proved in it once, and the buffer interprets it.
\<close>

section \<open>The buffer and its operations\<close>

definition COMMAND_MAX :: nat where "COMMAND_MAX = 256"

record line_t =
  buf :: string
  line_length :: nat
  cursor :: nat

abbreviation NUL :: char where "NUL \<equiv> CHR 0x00"

text \<open>The C string at the start of a buffer.\<close>

definition c_str :: "string \<Rightarrow> string" where
  "c_str b = takeWhile (\<lambda>c. c \<noteq> NUL) b"

definition store :: "string \<Rightarrow> nat \<Rightarrow> char \<Rightarrow> string res" where
  "store b i c = (if i < length b then Inr (b[i := c]) else Inl OutOfBounds)"

text \<open>\<open>memmove(&b[dst], &b[src], n)\<close> inside one buffer.\<close>

definition memmove :: "string \<Rightarrow> nat \<Rightarrow> nat \<Rightarrow> nat \<Rightarrow> string res" where
  "memmove b dst src n =
     (if dst + n \<le> length b \<and> src + n \<le> length b
      then Inr (take dst b @ take n (drop src b) @ drop (dst + n) b)
      else Inl OutOfBounds)"

definition line_init :: "line_t \<Rightarrow> line_t res" where
  "line_init self = andthen (store (buf self) 0 NUL) (\<lambda>b. Inr \<lparr>buf = b, line_length = 0, cursor = 0\<rparr>)"

definition line_insert :: "line_t \<Rightarrow> char \<Rightarrow> (bool \<times> line_t) res" where
  "line_insert self ch =
     (if line_length self = COMMAND_MAX - 1 then Inr (False, self)
      else andthen (memmove (buf self) (cursor self + 1) (cursor self)
                      (line_length self - cursor self + 1)) (\<lambda>b.
           andthen (store b (cursor self) ch) (\<lambda>b.
           Inr (True, \<lparr>buf = b, line_length = line_length self + 1, cursor = cursor self + 1\<rparr>))))"

fun line_insert_string :: "line_t \<Rightarrow> string \<Rightarrow> line_t res" where
  "line_insert_string self [] = Inr self"
| "line_insert_string self (c # s) =
     andthen (line_insert self c) (\<lambda>(ok, self).
       if \<not> ok then Inr self else line_insert_string self s)"

definition line_delete :: "line_t \<Rightarrow> line_t res" where
  "line_delete self =
     (if cursor self = line_length self then Inr self
      else andthen (memmove (buf self) (cursor self) (cursor self + 1)
                      (line_length self - cursor self)) (\<lambda>b.
           Inr (self\<lparr>buf := b, line_length := line_length self - 1\<rparr>)))"

definition line_peek :: "line_t \<Rightarrow> char res" where
  "line_peek self = fetch (buf self) (cursor self)"

definition line_truncate :: "line_t \<Rightarrow> line_t res" where
  "line_truncate self =
     andthen (store (buf self) (cursor self) NUL) (\<lambda>b.
       Inr (self\<lparr>buf := b, line_length := cursor self\<rparr>))"

definition line_is_empty :: "line_t \<Rightarrow> bool" where
  "line_is_empty self \<longleftrightarrow> line_length self = 0"

definition line_get_buf :: "line_t \<Rightarrow> string" where
  "line_get_buf self = c_str (buf self)"

definition line_get_length :: "line_t \<Rightarrow> nat" where
  "line_get_length self = line_length self"

definition line_seek :: "line_t \<Rightarrow> int \<Rightarrow> bool \<times> line_t" where
  "line_seek self pos =
     (if pos < 0
      then if int (cursor self) + pos < 0 then (False, self)
           else (True, self\<lparr>cursor := nat (int (cursor self) + pos)\<rparr>)
      else if int (cursor self) + pos > int (line_length self) then (False, self)
           else (True, self\<lparr>cursor := nat (int (cursor self) + pos)\<rparr>))"

definition line_get_cursor :: "line_t \<Rightarrow> nat" where
  "line_get_cursor self = cursor self"

definition line_seek_begin :: "line_t \<Rightarrow> line_t" where
  "line_seek_begin self = self\<lparr>cursor := 0\<rparr>"

definition line_seek_end :: "line_t \<Rightarrow> line_t" where
  "line_seek_end self = self\<lparr>cursor := line_length self\<rparr>"

section \<open>The text and the cursor\<close>

definition line_inv :: "line_t \<Rightarrow> bool" where
  "line_inv l \<longleftrightarrow> length (buf l) = COMMAND_MAX \<and> cursor l \<le> line_length l
     \<and> line_length l < COMMAND_MAX \<and> buf l ! line_length l = NUL"

text \<open>The text before and the text behind the cursor.\<close>

definition before :: "line_t \<Rightarrow> string" where
  "before l = take (cursor l) (buf l)"

definition behind :: "line_t \<Rightarrow> string" where
  "behind l = take (line_length l - cursor l) (drop (cursor l) (buf l))"

definition line_text :: "line_t \<Rightarrow> string" where
  "line_text l = before l @ behind l"

text \<open>
  What a text with a cursor promises its clients: the text on each side of the cursor after each
  operation, and that every operation keeps the invariant and returns.
\<close>

locale line_editor =
  fixes linv :: "'l \<Rightarrow> bool"
    and lbefore :: "'l \<Rightarrow> string"
    and lbehind :: "'l \<Rightarrow> string"
    and linsert :: "'l \<Rightarrow> char \<Rightarrow> (bool \<times> 'l) res"
    and ldelete :: "'l \<Rightarrow> 'l res"
    and lseek :: "'l \<Rightarrow> int \<Rightarrow> bool \<times> 'l"
    and lpeek :: "'l \<Rightarrow> char res"
    and lcap :: nat
  assumes insert_room: "linv l \<Longrightarrow> length (lbefore l) + length (lbehind l) < lcap \<Longrightarrow>
      \<exists>l'. linsert l c = Inr (True, l') \<and> linv l' \<and> lbefore l' = lbefore l @ [c] \<and> lbehind l' = lbehind l"
    and insert_full: "linv l \<Longrightarrow> length (lbefore l) + length (lbehind l) = lcap \<Longrightarrow>
      linsert l c = Inr (False, l)"
    and capacity: "linv l \<Longrightarrow> length (lbefore l) + length (lbehind l) \<le> lcap"
    and delete: "linv l \<Longrightarrow>
      \<exists>l'. ldelete l = Inr l' \<and> linv l' \<and> lbefore l' = lbefore l \<and> lbehind l' = tl (lbehind l)"
    and seek_left: "linv l \<Longrightarrow> lbefore l \<noteq> [] \<Longrightarrow>
      \<exists>l'. lseek l (- 1) = (True, l') \<and> linv l' \<and> lbefore l' = butlast (lbefore l)
        \<and> lbehind l' = last (lbefore l) # lbehind l"
    and seek_left_edge: "linv l \<Longrightarrow> lbefore l = [] \<Longrightarrow> lseek l (- 1) = (False, l)"
    and seek_right: "linv l \<Longrightarrow> lbehind l \<noteq> [] \<Longrightarrow>
      \<exists>l'. lseek l 1 = (True, l') \<and> linv l' \<and> lbefore l' = lbefore l @ [hd (lbehind l)]
        \<and> lbehind l' = tl (lbehind l)"
    and seek_right_edge: "linv l \<Longrightarrow> lbehind l = [] \<Longrightarrow> lseek l 1 = (False, l)"
    and peek: "linv l \<Longrightarrow> lpeek l = Inr (case lbehind l of [] \<Rightarrow> NUL | c # _ \<Rightarrow> c)"
begin

text \<open>Going left and deleting removes the character before the cursor.\<close>

lemma backspace:
  assumes "linv l" and "lbefore l \<noteq> []"
  shows "\<exists>l1 l2. lseek l (- 1) = (True, l1) \<and> ldelete l1 = Inr l2 \<and> linv l2
    \<and> lbefore l2 = butlast (lbefore l) \<and> lbehind l2 = lbehind l"
proof -
  obtain l1 where l1: "lseek l (- 1) = (True, l1)" "linv l1" "lbefore l1 = butlast (lbefore l)"
      "lbehind l1 = last (lbefore l) # lbehind l"
    using seek_left [OF assms] by blast
  obtain l2 where "ldelete l1 = Inr l2" "linv l2" "lbefore l2 = lbefore l1" "lbehind l2 = tl (lbehind l1)"
    using delete [OF l1(2)] by blast
  with l1 show ?thesis by auto
qed

text \<open>Delete, go left, insert and go right swaps the characters on both sides of the cursor.\<close>

lemma swap:
  assumes "linv l" and "lbefore l = b @ [x]" and "lbehind l = y # r"
  shows "\<exists>l1 l2 l3 l4. ldelete l = Inr l1 \<and> lseek l1 (- 1) = (True, l2)
    \<and> linsert l2 y = Inr (True, l3) \<and> lseek l3 1 = (True, l4) \<and> linv l4
    \<and> lbefore l4 = b @ [y, x] \<and> lbehind l4 = r"
proof -
  obtain l1 where l1: "ldelete l = Inr l1" "linv l1" "lbefore l1 = b @ [x]" "lbehind l1 = r"
    using delete [OF assms(1)] assms by auto
  obtain l2 where l2: "lseek l1 (- 1) = (True, l2)" "linv l2" "lbefore l2 = b" "lbehind l2 = x # r"
    using seek_left [OF l1(2)] l1 by auto
  have "length (lbefore l2) + length (lbehind l2) < lcap"
    using capacity [OF assms(1)] assms l2 by simp
  then obtain l3 where l3: "linsert l2 y = Inr (True, l3)" "linv l3" "lbefore l3 = b @ [y]"
      "lbehind l3 = x # r"
    using insert_room [OF l2(2)] l2 by metis
  obtain l4 where "lseek l3 1 = (True, l4)" "linv l4" "lbefore l4 = b @ [y, x]" "lbehind l4 = r"
    using seek_right [OF l3(2)] l3 by auto
  with l1 l2 l3 show ?thesis by blast
qed

end

section \<open>The buffer keeps the contract\<close>

lemma memmove_right:
  assumes "c \<le> n" and "n + 1 < length b"
  shows "memmove b (c + 1) c (n - c + 1) = Inr (take (c + 1) b @ take (n - c + 1) (drop c b) @ drop (n + 2) b)"
  using assms by (simp add: memmove_def)

lemma memmove_left:
  assumes "c < n" and "n < length b"
  shows "memmove b c (c + 1) (n - c) = Inr (take c b @ take (n - c) (drop (c + 1) b) @ drop n b)"
  using assms by (simp add: memmove_def)

lemma length_line_text [simp]: "line_inv l \<Longrightarrow> length (line_text l) = line_length l"
  by (auto simp: line_inv_def line_text_def before_def behind_def min_def)

lemma line_lengths:
  assumes "line_inv l"
  shows "length (before l) = cursor l" and "length (behind l) = line_length l - cursor l"
  using assms by (auto simp: line_inv_def before_def behind_def min_def)

lemma line_text_buf: "line_inv l \<Longrightarrow> line_text l = take (line_length l) (buf l)"
  by (simp add: line_text_def before_def behind_def line_inv_def flip: take_add)

text \<open>A line is well formed with a given text when its buffer begins with that text and a zero.\<close>

lemma line_of_buf:
  assumes "buf l = p @ r @ NUL # junk" and "cursor l = length p" and "line_length l = length p + length r"
    and "length (buf l) = COMMAND_MAX"
  shows "line_inv l" and "before l = p" and "behind l = r"
  using assms by (auto simp: line_inv_def before_def behind_def nth_append)

lemma line_buf_split:
  assumes "line_inv l"
  obtains junk where "buf l = before l @ behind l @ NUL # junk"
    and "length (before l) + length (behind l) + length junk = 255"
proof
  let ?j = "drop (Suc (line_length l)) (buf l)"
  have n: "line_length l < length (buf l)" using assms by (simp add: line_inv_def)
  have "buf l = take (line_length l) (buf l) @ buf l ! line_length l # ?j"
    by (rule id_take_nth_drop [OF n])
  then show "buf l = before l @ behind l @ NUL # ?j"
    using assms line_text_buf [OF assms, symmetric] by (simp add: line_text_def line_inv_def)
  show "length (before l) + length (behind l) + length ?j = 255"
    using assms by (simp add: line_lengths [OF assms] line_inv_def COMMAND_MAX_def)
qed

lemma line_insert_room:
  assumes "line_inv l" and "length (before l) + length (behind l) < 255"
  shows "\<exists>l'. line_insert l c = Inr (True, l') \<and> line_inv l'
    \<and> before l' = before l @ [c] \<and> behind l' = behind l"
proof -
  obtain j where b: "buf l = before l @ behind l @ NUL # j"
      "length (before l) + length (behind l) + length j = 255"
    using line_buf_split [OF assms(1)] by blast
  then obtain x j' where j: "j = x # j'" using assms(2) by (cases j) auto
  have len: "length (buf l) = 256" "cursor l = length (before l)"
      "line_length l = length (before l) + length (behind l)"
    using assms(1) by (auto simp: line_inv_def line_lengths COMMAND_MAX_def)
  let ?b = "before l @ c # behind l @ NUL # j'"
  let ?l = "\<lparr>buf = ?b, line_length = line_length l + 1, cursor = cursor l + 1\<rparr>"
  have hd: "take (Suc (cursor l)) (buf l) @ behind l @ NUL # j'
      = before l @ hd (behind l @ [NUL]) # behind l @ NUL # j'"
    using b j len by (cases "behind l") auto
  have "memmove (buf l) (cursor l + 1) (cursor l) (line_length l - cursor l + 1)
      = Inr (before l @ hd (behind l @ [NUL]) # behind l @ NUL # j')"
    using hd b j len by (simp add: memmove_def)
  moreover have "store (before l @ hd (behind l @ [NUL]) # behind l @ NUL # j') (cursor l) c = Inr ?b"
    using len by (simp add: store_def list_update_append)
  ultimately have "line_insert l c = Inr (True, ?l)"
    using len assms(2) by (simp add: line_insert_def COMMAND_MAX_def)
  moreover have "line_inv ?l" "before ?l = before l @ [c]" "behind ?l = behind l"
    using line_of_buf [of ?l "before l @ [c]" "behind l" j'] b j len by (simp_all add: COMMAND_MAX_def)
  ultimately show ?thesis by blast
qed

lemma line_delete_ok:
  assumes "line_inv l"
  shows "\<exists>l'. line_delete l = Inr l' \<and> line_inv l' \<and> before l' = before l \<and> behind l' = tl (behind l)"
proof (cases "behind l")
  case Nil
  then have "cursor l = line_length l" using assms by (auto simp: line_inv_def behind_def)
  then show ?thesis using assms Nil by (simp add: line_delete_def)
next
  case (Cons x r)
  obtain j where b: "buf l = before l @ behind l @ NUL # j"
      "length (before l) + length (behind l) + length j = 255"
    using line_buf_split [OF assms(1)] by blast
  have len: "length (buf l) = 256" "cursor l = length (before l)"
      "line_length l = length (before l) + length (behind l)"
    using assms(1) by (auto simp: line_inv_def line_lengths COMMAND_MAX_def)
  let ?b = "before l @ r @ NUL # NUL # j"
  let ?l = "l\<lparr>buf := ?b, line_length := line_length l - 1\<rparr>"
  have "line_delete l = Inr ?l"
    using b len Cons by (simp add: line_delete_def memmove_def)
  moreover have "line_inv ?l" "before ?l = before l" "behind ?l = r"
    using line_of_buf [of ?l "before l" r "NUL # j"] b len Cons by (simp_all add: COMMAND_MAX_def)
  ultimately show ?thesis using Cons by auto
qed

lemma line_cursor_at:
  assumes "line_inv l" and "c \<le> line_length l"
  shows "line_inv (l\<lparr>cursor := c\<rparr>)" and "before (l\<lparr>cursor := c\<rparr>) = take c (line_text l)"
    and "behind (l\<lparr>cursor := c\<rparr>) = drop c (line_text l)"
  using assms line_text_buf [OF assms(1)]
  by (auto simp: line_inv_def before_def behind_def drop_take min_def)

interpretation shell_line: line_editor line_inv before behind line_insert line_delete line_seek line_peek 255
proof unfold_locales
  fix l :: line_t and c
  assume inv: "line_inv l"
  show "length (before l) + length (behind l) = 255 \<Longrightarrow> line_insert l c = Inr (False, l)"
    using inv by (simp add: line_insert_def line_lengths line_inv_def COMMAND_MAX_def)
  show "length (before l) + length (behind l) \<le> 255"
    using inv by (simp add: line_lengths) (simp add: line_inv_def COMMAND_MAX_def)
  show "line_peek l = Inr (case behind l of [] \<Rightarrow> NUL | c # _ \<Rightarrow> c)"
    by (rule line_buf_split [OF inv], cases "behind l")
       (use inv in \<open>simp_all add: line_peek_def fetch_def nth_append flip: line_lengths(1)\<close>)
  show "before l = [] \<Longrightarrow> line_seek l (- 1) = (False, l)"
    using line_lengths [OF inv] by (simp add: line_seek_def)
  show "behind l = [] \<Longrightarrow> line_seek l 1 = (False, l)"
    using line_lengths [OF inv] inv by (simp add: line_seek_def line_inv_def)
  show "\<exists>l'. line_seek l (- 1) = (True, l') \<and> line_inv l' \<and> before l' = butlast (before l)
      \<and> behind l' = last (before l) # behind l" if ne: "before l \<noteq> []"
  proof -
    obtain b x where b: "before l = b @ [x]" using ne by (metis append_butlast_last_id)
    then have c: "cursor l = Suc (length b)" using line_lengths [OF inv] by simp
    then have "line_seek l (- 1) = (True, l\<lparr>cursor := length b\<rparr>)" by (simp add: line_seek_def)
    moreover have "length b \<le> line_length l" using c inv by (simp add: line_inv_def)
    ultimately show ?thesis
      using line_cursor_at [OF inv, of "length b"] b by (simp add: line_text_def)
  qed
  show "\<exists>l'. line_seek l 1 = (True, l') \<and> line_inv l' \<and> before l' = before l @ [hd (behind l)]
      \<and> behind l' = tl (behind l)" if ne: "behind l \<noteq> []"
  proof -
    obtain x r where r: "behind l = x # r" using ne by (cases "behind l") auto
    then have c: "Suc (cursor l) \<le> line_length l" using line_lengths [OF inv] by simp
    then have "line_seek l 1 = (True, l\<lparr>cursor := Suc (cursor l)\<rparr>)" by (simp add: line_seek_def)
    then show ?thesis
      using line_cursor_at [OF inv c] r line_lengths [OF inv] by (simp add: line_text_def)
  qed
qed (auto intro: line_insert_room line_delete_ok)

section \<open>The other operations on the text\<close>

lemma line_init_ok:
  assumes "length (buf l) = COMMAND_MAX"
  shows "\<exists>l'. line_init l = Inr l' \<and> line_inv l' \<and> before l' = [] \<and> behind l' = []"
  using assms by (auto simp: line_init_def store_def line_inv_def before_def behind_def COMMAND_MAX_def)

lemma line_truncate_ok:
  assumes "line_inv l"
  shows "\<exists>l'. line_truncate l = Inr l' \<and> line_inv l' \<and> before l' = before l \<and> behind l' = []"
  using assms by (auto simp: line_truncate_def store_def line_inv_def before_def behind_def)

lemma line_seek_begin_ok:
  "line_inv l \<Longrightarrow> line_inv (line_seek_begin l)
    \<and> before (line_seek_begin l) = [] \<and> behind (line_seek_begin l) = line_text l"
  using line_cursor_at [of l 0] by (simp add: line_seek_begin_def)

lemma line_seek_end_ok:
  "line_inv l \<Longrightarrow> line_inv (line_seek_end l)
    \<and> before (line_seek_end l) = line_text l \<and> behind (line_seek_end l) = []"
  using line_cursor_at [of l "line_length l"] by (simp add: line_seek_end_def)

lemma line_insert_string_ok:
  assumes "line_inv l"
  shows "\<exists>l'. line_insert_string l s = Inr l' \<and> line_inv l'
    \<and> before l' = before l @ take (255 - length (line_text l)) s \<and> behind l' = behind l"
  using assms
proof (induction s arbitrary: l)
  case (Cons c s)
  show ?case
  proof (cases "length (before l) + length (behind l) < 255")
    case True
    then obtain l1 where l1: "line_insert l c = Inr (True, l1)" "line_inv l1"
        "before l1 = before l @ [c]" "behind l1 = behind l"
      using shell_line.insert_room [OF Cons.prems] by blast
    define k where "k = 254 - length (line_text l)"
    have k: "255 - length (line_text l) = Suc k" "255 - length (line_text l1) = k"
      using True l1 by (simp_all add: k_def line_text_def del: length_line_text)
    show ?thesis using Cons.IH [OF l1(2)] l1 k by auto
  next
    case False
    then have "length (before l) + length (behind l) = 255"
      using shell_line.capacity [OF Cons.prems] by linarith
    then show ?thesis
      using shell_line.insert_full [OF Cons.prems] Cons.prems by (simp add: line_text_def del: length_line_text)
  qed
qed simp

lemma c_str_no_nul: "NUL \<notin> set s \<Longrightarrow> c_str (s @ NUL # r) = s"
  by (auto simp: c_str_def takeWhile_append)

lemma nul_notin_c_str [simp]: "NUL \<notin> set (c_str b)"
  by (auto simp: c_str_def dest: set_takeWhileD)

lemma line_get_buf_text: "line_inv l \<Longrightarrow> NUL \<notin> set (line_text l) \<Longrightarrow> line_get_buf l = line_text l"
  by (rule line_buf_split [of l]) (auto simp: line_get_buf_def line_text_def c_str_no_nul simp flip: append_assoc)

lemma length_line_get_buf: "line_inv l \<Longrightarrow> length (line_get_buf l) \<le> 255"
proof -
  assume inv: "line_inv l"
  have "c_str (buf l) = c_str (line_text l @ [NUL])"
    by (rule line_buf_split [OF inv]) (auto simp: line_text_def c_str_def takeWhile_append)
  then show ?thesis
    using length_takeWhile_le [of "\<lambda>c. c \<noteq> NUL" "line_text l"] inv
    by (simp add: line_get_buf_def c_str_def takeWhile_append line_inv_def COMMAND_MAX_def split: if_splits)
qed

lemma line_eqI_shown:
  "line_inv l \<Longrightarrow> line_get_length l = length (line_text l) \<and> line_get_cursor l = length (before l)"
  by (simp add: line_get_length_def line_get_cursor_def line_lengths)

end
