(* ===== verification/Ml_Shell_Parse.thy ===== *)
theory Ml_Shell_Parse
  imports Ml_Core Ml_Stdlib
begin

text \<open>
  Splitting a command line into arguments (\<open>parse_argument\<close> and \<open>parse_command\<close> of
  \<open>src/src/ml_shell.c\<close>). The buffer is changed in place there: removing a quote or a backslash
  moves the rest of the string one step left, and the space behind an argument becomes its
  terminating zero. Here the pointer splits the string into the argument read so far and the rest.
  The theorems give the arguments a quoted line splits into and the lines that are refused.
\<close>

section \<open>The parser\<close>

abbreviation QUOTE :: char where "QUOTE \<equiv> CHR 0x22"
abbreviation BACKSLASH :: char where "BACKSLASH \<equiv> CHR 0x5C"
abbreviation SPACE :: char where "SPACE \<equiv> CHR 0x20"

text \<open>
  The loop: \<open>acc\<close> is the string from \<open>*begin_pp\<close> to \<open>line_p\<close> and the last argument the string at
  \<open>line_p\<close>. \<open>None\<close> is the \<open>NULL\<close> of an open quote.
\<close>

fun parse_argument_loop :: "bool \<Rightarrow> string \<Rightarrow> string \<Rightarrow> (string \<times> string) option" where
  "parse_argument_loop in_quote acc [] = (if in_quote then None else Some (acc, []))"
| "parse_argument_loop in_quote acc (c # s) =
     (if c = BACKSLASH
      then (case s of
              [] \<Rightarrow> parse_argument_loop in_quote (acc @ [c]) s
            | d # s' \<Rightarrow>
                if d = QUOTE then parse_argument_loop in_quote (acc @ [QUOTE]) s'
                else parse_argument_loop in_quote (acc @ [c]) s)
      else if in_quote
      then if c = QUOTE then parse_argument_loop False acc s
           else parse_argument_loop in_quote (acc @ [c]) s
      else if c = QUOTE then parse_argument_loop True acc s
      else if c = SPACE then Some (acc, s)
      else parse_argument_loop in_quote (acc @ [c]) s)"

definition parse_argument :: "string \<Rightarrow> (string \<times> string) option" where
  "parse_argument line = parse_argument_loop False [] line"

lemma parse_argument_loop_shorter:
  "parse_argument_loop q acc s = Some (a, r) \<Longrightarrow> length r \<le> length s - 1"
proof (induction q acc s arbitrary: a r rule: parse_argument_loop.induct)
  case (2 q acc c s)
  show ?case
  proof (cases "c = BACKSLASH")
    case bs: True
    show ?thesis
    proof (cases s)
      case Nil
      with 2 bs show ?thesis by (auto split: if_splits)
    next
      case (Cons d s')
      with 2 bs show ?thesis by (cases "d = QUOTE") fastforce+
    qed
  next
    case False
    then show ?thesis
      using "2.IH"(4) [of a r] "2.IH"(5) [of a r] "2.IH"(6) [of a r] "2.IH"(7) [of a r] "2.prems"
      by (cases q; cases "c = QUOTE"; cases "c = SPACE") auto
  qed
qed (auto split: if_splits)

lemma length_take_le: "length (take n s) \<le> length s"
  by simp

lemma rstrip_loop_length: "length (rstrip_loop cs n s) \<le> length s"
  by (induction n arbitrary: s) (auto intro: order.trans [OF _ length_take_le])

lemma lstrip_loop_length: "length (lstrip_loop cs s) \<le> length s"
  by (induction s) auto

lemma ml_strip_length: "length (ml_strip s strip_p) \<le> length s"
  unfolding ml_strip_def ml_lstrip_def ml_rstrip_def
  by (meson lstrip_loop_length rstrip_loop_length order.trans)

text \<open>The loop over the arguments; \<open>None\<close> is the result \<open>-1\<close>.\<close>

function parse_command_loop :: "string list \<Rightarrow> string \<Rightarrow> string list option" where
  "parse_command_loop argv line =
     (if line = [] then Some argv
      else if length argv = 32 then None
      else case parse_argument (ml_strip line None) of
             None \<Rightarrow> None
           | Some (a, rest) \<Rightarrow> parse_command_loop (argv @ [a]) rest)"
  by pat_completeness auto
termination
proof (relation "measure (\<lambda>(argv, line). length line)", goal_cases)
  case (2 argv line p a rest)
  have "length rest \<le> length (ml_strip line None) - 1"
    using 2(3,4) parse_argument_loop_shorter [of False "[]" _ a rest] by (simp add: parse_argument_def)
  moreover have "length (ml_strip line None) \<le> length line" by (rule ml_strip_length)
  moreover have "0 < length line" using 2(1) by simp
  ultimately show ?case unfolding measure_def inv_image_def by (simp del: length_greater_0_conv)
qed simp

declare parse_command_loop.simps [simp del]

text \<open>The result: \<open>argc\<close> and the arguments stored.\<close>

definition parse_command :: "string \<Rightarrow> int \<times> string list" where
  "parse_command line =
     (let line = ml_strip line None
      in if line = [] then (- 1, [])
         else case parse_command_loop [] line of
                None \<Rightarrow> (- 1, [])
              | Some argv \<Rightarrow> (int (length argv), argv))"

definition is_comment :: "string \<Rightarrow> bool" where
  "is_comment line \<longleftrightarrow> (case line of [] \<Rightarrow> False | c # _ \<Rightarrow> c = CHR ''#'')"

definition is_exit :: "string \<Rightarrow> bool" where
  "is_exit line \<longleftrightarrow> strncmp line ''exit'' 5 = 0"

section \<open>Quoted lines\<close>

text \<open>An argument in quotes, with the quotes in it escaped, and a line of such arguments.\<close>

definition escape :: "string \<Rightarrow> string" where
  "escape a = concat (map (\<lambda>c. if c = QUOTE then [BACKSLASH, QUOTE] else [c]) a)"

definition quote :: "string \<Rightarrow> string" where
  "quote a = QUOTE # escape a @ [QUOTE]"

fun command_line :: "string list \<Rightarrow> string" where
  "command_line [] = []"
| "command_line [a] = quote a"
| "command_line (a # as) = quote a @ SPACE # command_line as"

lemma strip_padded:
  assumes "set a \<subseteq> set (strip_chars p)" and "set b \<subseteq> set (strip_chars p)"
    and "s \<noteq> []" and "hd s \<notin> set (strip_chars p)" and "last s \<notin> set (strip_chars p)"
  shows "ml_strip (a @ s @ b) p = s"
proof -
  let ?P = "\<lambda>c. c \<in> set (strip_chars p)"
  have "dropWhile ?P (rev b @ rev s @ rev a) = dropWhile ?P (rev s @ rev a)"
    by (rule dropWhile_append2) (use assms in auto)
  also have "\<dots> = rev s @ rev a"
    using assms by (cases s rule: rev_cases) auto
  finally have "dropWhile ?P (rev (a @ s @ b)) = rev s @ rev a" by simp
  then have "ml_rstrip (a @ s @ b) p = a @ s"
    by (simp only: ml_rstrip_def rstrip_loop_dropWhile) simp
  moreover have "dropWhile ?P (a @ s) = s"
    using assms by (cases s) (auto simp: dropWhile_append2 subset_eq)
  ultimately show ?thesis by (simp add: ml_strip_def ml_lstrip_def lstrip_loop_dropWhile)
qed

lemma parse_escaped:
  assumes "a = [] \<or> last a \<noteq> BACKSLASH"
  shows "parse_argument_loop True acc (escape a @ QUOTE # s) = parse_argument_loop False (acc @ a) s"
  using assms
proof (induction a arbitrary: acc)
  case (Cons c a)
  have ih: "parse_argument_loop True acc' (escape a @ QUOTE # s) = parse_argument_loop False (acc' @ a) s"
    for acc' using Cons by (auto split: if_splits)
  show ?case
  proof (cases "c = BACKSLASH")
    case True
    then obtain d a' where a: "a = d # a'" using Cons.prems by (cases a) auto
    then obtain d' r where "escape a @ QUOTE # s = d' # r" "d' \<noteq> QUOTE"
      by (cases "d = QUOTE") (auto simp: escape_def)
    then show ?thesis using True ih [of "acc @ [c]"] by (simp add: escape_def)
  next
    case False
    then show ?thesis using ih by (cases "c = QUOTE") (simp_all add: escape_def)
  qed
qed (simp add: escape_def)

lemma parse_quoted:
  assumes "a = [] \<or> last a \<noteq> BACKSLASH"
  shows "parse_argument (quote a) = Some (a, [])"
    and "parse_argument (quote a @ SPACE # s) = Some (a, s)"
  using parse_escaped [OF assms, of "[]" "[]"] parse_escaped [OF assms, of "[]" "SPACE # s"]
  by (simp_all add: parse_argument_def quote_def)

lemma command_line_ends:
  assumes "args \<noteq> []"
  shows "command_line args \<noteq> []" and "hd (command_line args) = QUOTE" and "last (command_line args) = QUOTE"
  using assms by (induction args rule: command_line.induct) (auto simp: quote_def)

lemma strip_command_line:
  assumes "args \<noteq> []" and "set p \<subseteq> set (strip_chars None)" and "set q \<subseteq> set (strip_chars None)"
  shows "ml_strip (p @ command_line args @ q) None = command_line args"
  using strip_padded [OF assms(2,3), of "command_line args"] command_line_ends [OF assms(1)]
  by (simp add: strip_chars_def)

lemma parse_command_line_loop:
  assumes "\<forall>a\<in>set args. a = [] \<or> last a \<noteq> BACKSLASH" and "length argv \<le> 32"
  shows "parse_command_loop argv (command_line args) =
    (if length argv + length args \<le> 32 then Some (argv @ args) else None)"
  using assms
proof (induction args arbitrary: argv rule: command_line.induct)
  case (2 a)
  then show ?case
    using strip_command_line [of "[a]" "[]" "[]"] command_line_ends [of "[a]"] parse_quoted(1) [of a]
    by (simp add: parse_command_loop.simps [of argv] parse_command_loop.simps [of _ "[]"])
next
  case (3 a b args)
  then show ?case
    using strip_command_line [of "a # b # args" "[]" "[]"] command_line_ends [of "a # b # args"]
      parse_quoted(2) [of a "command_line (b # args)"]
    by (simp add: parse_command_loop.simps [of argv])
qed (simp add: parse_command_loop.simps)

lemma parse_command_loop_bound:
  "parse_command_loop argv line = Some args \<Longrightarrow> length argv \<le> 32 \<Longrightarrow>
   length args \<le> 32 \<and> length argv + (if line = [] then 0 else 1) \<le> length args"
proof (induction argv line rule: parse_command_loop.induct)
  case (1 argv line)
  show ?case
  proof (cases "line = []")
    case False
    then obtain a rest where p: "length argv \<noteq> 32" "parse_argument (ml_strip line None) = Some (a, rest)"
        "parse_command_loop (argv @ [a]) rest = Some args"
      using "1.prems"(1) by (subst (asm) parse_command_loop.simps) (auto split: if_splits option.splits)
    then show ?thesis using "1.IH" [OF False p(1,2) refl p(3)] "1.prems"(2) False by (auto split: if_splits)
  qed (use 1 in \<open>simp add: parse_command_loop.simps\<close>)
qed

lemma parse_command_bound:
  "parse_command line = (- 1, [])
    \<or> (\<exists>argv. parse_command line = (int (length argv), argv) \<and> 1 \<le> length argv \<and> length argv \<le> 32)"
proof (cases "ml_strip line None = [] \<or> parse_command_loop [] (ml_strip line None) = None")
  case True
  then have "parse_command line = (- 1, [])" by (auto simp: parse_command_def Let_def)
  then show ?thesis ..
next
  case False
  then obtain argv where "parse_command_loop [] (ml_strip line None) = Some argv" by auto
  moreover from this False have "1 \<le> length argv" "length argv \<le> 32"
    using parse_command_loop_bound [of "[]" "ml_strip line None" argv] by auto
  ultimately show ?thesis using False by (simp add: parse_command_def)
qed

section \<open>Properties\<close>

text \<open>
  A line of quoted arguments splits into exactly those arguments, whatever characters they
  hold, with white space around the line ignored (only an argument that ends in a backslash
  cannot be written this way), and more than 32 arguments are refused. Whatever the line, the
  arguments stored are counted by the result and fit the array of 32.
\<close>

theorem parse_quoted_roundtrip:
  assumes "args \<noteq> []" and "\<forall>a\<in>set args. a = [] \<or> last a \<noteq> BACKSLASH"
    and "set p \<subseteq> set (strip_chars None)" and "set q \<subseteq> set (strip_chars None)"
  shows "parse_command (p @ command_line args @ q) =
      (if length args \<le> 32 then (int (length args), args) else (- 1, []))
    \<and> (\<forall>line. parse_command line = (- 1, [])
        \<or> (\<exists>argv. parse_command line = (int (length argv), argv) \<and> 1 \<le> length argv \<and> length argv \<le> 32))"
proof
  show "parse_command (p @ command_line args @ q) =
      (if length args \<le> 32 then (int (length args), args) else (- 1, []))"
    using strip_command_line [OF assms(1,3,4)] command_line_ends(1) [OF assms(1)]
      parse_command_line_loop [OF assms(2), of "[]"] by (simp add: parse_command_def)
  show "\<forall>line. parse_command line = (- 1, [])
        \<or> (\<exists>argv. parse_command line = (int (length argv), argv) \<and> 1 \<le> length argv \<and> length argv \<le> 32)"
    using parse_command_bound by blast
qed

theorem parse_quoted_roundtrip_witness:
  "parse_command ([] @ command_line [''rm'', [QUOTE], ''a b''] @ [SPACE]) = (3, [''rm'', [QUOTE], ''a b''])"
  using parse_quoted_roundtrip [of "[''rm'', [QUOTE], ''a b'']" "[]" "[SPACE]"]
  by (simp add: strip_chars_def)

end
