(* ===== verification/Ml_Shell_History.thy ===== *)
theory Ml_Shell_History
  imports Ml_Stdlib Ml_Shell_Line
begin

text \<open>
  The command history of the shell (\<open>history_*\<close> of \<open>src/src/ml_shell.c\<close>): a doubly linked list
  of allocated elements with a head, a tail and the element the user has gone to. Pointers are
  addresses into a heap of elements, so following a dangling or null pointer is an error value.
  The theorems relate the list to the sequence of remembered commands.
\<close>

section \<open>The list and its operations\<close>

record history_elem_t =
  next_p :: "nat option"
  prev_p :: "nat option"
  elem_buf :: string

text \<open>\<open>next_elem\<close> is the address the next \<open>malloc\<close> returns if \<open>elem_malloc_ok\<close> lets it succeed.\<close>

record history_t =
  elems :: "nat \<Rightarrow> history_elem_t option"
  next_elem :: nat
  elem_malloc_ok :: "nat \<Rightarrow> bool"
  head_p :: "nat option"
  tail_p :: "nat option"
  hist_length :: nat
  current_p :: "nat option"
  hist_pattern :: line_t
  hist_match :: line_t
  hist_line :: line_t
  line_valid :: bool

definition MAXIMUM_HISTORY_LENGTH :: nat where "MAXIMUM_HISTORY_LENGTH = 64"

definition deref :: "history_t \<Rightarrow> nat option \<Rightarrow> history_elem_t res" where
  "deref h p =
     (case p of
        None \<Rightarrow> Inl OutOfBounds
      | Some a \<Rightarrow> (case elems h a of None \<Rightarrow> Inl UseAfterFree | Some e \<Rightarrow> Inr e))"

definition set_elem :: "history_t \<Rightarrow> nat option \<Rightarrow> history_elem_t \<Rightarrow> history_t" where
  "set_elem h p e = (case p of None \<Rightarrow> h | Some a \<Rightarrow> h\<lparr>elems := (elems h)(a := Some e)\<rparr>)"

definition free_elem :: "history_t \<Rightarrow> nat option \<Rightarrow> history_t" where
  "free_elem h p = (case p of None \<Rightarrow> h | Some a \<Rightarrow> h\<lparr>elems := (elems h)(a := None)\<rparr>)"

definition history_init :: "history_t \<Rightarrow> history_t res" where
  "history_init h =
     andthen (line_init (hist_line h)) (\<lambda>l.
       Inr (h\<lparr>head_p := None, tail_p := None, hist_length := 0, current_p := None,
              hist_line := l, line_valid := False\<rparr>))"

text \<open>The first half of \<open>history_append\<close> on a full list: the oldest element is unlinked and freed.\<close>

definition remove_head :: "history_t \<Rightarrow> history_t res" where
  "remove_head h =
     (let head = head_p h
      in andthen
           (if head = tail_p h then Inr (h\<lparr>head_p := None, tail_p := None\<rparr>)
            else andthen (deref h head) (\<lambda>e.
                 andthen (deref h (next_p e)) (\<lambda>n.
                 Inr (set_elem (h\<lparr>head_p := next_p e\<rparr>) (next_p e) (n\<lparr>prev_p := None\<rparr>)))))
           (\<lambda>h. Inr ((free_elem h head)\<lparr>hist_length := hist_length h - 1\<rparr>)))"

text \<open>The second half: a new element is linked behind the tail, if there is memory for it.\<close>

definition append_elem :: "history_t \<Rightarrow> string \<Rightarrow> history_t res" where
  "append_elem h command =
     (let a = next_elem h; ok = elem_malloc_ok h a; h = h\<lparr>next_elem := Suc a\<rparr>
      in if \<not> ok then Inr h
         else andthen
           (if head_p h = None
            then Inr (set_elem (h\<lparr>head_p := Some a\<rparr>) (Some a)
                        \<lparr>next_p = None, prev_p = None, elem_buf = command\<rparr>)
            else andthen (deref h (tail_p h)) (\<lambda>t.
                 Inr (set_elem (set_elem h (Some a)
                        \<lparr>next_p = None, prev_p = tail_p h, elem_buf = command\<rparr>)
                      (tail_p h) (t\<lparr>next_p := Some a\<rparr>))))
           (\<lambda>h. Inr (h\<lparr>tail_p := Some a, hist_length := hist_length h + 1\<rparr>)))"

definition history_append :: "history_t \<Rightarrow> string \<Rightarrow> history_t res" where
  "history_append h command =
     andthen
       (if tail_p h \<noteq> None
        then andthen (deref h (tail_p h)) (\<lambda>t. Inr (strcmp (elem_buf t) command = 0))
        else Inr False) (\<lambda>same.
     if same then Inr h
     else andthen (if hist_length h = MAXIMUM_HISTORY_LENGTH then remove_head h else Inr h) (\<lambda>h.
          append_elem h command))"

definition current_buf :: "history_t \<Rightarrow> string option res" where
  "current_buf h =
     (if current_p h = None then Inr None
      else andthen (deref h (current_p h)) (\<lambda>e. Inr (Some (elem_buf e))))"

definition history_get_previous_command :: "history_t \<Rightarrow> line_t \<Rightarrow> (string option \<times> history_t) res" where
  "history_get_previous_command h line =
     (if current_p h = head_p h then Inr (None, h)
      else andthen
        (if current_p h = None
         then Inr (h\<lparr>current_p := tail_p h, hist_line := line, line_valid := True\<rparr>)
         else andthen (deref h (current_p h)) (\<lambda>e. Inr (h\<lparr>current_p := prev_p e\<rparr>)))
        (\<lambda>h. andthen (current_buf h) (\<lambda>b. Inr (b, h))))"

definition history_get_next_command :: "history_t \<Rightarrow> (string option \<times> history_t) res" where
  "history_get_next_command h =
     andthen
       (if current_p h \<noteq> None
        then andthen (deref h (current_p h)) (\<lambda>e. Inr (h\<lparr>current_p := next_p e\<rparr>))
        else Inr h) (\<lambda>h.
     if current_p h \<noteq> None then andthen (current_buf h) (\<lambda>b. Inr (b, h))
     else if line_valid h then Inr (Some (line_get_buf (hist_line h)), h\<lparr>line_valid := False\<rparr>)
     else Inr (None, h))"

definition history_reset_current :: "history_t \<Rightarrow> history_t" where
  "history_reset_current h = h\<lparr>current_p := None\<rparr>"

text \<open>
  The walk from the tail; the first argument bounds the steps, and running out of it is a walk
  that does not end.
\<close>

fun reverse_search_loop :: "nat \<Rightarrow> history_t \<Rightarrow> string \<Rightarrow> nat option \<Rightarrow> string option res" where
  "reverse_search_loop n h pat None = Inr None"
| "reverse_search_loop 0 h pat (Some a) = Inl Blocked"
| "reverse_search_loop (Suc n) h pat (Some a) =
     andthen (deref h (Some a)) (\<lambda>e.
       if strstr (elem_buf e) pat then Inr (Some (elem_buf e))
       else reverse_search_loop n h pat (prev_p e))"

definition history_reverse_search :: "history_t \<Rightarrow> string \<Rightarrow> string option res" where
  "history_reverse_search h pat = reverse_search_loop (hist_length h) h pat (tail_p h)"

section \<open>The remembered commands\<close>

text \<open>
  \<open>hist_list h as\<close>: the list runs over the addresses \<open>as\<close> in both directions and they are all the
  elements that are allocated. \<open>hist_inv h as\<close>: besides, the current element is one of them.
\<close>

definition linked :: "history_t \<Rightarrow> nat list \<Rightarrow> nat \<Rightarrow> bool" where
  "linked h as i \<longleftrightarrow> (\<exists>e. elems h (as ! i) = Some e
     \<and> next_p e = (if Suc i < length as then Some (as ! Suc i) else None)
     \<and> prev_p e = (if i = 0 then None else Some (as ! (i - 1))))"

definition hist_list :: "history_t \<Rightarrow> nat list \<Rightarrow> bool" where
  "hist_list h as \<longleftrightarrow> distinct as \<and> length as \<le> MAXIMUM_HISTORY_LENGTH
     \<and> hist_length h = length as
     \<and> head_p h = (if as = [] then None else Some (hd as))
     \<and> tail_p h = (if as = [] then None else Some (last as))
     \<and> (\<forall>i<length as. linked h as i)
     \<and> dom (elems h) = set as \<and> (\<forall>a\<in>set as. a < next_elem h)"

definition hist_inv :: "history_t \<Rightarrow> nat list \<Rightarrow> bool" where
  "hist_inv h as \<longleftrightarrow> hist_list h as \<and> (\<forall>a. current_p h = Some a \<longrightarrow> a \<in> set as)"

definition commands_of :: "history_t \<Rightarrow> nat list \<Rightarrow> string list" where
  "commands_of h as = map (\<lambda>a. elem_buf (the (elems h a))) as"

text \<open>Remembering a command: not twice in a row, and the oldest of 64 makes room.\<close>

definition remember :: "string list \<Rightarrow> string \<Rightarrow> string list" where
  "remember cs c = (if cs \<noteq> [] \<and> last cs = c then cs else drop (length cs - 63) cs @ [c])"

text \<open>The position of the current element; behind the last one when there is none.\<close>

fun position :: "nat list \<Rightarrow> nat \<Rightarrow> nat" where
  "position [] a = 0"
| "position (b # bs) a = (if a = b then 0 else Suc (position bs a))"

definition hist_pos :: "history_t \<Rightarrow> nat list \<Rightarrow> nat" where
  "hist_pos h as = (case current_p h of None \<Rightarrow> length as | Some a \<Rightarrow> position as a)"

section \<open>Lemmas\<close>

lemma position_nth: "distinct as \<Longrightarrow> i < length as \<Longrightarrow> position as (as ! i) = i"
proof (induction as arbitrary: i)
  case (Cons b bs)
  then show ?case by (cases i) auto
qed simp

lemma nth_position: "a \<in> set as \<Longrightarrow> position as a < length as \<and> as ! position as a = a"
  by (induction as) auto

lemma linked_deref:
  assumes "hist_list h as" and "i < length as"
  shows "\<exists>e. deref h (Some (as ! i)) = Inr e \<and> elems h (as ! i) = Some e
     \<and> elem_buf e = commands_of h as ! i
     \<and> next_p e = (if Suc i < length as then Some (as ! Suc i) else None)
     \<and> prev_p e = (if i = 0 then None else Some (as ! (i - 1)))"
  using assms by (auto simp: hist_list_def linked_def deref_def commands_of_def)

lemma length_commands_of [simp]: "length (commands_of h as) = length as"
  by (simp add: commands_of_def)

lemma hist_list_frame:
  assumes "hist_list h as" and "elems h' = elems h" and "next_elem h \<le> next_elem h'"
    and "head_p h' = head_p h" and "tail_p h' = tail_p h" and "hist_length h' = hist_length h"
  shows "hist_list h' as" and "commands_of h' as = commands_of h as"
  using assms by (auto simp: hist_list_def linked_def commands_of_def intro: less_le_trans)

lemma remove_head_ok:
  assumes "hist_list h as" and "as \<noteq> []"
  shows "\<exists>h'. remove_head h = Inr h' \<and> hist_list h' (tl as)
    \<and> commands_of h' (tl as) = tl (commands_of h as) \<and> elem_malloc_ok h' = elem_malloc_ok h
    \<and> next_elem h' = next_elem h \<and> hist_line h' = hist_line h \<and> hist_pattern h' = hist_pattern h
    \<and> hist_match h' = hist_match h \<and> line_valid h' = line_valid h"
proof (cases as)
  case (Cons a bs)
  show ?thesis
  proof (cases bs)
    case Nil
    then show ?thesis using assms Cons
      by (auto simp: remove_head_def free_elem_def hist_list_def commands_of_def dom_def)
  next
    case (Cons b cs)
    note as = \<open>as = a # bs\<close> Cons
    have d: "distinct (a # b # cs)" and heads: "head_p h = Some a" "tail_p h = Some (last (b # cs))"
      using assms as by (auto simp: hist_list_def)
    then have ne: "head_p h \<noteq> tail_p h" by (metis distinct.simps(2) last_in_set list.discI option.inject)
    obtain e where e: "deref h (Some a) = Inr e" "elems h a = Some e" "next_p e = Some b"
      using linked_deref [OF assms(1), of 0] as by auto
    obtain n where n: "deref h (Some b) = Inr n" "elems h b = Some n"
        "next_p n = (if cs = [] then None else Some (cs ! 0))"
      using linked_deref [OF assms(1), of 1] as by auto
    let ?h = "h\<lparr>head_p := Some b, elems := (elems h)(b := Some (n\<lparr>prev_p := None\<rparr>), a := None),
                hist_length := hist_length h - 1\<rparr>"
    have r: "remove_head h = Inr ?h"
      using ne heads e n by (simp add: remove_head_def set_elem_def free_elem_def Let_def)
    have "linked ?h (b # cs) i" if "i < length (b # cs)" for i
    proof (cases i)
      case 0
      then show ?thesis using n d by (auto simp: linked_def)
    next
      case (Suc j)
      then have "linked h as (Suc i)" using assms as that by (auto simp: hist_list_def)
      moreover have "(b # cs) ! i \<noteq> a" "(b # cs) ! i \<noteq> b"
        using d that Suc by (auto simp: nth_Cons')
      ultimately show ?thesis using as Suc by (auto simp: linked_def)
    qed
    moreover have "dom (elems ?h) = set (b # cs)"
      using assms as d by (auto simp: hist_list_def)
    ultimately have "hist_list ?h (tl as)" using assms as by (auto simp: hist_list_def)
    moreover have "commands_of ?h (tl as) = tl (commands_of h as)"
      using as d n by (auto simp: commands_of_def)
    ultimately show ?thesis using r by auto
  qed
qed (use assms in simp)

lemma append_elem_nomem:
  assumes "hist_list h as" and "\<not> elem_malloc_ok h (next_elem h)"
  shows "\<exists>h'. append_elem h c = Inr h' \<and> hist_list h' as \<and> commands_of h' as = commands_of h as
    \<and> hist_line h' = hist_line h \<and> hist_pattern h' = hist_pattern h
    \<and> hist_match h' = hist_match h \<and> line_valid h' = line_valid h"
  using hist_list_frame [OF assms(1), of "h\<lparr>next_elem := Suc (next_elem h)\<rparr>"] assms(2)
  by (simp add: append_elem_def Let_def)

lemma append_elem_ok:
  assumes "hist_list h as" and "elem_malloc_ok h (next_elem h)" and "length as < 64"
  shows "\<exists>h'. append_elem h c = Inr h' \<and> hist_list h' (as @ [next_elem h])
    \<and> commands_of h' (as @ [next_elem h]) = commands_of h as @ [c]
    \<and> hist_line h' = hist_line h \<and> hist_pattern h' = hist_pattern h
    \<and> hist_match h' = hist_match h \<and> line_valid h' = line_valid h"
proof (cases as rule: rev_cases)
  case Nil
  then show ?thesis
    using assms by (auto simp: append_elem_def set_elem_def Let_def hist_list_def linked_def commands_of_def
        MAXIMUM_HISTORY_LENGTH_def)
next
  case (snoc bs b)
  define a where "a = next_elem h"
  have fresh: "a \<notin> set as" and d: "distinct as"
    and ends: "head_p h = Some (hd as)" "tail_p h = Some b"
    using assms(1) snoc by (auto simp: hist_list_def a_def)
  obtain t where t: "deref h (Some b) = Inr t" "elems h b = Some t"
      "prev_p t = (if length bs = 0 then None else Some (as ! (length bs - 1)))"
    using linked_deref [OF assms(1), of "length bs"] snoc by auto
  let ?e = "\<lparr>next_p = None, prev_p = Some b, elem_buf = c\<rparr>"
  let ?h = "h\<lparr>next_elem := Suc a, elems := (elems h)(a := Some ?e, b := Some (t\<lparr>next_p := Some a\<rparr>)),
              tail_p := Some a, hist_length := hist_length h + 1\<rparr>"
  have r: "append_elem h c = Inr ?h"
    using ends t assms(2) by (simp add: append_elem_def set_elem_def deref_def Let_def a_def)
  have "linked ?h (as @ [a]) i" if i: "i < length (as @ [a])" for i
  proof -
    consider "i < length bs" | "i = length bs" | "i = Suc (length bs)" using i snoc by fastforce
    then show ?thesis
    proof cases
      case 1
      then have "as ! i \<noteq> b" "as ! i \<noteq> a" "i < length as"
        using d snoc fresh nth_mem [of i as] by (auto simp: nth_append)
      moreover have "linked h as i" using assms(1) \<open>i < length as\<close> by (simp add: hist_list_def)
      ultimately show ?thesis using snoc 1 by (auto simp: linked_def nth_append)
    next
      case 2
      then show ?thesis using snoc t by (auto simp: linked_def nth_append)
    next
      case 3
      then show ?thesis using snoc fresh by (auto simp: linked_def nth_append)
    qed
  qed
  moreover have "dom (elems ?h) = set (as @ [a])" using assms(1) snoc by (auto simp: hist_list_def)
  moreover have "\<forall>x\<in>set (as @ [a]). x < next_elem ?h"
    using assms(1) by (auto simp: hist_list_def a_def)
  ultimately have "hist_list ?h (as @ [a])"
    using assms(1,3) ends snoc fresh d by (auto simp: hist_list_def hd_append MAXIMUM_HISTORY_LENGTH_def)
  moreover have "commands_of ?h (as @ [a]) = commands_of h as @ [c]"
    using fresh snoc t d by (auto simp: commands_of_def)
  ultimately show ?thesis using r unfolding a_def by auto
qed

lemma last_command:
  assumes "hist_list h as" and "as \<noteq> []"
  shows "\<exists>e. deref h (tail_p h) = Inr e \<and> elem_buf e = last (commands_of h as)"
  using linked_deref [OF assms(1), of "length as - 1"] assms
  by (auto simp: hist_list_def last_conv_nth commands_of_def)

lemma history_append_ok:
  assumes "hist_list h as"
  shows "\<exists>h' as'. history_append h c = Inr h' \<and> hist_list h' as'
    \<and> ((\<forall>a. elem_malloc_ok h a) \<longrightarrow> commands_of h' as' = remember (commands_of h as) c)
    \<and> (\<exists>n. commands_of h' as' = drop n (commands_of h as)
         \<or> commands_of h' as' = drop n (commands_of h as) @ [c])
    \<and> hist_line h' = hist_line h \<and> hist_pattern h' = hist_pattern h
    \<and> hist_match h' = hist_match h \<and> line_valid h' = line_valid h"
proof (cases "as \<noteq> [] \<and> last (commands_of h as) = c")
  case True
  then have "history_append h c = Inr h"
    using last_command [OF assms] assms
    by (auto simp: history_append_def strcmp_zero hist_list_def)
  moreover have "remember (commands_of h as) c = commands_of h as"
    using True by (auto simp: remember_def commands_of_def)
  moreover have "\<exists>n. commands_of h as = drop n (commands_of h as)
      \<or> commands_of h as = drop n (commands_of h as) @ [c]" by (rule exI [of _ 0]) simp
  ultimately show ?thesis using assms by (intro exI [of _ h] exI [of _ as]) simp
next
  case False
  let ?full = "hist_length h = MAXIMUM_HISTORY_LENGTH"
  have step: "history_append h c
      = andthen (if ?full then remove_head h else Inr h) (\<lambda>h. append_elem h c)"
    using False last_command [OF assms] assms
    by (cases "as = []") (auto simp: history_append_def strcmp_zero hist_list_def)
  have len: "length as \<le> 64" "hist_length h = length as"
    using assms by (auto simp: hist_list_def MAXIMUM_HISTORY_LENGTH_def)
  define bs where "bs = (if ?full then tl as else as)"
  obtain h1 where h1: "(if ?full then remove_head h else Inr h) = Inr h1" "hist_list h1 bs"
      "commands_of h1 bs = drop (length as - 63) (commands_of h as)" "elem_malloc_ok h1 = elem_malloc_ok h"
      "hist_line h1 = hist_line h" "hist_pattern h1 = hist_pattern h"
      "hist_match h1 = hist_match h" "line_valid h1 = line_valid h"
  proof (cases ?full)
    case True
    then have "as \<noteq> []" "length as = 64" using len by (auto simp: MAXIMUM_HISTORY_LENGTH_def)
    then show ?thesis
      using that remove_head_ok [OF assms] True by (auto simp: bs_def drop_Suc)
  next
    case False
    then show ?thesis using that [of h] assms len by (simp add: bs_def MAXIMUM_HISTORY_LENGTH_def)
  qed
  have short: "length bs < 64"
    using len False by (auto simp: bs_def MAXIMUM_HISTORY_LENGTH_def)
  have rem: "remember (commands_of h as) c = drop (length as - 63) (commands_of h as) @ [c]"
    using False by (auto simp: remember_def commands_of_def)
  show ?thesis
  proof (cases "elem_malloc_ok h1 (next_elem h1)")
    case True
    show ?thesis using append_elem_ok [OF h1(2) True short, of c] step h1 rem by fastforce
  next
    case False
    show ?thesis using append_elem_nomem [OF h1(2) False, of c] step h1 False by fastforce
  qed
qed

lemma current_buf_at:
  assumes "hist_list h as" and "current_p h = Some (as ! i)" and "i < length as"
  shows "current_buf h = Inr (Some (commands_of h as ! i))"
  using linked_deref [OF assms(1,3)] assms(2) by (auto simp: current_buf_def)

lemma current_at:
  assumes "hist_inv h as" and "current_p h = Some a"
  shows "hist_pos h as < length as" and "as ! hist_pos h as = a"
  using assms nth_position by (auto simp: hist_inv_def hist_pos_def)

lemma hist_pos_le: "hist_inv h as \<Longrightarrow> hist_pos h as \<le> length as"
  using current_at(1) by (cases "current_p h") (auto simp: hist_pos_def intro: less_imp_le)

lemma previous_ok:
  assumes "hist_inv h as"
  shows "history_get_previous_command h line =
    (if hist_pos h as = 0 then Inr (None, h)
     else Inr (Some (commands_of h as ! (hist_pos h as - 1)),
       (if hist_pos h as = length as then h\<lparr>hist_line := line, line_valid := True\<rparr> else h)
         \<lparr>current_p := Some (as ! (hist_pos h as - 1))\<rparr>))"
proof (cases "current_p h")
  case None
  then have pos: "hist_pos h as = length as" by (simp add: hist_pos_def)
  have l: "hist_list h as" using assms by (simp add: hist_inv_def)
  show ?thesis
  proof (cases "as = []")
    case True
    then show ?thesis using None pos l by (simp add: history_get_previous_command_def hist_list_def)
  next
    case False
    let ?h = "h\<lparr>current_p := Some (last as), hist_line := line, line_valid := True\<rparr>"
    have "hist_list ?h as" "commands_of ?h as = commands_of h as"
      using hist_list_frame [OF l, of ?h] by simp_all
    then have "current_buf ?h = Inr (Some (commands_of h as ! (length as - 1)))"
      using current_buf_at [of ?h as "length as - 1"] False by (simp add: last_conv_nth)
    moreover have "head_p h = Some (hd as)" "tail_p h = Some (last as)"
      using l False by (simp_all add: hist_list_def)
    ultimately show ?thesis
      using None pos False by (simp add: history_get_previous_command_def last_conv_nth)
  qed
next
  case (Some a)
  let ?i = "hist_pos h as"
  have l: "hist_list h as" using assms by (simp add: hist_inv_def)
  have i: "?i < length as" "as ! ?i = a" using current_at [OF assms Some] by auto
  obtain e where e: "deref h (Some a) = Inr e" "prev_p e = (if ?i = 0 then None else Some (as ! (?i - 1)))"
    using linked_deref [OF l i(1)] i(2) by auto
  have hd: "head_p h = Some (as ! 0)" using l i by (auto simp: hist_list_def hd_conv_nth)
  show ?thesis
  proof (cases "?i = 0")
    case True
    then show ?thesis using Some hd i by (simp add: history_get_previous_command_def)
  next
    case False
    then have "head_p h \<noteq> Some a"
      using hd i l nth_eq_iff_index_eq [of as 0 ?i] by (auto simp: hist_list_def)
    moreover let ?h = "h\<lparr>current_p := Some (as ! (?i - 1))\<rparr>"
    have "current_buf ?h = Inr (Some (commands_of h as ! (?i - 1)))"
      using current_buf_at [of ?h as "?i - 1"] hist_list_frame [OF l, of ?h] i by simp
    ultimately show ?thesis
      using Some e i False by (auto simp: history_get_previous_command_def)
  qed
qed

lemma next_ok:
  assumes "hist_inv h as"
  shows "history_get_next_command h =
    (if Suc (hist_pos h as) < length as
     then Inr (Some (commands_of h as ! Suc (hist_pos h as)), h\<lparr>current_p := Some (as ! Suc (hist_pos h as))\<rparr>)
     else if line_valid h
     then Inr (Some (line_get_buf (hist_line h)), h\<lparr>current_p := None, line_valid := False\<rparr>)
     else Inr (None, h\<lparr>current_p := None\<rparr>))"
proof (cases "current_p h")
  case None
  then have "hist_pos h as = length as" "h\<lparr>current_p := None\<rparr> = h" by (simp_all add: hist_pos_def)
  then show ?thesis using None by (auto simp: history_get_next_command_def)
next
  case (Some a)
  let ?i = "hist_pos h as"
  have l: "hist_list h as" using assms by (simp add: hist_inv_def)
  have i: "?i < length as" "as ! ?i = a" using current_at [OF assms Some] by auto
  obtain e where e: "deref h (Some a) = Inr e"
      "next_p e = (if Suc ?i < length as then Some (as ! Suc ?i) else None)"
    using linked_deref [OF l i(1)] i(2) by auto
  show ?thesis
  proof (cases "Suc ?i < length as")
    case True
    let ?h = "h\<lparr>current_p := Some (as ! Suc ?i)\<rparr>"
    have "current_buf ?h = Inr (Some (commands_of h as ! Suc ?i))"
      using current_buf_at [of ?h as "Suc ?i"] hist_list_frame [OF l, of ?h] True by simp
    then show ?thesis using True Some e by (simp add: history_get_next_command_def)
  next
    case False
    then show ?thesis using Some e by (simp add: history_get_next_command_def)
  qed
qed

lemma reverse_search_loop_ok:
  assumes "hist_list h as" and "k \<le> length as" and "k \<le> n"
  shows "reverse_search_loop n h pat (if k = 0 then None else Some (as ! (k - 1)))
    = Inr (find (\<lambda>c. strstr c pat) (rev (take k (commands_of h as))))"
  using assms(2,3)
proof (induction k arbitrary: n)
  case (Suc k)
  then obtain m where m: "n = Suc m" "k \<le> m" by (cases n) auto
  obtain e where e: "deref h (Some (as ! k)) = Inr e" "elem_buf e = commands_of h as ! k"
      "prev_p e = (if k = 0 then None else Some (as ! (k - 1)))"
    using linked_deref [OF assms(1), of k] Suc.prems by auto
  show ?case using Suc.IH [of m] Suc.prems m e by (simp add: take_Suc_conv_app_nth)
qed simp

lemma reverse_search_ok:
  assumes "hist_list h as"
  shows "history_reverse_search h pat = Inr (find (\<lambda>c. strstr c pat) (rev (commands_of h as)))"
proof -
  have "tail_p h = (if length as = 0 then None else Some (as ! (length as - 1)))" "hist_length h = length as"
    using assms by (auto simp: hist_list_def last_conv_nth)
  then show ?thesis
    using reverse_search_loop_ok [OF assms, of "length as" "hist_length h"] by (simp add: history_reverse_search_def)
qed

lemma hist_inv_at:
  assumes "hist_list h as" and "elems h' = elems h" and "next_elem h' = next_elem h"
    and "head_p h' = head_p h" and "tail_p h' = tail_p h" and "hist_length h' = hist_length h"
    and "i < length as"
  shows "hist_inv (h'\<lparr>current_p := Some (as ! i)\<rparr>) as"
    and "commands_of (h'\<lparr>current_p := Some (as ! i)\<rparr>) as = commands_of h as"
    and "hist_pos (h'\<lparr>current_p := Some (as ! i)\<rparr>) as = i"
proof -
  let ?h = "h'\<lparr>current_p := Some (as ! i)\<rparr>"
  have l: "hist_list ?h as" and c: "commands_of ?h as = commands_of h as"
    using hist_list_frame [OF assms(1), of ?h] assms by simp_all
  show "hist_inv ?h as" using l assms(7) by (simp add: hist_inv_def)
  show "commands_of ?h as = commands_of h as" by (rule c)
  show "hist_pos ?h as = i" using l assms(7) by (simp add: hist_pos_def position_nth hist_list_def)
qed

lemma hist_inv_reset:
  "hist_list h as \<Longrightarrow> hist_inv (h\<lparr>current_p := None\<rparr>) as
    \<and> commands_of (h\<lparr>current_p := None\<rparr>) as = commands_of h as
    \<and> hist_pos (h\<lparr>current_p := None\<rparr>) as = length as"
  using hist_list_frame [of h as "h\<lparr>current_p := None\<rparr>"] by (simp add: hist_inv_def hist_pos_def)

section \<open>Properties\<close>

definition example_line :: line_t where
  "example_line = \<lparr>buf = replicate 256 NUL, line_length = 0, cursor = 0\<rparr>"

definition example_history :: history_t where
  "example_history = \<lparr>elems = Map.empty, next_elem = 1, elem_malloc_ok = (\<lambda>_. True), head_p = None,
     tail_p = None, hist_length = 0, current_p = None, hist_pattern = example_line,
     hist_match = example_line, hist_line = example_line, line_valid = False\<rparr>"

text \<open>
  C11: appending a command to a well-formed list never follows a null or freed pointer and leaves a
  well-formed list whose elements are all that is allocated. When memory can be had, the
  remembered commands are the old ones with the new one behind them, without the oldest when there
  were 64, and unchanged when the last one is the same. Without memory the command is not remembered.
\<close>

theorem history_append_refines:
  assumes "hist_list h as"
  shows "\<exists>h' as'. history_append h c = Inr h' \<and> hist_list h' as'
    \<and> ((\<forall>a. elem_malloc_ok h a) \<longrightarrow> commands_of h' as' = remember (commands_of h as) c)
    \<and> (\<exists>n. commands_of h' as' = drop n (commands_of h as)
         \<or> commands_of h' as' = drop n (commands_of h as) @ [c])"
  using history_append_ok [OF assms, of c] by blast

theorem history_append_refines_witness:
  "\<exists>h' as'. history_append example_history ''ls'' = Inr h' \<and> hist_list h' as' \<and> commands_of h' as' = [''ls'']"
proof -
  have "hist_list example_history []" "elem_malloc_ok example_history a"
      "remember (commands_of example_history []) ''ls'' = [''ls'']" for a
    by (simp_all add: hist_list_def example_history_def commands_of_def remember_def)
  then show ?thesis using history_append_refines [of example_history "[]" "''ls''"] by metis
qed

text \<open>
  UP goes one command back and returns it, and nothing at the oldest one; the first UP saves
  the edited line. DOWN goes one command forward; behind the newest it returns the saved line,
  once. Both keep the list well formed and the commands as they are. A search finds the newest
  command that contains the pattern, and always ends.
\<close>

theorem history_navigation:
  assumes "hist_inv h as"
  shows "\<exists>h1 h2.
      history_get_previous_command h line =
        Inr (if hist_pos h as = 0 then None else Some (commands_of h as ! (hist_pos h as - 1)), h1)
    \<and> hist_inv h1 as \<and> commands_of h1 as = commands_of h as \<and> hist_pos h1 as = hist_pos h as - 1
    \<and> (0 < hist_pos h as \<and> hist_pos h as = length as \<longrightarrow> hist_line h1 = line \<and> line_valid h1)
    \<and> history_get_next_command h =
        Inr (if Suc (hist_pos h as) < length as then Some (commands_of h as ! Suc (hist_pos h as))
             else if line_valid h then Some (line_get_buf (hist_line h)) else None, h2)
    \<and> hist_inv h2 as \<and> commands_of h2 as = commands_of h as
    \<and> hist_pos h2 as = min (Suc (hist_pos h as)) (length as)
    \<and> line_valid h2 = (line_valid h \<and> Suc (hist_pos h as) < length as)
    \<and> history_reverse_search h pat = Inr (find (\<lambda>c. strstr c pat) (rev (commands_of h as)))"
proof -
  let ?p = "hist_pos h as"
  have l: "hist_list h as" using assms by (simp add: hist_inv_def)
  define h1 where "h1 = (if ?p = 0 then h
      else (if ?p = length as then h\<lparr>hist_line := line, line_valid := True\<rparr> else h)
             \<lparr>current_p := Some (as ! (?p - 1))\<rparr>)"
  define h2 where "h2 = (if Suc ?p < length as then h\<lparr>current_p := Some (as ! Suc ?p)\<rparr>
      else (if line_valid h then h\<lparr>line_valid := False\<rparr> else h)\<lparr>current_p := None\<rparr>)"
  have prev: "history_get_previous_command h line =
      Inr (if ?p = 0 then None else Some (commands_of h as ! (?p - 1)), h1)"
    by (simp add: previous_ok [OF assms] h1_def)
  have "hist_inv h1 as \<and> commands_of h1 as = commands_of h as \<and> hist_pos h1 as = ?p - 1"
  proof (cases "?p = 0")
    case False
    then have "?p - 1 < length as" using hist_pos_le [OF assms] by simp
    with False show ?thesis
      using hist_inv_at [OF l, of "if ?p = length as then h\<lparr>hist_line := line, line_valid := True\<rparr> else h" "?p - 1"]
      by (simp add: h1_def)
  qed (use assms in \<open>simp add: h1_def\<close>)
  moreover have "0 < ?p \<and> ?p = length as \<longrightarrow> hist_line h1 = line \<and> line_valid h1"
    by (auto simp: h1_def)
  moreover have "history_get_next_command h =
      Inr (if Suc ?p < length as then Some (commands_of h as ! Suc ?p)
           else if line_valid h then Some (line_get_buf (hist_line h)) else None, h2)"
    by (simp add: next_ok [OF assms] h2_def)
  moreover have "hist_inv h2 as \<and> commands_of h2 as = commands_of h as
      \<and> hist_pos h2 as = min (Suc ?p) (length as)"
  proof (cases "Suc ?p < length as")
    case True
    then show ?thesis using hist_inv_at [OF l refl refl refl refl refl True] by (simp add: h2_def)
  next
    case False
    let ?h = "if line_valid h then h\<lparr>line_valid := False\<rparr> else h"
    have "hist_list ?h as \<and> commands_of ?h as = commands_of h as"
      using hist_list_frame [OF l, of ?h] by simp
    with False show ?thesis
      using hist_inv_reset [of ?h as] hist_pos_le [OF assms] by (simp add: h2_def min_def)
  qed
  moreover have "line_valid h2 = (line_valid h \<and> Suc ?p < length as)" by (simp add: h2_def)
  ultimately show ?thesis using prev reverse_search_ok [OF l, of pat] by blast
qed

theorem history_navigation_witness:
  "\<exists>h1. history_get_previous_command example_history example_line = Inr (None, h1) \<and> hist_inv h1 []"
  using history_navigation [of example_history "[]" example_line "''a''"]
  by (auto simp: hist_list_def hist_inv_def hist_pos_def example_history_def)

end
