(* ===== verification/Ml_Shell_Table.thy ===== *)
theory Ml_Shell_Table
  imports Ml_Shell_Parse Ml_Shell_Line "HOL-Library.Sublist"
begin

text \<open>
  The shell's command table (\<open>src/src/ml_shell.c\<close>): registering commands, sorting the table when the
  shell starts, looking a command up, and completing the edited line to the names in the table.
  The table and its two comparators interpret \<open>sorted_table\<close>; the completion is compared with the
  longest common prefix of the matching names.
\<close>

section \<open>The table\<close>

text \<open>A callback is the number of a function; what the functions do is a parameter of the shell.\<close>

record command_t =
  cmd_name :: string
  cmd_description :: string
  cmd_callback :: nat

definition shell_compare_bsearch :: "string \<Rightarrow> command_t \<Rightarrow> int" where
  "shell_compare_bsearch name e = strcmp name (cmd_name e)"

text \<open>Two commands of the same name end the process.\<close>

definition shell_compare_qsort :: "command_t \<Rightarrow> command_t \<Rightarrow> int res" where
  "shell_compare_qsort l r =
     (let res = strcmp (cmd_name l) (cmd_name r) in if res = 0 then Inl (Exit 1) else Inr res)"

text \<open>The sort of \<open>Ml_Stdlib\<close> with a comparator that may end the process.\<close>

fun qsort_insert_checked :: "('e \<Rightarrow> 'e \<Rightarrow> int res) \<Rightarrow> 'e \<Rightarrow> 'e list \<Rightarrow> 'e list res" where
  "qsort_insert_checked cmp x [] = Inr [x]"
| "qsort_insert_checked cmp x (y # ys) =
     andthen (cmp x y) (\<lambda>c.
       if c > 0 then andthen (qsort_insert_checked cmp x ys) (\<lambda>zs. Inr (y # zs)) else Inr (x # y # ys))"

fun qsort_checked :: "('e \<Rightarrow> 'e \<Rightarrow> int res) \<Rightarrow> 'e list \<Rightarrow> 'e list res" where
  "qsort_checked cmp [] = Inr []"
| "qsort_checked cmp (x # xs) = andthen (qsort_checked cmp xs) (\<lambda>ys. qsort_insert_checked cmp x ys)"

definition find_command :: "command_t list \<Rightarrow> string \<Rightarrow> command_t option" where
  "find_command cmds name = map_option (\<lambda>i. cmds ! i) (bsearch (shell_compare_bsearch name) cmds)"

text \<open>The first argument says whether \<open>xrealloc\<close> gets memory for a table of that size.\<close>

definition register_command :: "(nat \<Rightarrow> bool) \<Rightarrow> command_t list \<Rightarrow> string \<Rightarrow> string \<Rightarrow> nat \<Rightarrow> command_t list res" where
  "register_command mem cmds name description callback =
     (if mem (length cmds + 1)
      then Inr (cmds @ [\<lparr>cmd_name = name, cmd_description = description, cmd_callback = callback\<rparr>])
      else Inl (Exit 1))"

section \<open>Completion\<close>

text \<open>The read \<open>name_p[i]\<close>, with the terminating zero.\<close>

definition name_at :: "string \<Rightarrow> nat \<Rightarrow> char res" where
  "name_at name i =
     (if i < length name then Inr (name ! i) else if i = length name then Inr NUL else Inl OutOfBounds)"

definition matches :: "string \<Rightarrow> nat \<Rightarrow> command_t \<Rightarrow> bool" where
  "matches line_p n c \<longleftrightarrow> strncmp (cmd_name c) line_p n = 0"

text \<open>Whether a command of the matching block differs from \<open>next_char\<close> at the position.\<close>

fun scan_mismatch :: "command_t list \<Rightarrow> string \<Rightarrow> nat \<Rightarrow> char \<Rightarrow> bool res" where
  "scan_mismatch [] line_p n next_char = Inr False"
| "scan_mismatch (c # cs) line_p n next_char =
     (if matches line_p n c
      then andthen (name_at (cmd_name c) n) (\<lambda>ch.
             if ch \<noteq> next_char then Inr True else scan_mismatch cs line_p n next_char)
      else Inr False)"

text \<open>
  The loop over the next character, on the table from the first match on; \<open>line_p\<close> points into the
  line that is edited. The result says whether a completion happened.
\<close>

function complete_loop :: "string \<Rightarrow> command_t list \<Rightarrow> line_t \<Rightarrow> nat \<Rightarrow> bool \<Rightarrow> (bool \<times> line_t) res" where
  "complete_loop name cmds l n happened =
     andthen (name_at name n) (\<lambda>next_char.
     andthen (scan_mismatch cmds (line_get_buf l) n next_char) (\<lambda>mismatch.
       if mismatch then Inr (happened, l)
       else if next_char = NUL then andthen (line_insert l SPACE) (\<lambda>(_, l). Inr (True, l))
       else andthen (line_insert l next_char) (\<lambda>(ok, l). complete_loop name cmds l (n + 1) True)))"
  by pat_completeness auto
termination
  by (relation "measure (\<lambda>(name, cmds, l, n, happened). Suc (length name) - n)")
     (auto simp: name_at_def split: if_splits)

declare complete_loop.simps [simp del]

text \<open>The line after completion and, when nothing was completed, the alternatives to print.\<close>

definition complete_line :: "command_t list \<Rightarrow> line_t \<Rightarrow> (line_t \<times> string list option) res" where
  "complete_line cmds l =
     (let n = line_get_length l;
          found = dropWhile (\<lambda>c. \<not> matches (line_get_buf l) n c) cmds
      in case found of
           [] \<Rightarrow> Inr (l, None)
         | c # _ \<Rightarrow>
             andthen (complete_loop (cmd_name c) found l n False) (\<lambda>(happened, l).
               Inr (l, if happened then None
                       else Some (map cmd_name (takeWhile (matches (line_get_buf l) n) found)))))"

section \<open>The table is sorted\<close>

interpretation shell_table: sorted_table cmd_name shell_compare_bsearch
  "\<lambda>l r. strcmp (cmd_name l) (cmd_name r)"
  by unfold_locales (simp_all add: shell_compare_bsearch_def strcmp_neg strcmp_zero)

lemma qsort_insert_checked_ok:
  assumes "sorted_wrt (<) (map cmd_name ys)"
  shows "qsort_insert_checked shell_compare_qsort x ys =
    (if cmd_name x \<in> cmd_name ` set ys then Inl (Exit 1)
     else Inr (qsort_insert (\<lambda>l r. strcmp (cmd_name l) (cmd_name r)) x ys))"
  using assms
proof (induction ys)
  case (Cons y ys)
  consider "cmd_name x = cmd_name y" | "cmd_name x < cmd_name y" | "cmd_name y < cmd_name x"
    by fastforce
  then show ?case
  proof cases
    case 1
    then show ?thesis by (simp add: shell_compare_qsort_def strcmp_zero Let_def)
  next
    case 2
    then have "strcmp (cmd_name x) (cmd_name y) < 0" by (simp add: strcmp_neg)
    moreover have "cmd_name x \<notin> cmd_name ` set (y # ys)" using 2 Cons.prems by auto
    ultimately show ?thesis by (simp add: shell_compare_qsort_def Let_def)
  next
    case 3
    then have "strcmp (cmd_name x) (cmd_name y) > 0"
      using shell_table.compare_elem_pos by blast
    moreover have "cmd_name x \<noteq> cmd_name y" using 3 by auto
    ultimately show ?thesis using Cons by (simp add: shell_compare_qsort_def Let_def)
  qed
qed simp

lemma qsort_checked_ok:
  "qsort_checked shell_compare_qsort xs =
    (if distinct (map cmd_name xs) then Inr (qsort (\<lambda>l r. strcmp (cmd_name l) (cmd_name r)) xs)
     else Inl (Exit 1))"
proof (induction xs)
  case (Cons x xs)
  let ?s = "qsort (\<lambda>l r. strcmp (cmd_name l) (cmd_name r)) xs"
  show ?case
  proof (cases "distinct (map cmd_name xs)")
    case True
    then have "sorted_wrt (<) (map cmd_name ?s)" by (rule shell_table.strict_sorted_qsort)
    then show ?thesis using Cons True by (simp add: qsort_insert_checked_ok)
  qed (use Cons in simp)
qed simp

lemma find_command_ok:
  assumes "sorted_wrt (<) (map cmd_name cmds)"
  shows "find_command cmds name = find (\<lambda>c. cmd_name c = name) cmds"
proof (cases "bsearch (shell_compare_bsearch name) cmds")
  case None
  then have "name \<notin> cmd_name ` set cmds" using shell_table.bsearch_None [OF assms] by simp
  then show ?thesis using None by (auto simp: find_command_def find_None_iff2)
next
  case (Some i)
  then have i: "i < length cmds" "cmd_name (cmds ! i) = name"
    using shell_table.bsearch_Some [OF assms] by auto
  moreover have "cmd_name (cmds ! j) \<noteq> name" if "j < i" for j
    using sorted_wrt_nth_less [OF assms, of j i] that i by auto
  ultimately show ?thesis using Some by (auto simp: find_command_def find_Some_iff2)
qed

section \<open>The matching block\<close>

lemma prefix_interval:
  fixes a b c p :: string
  assumes "prefix p a" and "prefix p c" and "a \<le> b" and "b \<le> c"
  shows "prefix p b"
  using assms
proof (induction p arbitrary: a b c)
  case (Cons x p)
  obtain a' c' where ac: "a = x # a'" "c = x # c'" "prefix p a'" "prefix p c'"
    using Cons.prems(1,2) by (metis Cons_prefix_Cons list.exhaust prefix_code(2))
  obtain y b' where b: "b = y # b'" using ac(1) Cons.prems(3) by (cases b) simp_all
  have "x < y \<or> x = y \<and> a' \<le> b'" "y < x \<or> y = x \<and> b' \<le> c'"
    using Cons.prems(3,4) ac b by simp_all
  then have le: "y = x" "a' \<le> b'" "b' \<le> c'" by (metis order.asym)+
  then have "prefix p b'" using Cons.IH [OF ac(3,4)] by blast
  then show ?case using b le by simp
qed simp

lemma matches_prefix: "NUL \<notin> set t \<Longrightarrow> matches t (length t) c \<longleftrightarrow> prefix t (cmd_name c)"
  by (simp add: matches_def strncmp_length) (metis append_eq_conv_conj prefix_def take_is_prefix)

text \<open>In a sorted table the matches are one block behind the first match.\<close>

lemma matching_block:
  assumes "sorted_wrt (<) (map cmd_name cmds)"
  shows "takeWhile (\<lambda>c. prefix t (cmd_name c)) (dropWhile (\<lambda>c. \<not> prefix t (cmd_name c)) cmds)
    = filter (\<lambda>c. prefix t (cmd_name c)) cmds"
proof -
  let ?P = "\<lambda>c. prefix t (cmd_name c)"
  have block: "takeWhile ?P xs = filter ?P xs"
    if "sorted_wrt (<) (map cmd_name xs)" "xs = [] \<or> ?P (hd xs)" for xs
    using that
  proof (induction xs)
    case (Cons x xs)
    show ?case
    proof (cases "xs = [] \<or> ?P (hd xs)")
      case True
      then show ?thesis using Cons by auto
    next
      case False
      then obtain y ys where xs: "xs = y # ys" "\<not> ?P y" by (cases xs) auto
      have "\<not> ?P z" if "z \<in> set ys" for z
      proof
        assume "?P z"
        moreover have "cmd_name x \<le> cmd_name y" "cmd_name y \<le> cmd_name z"
          using Cons.prems(1) xs that by auto
        ultimately show False using prefix_interval [of t "cmd_name x"] Cons.prems(2) xs(2) by auto
      qed
      then show ?thesis using xs Cons.prems by (auto simp: filter_empty_conv)
    qed
  qed simp
  let ?d = "dropWhile (\<lambda>c. \<not> ?P c) cmds"
  have "sorted_wrt (<) (map cmd_name ?d)"
    using assms by (metis dropWhile_eq_drop drop_map sorted_wrt_drop)
  moreover have "?d = [] \<or> ?P (hd ?d)" using hd_dropWhile [of "\<lambda>c. \<not> ?P c" cmds] by blast
  moreover have "filter ?P cmds = filter ?P ?d"
    by (induction cmds) auto
  ultimately show ?thesis using block [of ?d] by metis
qed

lemma scan_mismatch_ok:
  assumes "NUL \<notin> set t"
  shows "scan_mismatch cmds t (length t) ch =
    Inr (\<exists>c\<in>set (takeWhile (\<lambda>c. prefix t (cmd_name c)) cmds). (cmd_name c @ [NUL]) ! length t \<noteq> ch)"
proof (induction cmds)
  case (Cons c cs)
  have "name_at (cmd_name c) (length t) = Inr ((cmd_name c @ [NUL]) ! length t)" if "prefix t (cmd_name c)"
    using prefix_length_le [OF that] by (auto simp: name_at_def nth_append)
  then show ?case using Cons by (auto simp: matches_prefix [OF assms])
qed simp

section \<open>Completion reaches the longest common prefix\<close>

lemma prefix_snoc_nth:
  assumes "prefix t s" and "length t < length s"
  shows "prefix (t @ [s ! length t]) s"
  using assms by (auto simp: prefix_def nth_append hd_conv_nth) (metis append_Cons hd_Cons_tl hd_conv_nth)

lemma common_prefix_single [simp]: "Longest_common_prefix {s} = s"
  by (rule Longest_common_prefix_eq) (auto dest: prefix_length_le)

lemma common_prefix_stop:
  assumes "\<forall>s\<in>L. prefix t s" and "s1 \<in> L" and "s2 \<in> L"
    and "(s1 @ [NUL]) ! length t \<noteq> (s2 @ [NUL]) ! length t"
  shows "Longest_common_prefix L = t"
proof (rule Longest_common_prefix_eq)
  show "\<forall>qs. (\<forall>xs\<in>L. prefix qs xs) \<longrightarrow> length qs \<le> length t"
  proof (intro allI impI, rule ccontr)
    fix qs
    assume q: "\<forall>xs\<in>L. prefix qs xs" and "\<not> length qs \<le> length t"
    then have len: "length t < length qs" by simp
    have "(s @ [NUL]) ! length t = qs ! length t" if "s \<in> L" for s
    proof -
      have "prefix qs s" using q that by blast
      then obtain r where "s = qs @ r" by (rule prefixE)
      then show ?thesis using len by (simp add: nth_append)
    qed
    then show False using assms(2-4) by simp
  qed
qed (use assms in auto)

text \<open>The names the loop runs over, while the line is \<open>t\<close>: the block \<open>ms\<close> in front of the rest.\<close>

definition completing :: "string \<Rightarrow> command_t list \<Rightarrow> command_t list \<Rightarrow> bool" where
  "completing t ms rest \<longleftrightarrow> ms \<noteq> [] \<and> distinct (map cmd_name ms)
     \<and> (\<forall>c\<in>set ms. prefix t (cmd_name c) \<and> NUL \<notin> set (cmd_name c) \<and> length (cmd_name c) < 255)
     \<and> (rest = [] \<or> \<not> prefix t (cmd_name (hd rest)))"

lemma completing_block:
  "completing t ms rest \<Longrightarrow> takeWhile (\<lambda>c. prefix t (cmd_name c)) (ms @ rest) = ms"
  by (cases rest) (auto simp: completing_def takeWhile_append)

lemma completing_extend:
  assumes "completing t ms rest" and "\<forall>c\<in>set ms. (cmd_name c @ [NUL]) ! length t = ch" and "ch \<noteq> NUL"
  shows "completing (t @ [ch]) ms rest"
proof -
  have "prefix (t @ [ch]) (cmd_name c)" if c: "c \<in> set ms" for c
  proof -
    have p: "prefix t (cmd_name c)" using assms(1) c by (simp add: completing_def)
    have ch: "(cmd_name c @ [NUL]) ! length t = ch" using assms(2) c by blast
    then have "length t < length (cmd_name c)"
      using prefix_length_le [OF p] assms(3) by (cases "length t = length (cmd_name c)") (auto simp: nth_append)
    then show ?thesis using prefix_snoc_nth [OF p] ch by (simp add: nth_append)
  qed
  then show ?thesis using assms(1) by (auto simp: completing_def dest: append_prefixD)
qed

definition completed :: "command_t list \<Rightarrow> string" where
  "completed ms = Longest_common_prefix (cmd_name ` set ms) @ (if length ms = 1 then [SPACE] else [])"

lemma completed_full:
  assumes "completing t ms rest" and "\<forall>c\<in>set ms. (cmd_name c @ [NUL]) ! length t = NUL"
  shows "completed ms = t @ [SPACE]"
proof -
  have eq: "cmd_name c = t" if c: "c \<in> set ms" for c
  proof -
    have p: "prefix t (cmd_name c)" "NUL \<notin> set (cmd_name c)" using assms(1) c by (auto simp: completing_def)
    moreover have "(cmd_name c @ [NUL]) ! length t = NUL" using assms(2) c by blast
    ultimately have "\<not> length t < length (cmd_name c)"
      by (metis nth_append nth_mem)
    then show ?thesis using p(1) prefix_length_le [OF p(1)] by (auto simp: prefix_def)
  qed
  obtain c cs where ms: "ms = c # cs" using assms(1) unfolding completing_def by (cases ms) simp_all
  have "cs = []"
  proof (cases cs)
    case (Cons d ds)
    then have "cmd_name c = cmd_name d" using eq [of c] eq [of d] ms by simp
    then show ?thesis using assms(1) ms Cons by (simp add: completing_def)
  qed simp
  then have "length ms = 1" "cmd_name ` set ms = {t}" using ms eq [of c] by simp_all
  then show ?thesis by (simp add: completed_def)
qed

lemma complete_loop_ok:
  assumes "line_inv l" and "behind l = []" and "before l = t" and "NUL \<notin> set t"
    and "completing t ms rest" and "name = cmd_name (hd ms)"
  shows "\<exists>l'. complete_loop name (ms @ rest) l (length t) happened
        = Inr (happened \<or> completed ms \<noteq> t, l')
      \<and> line_inv l' \<and> behind l' = [] \<and> before l' = completed ms"
  using assms
proof (induction "length name - length t" arbitrary: l t happened rule: less_induct)
  case less
  have ms: "ms \<noteq> []" "hd ms \<in> set ms" using less.prems(5) by (auto simp: completing_def)
  then have name: "prefix t name" "NUL \<notin> set name" "length name < 255"
    using less.prems(5,6) by (auto simp: completing_def)
  define ch where "ch = (name @ [NUL]) ! length t"
  have buf: "line_get_buf l = t"
    using line_get_buf_text [OF less.prems(1)] less.prems by (simp add: line_text_def)
  have at: "name_at name (length t) = Inr ch"
    using prefix_length_le [OF name(1)] by (auto simp: ch_def name_at_def nth_append)
  have scan: "scan_mismatch (ms @ rest) t (length t) ch
      = Inr (\<exists>c\<in>set ms. (cmd_name c @ [NUL]) ! length t \<noteq> ch)"
    by (simp add: scan_mismatch_ok [OF less.prems(4)] completing_block [OF less.prems(5)])
  have room: "length (before l) + length (behind l) < 255"
    using prefix_length_le [OF name(1)] name(3) less.prems by simp
  have step: "complete_loop name (ms @ rest) l (length t) happened =
      (if \<exists>c\<in>set ms. (cmd_name c @ [NUL]) ! length t \<noteq> ch then Inr (happened, l)
       else if ch = NUL then andthen (line_insert l SPACE) (\<lambda>(_, l). Inr (True, l))
       else andthen (line_insert l ch) (\<lambda>(ok, l). complete_loop name (ms @ rest) l (length t + 1) True))"
    unfolding complete_loop.simps [of name "ms @ rest" l] by (simp add: at buf scan)
  consider c where "c \<in> set ms" "(cmd_name c @ [NUL]) ! length t \<noteq> ch"
    | "\<forall>c\<in>set ms. (cmd_name c @ [NUL]) ! length t = ch" "ch = NUL"
    | "\<forall>c\<in>set ms. (cmd_name c @ [NUL]) ! length t = ch" "ch \<noteq> NUL" by blast
  then show ?case
  proof cases
    case 1
    have "Longest_common_prefix (cmd_name ` set ms) = t"
      using common_prefix_stop [of "cmd_name ` set ms" t "cmd_name c" "cmd_name (hd ms)"] 1 ms less.prems(5,6)
      by (auto simp: completing_def ch_def)
    moreover have "length ms \<noteq> 1"
      using 1 ms less.prems(6) by (cases ms) (auto simp: ch_def)
    ultimately show ?thesis using step 1 less.prems by (auto simp: completed_def)
  next
    case 2
    then have "completed ms = t @ [SPACE]" using completed_full [OF less.prems(5)] by simp
    moreover have "complete_loop name (ms @ rest) l (length t) happened
        = andthen (line_insert l SPACE) (\<lambda>(_, l). Inr (True, l))"
      using step 2 by simp
    ultimately show ?thesis
      using shell_line.insert_room [OF less.prems(1) room, of SPACE] less.prems by auto
  next
    case 3
    obtain l1 where l1: "line_insert l ch = Inr (True, l1)" "line_inv l1" "before l1 = t @ [ch]" "behind l1 = []"
      using shell_line.insert_room [OF less.prems(1) room, of ch] less.prems by auto
    have next_inv: "completing (t @ [ch]) ms rest" by (rule completing_extend [OF less.prems(5) 3])
    have long: "length t < length name"
      using 3(2) prefix_length_le [OF name(1)] by (cases "length t = length name") (auto simp: ch_def nth_append)
    then have less: "length name - length (t @ [ch]) < length name - length t" by simp
    obtain l' where l': "complete_loop name (ms @ rest) l1 (length (t @ [ch])) True = Inr (True, l')"
        "line_inv l'" "behind l' = []" "before l' = completed ms"
      using less.hyps [OF less l1(2,4,3) _ next_inv less.prems(6), of True] 3(2) less.prems(4) by auto
    have "prefix (t @ [ch]) (completed ms)"
      using next_inv Longest_common_prefix_max_prefix [of "cmd_name ` set ms" "t @ [ch]"] ms
      by (auto simp: completing_def completed_def)
    then have "completed ms \<noteq> t" by (auto simp: prefix_def)
    then show ?thesis using step 3 l1 l' by auto
  qed
qed

lemma find_same_keys:
  assumes "set xs = set ys" and "distinct (map f xs)" and "distinct (map f ys)"
  shows "find (\<lambda>x. f x = k) xs = find (\<lambda>x. f x = k) ys"
proof -
  have unique: "find (\<lambda>x. f x = k) zs = Some z \<longleftrightarrow> z \<in> set zs \<and> f z = k" if "distinct (map f zs)" for zs z
    using that by (induction zs) auto
  show ?thesis
    by (rule option.expand, use assms in \<open>auto simp: unique find_None_iff\<close>)
       (metis assms option.collapse unique find_None_iff)
qed

section \<open>Properties\<close>

definition example_command :: "string \<Rightarrow> command_t" where
  "example_command s = \<lparr>cmd_name = s, cmd_description = ''d'', cmd_callback = 0\<rparr>"

definition typed_line :: "string \<Rightarrow> line_t" where
  "typed_line s = \<lparr>buf = s @ replicate (256 - length s) NUL, line_length = length s, cursor = length s\<rparr>"

text \<open>
  C12: TAB with the cursor at the end of the line. If no command begins with the line, nothing
  happens. Otherwise the line becomes the longest common prefix of the commands that begin with
  it, with a space behind it when there is only one; and exactly when this changes nothing the
  commands that begin with the line are listed, in the order of the table.
\<close>

theorem completion_is_longest_common_prefix:
  assumes "sorted_wrt (<) (map cmd_name cmds)"
    and "\<forall>c\<in>set cmds. NUL \<notin> set (cmd_name c) \<and> length (cmd_name c) < 255"
    and "line_inv l" and "behind l = []" and "NUL \<notin> set (before l)"
    and "ms = filter (\<lambda>c. prefix (before l) (cmd_name c)) cmds"
  shows "\<exists>l'. complete_line cmds l =
        Inr (l', if ms \<noteq> [] \<and> before l' = before l then Some (map cmd_name ms) else None)
      \<and> line_inv l' \<and> behind l' = [] \<and> before l' = (if ms = [] then before l else completed ms)"
proof -
  let ?t = "before l"
  let ?P = "\<lambda>c. prefix ?t (cmd_name c)"
  define found where "found = dropWhile (\<lambda>c. \<not> ?P c) cmds"
  have buf: "line_get_buf l = ?t" and len: "line_get_length l = length ?t"
    using line_get_buf_text [OF assms(3)] line_eqI_shown [OF assms(3)] assms(4,5)
    by (simp_all add: line_text_def)
  have ms: "takeWhile ?P found = ms" using matching_block [OF assms(1), of ?t] assms(6) by (simp add: found_def)
  have m: "matches ?t (length ?t) = ?P" by (auto simp: matches_prefix [OF assms(5)])
  have key: "dropWhile (\<lambda>c. \<not> matches (line_get_buf l) (line_get_length l) c) cmds = found"
    by (simp add: buf len m found_def)
  show ?thesis
  proof (cases found)
    case Nil
    then have "complete_line cmds l = Inr (l, None)" "ms = []"
      unfolding complete_line_def Let_def key using ms by simp_all
    then show ?thesis using assms(3,4) by simp
  next
    case (Cons c cs)
    have hd: "?P c" using hd_dropWhile [of "\<lambda>c. \<not> ?P c" cmds] Cons
      by (metis found_def list.distinct(1) list.sel(1))
    then have ne: "ms \<noteq> []" "hd ms = c" using ms Cons by auto
    have "distinct (map cmd_name ms)"
      using assms(1,6) by (simp add: strict_sorted_iff distinct_map_filter)
    then have inv: "completing ?t ms (dropWhile ?P found)"
      using ne assms(2,6) hd_dropWhile [of ?P found] by (auto simp: completing_def)
    have split: "found = ms @ dropWhile ?P found" using ms by (metis takeWhile_dropWhile_id)
    obtain l' where l': "complete_loop (cmd_name c) found l (length ?t) False = Inr (completed ms \<noteq> ?t, l')"
        "line_inv l'" "behind l' = []" "before l' = completed ms"
      using complete_loop_ok [OF assms(3,4) refl assms(5) inv, of "cmd_name c" False] ne split by auto
    have same: "line_get_buf l' = ?t" if "completed ms = ?t"
      using line_get_buf_text [OF l'(2)] l'(3,4) that assms(5) by (simp add: line_text_def)
    have "complete_line cmds l = Inr (l', if before l' = ?t then Some (map cmd_name ms) else None)"
      unfolding complete_line_def Let_def key using l' ms Cons same by (auto simp: len m)
    then show ?thesis using ne l' by auto
  qed
qed

theorem completion_is_longest_common_prefix_witness:
  "\<exists>l'. complete_line (map example_command [''halt'', ''help'', ''history'']) (typed_line ''ha'') = Inr (l', None)
    \<and> before l' = ''halt ''"
proof -
  let ?cmds = "map example_command [''halt'', ''help'', ''history'']"
  let ?l = "typed_line ''ha''"
  have b: "before ?l = ''ha''" "behind ?l = []" "line_inv ?l"
    by (simp_all add: typed_line_def before_def behind_def line_inv_def COMMAND_MAX_def nth_append)
  have f: "filter (\<lambda>c. prefix (before ?l) (cmd_name c)) ?cmds = [example_command ''halt'']"
    by (simp add: b example_command_def)
  have "completed [example_command ''halt''] = ''halt ''"
    by (simp add: completed_def example_command_def)
  then show ?thesis
    using completion_is_longest_common_prefix [of ?cmds ?l "[example_command ''halt'']"] b f
    by (auto simp: example_command_def less_char_def)
qed

text \<open>
  Starting the shell sorts the table of registered commands, or ends the process with status 1
  exactly when two of them have the same name. In the sorted table a command is found by its name
  if there is one, and nothing is found for any other name.
\<close>

theorem command_table_sorted_and_found:
  "case qsort_checked shell_compare_qsort cmds of
     Inl e \<Rightarrow> e = Exit 1 \<and> \<not> distinct (map cmd_name cmds)
   | Inr table \<Rightarrow> mset table = mset cmds \<and> sorted_wrt (<) (map cmd_name table)
       \<and> find_command table name = find (\<lambda>c. cmd_name c = name) cmds"
proof (cases "distinct (map cmd_name cmds)")
  case True
  let ?t = "qsort (\<lambda>l r. strcmp (cmd_name l) (cmd_name r)) cmds"
  have s: "sorted_wrt (<) (map cmd_name ?t)" by (rule shell_table.strict_sorted_qsort [OF True])
  have "find (\<lambda>c. cmd_name c = name) ?t = find (\<lambda>c. cmd_name c = name) cmds"
  proof (rule find_same_keys)
    show "set ?t = set cmds" by simp
    show "distinct (map cmd_name ?t)" using s by (simp add: strict_sorted_iff)
  qed (rule True)
  then show ?thesis using True s by (simp add: qsort_checked_ok find_command_ok)
qed (simp add: qsort_checked_ok)

end
