(* ===== verification/Ml_Shell_Edit.thy ===== *)
theory Ml_Shell_Edit
  imports Ml_Shell_Table Ml_Shell_History
begin

text \<open>
  Reading a command in the shell (\<open>src/src/ml_shell.c\<close>): the key handlers, history search, the
  update of the terminal and the loop that reads keys until a newline. Standard input is the
  string of keys to come, and its end ends the process; standard output is the list of what was
  printed, with the escape sequences as constructors. The theorems say that no input makes the
  editor touch memory outside its buffers, which line a sequence of keys produces, and when the
  terminal shows the line.
\<close>

section \<open>The state of the shell\<close>

text \<open>\<open>printf\<close> of text, and of the sequences \<open>ESC[<n>D\<close>, \<open>ESC[<n>C\<close> and \<open>ESC[K\<close>.\<close>

datatype term_out = Out string | Cursor_left nat | Cursor_right nat | Erase_to_end

record shell =
  line :: line_t
  prev_line :: line_t
  carriage_return_received :: bool
  newline_received :: bool
  history :: history_t
  commands :: "command_t list"
  stdin :: string
  stdout :: "term_out list"

definition print :: "term_out list \<Rightarrow> shell \<Rightarrow> shell" where
  "print ts st = st\<lparr>stdout := stdout st @ ts\<rparr>"

definition xgetc :: "shell \<Rightarrow> (char \<times> shell) res" where
  "xgetc st = (case stdin st of [] \<Rightarrow> Inl (Exit 1) | c # cs \<Rightarrow> Inr (c, st\<lparr>stdin := cs\<rparr>))"

definition PROMPT :: string where "PROMPT = ''$ ''"

definition print_prompt :: "shell \<Rightarrow> shell" where
  "print_prompt st = print [Out PROMPT] st"

abbreviation TAB :: char where "TAB \<equiv> CHR 0x09"
abbreviation NEWLINE :: char where "NEWLINE \<equiv> CHR 0x0A"
abbreviation CARRIAGE_RETURN :: char where "CARRIAGE_RETURN \<equiv> CHR 0x0D"
abbreviation BACKSPACE :: char where "BACKSPACE \<equiv> CHR 0x08"
abbreviation DELETE :: char where "DELETE \<equiv> CHR 0x7F"
abbreviation CTRL_A :: char where "CTRL_A \<equiv> CHR 0x01"
abbreviation CTRL_D :: char where "CTRL_D \<equiv> CHR 0x04"
abbreviation CTRL_E :: char where "CTRL_E \<equiv> CHR 0x05"
abbreviation CTRL_G :: char where "CTRL_G \<equiv> CHR 0x07"
abbreviation CTRL_K :: char where "CTRL_K \<equiv> CHR 0x0B"
abbreviation CTRL_R :: char where "CTRL_R \<equiv> CHR 0x12"
abbreviation CTRL_T :: char where "CTRL_T \<equiv> CHR 0x14"
abbreviation ALT :: char where "ALT \<equiv> CHR 0x1B"

definition isprint :: "char \<Rightarrow> bool" where
  "isprint c \<longleftrightarrow> 32 \<le> (of_char c :: nat) \<and> (of_char c :: nat) \<le> 126"

definition isblank :: "char \<Rightarrow> bool" where
  "isblank c \<longleftrightarrow> c = SPACE \<or> c = TAB"

text \<open>An operation on the edited line.\<close>

definition on_line :: "(line_t \<Rightarrow> line_t res) \<Rightarrow> shell \<Rightarrow> shell res" where
  "on_line f st = andthen (f (line st)) (\<lambda>l. Inr (st\<lparr>line := l\<rparr>))"

section \<open>The key handlers\<close>

definition auto_complete_command :: "shell \<Rightarrow> shell res" where
  "auto_complete_command st =
     andthen (complete_line (commands st) (line st)) (\<lambda>(l, alternatives).
       let st = st\<lparr>line := l\<rparr>
       in case alternatives of
            None \<Rightarrow> Inr st
          | Some names \<Rightarrow>
              Inr (print [Out (line_get_buf l)]
                    (print_prompt (print (Out newline # map (\<lambda>n. Out (n @ newline)) names) st))))"

definition handle_tab :: "shell \<Rightarrow> shell res" where
  "handle_tab st = auto_complete_command st"

definition handle_carrige_return :: "shell \<Rightarrow> shell res" where
  "handle_carrige_return st = Inr (st\<lparr>carriage_return_received := True\<rparr>)"

definition handle_newline :: "shell \<Rightarrow> shell res" where
  "handle_newline st = Inr (st\<lparr>newline_received := True\<rparr>)"

definition handle_backspace :: "shell \<Rightarrow> shell res" where
  "handle_backspace st =
     (let (ok, l) = line_seek (line st) (- 1); st = st\<lparr>line := l\<rparr>
      in if ok then on_line line_delete st else Inr st)"

definition handle_ctrl_a :: "shell \<Rightarrow> shell res" where
  "handle_ctrl_a st = Inr (st\<lparr>line := line_seek_begin (line st)\<rparr>)"

definition handle_ctrl_e :: "shell \<Rightarrow> shell res" where
  "handle_ctrl_e st = Inr (st\<lparr>line := line_seek_end (line st)\<rparr>)"

definition handle_ctrl_d :: "shell \<Rightarrow> shell res" where
  "handle_ctrl_d st = on_line line_delete st"

definition handle_ctrl_k :: "shell \<Rightarrow> shell res" where
  "handle_ctrl_k st = on_line line_truncate st"

definition swap_characters :: "line_t \<Rightarrow> line_t res" where
  "swap_characters l =
     (let cursor = line_get_cursor l
      in if cursor = 0 then Inr l
         else if line_get_length l < 2 then Inr l
         else
           let l = (if cursor = line_get_length l then snd (line_seek l (- 1)) else l)
           in andthen (line_peek l) (\<lambda>ch.
              andthen (line_delete l) (\<lambda>l.
              let l = snd (line_seek l (- 1))
              in andthen (line_insert l ch) (\<lambda>(_, l). Inr (snd (line_seek l 1))))))"

definition handle_ctrl_t :: "shell \<Rightarrow> shell res" where
  "handle_ctrl_t st = on_line swap_characters st"

definition restore_previous_line :: "shell \<Rightarrow> shell" where
  "restore_previous_line st =
     (let st = print [Cursor_left (17 + line_get_length (hist_pattern (history st))), Erase_to_end,
                      Out (line_get_buf (prev_line st))] st;
          cursor = line_get_cursor (prev_line st);
          len = line_get_length (prev_line st)
      in if cursor \<noteq> len then print [Cursor_left (len - cursor)] st else st)"

text \<open>The search for the pattern, shown behind it; the same lines for an added and a removed character.\<close>

definition show_match :: "shell \<Rightarrow> shell res" where
  "show_match st =
     (let h = history st
      in andthen (history_reverse_search h (line_get_buf (hist_pattern h))) (\<lambda>buf_p.
         andthen (line_init (hist_match h)) (\<lambda>m.
         andthen (case buf_p of None \<Rightarrow> Inr m | Some b \<Rightarrow> line_insert_string m b) (\<lambda>m.
         Inr (print [Out (line_get_buf m), Cursor_left (line_get_length m + 3)]
                (st\<lparr>history := h\<lparr>hist_match := m\<rparr>\<rparr>))))))"

definition search_backspace :: "shell \<Rightarrow> shell res" where
  "search_backspace st =
     (let p = hist_pattern (history st)
      in if \<not> line_is_empty p
         then let st = print [Cursor_left 1, Erase_to_end, Out [CHR 0x27, CHR '':'', SPACE]] st
              in andthen (line_delete (snd (line_seek p (- 1)))) (\<lambda>p.
                 show_match (st\<lparr>history := (history st)\<lparr>hist_pattern := p\<rparr>\<rparr>))
         else Inr st)"

definition search_insert :: "char \<Rightarrow> shell \<Rightarrow> shell res" where
  "search_insert ch st =
     andthen (line_insert (hist_pattern (history st)) ch) (\<lambda>(ok, p).
       let st = st\<lparr>history := (history st)\<lparr>hist_pattern := p\<rparr>\<rparr>
       in if ok then show_match (print [Erase_to_end, Out [ch, CHR 0x27, CHR '':'', SPACE]] st)
          else Inr st)"

text \<open>Another key ends the search: the match becomes the line, and the rest of an escape is read.\<close>

definition search_done :: "char \<Rightarrow> shell \<Rightarrow> shell res" where
  "search_done ch st =
     (let st = (restore_previous_line st)\<lparr>line := hist_match (history st)\<rparr>
      in if ch = NEWLINE then Inr (st\<lparr>newline_received := True\<rparr>)
         else if ch = ALT
         then andthen (xgetc st) (\<lambda>(ch, st).
                if ch \<noteq> CHR ''d'' then andthen (xgetc st) (\<lambda>(_, st). Inr st) else Inr st)
         else Inr st)"

text \<open>The loop of the search over the keys to come.\<close>

fun ctrl_r_loop :: "string \<Rightarrow> shell \<Rightarrow> shell res" where
  "ctrl_r_loop [] st = Inl (Exit 1)"
| "ctrl_r_loop (ch # keys) st =
     (if ch = DELETE \<or> ch = BACKSPACE then andthen (search_backspace st) (\<lambda>st. ctrl_r_loop keys st)
      else if ch = CARRIAGE_RETURN then ctrl_r_loop keys (st\<lparr>carriage_return_received := True\<rparr>)
      else if ch = CTRL_G then Inr ((restore_previous_line st)\<lparr>stdin := keys\<rparr>)
      else if isprint ch then andthen (search_insert ch st) (\<lambda>st. ctrl_r_loop keys st)
      else search_done ch (st\<lparr>stdin := keys\<rparr>))"

definition handle_ctrl_r :: "shell \<Rightarrow> shell res" where
  "handle_ctrl_r st =
     andthen (line_init (hist_pattern (history st))) (\<lambda>p.
     andthen (line_init (hist_match (history st))) (\<lambda>m.
       let st = st\<lparr>history := (history st)\<lparr>hist_pattern := p, hist_match := m\<rparr>\<rparr>;
           st = (if \<not> line_is_empty (line st) then print [Cursor_left (line_get_length (line st))] st else st);
           st = print [Erase_to_end, Out (''(history-search)`'' @ [CHR 0x27, CHR '':'', SPACE]), Cursor_left 3] st
       in ctrl_r_loop (stdin st) st))"

text \<open>
  The two loops of Alt+D, bounded by a number of steps; running out of it is a loop that does not end.
\<close>

fun delete_while :: "(char \<Rightarrow> bool) \<Rightarrow> nat \<Rightarrow> line_t \<Rightarrow> line_t res" where
  "delete_while P 0 l = Inl Blocked"
| "delete_while P (Suc n) l =
     andthen (line_peek l) (\<lambda>ch. if P ch then andthen (line_delete l) (\<lambda>l. delete_while P n l) else Inr l)"

definition delete_word :: "line_t \<Rightarrow> line_t res" where
  "delete_word l =
     andthen (delete_while isblank (Suc (line_length l)) l) (\<lambda>l.
       delete_while (\<lambda>c. \<not> isblank c \<and> c \<noteq> NUL) (Suc (line_length l)) l)"

text \<open>UP and DOWN: the command found replaces the line.\<close>

definition recall :: "string option \<Rightarrow> shell \<Rightarrow> shell res" where
  "recall buf_p st =
     (case buf_p of
        None \<Rightarrow> Inr st
      | Some b \<Rightarrow> on_line (\<lambda>l. andthen (line_init l) (\<lambda>l. line_insert_string l b)) st)"

definition handle_arrow :: "char \<Rightarrow> shell \<Rightarrow> shell res" where
  "handle_arrow ch st =
     (if ch = CHR ''A''
      then andthen (history_get_previous_command (history st) (line st)) (\<lambda>(b, h). recall b (st\<lparr>history := h\<rparr>))
      else if ch = CHR ''B''
      then andthen (history_get_next_command (history st)) (\<lambda>(b, h). recall b (st\<lparr>history := h\<rparr>))
      else if ch = CHR ''C'' then Inr (st\<lparr>line := snd (line_seek (line st) 1)\<rparr>)
      else if ch = CHR ''D'' then Inr (st\<lparr>line := snd (line_seek (line st) (- 1))\<rparr>)
      else Inr st)"

definition handle_alt :: "shell \<Rightarrow> shell res" where
  "handle_alt st =
     andthen (xgetc st) (\<lambda>(ch, st).
       if ch = CHR ''d'' then on_line delete_word st
       else if ch = CHR ''O''
       then andthen (xgetc st) (\<lambda>(ch, st).
              if ch = CHR ''H'' then Inr (st\<lparr>line := line_seek_begin (line st)\<rparr>)
              else if ch = CHR ''F'' then Inr (st\<lparr>line := line_seek_end (line st)\<rparr>)
              else Inr st)
       else if ch = CHR ''['' then andthen (xgetc st) (\<lambda>(ch, st). handle_arrow ch st)
       else Inr st)"

definition handle_other :: "char \<Rightarrow> shell \<Rightarrow> shell res" where
  "handle_other ch st = on_line (\<lambda>l. andthen (line_insert l ch) (\<lambda>(_, l). Inr l)) st"

text \<open>The switch of \<open>read_command\<close>.\<close>

definition handle_key :: "char \<Rightarrow> shell \<Rightarrow> shell res" where
  "handle_key ch st =
     (if ch = TAB then handle_tab st
      else if ch = CARRIAGE_RETURN then handle_carrige_return st
      else if ch = NEWLINE then handle_newline st
      else if ch = DELETE \<or> ch = BACKSPACE then handle_backspace st
      else if ch = CTRL_A then handle_ctrl_a st
      else if ch = CTRL_E then handle_ctrl_e st
      else if ch = CTRL_D then handle_ctrl_d st
      else if ch = CTRL_K then handle_ctrl_k st
      else if ch = CTRL_T then handle_ctrl_t st
      else if ch = CTRL_R then handle_ctrl_r st
      else if ch = ALT then handle_alt st
      else handle_other ch st)"

section \<open>Showing the line and reading a command\<close>

definition show_line :: "shell \<Rightarrow> shell" where
  "show_line st =
     (let cursor = line_get_cursor (prev_line st);
          len = line_get_length (prev_line st);
          new_length = line_get_length (line st);
          new_cursor = line_get_cursor (line st);
          min_length = min len new_length;
          new = line_get_buf (line st);
          old = line_get_buf (prev_line st)
      in if strcmp new old \<noteq> 0
         then if strncmp new old min_length = 0 \<and> new_cursor = new_length
              then if len < new_length then print [Out (drop cursor new)] st
                   else print (replicate (len - cursor) (Out [SPACE])
                          @ replicate (len - new_length) (Out [BACKSPACE, SPACE, BACKSPACE])) st
              else print ((if cursor > 0 then [Cursor_left cursor] else [])
                     @ [Erase_to_end, Out new]
                     @ (if new_cursor < new_length then [Cursor_left (new_length - new_cursor)] else [])) st
         else if cursor < new_cursor then print [Cursor_right (new_cursor - cursor)] st
         else if new_cursor < cursor then print [Cursor_left (cursor - new_cursor)] st
         else st)"

definition execute_line :: "shell \<Rightarrow> (nat \<times> shell) res" where
  "execute_line st =
     (let st = (if carriage_return_received st then print [Out [CARRIAGE_RETURN]] st else st);
          st = print [Out newline] st
      in andthen (if \<not> line_is_empty (line st)
                  then history_append (history st) (line_get_buf (line st)) else Inr (history st)) (\<lambda>h.
         Inr (line_get_length (line st), st\<lparr>history := history_reset_current h\<rparr>)))"

section \<open>No handler puts keys back\<close>

lemma print_fields [simp]:
  "line (print ts st) = line st" "prev_line (print ts st) = prev_line st"
  "carriage_return_received (print ts st) = carriage_return_received st"
  "newline_received (print ts st) = newline_received st" "history (print ts st) = history st"
  "commands (print ts st) = commands st" "stdin (print ts st) = stdin st"
  "stdout (print ts st) = stdout st @ ts"
  by (simp_all add: print_def)

lemma restore_fields [simp]:
  "line (restore_previous_line st) = line st" "prev_line (restore_previous_line st) = prev_line st"
  "history (restore_previous_line st) = history st" "commands (restore_previous_line st) = commands st"
  "stdin (restore_previous_line st) = stdin st"
  "newline_received (restore_previous_line st) = newline_received st"
  "carriage_return_received (restore_previous_line st) = carriage_return_received st"
  by (simp_all add: restore_previous_line_def Let_def)

lemma show_line_fields [simp]:
  "line (show_line st) = line st" "prev_line (show_line st) = prev_line st"
  "history (show_line st) = history st" "commands (show_line st) = commands st"
  "stdin (show_line st) = stdin st" "newline_received (show_line st) = newline_received st"
  "carriage_return_received (show_line st) = carriage_return_received st"
  by (simp_all add: show_line_def Let_def)

lemma xgetc_Inr: "xgetc st = Inr (c, st') \<longleftrightarrow> (\<exists>cs. stdin st = c # cs \<and> st' = st\<lparr>stdin := cs\<rparr>)"
  by (auto simp: xgetc_def split: list.splits)

lemma andthen_xgetc:
  assumes "andthen (xgetc st) f = Inr r"
  obtains c cs where "stdin st = c # cs" and "f (c, st\<lparr>stdin := cs\<rparr>) = Inr r"
  using assms by (cases "stdin st") (simp_all add: xgetc_def)

lemma on_line_stdin: "on_line f st = Inr st' \<Longrightarrow> stdin st' = stdin st"
  by (auto simp: on_line_def andthen_eq_Inr)

lemma show_match_stdin: "show_match st = Inr st' \<Longrightarrow> stdin st' = stdin st"
  by (auto simp: show_match_def andthen_eq_Inr Let_def)

lemma search_step_stdin:
  "search_backspace st = Inr st' \<Longrightarrow> stdin st' = stdin st"
  "search_insert ch st = Inr st' \<Longrightarrow> stdin st' = stdin st"
  by (auto simp: search_backspace_def search_insert_def andthen_eq_Inr Let_def
      dest!: show_match_stdin split: if_splits)

lemma search_done_stdin: "search_done ch st = Inr st' \<Longrightarrow> length (stdin st') \<le> length (stdin st)"
  by (auto simp: search_done_def Let_def elim!: andthen_xgetc split: if_splits)

lemma ctrl_r_loop_stdin: "ctrl_r_loop keys st = Inr st' \<Longrightarrow> length (stdin st') \<le> length keys"
proof (induction keys st rule: ctrl_r_loop.induct)
  case (2 ch keys st)
  then show ?case
    by (auto simp: andthen_eq_Inr le_SucI split: if_splits dest!: search_done_stdin)
qed simp

lemma handle_ctrl_r_stdin: "handle_ctrl_r st = Inr st' \<Longrightarrow> length (stdin st') \<le> length (stdin st)"
  unfolding handle_ctrl_r_def Let_def
  by (auto simp: andthen_eq_Inr split: if_splits dest!: ctrl_r_loop_stdin)

lemma recall_stdin: "recall b st = Inr st' \<Longrightarrow> stdin st' = stdin st"
  by (auto simp: recall_def on_line_stdin split: option.splits)

lemma handle_arrow_stdin: "handle_arrow ch st = Inr st' \<Longrightarrow> stdin st' = stdin st"
  by (auto simp: handle_arrow_def andthen_eq_Inr split: if_splits dest!: recall_stdin)

lemma handle_alt_stdin: "handle_alt st = Inr st' \<Longrightarrow> length (stdin st') \<le> length (stdin st)"
  unfolding handle_alt_def
  by (erule andthen_xgetc) (auto elim!: andthen_xgetc split: if_splits dest!: on_line_stdin handle_arrow_stdin)

lemma auto_complete_stdin: "auto_complete_command st = Inr st' \<Longrightarrow> stdin st' = stdin st"
  by (auto simp: auto_complete_command_def andthen_eq_Inr Let_def print_prompt_def split: option.splits)

lemmas handler_defs = handle_tab_def handle_carrige_return_def handle_newline_def handle_backspace_def
  handle_ctrl_a_def handle_ctrl_e_def handle_ctrl_d_def handle_ctrl_k_def handle_ctrl_t_def handle_other_def

lemma handle_key_stdin: "handle_key ch st = Inr st' \<Longrightarrow> length (stdin st') \<le> length (stdin st)"
  by (auto simp: handle_key_def handler_defs Let_def split: if_splits prod.splits
      dest!: on_line_stdin auto_complete_stdin handle_ctrl_r_stdin handle_alt_stdin)

text \<open>The loop of \<open>read_command\<close>; each round takes a key, so it ends with a newline or the input.\<close>

function read_loop :: "shell \<Rightarrow> (nat \<times> shell) res" where
  "read_loop st =
     andthen (xgetc st) (\<lambda>(ch, st).
     andthen (handle_key ch (st\<lparr>prev_line := line st\<rparr>)) (\<lambda>st.
       let st = show_line st
       in if newline_received st then execute_line st else read_loop st))"
  by pat_completeness auto
termination
  by (relation "measure (\<lambda>st. length (stdin st))") (auto simp: xgetc_Inr dest!: handle_key_stdin)

declare read_loop.simps [simp del]

definition read_command :: "shell \<Rightarrow> (nat \<times> shell) res" where
  "read_command st =
     andthen (line_init (line st)) (\<lambda>l.
       read_loop (st\<lparr>line := l, carriage_return_received := False, newline_received := False\<rparr>))"

section \<open>No input leads outside the buffers\<close>

text \<open>A call that returns a state with the given property or ends the process at the end of the input.\<close>

definition safe :: "('a \<Rightarrow> bool) \<Rightarrow> 'a res \<Rightarrow> bool" where
  "safe P r \<longleftrightarrow> (case r of Inl e \<Rightarrow> e = Exit 1 | Inr x \<Rightarrow> P x)"

lemma safe_simps [simp]: "safe P (Inr x) = P x" "safe P (Inl e) = (e = Exit 1)"
  by (simp_all add: safe_def)

lemma safe_andthen: "safe P m \<Longrightarrow> (\<And>x. P x \<Longrightarrow> safe Q (f x)) \<Longrightarrow> safe Q (andthen m f)"
  by (cases m) auto

lemma safe_mono: "safe P m \<Longrightarrow> (\<And>x. P x \<Longrightarrow> Q x) \<Longrightarrow> safe Q m"
  by (cases m) auto

text \<open>A well-formed line without zeros in its text.\<close>

definition line_ok :: "line_t \<Rightarrow> bool" where
  "line_ok l \<longleftrightarrow> line_inv l \<and> NUL \<notin> set (line_text l)"

lemma line_okD: "line_ok l \<Longrightarrow> line_inv l" "line_ok l \<Longrightarrow> NUL \<notin> set (before l)"
    "line_ok l \<Longrightarrow> NUL \<notin> set (behind l)"
  by (auto simp: line_ok_def line_text_def)

lemma line_okI: "line_inv l \<Longrightarrow> NUL \<notin> set (before l) \<Longrightarrow> NUL \<notin> set (behind l) \<Longrightarrow> line_ok l"
  by (auto simp: line_ok_def line_text_def)

lemma line_ok_buf: "line_ok l \<Longrightarrow> length (buf l) = COMMAND_MAX"
  by (simp add: line_ok_def line_inv_def)

lemma line_insert_cases:
  assumes "line_inv l"
  shows "\<exists>ok l'. line_insert l c = Inr (ok, l') \<and> line_inv l' \<and> behind l' = behind l
    \<and> ok = (length (before l) + length (behind l) < 255)
    \<and> before l' = (if ok then before l @ [c] else before l)"
proof (cases "length (before l) + length (behind l) < 255")
  case True
  then show ?thesis using shell_line.insert_room [OF assms, of c] by auto
next
  case False
  then have "length (before l) + length (behind l) = 255" using shell_line.capacity [OF assms] by simp
  then show ?thesis using shell_line.insert_full [OF assms, of c] assms by auto
qed

lemma insert_safe: "line_ok l \<Longrightarrow> c \<noteq> NUL \<Longrightarrow> safe (\<lambda>(_, l'). line_ok l') (line_insert l c)"
  using line_insert_cases [of l c] line_okD [of l] by (auto intro!: line_okI split: if_splits)

lemma delete_safe:
  assumes "line_ok l"
  shows "safe line_ok (line_delete l)"
proof -
  obtain l' where "line_delete l = Inr l'" "line_inv l'" "before l' = before l" "behind l' = tl (behind l)"
    using shell_line.delete [OF line_okD(1) [OF assms]] by blast
  then show ?thesis using line_okD [OF assms] by (cases "behind l") (auto intro!: line_okI)
qed

lemma seek_ok:
  assumes "line_ok l"
  shows "line_ok (snd (line_seek l (- 1)))" and "line_ok (snd (line_seek l 1))"
proof -
  have inv: "line_inv l" and nul: "NUL \<notin> set (before l)" "NUL \<notin> set (behind l)"
    using line_okD [OF assms] by auto
  show "line_ok (snd (line_seek l (- 1)))"
  proof (cases "before l" rule: rev_cases)
    case Nil
    then show ?thesis using shell_line.seek_left_edge [OF inv] assms by simp
  next
    case (snoc b x)
    then show ?thesis using shell_line.seek_left [OF inv] nul by (auto intro!: line_okI)
  qed
  show "line_ok (snd (line_seek l 1))"
  proof (cases "behind l")
    case Nil
    then show ?thesis using shell_line.seek_right_edge [OF inv] assms by simp
  next
    case (Cons x r)
    then show ?thesis using shell_line.seek_right [OF inv] nul by (auto intro!: line_okI)
  qed
qed

lemma init_safe: "length (buf l) = COMMAND_MAX \<Longrightarrow> safe (\<lambda>l'. line_ok l' \<and> before l' = [] \<and> behind l' = []) (line_init l)"
  using line_init_ok [of l] by (auto intro!: line_okI)

lemma truncate_safe: "line_ok l \<Longrightarrow> safe line_ok (line_truncate l)"
  using line_truncate_ok [of l] line_okD [of l] by (auto intro!: line_okI)

lemma insert_string_safe:
  assumes "line_ok l" and "NUL \<notin> set s"
  shows "safe line_ok (line_insert_string l s)"
  using line_insert_string_ok [OF line_okD(1) [OF assms(1)], of s] line_okD [OF assms(1)] assms(2)
  by (auto intro!: line_okI dest!: in_set_takeD)

lemma seek_ends_ok: "line_ok l \<Longrightarrow> line_ok (line_seek_begin l)" "line_ok l \<Longrightarrow> line_ok (line_seek_end l)"
  using line_seek_begin_ok [of l] line_seek_end_ok [of l] by (auto simp: line_ok_def line_text_def)

lemma get_buf_ok: "line_ok l \<Longrightarrow> line_get_buf l = line_text l"
  by (simp add: line_ok_def line_get_buf_text)

lemma peek_ok: "line_inv l \<Longrightarrow> line_peek l = Inr (hd (behind l @ [NUL]))"
  using shell_line.peek [of l] by (cases "behind l") auto

lemma delete_while_ok:
  assumes "line_inv l" and "\<not> P NUL" and "length (behind l) < n"
  shows "\<exists>l'. delete_while P n l = Inr l' \<and> line_inv l' \<and> before l' = before l
    \<and> behind l' = dropWhile P (behind l)"
  using assms
proof (induction n arbitrary: l)
  case (Suc n)
  show ?case
  proof (cases "behind l")
    case Nil
    then show ?thesis using Suc.prems peek_ok [of l] by auto
  next
    case (Cons c r)
    obtain l1 where l1: "line_delete l = Inr l1" "line_inv l1" "before l1 = before l" "behind l1 = r"
      using shell_line.delete [OF Suc.prems(1)] Cons by auto
    show ?thesis
      using Suc.IH [OF l1(2) Suc.prems(2)] Suc.prems l1 Cons peek_ok [OF Suc.prems(1)]
      by (auto simp del: COMMAND_MAX_def)
  qed
qed simp

lemma delete_word_ok:
  assumes "line_inv l"
  shows "\<exists>l'. delete_word l = Inr l' \<and> line_inv l' \<and> before l' = before l
    \<and> behind l' = dropWhile (\<lambda>c. \<not> isblank c \<and> c \<noteq> NUL) (dropWhile isblank (behind l))"
proof -
  have short: "length (behind m) < Suc (line_length m)" if "line_inv m" for m
    using that by (simp add: line_lengths less_Suc_eq_le)
  obtain l1 where l1: "delete_while isblank (Suc (line_length l)) l = Inr l1" "line_inv l1"
      "before l1 = before l" "behind l1 = dropWhile isblank (behind l)"
    using delete_while_ok [OF assms, of isblank "Suc (line_length l)"] short [OF assms]
    by (auto simp: isblank_def)
  then show ?thesis
    using delete_while_ok [OF l1(2), of "\<lambda>c. \<not> isblank c \<and> c \<noteq> NUL" "Suc (line_length l1)"] short [OF l1(2)]
    by (auto simp: delete_word_def)
qed

lemma notin_dropWhile: "x \<notin> set xs \<Longrightarrow> x \<notin> set (dropWhile P xs)"
  by (induction xs) auto

lemma delete_word_safe: "line_ok l \<Longrightarrow> safe line_ok (delete_word l)"
  using delete_word_ok [of l] line_okD [of l]
    notin_dropWhile [OF notin_dropWhile [of NUL "behind l" isblank], of "\<lambda>c. \<not> isblank c \<and> c \<noteq> NUL"]
  by (auto intro!: line_okI)

definition table_ok :: "command_t list \<Rightarrow> bool" where
  "table_ok cmds \<longleftrightarrow> (\<forall>c\<in>set cmds. NUL \<notin> set (cmd_name c) \<and> length (cmd_name c) < 255)"

lemma complete_loop_safe:
  assumes "line_ok l" and "line_length l = n" and "n \<le> length name" and "NUL \<notin> set name" and "length name < 255"
  shows "safe (\<lambda>(_, l'). line_ok l') (complete_loop name cmds l n happened)"
  using assms
proof (induction "length name - n" arbitrary: l n happened rule: less_induct)
  case less
  have inv: "line_inv l" by (rule line_okD [OF less.prems(1)])
  have t: "line_get_buf l = line_text l" "length (line_text l) = n" "NUL \<notin> set (line_text l)"
    using less.prems inv by (simp_all add: get_buf_ok) (simp add: line_ok_def)
  define b where "b ch = (\<exists>c\<in>set (takeWhile (\<lambda>c. prefix (line_text l) (cmd_name c)) cmds).
      (cmd_name c @ [NUL]) ! n \<noteq> ch)" for ch
  have scan: "scan_mismatch cmds (line_get_buf l) n ch = Inr (b ch)" for ch
    using scan_mismatch_ok [OF t(3), of cmds ch] unfolding t(1,2) b_def .
  define ch where "ch = (name @ [NUL]) ! n"
  have at: "name_at name n = Inr ch" using less.prems(3) by (auto simp: name_at_def ch_def nth_append)
  have step: "complete_loop name cmds l n happened =
      (if b ch then Inr (happened, l)
       else if ch = NUL then andthen (line_insert l SPACE) (\<lambda>(_, l). Inr (True, l))
       else andthen (line_insert l ch) (\<lambda>(ok, l). complete_loop name cmds l (n + 1) True))"
    unfolding complete_loop.simps [of name cmds l n] by (simp add: at scan)
  consider "b ch" | "\<not> b ch" "ch = NUL" | "\<not> b ch" "ch \<noteq> NUL" by blast
  then show ?case
  proof cases
    case 1
    then show ?thesis using step less.prems(1) by simp
  next
    case 2
    then show ?thesis using step insert_safe [OF less.prems(1), of SPACE]
      by (auto intro: safe_andthen)
  next
    case 3
    then have n: "n < length name" using less.prems(3) by (cases "n = length name") (auto simp: ch_def)
    have room: "length (before l) + length (behind l) < 255"
      using t(2) less.prems(5) n by (simp add: line_text_def del: length_line_text)
    obtain l1 where l1: "line_insert l ch = Inr (True, l1)" "line_inv l1" "before l1 = before l @ [ch]"
        "behind l1 = behind l"
      using shell_line.insert_room [OF inv room, of ch] by blast
    have ok: "line_ok l1" using l1 line_okD [OF less.prems(1)] 3 by (auto intro!: line_okI)
    have len: "line_length l1 = n + 1"
      using length_line_text [OF l1(2)] t(2) l1(3,4) by (simp add: line_text_def del: length_line_text)
    have "length name - (n + 1) < length name - n" "n + 1 \<le> length name" using n by simp_all
    then have "safe (\<lambda>(_, l'). line_ok l') (complete_loop name cmds l1 (n + 1) True)"
      using less.hyps ok len less.prems(4,5) by blast
    then show ?thesis using step 3 l1(1) by simp
  qed
qed

lemma complete_line_safe:
  assumes "line_ok l" and "table_ok cmds"
  shows "safe (\<lambda>(l', _). line_ok l') (complete_line cmds l)"
proof -
  let ?t = "line_text l"
  have inv: "line_inv l" by (rule line_okD [OF assms(1)])
  have t: "line_get_buf l = ?t" "line_get_length l = length ?t" "NUL \<notin> set ?t"
    using assms(1) inv by (auto simp: get_buf_ok line_eqI_shown line_ok_def)
  let ?found = "dropWhile (\<lambda>c. \<not> matches ?t (length ?t) c) cmds"
  show ?thesis
  proof (cases ?found)
    case Nil
    then show ?thesis unfolding complete_line_def Let_def t(1,2) Nil using assms(1) by simp
  next
    case (Cons c cs)
    have "matches ?t (length ?t) c" using hd_dropWhile [of "\<lambda>c. \<not> matches ?t (length ?t) c" cmds] Cons
      by (metis list.distinct(1) list.sel(1))
    then have "length ?t \<le> length (cmd_name c)" using matches_prefix [OF t(3)] prefix_length_le by blast
    moreover have "c \<in> set cmds" using Cons by (metis dropWhile_eq_Cons_conv in_set_conv_decomp set_dropWhileD list.set_intros(1))
    ultimately have "safe (\<lambda>(_, l'). line_ok l') (complete_loop (cmd_name c) ?found l (length ?t) False)"
      using complete_loop_safe [OF assms(1), of "length ?t" "cmd_name c"] assms(2) inv
      by (simp add: table_ok_def)
    then show ?thesis
      unfolding complete_line_def Let_def t(1,2) Cons
      by (auto simp: Cons intro!: safe_andthen)
  qed
qed

text \<open>The invariant of the shell between two keys.\<close>

definition shell_ok :: "nat list \<Rightarrow> shell \<Rightarrow> bool" where
  "shell_ok as st \<longleftrightarrow> line_ok (line st) \<and> hist_inv (history st) as
     \<and> (\<forall>c\<in>set (commands_of (history st) as). NUL \<notin> set c)
     \<and> length (buf (hist_pattern (history st))) = COMMAND_MAX
     \<and> length (buf (hist_match (history st))) = COMMAND_MAX
     \<and> table_ok (commands st) \<and> NUL \<notin> set (stdin st)"

lemma shell_okD:
  assumes "shell_ok as st"
  shows "line_ok (line st)" "hist_inv (history st) as" "hist_list (history st) as"
    "\<forall>c\<in>set (commands_of (history st) as). NUL \<notin> set c"
    "length (buf (hist_pattern (history st))) = COMMAND_MAX"
    "length (buf (hist_match (history st))) = COMMAND_MAX"
    "table_ok (commands st)" "NUL \<notin> set (stdin st)"
  using assms by (auto simp: shell_ok_def hist_inv_def)

lemma shell_ok_fields [simp]:
  "shell_ok as (st\<lparr>prev_line := l\<rparr>) = shell_ok as st"
  "shell_ok as (st\<lparr>carriage_return_received := b\<rparr>) = shell_ok as st"
  "shell_ok as (st\<lparr>newline_received := b\<rparr>) = shell_ok as st"
  "shell_ok as (print ts st) = shell_ok as st"
  "shell_ok as (show_line st) = shell_ok as st"
  "shell_ok as (print_prompt st) = shell_ok as st"
  "shell_ok as (restore_previous_line st) = shell_ok as st"
  by (simp_all add: shell_ok_def print_prompt_def)

lemma shell_ok_line [simp]: "shell_ok as st \<Longrightarrow> shell_ok as (st\<lparr>line := l\<rparr>) = line_ok l"
  by (auto simp: shell_ok_def)

lemma on_line_safe:
  assumes "shell_ok as st" and "\<And>l. line_ok l \<Longrightarrow> safe line_ok (f l)"
  shows "safe (shell_ok as) (on_line f st)"
  unfolding on_line_def using assms
  by (auto intro!: safe_andthen [OF assms(2) [OF shell_okD(1) [OF assms(1)]]])

lemma xgetc_safe:
  "shell_ok as st \<Longrightarrow> safe (\<lambda>(c, st'). shell_ok as st' \<and> c \<noteq> NUL) (xgetc st)"
  by (auto simp: xgetc_def shell_ok_def split: list.splits)

lemma hist_search_fields [simp]:
  "hist_inv (h\<lparr>hist_pattern := p\<rparr>) as = hist_inv h as"
  "hist_inv (h\<lparr>hist_match := p\<rparr>) as = hist_inv h as"
  "commands_of (h\<lparr>hist_pattern := p\<rparr>) as = commands_of h as"
  "commands_of (h\<lparr>hist_match := p\<rparr>) as = commands_of h as"
  by (simp_all add: hist_inv_def hist_list_def linked_def commands_of_def)

lemma completion_safe: "shell_ok as st \<Longrightarrow> safe (shell_ok as) (auto_complete_command st)"
  unfolding auto_complete_command_def Let_def
  by (rule safe_andthen [OF complete_line_safe]) (auto dest: shell_okD split: option.splits)

lemma backspace_safe: "shell_ok as st \<Longrightarrow> safe (shell_ok as) (handle_backspace st)"
  using seek_ok [OF shell_okD(1), of as st]
  by (auto simp: handle_backspace_def Let_def split: prod.splits intro!: on_line_safe delete_safe)

lemma swap_safe:
  assumes "line_ok l"
  shows "safe line_ok (swap_characters l)"
proof -
  have body: "safe line_ok (andthen (line_peek m) (\<lambda>ch. andthen (line_delete m) (\<lambda>l.
      let l = snd (line_seek l (- 1)) in andthen (line_insert l ch) (\<lambda>(_, l). Inr (snd (line_seek l 1))))))"
    if m: "line_ok m" "behind m \<noteq> []" for m
  proof -
    obtain c r where c: "behind m = c # r" using m(2) by (cases "behind m") auto
    then have "line_peek m = Inr c" "c \<noteq> NUL" using peek_ok [OF line_okD(1) [OF m(1)]] line_okD(3) [OF m(1)] by auto
    then show ?thesis
      by (auto simp: Let_def seek_ok intro!: safe_andthen [OF delete_safe [OF m(1)]]
          safe_andthen [OF insert_safe])
  qed
  have inv: "line_inv l" by (rule line_okD [OF assms])
  show ?thesis
  proof (cases "line_get_cursor l = 0 \<or> line_get_length l < 2")
    case True
    then show ?thesis using assms by (auto simp: swap_characters_def Let_def)
  next
    case False
    let ?m = "if line_get_cursor l = line_get_length l then snd (line_seek l (- 1)) else l"
    have "line_ok ?m" using assms seek_ok(1) by simp
    moreover have "behind ?m \<noteq> []"
    proof (cases "line_get_cursor l = line_get_length l")
      case True
      have "before l \<noteq> []" using False line_lengths [OF inv] by (auto simp: line_get_cursor_def)
      then show ?thesis using shell_line.seek_left [OF inv] True by auto
    next
      case neq: False
      then have "length (behind l) \<noteq> 0"
        using line_lengths [OF inv] inv by (simp add: line_get_cursor_def line_get_length_def line_inv_def)
      then show ?thesis using neq by auto
    qed
    ultimately show ?thesis using body [of ?m] False by (simp add: swap_characters_def Let_def)
  qed
qed

definition search_ok :: "nat list \<Rightarrow> shell \<Rightarrow> bool" where
  "search_ok as st \<longleftrightarrow> shell_ok as st \<and> line_ok (hist_pattern (history st)) \<and> line_ok (hist_match (history st))"

lemma search_ok_fields [simp]:
  "search_ok as (print ts st) = search_ok as st"
  "search_ok as (st\<lparr>carriage_return_received := b\<rparr>) = search_ok as st"
  by (simp_all add: search_ok_def)

lemma search_ok_shell: "search_ok as st \<Longrightarrow> shell_ok as st"
  by (simp add: search_ok_def)

lemma set_history_ok:
  assumes "shell_ok as st" and "line_ok p" and "line_ok m"
  shows "search_ok as (st\<lparr>history := (history st)\<lparr>hist_pattern := p, hist_match := m\<rparr>\<rparr>)"
  using assms by (simp add: search_ok_def shell_ok_def line_ok_buf)

lemma set_pattern_ok:
  assumes "search_ok as st" and "line_ok p"
  shows "search_ok as (st\<lparr>history := (history st)\<lparr>hist_pattern := p\<rparr>\<rparr>)"
  using assms by (simp add: search_ok_def shell_ok_def line_ok_buf)

lemma set_match_ok:
  assumes "search_ok as st" and "line_ok m"
  shows "search_ok as (st\<lparr>history := (history st)\<lparr>hist_match := m\<rparr>\<rparr>)"
  using assms by (simp add: search_ok_def shell_ok_def line_ok_buf)

lemma find_mem: "find P xs = Some b \<Longrightarrow> b \<in> set xs"
  by (induction xs) (auto split: if_splits)

lemma show_match_safe:
  assumes "search_ok as st"
  shows "safe (search_ok as) (show_match st)"
proof -
  let ?h = "history st"
  note ok = shell_okD [OF search_ok_shell [OF assms]]
  let ?r = "find (\<lambda>c. strstr c (line_get_buf (hist_pattern ?h))) (rev (commands_of ?h as))"
  have r: "history_reverse_search ?h (line_get_buf (hist_pattern ?h)) = Inr ?r"
    by (rule reverse_search_ok [OF ok(3)])
  have "NUL \<notin> set b" if "?r = Some b" for b
    using find_mem [OF that] ok(4) by simp
  then have "safe line_ok (case ?r of None \<Rightarrow> Inr m | Some b \<Rightarrow> line_insert_string m b)" if "line_ok m" for m
    using that insert_string_safe by (auto split: option.splits)
  then show ?thesis
    unfolding show_match_def Let_def r andthen_simps
    by (auto intro!: safe_andthen [OF init_safe [OF ok(6)]] safe_andthen [where P = line_ok]
        simp: set_match_ok [OF assms])
qed

lemma search_step_safe:
  assumes "search_ok as st"
  shows "safe (search_ok as) (search_backspace st)"
    and "ch \<noteq> NUL \<Longrightarrow> safe (search_ok as) (search_insert ch st)"
proof -
  have p: "line_ok (hist_pattern (history st))" using assms by (simp add: search_ok_def)
  show "safe (search_ok as) (search_backspace st)"
  proof (cases "line_is_empty (hist_pattern (history st))")
    case False
    let ?st = "print [Cursor_left 1, Erase_to_end, Out [CHR 0x27, CHR '':'', SPACE]] st"
    have "safe (search_ok as) (show_match (?st\<lparr>history := (history ?st)\<lparr>hist_pattern := q\<rparr>\<rparr>))" if "line_ok q" for q
      by (rule show_match_safe, rule set_pattern_ok) (use assms that in simp_all)
    then show ?thesis
      unfolding search_backspace_def Let_def using False
      by (simp only: if_True simp_thms) (rule safe_andthen [OF delete_safe [OF seek_ok(1) [OF p]]])
  qed (use assms in \<open>simp add: search_backspace_def\<close>)
  show "safe (search_ok as) (search_insert ch st)" if "ch \<noteq> NUL"
    unfolding search_insert_def Let_def
    by (rule safe_andthen [OF insert_safe [OF p that]])
       (auto intro!: show_match_safe simp: set_pattern_ok [OF assms])
qed

lemma shell_ok_stdin: "shell_ok as st \<Longrightarrow> NUL \<notin> set keys \<Longrightarrow> shell_ok as (st\<lparr>stdin := keys\<rparr>)"
  by (simp add: shell_ok_def)

lemma search_done_safe:
  assumes "search_ok as st"
  shows "safe (shell_ok as) (search_done ch st)"
proof -
  let ?st = "(restore_previous_line st)\<lparr>line := hist_match (history st)\<rparr>"
  have ok: "shell_ok as ?st" using assms by (simp add: search_ok_def)
  have "safe (shell_ok as) (andthen (xgetc ?st) (\<lambda>(ch, st).
      if ch \<noteq> CHR ''d'' then andthen (xgetc st) (\<lambda>(_, st). Inr st) else Inr st))"
    by (rule safe_andthen [OF xgetc_safe [OF ok]]) (auto intro!: safe_andthen [OF xgetc_safe])
  then show ?thesis using ok by (simp add: search_done_def Let_def)
qed

lemma ctrl_r_loop_safe:
  "search_ok as st \<Longrightarrow> NUL \<notin> set keys \<Longrightarrow> safe (shell_ok as) (ctrl_r_loop keys st)"
proof (induction keys arbitrary: st)
  case (Cons ch keys)
  have next_key: "safe (shell_ok as) (andthen m (\<lambda>st. ctrl_r_loop keys st))" if "safe (search_ok as) m" for m
    using that Cons.IH Cons.prems(2) by (auto intro: safe_andthen)
  have ok: "shell_ok as (st\<lparr>stdin := keys\<rparr>)" "search_ok as (st\<lparr>stdin := keys\<rparr>)"
    using Cons.prems by (auto simp: search_ok_def intro: shell_ok_stdin)
  have nul: "ch \<noteq> NUL" using Cons.prems(2) by auto
  have "shell_ok as ((restore_previous_line st)\<lparr>stdin := keys\<rparr>)"
    using Cons.prems by (simp add: search_ok_def shell_ok_stdin)
  moreover have "safe (shell_ok as) (ctrl_r_loop keys (st\<lparr>carriage_return_received := True\<rparr>))"
    using Cons.IH Cons.prems by simp
  ultimately show ?case
    using next_key [OF search_step_safe(1) [OF Cons.prems(1)]] next_key [OF search_step_safe(2) [OF Cons.prems(1) nul]]
      search_done_safe [OF ok(2), of ch]
    by (simp del: safe_simps(2))
qed simp

lemma ctrl_r_safe:
  assumes "shell_ok as st"
  shows "safe (shell_ok as) (handle_ctrl_r st)"
proof -
  note ok = shell_okD [OF assms]
  have start: "safe (shell_ok as) (ctrl_r_loop (stdin s) s)" if "search_ok as s" for s
    using ctrl_r_loop_safe [OF that] shell_okD(8) [OF search_ok_shell [OF that]] by blast
  show ?thesis
    unfolding handle_ctrl_r_def Let_def
    by (rule safe_andthen [OF init_safe [OF ok(5)]], rule safe_andthen [OF init_safe [OF ok(6)]], rule start)
       (simp add: set_history_ok [OF assms])
qed

lemma recall_safe:
  assumes "shell_ok as st" and "\<And>b. buf_p = Some b \<Longrightarrow> NUL \<notin> set b"
  shows "safe (shell_ok as) (recall buf_p st)"
proof (cases buf_p)
  case (Some b)
  have "safe line_ok (andthen (line_init l) (\<lambda>l. line_insert_string l b))" if "line_ok l" for l
    by (rule safe_andthen [OF init_safe [OF line_ok_buf [OF that]]])
       (use insert_string_safe assms(2) [OF Some] in blast)
  then show ?thesis using on_line_safe [OF assms(1)] Some by (simp add: recall_def)
qed (use assms in \<open>simp add: recall_def\<close>)

lemma set_history_state:
  assumes "shell_ok as st" and "hist_inv h as" and "commands_of h as = commands_of (history st) as"
    and "hist_pattern h = hist_pattern (history st)" and "hist_match h = hist_match (history st)"
  shows "shell_ok as (st\<lparr>history := h\<rparr>)"
  using assms by (simp add: shell_ok_def)

lemma previous_safe:
  assumes "shell_ok as st"
  shows "safe (\<lambda>(b, h). shell_ok as (st\<lparr>history := h\<rparr>) \<and> (\<forall>s. b = Some s \<longrightarrow> NUL \<notin> set s))
    (history_get_previous_command (history st) (line st))"
proof -
  note ok = shell_okD [OF assms]
  let ?p = "hist_pos (history st) as"
  let ?h = "if ?p = length as then (history st)\<lparr>hist_line := line st, line_valid := True\<rparr> else history st"
  have p: "?p - 1 < length as" if "?p \<noteq> 0" using that hist_pos_le [OF ok(2)] by simp
  then have "shell_ok as (st\<lparr>history := ?h\<lparr>current_p := Some (as ! (?p - 1))\<rparr>\<rparr>)" if "?p \<noteq> 0"
    using hist_inv_at [OF ok(3), of ?h "?p - 1"] that by (intro set_history_state [OF assms]) simp_all
  moreover have "NUL \<notin> set (commands_of (history st) as ! (?p - 1))" if "?p \<noteq> 0"
    using ok(4) p [OF that] by simp
  ultimately show ?thesis using previous_ok [OF ok(2), of "line st"] assms by simp
qed

lemma next_safe:
  assumes "shell_ok as st"
  shows "safe (\<lambda>(b, h). shell_ok as (st\<lparr>history := h\<rparr>) \<and> (\<forall>s. b = Some s \<longrightarrow> NUL \<notin> set s))
    (history_get_next_command (history st))"
proof -
  note ok = shell_okD [OF assms]
  let ?p = "hist_pos (history st) as"
  have "shell_ok as (st\<lparr>history := (history st)\<lparr>current_p := Some (as ! Suc ?p)\<rparr>\<rparr>)" if "Suc ?p < length as"
    using hist_inv_at [OF ok(3), of "history st" "Suc ?p"] that by (intro set_history_state [OF assms]) simp_all
  moreover have "NUL \<notin> set (commands_of (history st) as ! Suc ?p)" if "Suc ?p < length as"
    using ok(4) that by simp
  moreover have "shell_ok as (st\<lparr>history := (history st)\<lparr>current_p := None\<rparr>\<rparr>)"
      "shell_ok as (st\<lparr>history := (history st)\<lparr>current_p := None, line_valid := False\<rparr>\<rparr>)"
    using hist_inv_reset [OF ok(3)] hist_list_frame [OF ok(3), of "(history st)\<lparr>current_p := None, line_valid := False\<rparr>"]
    by (intro set_history_state [OF assms]; simp add: hist_inv_def)+
  ultimately show ?thesis using next_ok [OF ok(2)] by (simp add: line_get_buf_def)
qed

lemma arrow_safe:
  assumes "shell_ok as st"
  shows "safe (shell_ok as) (handle_arrow ch st)"
proof -
  have "safe (shell_ok as) (andthen (history_get_previous_command (history st) (line st))
      (\<lambda>(b, h). recall b (st\<lparr>history := h\<rparr>)))"
    by (rule safe_andthen [OF previous_safe [OF assms]]) (auto intro: recall_safe)
  moreover have "safe (shell_ok as) (andthen (history_get_next_command (history st))
      (\<lambda>(b, h). recall b (st\<lparr>history := h\<rparr>)))"
    by (rule safe_andthen [OF next_safe [OF assms]]) (auto intro: recall_safe)
  ultimately show ?thesis
    using assms seek_ok [OF shell_okD(1) [OF assms]] by (simp add: handle_arrow_def)
qed

lemma alt_safe:
  assumes "shell_ok as st"
  shows "safe (shell_ok as) (handle_alt st)"
  unfolding handle_alt_def
proof (rule safe_andthen [OF xgetc_safe [OF assms]])
  fix x
  assume "case x of (c, st') \<Rightarrow> shell_ok as st' \<and> c \<noteq> NUL"
  then obtain c s where x: "x = (c, s)" and ok: "shell_ok as s" by (cases x) auto
  have "safe (shell_ok as) (andthen (xgetc s) (\<lambda>(ch, st).
      if ch = CHR ''H'' then Inr (st\<lparr>line := line_seek_begin (line st)\<rparr>)
      else if ch = CHR ''F'' then Inr (st\<lparr>line := line_seek_end (line st)\<rparr>) else Inr st))"
    by (rule safe_andthen [OF xgetc_safe [OF ok]]) (auto simp: seek_ends_ok shell_okD(1))
  moreover have "safe (shell_ok as) (andthen (xgetc s) (\<lambda>(ch, st). handle_arrow ch st))"
    by (rule safe_andthen [OF xgetc_safe [OF ok]]) (auto intro: arrow_safe)
  moreover have "safe (shell_ok as) (on_line delete_word s)"
    by (rule on_line_safe [OF ok delete_word_safe])
  ultimately show "safe (shell_ok as) (case x of (ch, st) \<Rightarrow>
      if ch = CHR ''d'' then on_line delete_word st
      else if ch = CHR ''O''
      then andthen (xgetc st) (\<lambda>(ch, st).
             if ch = CHR ''H'' then Inr (st\<lparr>line := line_seek_begin (line st)\<rparr>)
             else if ch = CHR ''F'' then Inr (st\<lparr>line := line_seek_end (line st)\<rparr>)
             else Inr st)
      else if ch = CHR ''['' then andthen (xgetc st) (\<lambda>(ch, st). handle_arrow ch st)
      else Inr st)"
    using x ok by simp
qed

lemma handle_key_safe:
  assumes "shell_ok as st" and "ch \<noteq> NUL"
  shows "safe (shell_ok as) (handle_key ch st)"
proof -
  have "safe line_ok (andthen (line_insert l ch) (\<lambda>(_, l). Inr l))" if "line_ok l" for l
    by (rule safe_andthen [OF insert_safe [OF that assms(2)]]) auto
  then have "safe (shell_ok as) (handle_other ch st)"
    unfolding handle_other_def by (rule on_line_safe [OF assms(1)])
  moreover have "safe (shell_ok as) (on_line line_delete st)" "safe (shell_ok as) (on_line line_truncate st)"
      "safe (shell_ok as) (on_line swap_characters st)"
    using on_line_safe [OF assms(1)] delete_safe truncate_safe swap_safe by blast+
  moreover note completion_safe [OF assms(1)] backspace_safe [OF assms(1)] ctrl_r_safe [OF assms(1)]
    alt_safe [OF assms(1)] seek_ends_ok [OF shell_okD(1) [OF assms(1)]]
  ultimately show ?thesis
    using assms(1)
    by (simp add: handle_key_def handle_tab_def handle_carrige_return_def handle_newline_def
        handle_ctrl_a_def handle_ctrl_e_def handle_ctrl_d_def handle_ctrl_k_def handle_ctrl_t_def)
qed

lemma append_list_ok:
  assumes "shell_ok as st" and "NUL \<notin> set c"
  shows "safe (\<lambda>h. \<exists>as'. shell_ok as' (st\<lparr>history := history_reset_current h\<rparr>)) (history_append (history st) c)"
proof -
  note ok = shell_okD [OF assms(1)]
  obtain h as' n where h: "history_append (history st) c = Inr h" "hist_list h as'"
      "commands_of h as' = drop n (commands_of (history st) as)
       \<or> commands_of h as' = drop n (commands_of (history st) as) @ [c]"
      "hist_pattern h = hist_pattern (history st)" "hist_match h = hist_match (history st)"
    using history_append_ok [OF ok(3), of c] by blast
  have "\<forall>d\<in>set (commands_of h as'). NUL \<notin> set d"
    using h(3) ok(4) assms(2) by (auto dest!: in_set_dropD)
  then have "shell_ok as' (st\<lparr>history := history_reset_current h\<rparr>)"
    using assms(1) hist_inv_reset [OF h(2)] h(4,5) by (simp add: shell_ok_def history_reset_current_def)
  then show ?thesis using h(1) by auto
qed

lemma execute_line_safe:
  assumes "shell_ok as st"
  shows "safe (\<lambda>(n, st'). n = length (line_text (line st')) \<and> line st' = line st
      \<and> stdin st' = stdin st \<and> (\<exists>as'. shell_ok as' st')) (execute_line st)"
proof -
  define s where "s = print [Out newline]
    (if carriage_return_received st then print [Out [CARRIAGE_RETURN]] st else st)"
  have s: "shell_ok as s" "line s = line st" "stdin s = stdin st" using assms by (simp_all add: s_def)
  have n: "line_get_length (line s) = length (line_text (line s))"
    using line_eqI_shown line_okD(1) [OF shell_okD(1) [OF s(1)]] by blast
  have same: "safe (\<lambda>h. \<exists>as'. shell_ok as' (s\<lparr>history := history_reset_current h\<rparr>)) (Inr (history s))"
    using hist_inv_reset [OF shell_okD(3) [OF s(1)]] s(1)
    by (auto simp: shell_ok_def history_reset_current_def)
  have "safe (\<lambda>h. \<exists>as'. shell_ok as' (s\<lparr>history := history_reset_current h\<rparr>))
      (if \<not> line_is_empty (line s) then history_append (history s) (line_get_buf (line s)) else Inr (history s))"
    using append_list_ok [OF s(1), of "line_get_buf (line s)"] same by (simp add: line_get_buf_def)
  then show ?thesis
    unfolding execute_line_def Let_def s_def [symmetric]
    by (rule safe_andthen) (use s n in auto)
qed

lemma read_loop_safe:
  "shell_ok as st \<Longrightarrow>
   safe (\<lambda>(n, st'). n = length (line_text (line st')) \<and> length (stdin st') < length (stdin st)
      \<and> (\<exists>as'. shell_ok as' st')) (read_loop st)"
proof (induction st rule: read_loop.induct)
  case (1 st)
  show ?case
  proof (cases "stdin st")
    case Nil
    then show ?thesis by (simp add: read_loop.simps [of st] xgetc_def)
  next
    case (Cons ch cs)
    let ?s = "st\<lparr>stdin := cs\<rparr>"
    have x: "xgetc st = Inr (ch, ?s)" using Cons by (simp add: xgetc_def)
    have ok: "shell_ok as (?s\<lparr>prev_line := line ?s\<rparr>)" "ch \<noteq> NUL"
      using 1(2) Cons by (auto simp: shell_ok_def)
    show ?thesis
    proof (cases "handle_key ch (?s\<lparr>prev_line := line ?s\<rparr>)")
      case (Inl e)
      then show ?thesis using handle_key_safe [OF ok] by (simp add: read_loop.simps [of st] x)
    next
      case (Inr s2)
      have h: "handle_key ch (st\<lparr>stdin := cs, prev_line := line st\<rparr>) = Inr s2" using Inr by simp
      have ok2: "shell_ok as (show_line s2)" using handle_key_safe [OF ok] Inr by simp
      have len: "length (stdin s2) < length (stdin st)"
        using handle_key_stdin [OF Inr] Cons by simp
      show ?thesis
      proof (cases "newline_received s2")
        case True
        then have "read_loop st = execute_line (show_line s2)"
          by (simp add: read_loop.simps [of st] x h)
        moreover have "length (stdin (show_line s2)) < length (stdin st)" using len by simp
        ultimately show ?thesis
          using safe_mono [OF execute_line_safe [OF ok2]] by fastforce
      next
        case False
        then have r: "read_loop st = read_loop (show_line s2)"
          by (simp add: read_loop.simps [of st] x h)
        show ?thesis
          unfolding r using 1(1) [OF x refl Inr refl _ ok2] False len
          by (auto elim!: safe_mono)
      qed
    qed
  qed
qed

end
