(* ===== verification/Ml_Shell_Screen.thy ===== *)
theory Ml_Shell_Screen
  imports Ml_Shell_Edit
begin

text \<open>
  What the user sees: a terminal row that understands what the shell prints, and the theorem on
  \<open>show_line\<close> (\<open>src/src/ml_shell.c\<close>), which prints only the difference between the line before
  and after a key. The row begins behind the prompt and is taken to be long enough for the line.
\<close>

section \<open>A terminal row\<close>

text \<open>
  The cells from the prompt on and the column of the cursor. A backspace goes one column left, any
  other character is written; the parameter 0 of a cursor movement counts as 1.
\<close>

record screen =
  cells :: "nat \<Rightarrow> char"
  col :: nat

definition put_char :: "screen \<Rightarrow> char \<Rightarrow> screen" where
  "put_char scr c =
     (if c = BACKSPACE then scr\<lparr>col := col scr - 1\<rparr>
      else \<lparr>cells = (cells scr)(col scr := c), col = col scr + 1\<rparr>)"

fun display :: "screen \<Rightarrow> term_out \<Rightarrow> screen" where
  "display scr (Out s) = foldl put_char scr s"
| "display scr (Cursor_left n) = scr\<lparr>col := col scr - max 1 n\<rparr>"
| "display scr (Cursor_right n) = scr\<lparr>col := col scr + max 1 n\<rparr>"
| "display scr Erase_to_end = scr\<lparr>cells := (\<lambda>i. if col scr \<le> i then SPACE else cells scr i)\<rparr>"

definition shows_text :: "screen \<Rightarrow> string \<Rightarrow> nat \<Rightarrow> bool" where
  "shows_text scr t c \<longleftrightarrow> cells scr = (\<lambda>i. if i < length t then t ! i else SPACE) \<and> col scr = c"

text \<open>
  The case the code gets wrong: the line became a prefix of itself with the cursor at its end, while
  the cursor was further left. The spaces that should move the cursor to the end overwrite the text.
\<close>

definition overwrites :: "line_t \<Rightarrow> line_t \<Rightarrow> bool" where
  "overwrites old new \<longleftrightarrow> line_length new < line_length old \<and> behind new = []
     \<and> take (line_length new) (line_text old) = line_text new \<and> cursor old < line_length new"

section \<open>Lemmas\<close>

lemma screen_eqI: "cells a = cells b \<Longrightarrow> col a = col b \<Longrightarrow> a = (b :: screen)"
  by simp

lemma put_string:
  "BACKSPACE \<notin> set s \<Longrightarrow> foldl put_char scr s =
     \<lparr>cells = (\<lambda>i. if col scr \<le> i \<and> i < col scr + length s then s ! (i - col scr) else cells scr i),
      col = col scr + length s\<rparr>"
proof (induction s arbitrary: scr)
  case (Cons c s)
  then have c: "c \<noteq> BACKSPACE" "BACKSPACE \<notin> set s" by auto
  show ?case
    using Cons.IH [OF c(2), of "put_char scr c"] c(1)
    by (auto simp: put_char_def fun_eq_iff nth_Cons' not_le)
qed (auto intro!: screen_eqI simp: fun_eq_iff)

lemma put_spaces:
  "foldl display scr (replicate n (Out [SPACE])) =
     \<lparr>cells = (\<lambda>i. if col scr \<le> i \<and> i < col scr + n then SPACE else cells scr i), col = col scr + n\<rparr>"
  by (induction n arbitrary: scr) (auto simp: put_char_def fun_eq_iff not_le intro!: screen_eqI)

lemma rub_out:
  "n \<le> col scr \<Longrightarrow> foldl display scr (replicate n (Out [BACKSPACE, SPACE, BACKSPACE])) =
     \<lparr>cells = (\<lambda>i. if col scr - n \<le> i \<and> i < col scr then SPACE else cells scr i), col = col scr - n\<rparr>"
proof (induction n arbitrary: scr)
  case (Suc n)
  let ?s = "display scr (Out [BACKSPACE, SPACE, BACKSPACE])"
  have s: "?s = \<lparr>cells = (cells scr)(col scr - 1 := SPACE), col = col scr - 1\<rparr>"
    by (simp add: put_char_def)
  have "foldl display ?s (replicate n (Out [BACKSPACE, SPACE, BACKSPACE])) =
      \<lparr>cells = (\<lambda>i. if col ?s - n \<le> i \<and> i < col ?s then SPACE else cells ?s i), col = col ?s - n\<rparr>"
    by (rule Suc.IH) (use Suc.prems s in simp)
  then show ?case
    using Suc.prems unfolding replicate_Suc foldl_Cons s by (auto simp: fun_eq_iff)
qed (auto intro!: screen_eqI simp: fun_eq_iff)

lemma print_stdout: "stdout (print ts st) = stdout st @ ts" "stdout st = stdout st @ []"
  by simp_all

text \<open>What \<open>show_line\<close> prints, over the texts and cursors of the two lines.\<close>

definition line_update :: "string \<Rightarrow> nat \<Rightarrow> string \<Rightarrow> nat \<Rightarrow> term_out list" where
  "line_update old c new c' =
     (if new \<noteq> old
      then if take (min (length old) (length new)) new = take (min (length old) (length new)) old \<and> c' = length new
           then if length old < length new then [Out (drop c new)]
                else replicate (length old - c) (Out [SPACE])
                  @ replicate (length old - length new) (Out [BACKSPACE, SPACE, BACKSPACE])
           else (if c > 0 then [Cursor_left c] else []) @ [Erase_to_end, Out new]
             @ (if c' < length new then [Cursor_left (length new - c')] else [])
      else if c < c' then [Cursor_right (c' - c)]
      else if c' < c then [Cursor_left (c - c')]
      else [])"

lemma show_line_prints:
  assumes "line_ok (line st)" and "line_ok (prev_line st)"
  shows "stdout (show_line st) = stdout st @ line_update (line_text (prev_line st)) (cursor (prev_line st))
      (line_text (line st)) (cursor (line st))"
proof -
  have l: "line_get_buf (line st) = line_text (line st)" "line_get_length (line st) = length (line_text (line st))"
      "line_get_buf (prev_line st) = line_text (prev_line st)"
      "line_get_length (prev_line st) = length (line_text (prev_line st))"
    using assms get_buf_ok line_eqI_shown line_okD(1) by blast+
  show ?thesis
    unfolding show_line_def Let_def l strcmp_zero strncmp_zero line_get_cursor_def line_update_def
    by (simp del: length_line_text)
qed

lemma shows_textD:
  "shows_text scr t c \<Longrightarrow> cells scr i = (if i < length t then t ! i else SPACE)"
  "shows_text scr t c \<Longrightarrow> col scr = c"
  by (simp_all add: shows_text_def)

lemma update_append:
  assumes "shows_text scr old c" and "c \<le> length old" and "BACKSPACE \<notin> set new"
    and "take (length old) new = old" and "length old < length new"
  shows "shows_text (foldl display scr [Out (drop c new)]) new (length new)"
proof -
  have nb: "BACKSPACE \<notin> set (drop c new)" using assms(3) by (auto dest!: in_set_dropD)
  have same: "new ! i = old ! i" if "i < length old" for i using that assms(4) by (metis nth_take)
  show ?thesis
    using put_string [OF nb, of scr] shows_textD [OF assms(1)] assms(2,5) same
    by (simp add: shows_text_def fun_eq_iff)
qed

lemma update_shrink:
  assumes "shows_text scr old c" and "c \<le> length old"
    and "take (length new) old = new" and "length new < length old"
  shows "foldl display scr (replicate (length old - c) (Out [SPACE])
      @ replicate (length old - length new) (Out [BACKSPACE, SPACE, BACKSPACE]))
    = \<lparr>cells = (\<lambda>i. if min c (length new) \<le> i then SPACE else new ! i), col = length new\<rparr>"
proof -
  have same: "old ! i = new ! i" if "i < length new" for i using that assms(3) by (metis nth_take)
  let ?s = "foldl display scr (replicate (length old - c) (Out [SPACE]))"
  have s: "?s = \<lparr>cells = (\<lambda>i. if c \<le> i \<and> i < length old then SPACE else cells scr i), col = length old\<rparr>"
    using put_spaces [of scr "length old - c"] shows_textD(2) [OF assms(1)] assms(2) by simp
  have "foldl display ?s (replicate (length old - length new) (Out [BACKSPACE, SPACE, BACKSPACE]))
      = \<lparr>cells = (\<lambda>i. if length new \<le> i \<and> i < length old then SPACE else cells ?s i), col = length new\<rparr>"
    using rub_out [of "length old - length new" ?s] assms(4) unfolding s by simp
  then show ?thesis
    unfolding foldl_append s using shows_textD(1) [OF assms(1)] assms(4) same by (auto simp: fun_eq_iff)
qed

lemma update_rewrite:
  assumes "shows_text scr old c" and "c' \<le> length new" and "BACKSPACE \<notin> set new"
  shows "shows_text (foldl display scr ((if c > 0 then [Cursor_left c] else []) @ [Erase_to_end, Out new]
      @ (if c' < length new then [Cursor_left (length new - c')] else []))) new c'"
proof -
  define s where "s = foldl display scr (if c > 0 then [Cursor_left c] else [])"
  have s: "col s = 0" using shows_textD(2) [OF assms(1)] by (simp add: s_def)
  have t: "foldl put_char (display s Erase_to_end) new
      = \<lparr>cells = (\<lambda>i. if i < length new then new ! i else SPACE), col = length new\<rparr>"
    using put_string [OF assms(3), of "display s Erase_to_end"] s by (simp add: fun_eq_iff)
  show ?thesis
    unfolding foldl_append s_def [symmetric] foldl_Cons foldl_Nil
    using assms(2) t by (auto simp: shows_text_def max_def)
qed

lemma update_shows:
  assumes "shows_text scr old c" and "c \<le> length old" and "c' \<le> length new" and "BACKSPACE \<notin> set new"
  shows "if length new < length old \<and> take (length new) old = new \<and> c' = length new \<and> c < length new
    then cells (foldl display scr (line_update old c new c')) c = SPACE
    else shows_text (foldl display scr (line_update old c new c')) new c'"
proof -
  let ?pre = "take (min (length old) (length new)) new = take (min (length old) (length new)) old \<and> c' = length new"
  consider "new = old" | "new \<noteq> old" "?pre" "length old < length new"
    | "new \<noteq> old" "?pre" "\<not> length old < length new" | "new \<noteq> old" "\<not> ?pre" by blast
  then show ?thesis
  proof cases
    case 1
    then show ?thesis using assms(1,2,3) by (auto simp: line_update_def shows_text_def max_def)
  next
    case 2
    have m: "min (length old) (length new) = length old" using 2(3) by simp
    have "take (length old) new = take (length old) old" using 2(2) unfolding m by blast
    then have pre: "take (length old) new = old" by simp
    have "line_update old c new c' = [Out (drop c new)]" "c' = length new"
      using 2 by (simp_all only: line_update_def if_True if_False simp_thms)
    then show ?thesis using update_append [OF assms(1,2,4) pre 2(3)] 2(3) by simp
  next
    case 3
    have m: "min (length old) (length new) = length new" using 3(3) by simp
    have "take (length new) new = take (length new) old" using 3(2) unfolding m by blast
    then have pre: "take (length new) old = new" by (metis order_refl take_all)
    have at_end: "c' = length new" using 3(2) by blast
    have len: "length new < length old"
    proof (rule ccontr)
      assume "\<not> length new < length old"
      then have "take (length new) old = old" by simp
      then show False using pre 3(1) by metis
    qed
    have "line_update old c new c' = replicate (length old - c) (Out [SPACE])
        @ replicate (length old - length new) (Out [BACKSPACE, SPACE, BACKSPACE])"
      using 3 by (simp only: line_update_def if_True if_False simp_thms)
    then have u: "foldl display scr (line_update old c new c')
        = \<lparr>cells = (\<lambda>i. if min c (length new) \<le> i then SPACE else new ! i), col = length new\<rparr>"
      using update_shrink [OF assms(1,2) pre len] by (simp only:)
    show ?thesis
    proof (cases "c < length new")
      case True
      then show ?thesis unfolding u using len pre at_end by simp
    next
      case False
      then show ?thesis unfolding u by (simp add: at_end shows_text_def fun_eq_iff min_def)
    qed
  next
    case 4
    then have "line_update old c new c' = (if c > 0 then [Cursor_left c] else []) @ [Erase_to_end, Out new]
        @ (if c' < length new then [Cursor_left (length new - c')] else [])"
      by (simp only: line_update_def if_False if_True simp_thms)
    moreover have "\<not> (length new < length old \<and> take (length new) old = new \<and> c' = length new \<and> c < length new)"
    proof
      assume "length new < length old \<and> take (length new) old = new \<and> c' = length new \<and> c < length new"
      then have "min (length old) (length new) = length new" "take (length new) new = take (length new) old"
        by (simp, metis order_refl take_all)
      then show False using 4(2) \<open>length new < length old \<and> _\<close> by metis
    qed
    ultimately show ?thesis using update_rewrite [OF assms(1,3,4)] by (simp only: if_False)
  qed
qed

section \<open>Properties\<close>

text \<open>
  If the terminal shows the line before a key, then after \<open>show_line\<close> it shows the line after
  the key with the cursor in its place, except when the line became a proper prefix of itself with
  the cursor at the end while the cursor had been left of that end: then the cell at the old
  cursor is blank, whatever the line says.
\<close>

theorem show_line_repaints:
  assumes "line_ok (line st)" and "line_ok (prev_line st)" and "BACKSPACE \<notin> set (line_text (line st))"
    and "shows_text scr (line_text (prev_line st)) (cursor (prev_line st))"
  shows "\<exists>ts. stdout (show_line st) = stdout st @ ts
    \<and> (if overwrites (prev_line st) (line st)
       then cells (foldl display scr ts) (cursor (prev_line st)) = SPACE
       else shows_text (foldl display scr ts) (line_text (line st)) (cursor (line st)))"
proof -
  let ?l = "line st" and ?p = "prev_line st"
  have inv: "line_inv ?l" "line_inv ?p" using assms(1,2) by (simp_all add: line_ok_def)
  then have c: "cursor ?p \<le> length (line_text ?p)" "cursor ?l \<le> length (line_text ?l)"
    by (simp_all add: line_inv_def)
  have "overwrites ?p ?l \<longleftrightarrow> length (line_text ?l) < length (line_text ?p)
      \<and> take (length (line_text ?l)) (line_text ?p) = line_text ?l
      \<and> cursor ?l = length (line_text ?l) \<and> cursor ?p < length (line_text ?l)"
  proof -
    have "behind ?l = [] \<longleftrightarrow> cursor ?l = line_length ?l"
      using line_lengths(2) [OF inv(1)] inv(1) by (auto simp: line_inv_def simp flip: length_0_conv)
    then show ?thesis unfolding overwrites_def length_line_text [OF inv(1)] length_line_text [OF inv(2)] by blast
  qed
  then show ?thesis
    using update_shows [OF assms(4) c assms(3)] show_line_prints [OF assms(1,2)] by metis
qed

definition example_shell :: "string \<Rightarrow> string \<Rightarrow> shell" where
  "example_shell old new = \<lparr>line = typed_line new, prev_line = typed_line old,
     carriage_return_received = False, newline_received = False, history = example_history,
     commands = [], stdin = [], stdout = []\<rparr>"

lemma typed_line_ok:
  "length s < 256 \<Longrightarrow> NUL \<notin> set s \<Longrightarrow>
   line_ok (typed_line s) \<and> line_text (typed_line s) = s \<and> cursor (typed_line s) = length s
     \<and> behind (typed_line s) = []"
  by (simp add: typed_line_def line_ok_def line_inv_def line_text_def before_def behind_def COMMAND_MAX_def
      nth_append)

theorem show_line_repaints_witness:
  "\<exists>ts. stdout (show_line (example_shell ''ls'' ''l'')) = ts
    \<and> shows_text (foldl display \<lparr>cells = (\<lambda>i. if i < 2 then ''ls'' ! i else SPACE), col = 2\<rparr> ts) ''l'' 1"
proof -
  let ?scr = "\<lparr>cells = (\<lambda>i. if i < 2 then ''ls'' ! i else SPACE), col = 2\<rparr> :: screen"
  have l: "line_ok (typed_line ''l'') \<and> line_text (typed_line ''l'') = ''l'' \<and> cursor (typed_line ''l'') = length ''l''
      \<and> behind (typed_line ''l'') = []"
    and p: "line_ok (typed_line ''ls'') \<and> line_text (typed_line ''ls'') = ''ls''
      \<and> cursor (typed_line ''ls'') = length ''ls'' \<and> behind (typed_line ''ls'') = []"
    by (rule typed_line_ok; simp)+
  have "\<not> overwrites (typed_line ''ls'') (typed_line ''l'')"
    by (simp add: overwrites_def typed_line_def)
  moreover have "shows_text ?scr ''ls'' (length ''ls'')" by (simp add: shows_text_def fun_eq_iff)
  ultimately show ?thesis
    using show_line_repaints [of "example_shell ''ls'' ''l''" ?scr] l p by (simp add: example_shell_def)
qed

end
