(* ===== verification/Ml_Shell.thy ===== *)
theory Ml_Shell
  imports Ml_Shell_Edit
begin

text \<open>
  The shell as a whole (\<open>src/src/ml_shell.c\<close>): executing a command line, the loop of the shell
  thread, and starting it. What the commands do is a parameter: a callback, named by its number,
  maps the arguments and the state of the rest of the system to a result, the text it prints and the
  new state. The theorems give the line a sequence of keys produces, the safety of the whole
  loop on any input without zeros, and the way from typed arguments to the callback.
\<close>

section \<open>Executing a line\<close>

definition ml_shell_execute_command ::
  "(nat \<Rightarrow> string list \<Rightarrow> 'w \<Rightarrow> int \<times> string \<times> 'w) \<Rightarrow> command_t list \<Rightarrow> string \<Rightarrow> 'w \<Rightarrow> int \<times> string \<times> 'w" where
  "ml_shell_execute_command callbacks cmds cmdline w =
     (let (argc, argv) = parse_command cmdline
      in if argc < 1 then (- 1, [], w)
         else let name = hd argv
              in case find_command cmds name of
                   Some c \<Rightarrow> callbacks (cmd_callback c) argv w
                 | None \<Rightarrow> (- EINVAL, name @ '': command not found'' @ newline, w))"

section \<open>The shell thread\<close>

lemma execute_line_stdin: "execute_line st = Inr (n, st') \<Longrightarrow> stdin st' = stdin st"
  by (auto simp: execute_line_def Let_def andthen_eq_Inr)

lemma read_loop_stdin: "read_loop st = Inr (n, st') \<Longrightarrow> length (stdin st') < length (stdin st)"
proof (induction st arbitrary: n st' rule: read_loop.induct)
  case (1 st)
  obtain ch s1 where x: "xgetc st = Inr (ch, s1)"
    using 1(2) by (auto simp: read_loop.simps [of st] andthen_eq_Inr)
  obtain s2 where h: "handle_key ch (s1\<lparr>prev_line := line s1\<rparr>) = Inr s2"
    using 1(2) x by (auto simp: read_loop.simps [of st] andthen_eq_Inr)
  have len: "length (stdin s2) < length (stdin st)"
    using handle_key_stdin [OF h] x by (auto simp: xgetc_Inr)
  show ?case
  proof (cases "newline_received s2")
    case True
    then have "execute_line (show_line s2) = Inr (n, st')"
      using 1(2) x h by (simp add: read_loop.simps [of st])
    then show ?thesis using execute_line_stdin len by fastforce
  next
    case False
    then have "read_loop (show_line s2) = Inr (n, st')"
      using 1(2) x h by (simp add: read_loop.simps [of st])
    then show ?thesis using 1(1) [OF x refl h refl] False len by fastforce
  qed
qed

lemma read_command_stdin: "read_command st = Inr (n, st') \<Longrightarrow> length (stdin st') < length (stdin st)"
  by (auto simp: read_command_def andthen_eq_Inr dest: read_loop_stdin)

text \<open>What the loop prints for the result of a command.\<close>

definition result_text :: "(int \<Rightarrow> string) \<Rightarrow> int \<Rightarrow> string" where
  "result_text strerror res =
     (if res = 0 then ''OK'' @ newline
      else ''ERROR('' @ show_int res @ '': '' @ ml_strerror strerror (- res) @ '')'' @ newline)"

function shell_main ::
  "(nat \<Rightarrow> string list \<Rightarrow> 'w \<Rightarrow> int \<times> string \<times> 'w) \<Rightarrow> (int \<Rightarrow> string) \<Rightarrow> shell \<Rightarrow> 'w \<Rightarrow> (shell \<times> 'w) res" where
  "shell_main callbacks strerror st w =
     andthen (read_command st) (\<lambda>(res, st).
       if res > 0
       then let stripped = ml_strip (line_get_buf (line st)) None
            in if is_comment stripped then shell_main callbacks strerror (print_prompt st) w
               else if is_exit stripped then Inr (st, w)
               else let (r, out, w) = ml_shell_execute_command callbacks (commands st) stripped w
                    in shell_main callbacks strerror
                         (print_prompt (print [Out out, Out (result_text strerror r)] st)) w
       else shell_main callbacks strerror (print_prompt st) w)"
  by pat_completeness auto
termination
  by (relation "measure (\<lambda>(callbacks, strerror, st, w). length (stdin st))")
     (auto simp: print_prompt_def dest!: read_command_stdin)

declare shell_main.simps [simp del]

section \<open>Starting the shell\<close>

text \<open>The commands of the library, with their callbacks numbered in this order.\<close>

definition standard_commands :: "(string \<times> string) list" where
  "standard_commands =
    [(''help'', ''Print this help.''), (''history'', ''List command history.''), (''exit'', ''Shell exit.''),
     (''suicide'', ''Process suicide.''), (''ls'', ''List directory contents.''),
     (''ll'', ''List detailed directory contents.''), (''cat'', ''Print a file.''),
     (''rm'', ''Remove files and directories.''), (''hexdump'', ''Hexdump a file.''),
     (''reboot'', ''Reboot the system.''), (''halt'', ''Halt the system.''),
     (''poweroff'', ''Power off the system.''), (''insmod'', ''Insert a kernel module.''),
     (''rmmod'', ''Remove a kernel module.''), (''mkdir'', ''Create a directory.''),
     (''mknod'', ''Create a node.''), (''mount'', ''Mount a filesystem.''), (''umount'', ''Unmount a filesystem.''),
     (''df'', ''Disk space usage.''), (''find'', ''Find files and folders.''), (''date'', ''Print current date.''),
     (''print'', ''Print to file.''), (''dmesg'', ''Print the kernel ring buffer.''),
     (''sync'', ''Synchronize cached writes to persistent storage.''), (''top'', ''System status.''),
     (''ntp_sync'', ''NTP time sync.''), (''dd'', ''File copy.''), (''i2c'', ''I2C bus commands.''),
     (''log'', ''Log control.'')]"

definition ml_shell_register_command :: "(nat \<Rightarrow> bool) \<Rightarrow> string \<Rightarrow> string \<Rightarrow> nat \<Rightarrow> shell \<Rightarrow> shell res" where
  "ml_shell_register_command mem name description callback st =
     andthen (register_command mem (commands st) name description callback) (\<lambda>cmds.
       Inr (st\<lparr>commands := cmds\<rparr>))"

fun register_all :: "(nat \<Rightarrow> bool) \<Rightarrow> (string \<times> string) list \<Rightarrow> nat \<Rightarrow> shell \<Rightarrow> shell res" where
  "register_all mem [] i st = Inr st"
| "register_all mem ((name, description) # cs) i st =
     andthen (ml_shell_register_command mem name description i st) (\<lambda>st. register_all mem cs (i + 1) st)"

text \<open>\<open>mem n\<close> says whether memory for a table of \<open>n\<close> commands can be had; \<open>mem 0\<close> is the first \<open>xmalloc(1)\<close>.\<close>

definition ml_shell_init :: "(nat \<Rightarrow> bool) \<Rightarrow> shell \<Rightarrow> shell res" where
  "ml_shell_init mem st =
     (if \<not> mem 0 then Inl (Exit 1)
      else andthen (history_init (history st)) (\<lambda>h.
           register_all mem standard_commands 0 (st\<lparr>commands := [], history := h\<rparr>)))"

text \<open>The table is sorted, and the thread that is created runs \<open>shell_main\<close> on the result.\<close>

definition ml_shell_start :: "shell \<Rightarrow> shell res" where
  "ml_shell_start st =
     andthen (qsort_checked shell_compare_qsort (commands st)) (\<lambda>cmds. Inr (st\<lparr>commands := cmds\<rparr>))"

section \<open>The line a sequence of keys produces\<close>

text \<open>The keys that only edit the line, as functions of the text on the two sides of the cursor.\<close>

definition plain_key :: "char \<Rightarrow> bool" where
  "plain_key k \<longleftrightarrow> k \<notin> {TAB, CARRIAGE_RETURN, NEWLINE, CTRL_R, ALT, NUL}"

definition swap_around :: "string \<Rightarrow> string \<Rightarrow> string \<times> string" where
  "swap_around b r = (butlast b @ [hd r, last b], tl r)"

definition edit :: "string \<times> string \<Rightarrow> char \<Rightarrow> string \<times> string" where
  "edit e k = (case e of (b, r) \<Rightarrow>
     if k = DELETE \<or> k = BACKSPACE then (butlast b, r)
     else if k = CTRL_A then ([], b @ r)
     else if k = CTRL_E then (b @ r, [])
     else if k = CTRL_D then (b, tl r)
     else if k = CTRL_K then (b, [])
     else if k = CTRL_T
     then if b = [] \<or> length b + length r < 2 then (b, r)
          else if r = [] then swap_around (butlast b) [last b] else swap_around b r
     else if length b + length r < 255 then (b @ [k], r) else (b, r))"

definition typed :: "string \<Rightarrow> string" where
  "typed keys = (let (b, r) = foldl edit ([], []) keys in b @ r)"

section \<open>Keys edit the text around the cursor\<close>

definition around :: "line_t \<Rightarrow> string \<times> string" where
  "around l = (before l, behind l)"

lemma swap_characters_around:
  assumes "line_inv l"
  shows "\<exists>l'. swap_characters l = Inr l' \<and> line_inv l' \<and> around l' = edit (around l) CTRL_T"
proof -
  have body: "\<exists>l'. andthen (line_peek m) (\<lambda>ch. andthen (line_delete m) (\<lambda>l.
      let l = snd (line_seek l (- 1)) in andthen (line_insert l ch) (\<lambda>(_, l). Inr (snd (line_seek l 1))))) = Inr l'
      \<and> line_inv l' \<and> around l' = swap_around (before m) (behind m)"
    if m: "line_inv m" "before m \<noteq> []" "behind m \<noteq> []" for m
  proof -
    obtain b x y r where b: "before m = b @ [x]" "behind m = y # r"
      using m(2,3) by (cases "before m" rule: rev_cases; cases "behind m") auto
    have "line_peek m = Inr y" using peek_ok [OF m(1)] b(2) by simp
    then show ?thesis using shell_line.swap [OF m(1) b] b by (auto simp: Let_def around_def swap_around_def)
  qed
  have len: "length (before l) = cursor l" "length (before l) + length (behind l) = line_length l"
    using line_lengths [OF assms] assms by (auto simp: line_inv_def)
  show ?thesis
  proof (cases "before l = [] \<or> length (before l) + length (behind l) < 2")
    case True
    then have "swap_characters l = Inr l"
      using len by (auto simp: swap_characters_def Let_def line_get_cursor_def line_get_length_def)
    then show ?thesis using assms True by (auto simp: edit_def around_def)
  next
    case False
    then have "cursor l \<noteq> 0" using len(1) by (metis length_0_conv)
    then have go: "line_get_cursor l \<noteq> 0" "\<not> line_get_length l < 2"
      using len False by (simp_all add: line_get_cursor_def line_get_length_def)
    have end_iff: "line_get_cursor l = line_get_length l \<longleftrightarrow> behind l = []"
      using len by (auto simp: line_get_cursor_def line_get_length_def)
    show ?thesis
    proof (cases "behind l = []")
      case True
      obtain m where m: "line_seek l (- 1) = (True, m)" "line_inv m" "before m = butlast (before l)"
          "behind m = [last (before l)]"
        using shell_line.seek_left [OF assms] False True by auto
      have "before m \<noteq> []" using m(3) False True by (cases "before l" rule: rev_cases) auto
      then show ?thesis
        using body [OF m(2)] m go end_iff True False
        by (simp add: swap_characters_def edit_def around_def)
    next
      case ne: False
      then show ?thesis
        using body [OF assms] go end_iff False by (simp add: swap_characters_def edit_def around_def)
    qed
  qed
qed

lemma on_line_around:
  assumes "\<exists>l'. f (line st) = Inr l' \<and> line_inv l' \<and> around l' = e"
  shows "\<exists>l'. on_line f st = Inr (st\<lparr>line := l'\<rparr>) \<and> line_inv l' \<and> around l' = e"
  using assms by (auto simp: on_line_def)

lemma handle_plain_key:
  assumes "line_inv (line st)" and "plain_key k"
  shows "\<exists>l'. handle_key k st = Inr (st\<lparr>line := l'\<rparr>) \<and> line_inv l' \<and> around l' = edit (around (line st)) k"
proof -
  let ?l = "line st"
  consider (backspace) "k = DELETE \<or> k = BACKSPACE" | (a) "k = CTRL_A" | (e) "k = CTRL_E" | (d) "k = CTRL_D"
    | (k) "k = CTRL_K" | (t) "k = CTRL_T"
    | (other) "k \<notin> {DELETE, BACKSPACE, CTRL_A, CTRL_E, CTRL_D, CTRL_K, CTRL_T}"
    by blast
  then show ?thesis
  proof cases
    case backspace
    then have h: "handle_key k st = handle_backspace st" by (auto simp: handle_key_def)
    show ?thesis
    proof (cases "before ?l = []")
      case True
      then show ?thesis
        using h backspace shell_line.seek_left_edge [OF assms(1)] assms(1)
        by (intro exI [of _ ?l]) (auto simp: handle_backspace_def edit_def around_def)
    next
      case False
      then show ?thesis
        using h backspace shell_line.backspace [OF assms(1)]
        by (auto simp: handle_backspace_def on_line_def edit_def around_def)
    qed
  next
    case a
    then show ?thesis using line_seek_begin_ok [OF assms(1)]
      by (auto simp: handle_key_def handle_ctrl_a_def edit_def around_def line_text_def)
  next
    case e
    then show ?thesis using line_seek_end_ok [OF assms(1)]
      by (auto simp: handle_key_def handle_ctrl_e_def edit_def around_def line_text_def)
  next
    case d
    then have "\<exists>l'. line_delete ?l = Inr l' \<and> line_inv l' \<and> around l' = edit (around ?l) k"
      using shell_line.delete [OF assms(1)] by (auto simp: edit_def around_def)
    then show ?thesis using on_line_around d by (simp add: handle_key_def handle_ctrl_d_def)
  next
    case k
    then have "\<exists>l'. line_truncate ?l = Inr l' \<and> line_inv l' \<and> around l' = edit (around ?l) k"
      using line_truncate_ok [OF assms(1)] by (auto simp: edit_def around_def)
    then show ?thesis using on_line_around k by (simp add: handle_key_def handle_ctrl_k_def)
  next
    case t
    then show ?thesis using on_line_around [of swap_characters st] swap_characters_around [OF assms(1)]
      by (simp add: handle_key_def handle_ctrl_t_def)
  next
    case other
    then have h: "handle_key k st = handle_other k st" using assms(2) by (simp add: handle_key_def plain_key_def)
    have e: "edit (around ?l) k = (if length (before ?l) + length (behind ?l) < 255
        then (before ?l @ [k], behind ?l) else around ?l)"
      using other by (simp add: edit_def around_def)
    obtain ok l' where "line_insert ?l k = Inr (ok, l')" "line_inv l'" "around l' = edit (around ?l) k"
      using line_insert_cases [OF assms(1), of k] unfolding e by (auto simp: around_def)
    then show ?thesis unfolding h handle_other_def by (intro on_line_around) simp
  qed
qed

lemma read_loop_keys:
  assumes "shell_ok as st" and "stdin st = keys @ NEWLINE # rest" and "\<forall>k\<in>set keys. plain_key k"
    and "\<not> newline_received st"
  shows "\<exists>s. read_loop st = execute_line s \<and> shell_ok as s \<and> stdin s = rest \<and> history s = history st
    \<and> commands s = commands st \<and> around (line s) = foldl edit (around (line st)) keys"
  using assms
proof (induction keys arbitrary: st)
  case Nil
  let ?s = "show_line (st\<lparr>stdin := rest, prev_line := line st, newline_received := True\<rparr>)"
  have "read_loop st = execute_line ?s"
    using Nil.prems(2) by (simp add: read_loop.simps [of st] xgetc_def handle_key_def handle_newline_def)
  moreover have "shell_ok as ?s" using Nil.prems(1,2) by (auto simp: shell_ok_def)
  ultimately show ?case by (intro exI [of _ ?s]) simp
next
  case (Cons k keys)
  let ?s = "st\<lparr>stdin := keys @ NEWLINE # rest, prev_line := line st\<rparr>"
  have ok: "shell_ok as ?s" using Cons.prems(1,2) by (auto simp: shell_ok_def)
  have inv: "line_inv (line ?s)" by (rule line_okD(1) [OF shell_okD(1) [OF ok]])
  have k: "plain_key k" "k \<noteq> NUL" using Cons.prems(3) by (auto simp: plain_key_def)
  obtain l' where l': "handle_key k ?s = Inr (?s\<lparr>line := l'\<rparr>)" "around l' = edit (around (line st)) k"
    using handle_plain_key [OF inv k(1)] by auto
  let ?t = "show_line (?s\<lparr>line := l'\<rparr>)"
  have r: "read_loop st = read_loop ?t"
    using Cons.prems(2,4) l'(1) by (simp add: read_loop.simps [of st] xgetc_def)
  have "shell_ok as ?t" using handle_key_safe [OF ok k(2)] l'(1) by simp
  then show ?case
    unfolding r using Cons.IH [of ?t] Cons.prems(3,4) l'(2) by simp
qed

lemma read_command_start:
  assumes "shell_ok as st"
  shows "\<exists>l. line_init (line st) = Inr l \<and> around l = ([], [])
    \<and> shell_ok as (st\<lparr>line := l, carriage_return_received := False, newline_received := False\<rparr>)"
proof -
  have "safe (\<lambda>l'. line_ok l' \<and> before l' = [] \<and> behind l' = []) (line_init (line st))"
    by (rule init_safe [OF line_ok_buf [OF shell_okD(1) [OF assms]]])
  moreover obtain l where "line_init (line st) = Inr l"
    using line_init_ok [OF line_ok_buf [OF shell_okD(1) [OF assms]]] by blast
  ultimately show ?thesis using assms by (auto simp: around_def)
qed

lemma read_command_ok:
  assumes "shell_ok as st"
  shows "safe (\<lambda>(n, st'). n = length (line_text (line st')) \<and> (\<exists>as'. shell_ok as' st')) (read_command st)"
proof -
  obtain l where l: "line_init (line st) = Inr l"
      "shell_ok as (st\<lparr>line := l, carriage_return_received := False, newline_received := False\<rparr>)"
    using read_command_start [OF assms] by blast
  show ?thesis using safe_mono [OF read_loop_safe [OF l(2)]] l(1) by (fastforce simp: read_command_def)
qed

lemma execute_line_effect:
  assumes "shell_ok as s" and "\<forall>a. elem_malloc_ok (history s) a"
  shows "\<exists>st' as'. execute_line s = Inr (length (line_text (line s)), st') \<and> line st' = line s
    \<and> stdin st' = stdin s \<and> commands st' = commands s \<and> shell_ok as' st'
    \<and> commands_of (history st') as' =
        (if line_text (line s) = [] then commands_of (history s) as
         else remember (commands_of (history s) as) (line_text (line s)))"
proof -
  define s1 where "s1 = print [Out newline]
    (if carriage_return_received s then print [Out [CARRIAGE_RETURN]] s else s)"
  have s1: "shell_ok as s1" "line s1 = line s" "stdin s1 = stdin s" "commands s1 = commands s" "history s1 = history s"
    using assms(1) by (simp_all add: s1_def)
  note ok = shell_okD [OF s1(1)]
  let ?t = "line_text (line s)"
  have inv: "line_inv (line s)" and t: "line_get_buf (line s) = ?t" "NUL \<notin> set ?t"
    using ok(1) s1(2) by (auto simp: get_buf_ok line_ok_def)
  have n: "line_get_length (line s) = length ?t" using line_eqI_shown [OF inv] by simp
  have empty: "line_is_empty (line s) \<longleftrightarrow> ?t = []"
    using length_line_text [OF inv] by (metis line_is_empty_def length_0_conv)
  have run: "execute_line s = andthen (if \<not> line_is_empty (line s)
      then history_append (history s) ?t else Inr (history s)) (\<lambda>h.
      Inr (length ?t, s1\<lparr>history := history_reset_current h\<rparr>))"
    unfolding execute_line_def Let_def s1_def [symmetric] by (simp add: s1 t n)
  have goal: ?thesis if h: "(if \<not> line_is_empty (line s) then history_append (history s) ?t else Inr (history s)) = Inr h"
      "hist_list h bs" "hist_pattern h = hist_pattern (history s)" "hist_match h = hist_match (history s)"
      "commands_of h bs = (if ?t = [] then commands_of (history s) as else remember (commands_of (history s) as) ?t)"
    for h bs
  proof -
    have nul: "\<forall>c\<in>set (commands_of h bs). NUL \<notin> set c"
      using h(5) ok(4) t(2) s1(5) by (auto simp: remember_def dest!: in_set_dropD)
    have "hist_inv (history_reset_current h) bs \<and> commands_of (history_reset_current h) bs = commands_of h bs"
      using hist_inv_reset [OF h(2)] by (simp add: history_reset_current_def)
    then have "shell_ok bs (s1\<lparr>history := history_reset_current h\<rparr>)"
      using s1 nul h(3,4) by (simp add: shell_ok_def history_reset_current_def)
    then show ?thesis using run h(1,5) s1 \<open>hist_inv _ _ \<and> _\<close> by auto
  qed
  show ?thesis
  proof (cases "?t = []")
    case True
    then show ?thesis using goal [of "history s" as] empty ok(3) s1(5) by simp
  next
    case False
    obtain h bs where "history_append (history s) ?t = Inr h" "hist_list h bs"
        "commands_of h bs = remember (commands_of (history s) as) ?t"
        "hist_pattern h = hist_pattern (history s)" "hist_match h = hist_match (history s)"
      using history_append_ok [OF ok(3), of ?t] assms(2) s1(5) by auto
    then show ?thesis using goal [of h bs] empty False by simp
  qed
qed

lemma read_command_typed:
  assumes "shell_ok as st" and "stdin st = keys @ NEWLINE # rest" and "\<forall>k\<in>set keys. plain_key k"
    and "\<forall>a. elem_malloc_ok (history st) a"
  shows "\<exists>st' as'. read_command st = Inr (length (typed keys), st') \<and> line_text (line st') = typed keys
    \<and> stdin st' = rest \<and> commands st' = commands st \<and> shell_ok as' st'
    \<and> commands_of (history st') as' =
        (if typed keys = [] then commands_of (history st) as
         else remember (commands_of (history st) as) (typed keys))"
proof -
  obtain l where l: "line_init (line st) = Inr l" "around l = ([], [])"
      "shell_ok as (st\<lparr>line := l, carriage_return_received := False, newline_received := False\<rparr>)"
    using read_command_start [OF assms(1)] by blast
  let ?s0 = "st\<lparr>line := l, carriage_return_received := False, newline_received := False\<rparr>"
  obtain s where s: "read_loop ?s0 = execute_line s" "shell_ok as s" "stdin s = rest" "history s = history st"
      "commands s = commands st" "around (line s) = foldl edit ([], []) keys"
    using read_loop_keys [OF l(3), of keys rest] assms(2,3) l(2) by auto
  have "line_text (line s) = typed keys"
    using s(6) by (auto simp: typed_def around_def line_text_def split: prod.splits)
  then show ?thesis
    using execute_line_effect [OF s(2)] assms(4) s l(1) by (auto simp: read_command_def)
qed

section \<open>The loop of the shell\<close>

lemma shell_main_ok:
  "shell_ok as st \<Longrightarrow> safe (\<lambda>_. True) (shell_main callbacks strerror st w)"
proof (induction callbacks strerror st w arbitrary: as rule: shell_main.induct)
  case (1 callbacks strerror st w)
  show ?case
  proof (cases "read_command st")
    case (Inl e)
    then show ?thesis using read_command_ok [OF 1(4)] by (simp add: shell_main.simps [of _ _ st])
  next
    case (Inr r)
    then obtain n s where r: "read_command st = Inr (n, s)" by (cases r) auto
    then obtain as' where ok: "shell_ok as' s" using read_command_ok [OF 1(4)] by auto
    note IH = 1(1-3) [OF r refl]
    show ?thesis
      using IH ok unfolding shell_main.simps [of _ _ st] r andthen_simps Let_def
      by (auto split: prod.splits)
  qed
qed

lemma isprint_edit:
  assumes "isprint k"
  shows "plain_key k" and "edit (b, []) k = (if length b < 255 then (b @ [k], []) else (b, []))"
proof -
  have "\<not> isprint c" if "c \<in> {TAB, CARRIAGE_RETURN, NEWLINE, CTRL_R, ALT, NUL, DELETE, BACKSPACE, CTRL_A,
      CTRL_E, CTRL_D, CTRL_K, CTRL_T}" for c
    using that by (auto simp: isprint_def)
  then have ne: "k \<notin> {TAB, CARRIAGE_RETURN, NEWLINE, CTRL_R, ALT, NUL, DELETE, BACKSPACE, CTRL_A,
      CTRL_E, CTRL_D, CTRL_K, CTRL_T}" using assms by blast
  then show "plain_key k" unfolding plain_key_def by blast
  show "edit (b, []) k = (if length b < 255 then (b @ [k], []) else (b, []))"
    using ne by (simp add: edit_def)
qed

lemma typed_printable:
  assumes "\<forall>k\<in>set keys. isprint k" and "length keys \<le> 255"
  shows "typed keys = keys"
proof -
  have "foldl edit (b, []) keys = (b @ keys, [])" if "length b + length keys \<le> 255" for b
    using that assms(1)
  proof (induction keys arbitrary: b)
    case (Cons k keys)
    then show ?case by (simp add: isprint_edit)
  qed simp
  then show ?thesis using assms(2) by (simp add: typed_def)
qed

lemma find_unique_key: "distinct (map f xs) \<Longrightarrow> c \<in> set xs \<Longrightarrow> find (\<lambda>d. f d = f c) xs = Some c"
  by (induction xs) auto

lemma register_all_ok:
  assumes "\<forall>n. mem n"
  shows "\<exists>cmds. register_all mem cs i st = Inr (st\<lparr>commands := commands st @ cmds\<rparr>)
    \<and> map cmd_name cmds = map fst cs \<and> map cmd_callback cmds = [i..<i + length cs]"
proof (induction cs arbitrary: i st)
  case Nil
  then show ?case by (intro exI [of _ "[]"]) simp
next
  case (Cons c cs)
  obtain name d where c: "c = (name, d)" by (cases c)
  let ?c = "\<lparr>cmd_name = name, cmd_description = d, cmd_callback = i\<rparr>"
  have "ml_shell_register_command mem name d i st = Inr (st\<lparr>commands := commands st @ [?c]\<rparr>)"
    using assms by (simp add: ml_shell_register_command_def register_command_def)
  moreover obtain cmds where "register_all mem cs (i + 1) (st\<lparr>commands := commands st @ [?c]\<rparr>)
      = Inr (st\<lparr>commands := commands st @ ?c # cmds\<rparr>)"
      "map cmd_name cmds = map fst cs" "map cmd_callback cmds = [i + 1..<i + 1 + length cs]"
    using Cons.IH [of "i + 1" "st\<lparr>commands := commands st @ [?c]\<rparr>"] by auto
  moreover have "[i..<i + length (c # cs)] = i # [i + 1..<i + 1 + length cs]"
    by (simp add: upt_conv_Cons del: upt_Suc)
  ultimately show ?case using c by (intro exI [of _ "?c # cmds"]) (simp del: upt_Suc)
qed

lemma strip_command_quoted:
  assumes "args \<noteq> []"
  shows "ml_strip (command_line args) None = command_line args"
    and "\<not> is_comment (command_line args)" and "\<not> is_exit (command_line args)"
proof -
  show "ml_strip (command_line args) None = command_line args"
    using strip_command_line [OF assms, of "[]" "[]"] by simp
  obtain s where "command_line args = QUOTE # s"
    using command_line_ends [OF assms] by (metis list.collapse)
  then show "\<not> is_comment (command_line args)" "\<not> is_exit (command_line args)"
    by (simp_all add: is_comment_def is_exit_def numeral_eq_Suc)
qed

section \<open>Properties\<close>

text \<open>
  C5: reading a command is safe on every input without zero bytes, whatever keys, escapes and
  history searches it holds: no access leaves a buffer or follows a freed or null pointer, and no
  loop runs forever. It ends the process at the end of the input or returns the length of the
  line, which fits the buffer, with the invariant of the shell kept.
\<close>

theorem shell_read_safe:
  assumes "shell_ok as st"
  shows "case read_command st of
      Inl e \<Rightarrow> e = Exit 1
    | Inr (n, st') \<Rightarrow> n = length (line_text (line st')) \<and> n \<le> 255 \<and> (\<exists>as'. shell_ok as' st')"
proof (cases "read_command st")
  case (Inl e)
  then show ?thesis using read_command_ok [OF assms] by simp
next
  case (Inr r)
  then obtain n s where r: "read_command st = Inr (n, s)" by (cases r) auto
  then obtain as' where ok: "n = length (line_text (line s))" "shell_ok as' s"
    using read_command_ok [OF assms] by auto
  then have "n \<le> 255"
    using shell_okD(1) [OF ok(2)] by (auto simp: line_ok_def line_inv_def COMMAND_MAX_def)
  then show ?thesis using r ok by auto
qed

definition idle_shell :: "command_t list \<Rightarrow> string \<Rightarrow> shell" where
  "idle_shell cmds keys = \<lparr>line = example_line, prev_line = example_line, carriage_return_received = False,
     newline_received = False, history = example_history, commands = cmds, stdin = keys, stdout = []\<rparr>"

lemma idle_shell_ok:
  assumes "table_ok cmds" and "NUL \<notin> set keys"
  shows "shell_ok [] (idle_shell cmds keys)"
  using assms
  by (simp add: shell_ok_def idle_shell_def example_line_def example_history_def line_ok_def line_inv_def
      line_text_def before_def behind_def COMMAND_MAX_def hist_inv_def hist_list_def commands_of_def)

theorem shell_read_safe_witness:
  "case read_command (idle_shell [] [CTRL_R, CHR ''a'', ALT]) of
      Inl e \<Rightarrow> e = Exit 1
    | Inr (n, st') \<Rightarrow> n = length (line_text (line st')) \<and> n \<le> 255 \<and> (\<exists>as'. shell_ok as' st')"
  by (rule shell_read_safe [OF idle_shell_ok]) (simp_all add: table_ok_def)



lemma typed_command_runs:
  assumes "shell_ok as st" and "sorted_wrt (<) (map cmd_name (commands st))"
    and "stdin st = command_line args @ NEWLINE # rest" and "args \<noteq> []" and "length args \<le> 32"
    and "\<forall>a\<in>set args. (a = [] \<or> last a \<noteq> BACKSLASH)"
    and "\<forall>k\<in>set (command_line args). isprint k" and "length (command_line args) \<le> 255"
    and "\<forall>a. elem_malloc_ok (history st) a"
    and "c \<in> set (commands st)" and "cmd_name c = hd args"
    and "callbacks (cmd_callback c) args w = (res, out, w')"
  shows "\<exists>st' as'. shell_main callbacks strerror st w = shell_main callbacks strerror st' w'
      \<and> shell_ok as' st' \<and> stdin st' = rest \<and> commands st' = commands st
      \<and> (\<exists>o'. stdout st' = o' @ [Out out, Out (result_text strerror res), Out PROMPT])
    \<and> safe (\<lambda>_. True) (shell_main callbacks strerror st w)"
proof -
  let ?t = "command_line args"
  have plain: "\<forall>k\<in>set ?t. plain_key k" using assms(7) isprint_edit(1) by blast
  obtain s as' where s: "read_command st = Inr (length ?t, s)" "line_text (line s) = ?t" "stdin s = rest"
      "commands s = commands st" "shell_ok as' s"
    using read_command_typed [OF assms(1,3) plain assms(9)] typed_printable [OF assms(7,8)] by auto
  have line: "line_get_buf (line s) = ?t" using get_buf_ok [OF shell_okD(1) [OF s(5)]] s(2) by simp
  have "find (\<lambda>d. cmd_name d = cmd_name c) (commands st) = Some c"
    using assms(2,10) by (intro find_unique_key) (simp_all add: strict_sorted_iff)
  then have find: "find_command (commands st) (hd args) = Some c"
    by (simp add: find_command_ok [OF assms(2)] assms(11) [symmetric])
  have "parse_command ?t = (int (length args), args)"
    using parse_command_line_loop [OF assms(6), of "[]"] strip_command_quoted [OF assms(4)]
      command_line_ends(1) [OF assms(4)] assms(5) by (simp add: parse_command_def)
  moreover have "0 < length args" using assms(4) by simp
  ultimately have exec: "ml_shell_execute_command callbacks (commands s) ?t w = (res, out, w')"
    unfolding ml_shell_execute_command_def using find assms(4,12) s(4) by simp
  let ?s = "print_prompt (print [Out out, Out (result_text strerror res)] s)"
  have "shell_main callbacks strerror st w = shell_main callbacks strerror ?s w'"
    using strip_command_quoted [OF assms(4)] command_line_ends(1) [OF assms(4)]
    by (simp add: shell_main.simps [of _ _ st] s(1) line exec)
  moreover have "shell_ok as' ?s" "stdin ?s = rest" "commands ?s = commands st"
      "stdout ?s = stdout s @ [Out out, Out (result_text strerror res), Out PROMPT]"
    using s by (simp_all add: print_prompt_def)
  moreover have "safe (\<lambda>_. True) (shell_main callbacks strerror st w)" by (rule shell_main_ok [OF assms(1)])
  ultimately show ?thesis by blast
qed



text \<open>
  With memory, initialising and starting the shell succeeds from the zeroed module: no two of
  the 29 commands share a name, the table is sorted, each command is found under its name with its
  own callback, and the state satisfies the invariant the other theorems start from.
\<close>

theorem shell_starts:
  assumes "\<forall>n. mem n" and "line_ok (line st)" and "elems (history st) = Map.empty"
    and "length (buf (hist_pattern (history st))) = COMMAND_MAX"
    and "length (buf (hist_match (history st))) = COMMAND_MAX"
    and "length (buf (hist_line (history st))) = COMMAND_MAX" and "NUL \<notin> set (stdin st)"
  shows "\<exists>st1 st2. ml_shell_init mem st = Inr st1 \<and> ml_shell_start st1 = Inr st2 \<and> shell_ok [] st2
    \<and> sorted_wrt (<) (map cmd_name (commands st2)) \<and> length (commands st2) = 29
    \<and> (\<forall>i<29. map_option cmd_callback (find_command (commands st2) (fst (standard_commands ! i))) = Some i)"
proof -
  obtain hl where hl: "line_init (hist_line (history st)) = Inr hl"
    using line_init_ok [OF assms(6)] by blast
  define h where "h = (history st)\<lparr>head_p := None, tail_p := None, hist_length := 0, current_p := None,
      hist_line := hl, line_valid := False\<rparr>"
  have h: "history_init (history st) = Inr h" using hl by (simp add: history_init_def h_def)
  obtain cmds where cmds: "register_all mem standard_commands 0 (st\<lparr>commands := [], history := h\<rparr>)
      = Inr (st\<lparr>history := h, commands := cmds\<rparr>)" "map cmd_name cmds = map fst standard_commands"
      "map cmd_callback cmds = [0..<length standard_commands]"
    using register_all_ok [OF assms(1), of standard_commands 0 "st\<lparr>commands := [], history := h\<rparr>"] by auto
  have len: "length standard_commands = 29" by (simp add: standard_commands_def)
  have names: "distinct (map fst standard_commands)"
      "\<forall>n\<in>set (map fst standard_commands). NUL \<notin> set n \<and> length n < 255"
    by (simp_all add: standard_commands_def)
  let ?cmp = "\<lambda>l r. strcmp (cmd_name l) (cmd_name r)"
  let ?t = "qsort ?cmp cmds"
  have d: "distinct (map cmd_name cmds)" using cmds(2) names(1) by simp
  have sorted: "sorted_wrt (<) (map cmd_name ?t)" by (rule shell_table.strict_sorted_qsort [OF d])
  have n: "length cmds = 29" using cmds(2) len by (metis length_map)
  have "table_ok ?t"
    using names(2) unfolding cmds(2) [symmetric] by (simp add: table_ok_def)
  then have ok: "shell_ok [] (st\<lparr>history := h, commands := ?t\<rparr>)"
    using assms by (simp add: shell_ok_def hist_inv_def hist_list_def h_def commands_of_def)
  have "map_option cmd_callback (find_command ?t (fst (standard_commands ! i))) = Some i" if i: "i < 29" for i
  proof -
    have nm: "fst (standard_commands ! i) = cmd_name (cmds ! i)" and cb: "cmd_callback (cmds ! i) = i"
      using cmds(2,3) i n len by (metis nth_map, metis nth_map nth_upt add_0)
    have "find (\<lambda>c. cmd_name c = cmd_name (cmds ! i)) ?t = Some (cmds ! i)"
      using sorted i n by (intro find_unique_key) (simp_all add: strict_sorted_iff)
    then show ?thesis using cb by (simp add: nm find_command_ok [OF sorted])
  qed
  moreover have "ml_shell_init mem st = Inr (st\<lparr>history := h, commands := cmds\<rparr>)"
    using assms(1) h cmds(1) by (simp add: ml_shell_init_def)
  moreover have "ml_shell_start (st\<lparr>history := h, commands := cmds\<rparr>) = Inr (st\<lparr>history := h, commands := ?t\<rparr>)"
    using d by (simp add: ml_shell_start_def qsort_checked_ok)
  moreover have "length ?t = 29" using n by simp
  ultimately show ?thesis
    using ok sorted
    by (intro exI [of _ "st\<lparr>history := h, commands := cmds\<rparr>"] exI [of _ "st\<lparr>history := h, commands := ?t\<rparr>"])
       simp
qed

theorem shell_starts_witness:
  "\<exists>st1 st2. ml_shell_init (\<lambda>_. True) (idle_shell [] ''help'') = Inr st1 \<and> ml_shell_start st1 = Inr st2
    \<and> shell_ok [] st2"
proof -
  have "line_ok (line (idle_shell [] ''help''))"
    using shell_okD(1) [OF idle_shell_ok [of "[]" "''help''"]] by (simp add: table_ok_def)
  then show ?thesis
    using shell_starts [of "\<lambda>_. True" "idle_shell [] ''help''"]
    by (auto simp: idle_shell_def example_history_def example_line_def COMMAND_MAX_def)
qed

end
