(* ===== verification/Ml_Kernel.thy ===== *)
theory Ml_Kernel
  imports Ml_Prelude
begin

text \<open>
  Calls of the operating system by the components that only make requests and look at the
  results. The type of calls is a parameter; the kernel is the list of calls made so far with their
  results, and what it will answer to the next ones: a result, the value of \<open>errno\<close> then, and the
  bytes it delivers. \<open>still_open\<close> follows the descriptors a sequence of calls opens and closes.
\<close>

section \<open>Calls and answers\<close>

record 'c kernel =
  calls :: "('c \<times> int) list"
  answer :: "nat \<Rightarrow> int"
  errno_at :: "nat \<Rightarrow> int"
  reply :: "nat \<Rightarrow> bytes"

definition call :: "'c \<Rightarrow> 'c kernel \<Rightarrow> int \<times> 'c kernel" where
  "call c k = (let r = answer k (length (calls k)) in (r, k\<lparr>calls := calls k @ [(c, r)]\<rparr>))"

text \<open>\<open>errno\<close> and the delivered bytes after the last call.\<close>

definition errno :: "'c kernel \<Rightarrow> int" where
  "errno k = errno_at k (length (calls k) - 1)"

definition delivered :: "'c kernel \<Rightarrow> bytes" where
  "delivered k = reply k (length (calls k) - 1)"

definition new_calls :: "'c kernel \<Rightarrow> 'c kernel \<Rightarrow> ('c \<times> int) list" where
  "new_calls k k' = drop (length (calls k)) (calls k')"

section \<open>Descriptors\<close>

text \<open>
  The descriptors open after a list of calls, most recent first; the first two arguments say which
  calls open a descriptor (their result) and which close one.
\<close>

fun still_open :: "('c \<Rightarrow> bool) \<Rightarrow> ('c \<Rightarrow> int option) \<Rightarrow> int list \<Rightarrow> ('c \<times> int) list \<Rightarrow> int list" where
  "still_open opens closes fds [] = fds"
| "still_open opens closes fds ((c, r) # cs) =
     still_open opens closes
       (if opens c \<and> r \<noteq> - 1 then r # fds
        else case closes c of None \<Rightarrow> fds | Some f \<Rightarrow> remove1 f fds) cs"

section \<open>Lemmas\<close>

lemma call_eq: "call c k = (answer k (length (calls k)), k\<lparr>calls := calls k @ [(c, answer k (length (calls k)))]\<rparr>)"
  by (simp add: call_def Let_def)

lemma still_open_append:
  "still_open opens closes fds (xs @ ys) = still_open opens closes (still_open opens closes fds xs) ys"
  by (induction xs arbitrary: fds) auto

lemma new_calls_append [simp]: "calls k' = calls k @ cs \<Longrightarrow> new_calls k k' = cs"
  by (simp add: new_calls_def)

section \<open>Sessions on a descriptor\<close>

text \<open>
  The shape of most functions that use a descriptor: open it, give up with a result of its own when
  that fails, otherwise do the work and close the descriptor whatever came out of it.
\<close>

definition with_fd ::
  "'c \<Rightarrow> (int \<Rightarrow> 'c) \<Rightarrow> ('c kernel \<Rightarrow> 'r) \<Rightarrow> (int \<Rightarrow> 'c kernel \<Rightarrow> 'r \<times> 'c kernel) \<Rightarrow> 'c kernel \<Rightarrow> 'r \<times> 'c kernel" where
  "with_fd open_call close_call failed work k =
     (let (fd, k) = call open_call k
      in if fd = - 1 then (failed k, k)
         else let (r, k) = work fd k; (_, k) = call (close_call fd) k in (r, k))"

lemma with_fd_run:
  assumes "with_fd op cl failed work k = (res, k')" and "answer k (length (calls k)) \<noteq> - 1"
  shows "\<exists>k1. work (answer k (length (calls k))) (k\<lparr>calls := calls k @ [(op, answer k (length (calls k)))]\<rparr>) = (res, k1)
    \<and> k' = k1\<lparr>calls := calls k1 @ [(cl (answer k (length (calls k))), answer k1 (length (calls k1)))]\<rparr>"
  using assms by (auto simp: with_fd_def call_eq Let_def split: prod.splits)

text \<open>Work that only adds calls, which leave the open descriptors as they are.\<close>

definition neutral :: "('c \<Rightarrow> bool) \<Rightarrow> ('c \<Rightarrow> int option) \<Rightarrow> ('c kernel \<Rightarrow> 'r \<times> 'c kernel) \<Rightarrow> bool" where
  "neutral opens closes f \<longleftrightarrow> (\<forall>k r k'. f k = (r, k') \<longrightarrow>
     (\<exists>cs. k' = k\<lparr>calls := calls k @ cs\<rparr> \<and> (\<forall>fds. still_open opens closes fds cs = fds)))"

lemma neutralD:
  assumes "neutral opens closes f" and "f k = (r, k')"
  shows "still_open opens closes fds (new_calls k k') = fds"
    and "\<exists>cs. k' = k\<lparr>calls := calls k @ cs\<rparr>"
proof -
  obtain cs where "k' = k\<lparr>calls := calls k @ cs\<rparr>" and "\<forall>fds. still_open opens closes fds cs = fds"
    using assms unfolding neutral_def by blast
  then show "still_open opens closes fds (new_calls k k') = fds" and "\<exists>cs. k' = k\<lparr>calls := calls k @ cs\<rparr>"
    by (auto simp: new_calls_def)
qed

lemma neutral_return: "neutral opens closes (\<lambda>k. (g k, k))"
  by (auto simp: neutral_def intro!: exI [of _ "[]"])

lemma neutral_call: "\<not> opens c \<Longrightarrow> closes c = None \<Longrightarrow> neutral opens closes (call c)"
  by (auto simp: neutral_def call_eq)

lemma neutral_bind:
  assumes "neutral opens closes f" and "\<And>x. neutral opens closes (g x)"
  shows "neutral opens closes (\<lambda>k. let (x, k) = f k in g x k)"
  unfolding neutral_def
proof (intro allI impI)
  fix k r k'
  assume run: "(let (x, k) = f k in g x k) = (r, k')"
  obtain x k1 where f: "f k = (x, k1)" by (cases "f k")
  then have g: "g x k1 = (r, k')" using run by simp
  obtain c1 where c1: "k1 = k\<lparr>calls := calls k @ c1\<rparr>" "\<forall>fds. still_open opens closes fds c1 = fds"
    using assms(1) f unfolding neutral_def by blast
  obtain c2 where c2: "k' = k1\<lparr>calls := calls k1 @ c2\<rparr>" "\<forall>fds. still_open opens closes fds c2 = fds"
    using assms(2) g unfolding neutral_def by blast
  show "\<exists>cs. k' = k\<lparr>calls := calls k @ cs\<rparr> \<and> (\<forall>fds. still_open opens closes fds cs = fds)"
    using c1 c2 by (intro exI [of _ "c1 @ c2"]) (simp add: still_open_append)
qed

lemma neutral_if:
  "(b \<Longrightarrow> neutral opens closes f) \<Longrightarrow> (\<not> b \<Longrightarrow> neutral opens closes g) \<Longrightarrow>
   neutral opens closes (\<lambda>k. if b then f k else g k)"
  by (simp add: neutral_def)

lemma neutral_snd: "neutral opens closes f \<Longrightarrow> (\<And>k. snd (g k) = snd (f k)) \<Longrightarrow> neutral opens closes g"
  unfolding neutral_def by (metis prod.collapse snd_conv)

lemma neutral_then:
  assumes "neutral opens closes f" and "\<And>x. neutral opens closes (g x)"
    and "\<And>k. snd (h k) = snd (g (fst (f k)) (snd (f k)))"
  shows "neutral opens closes h"
  by (rule neutral_snd [OF neutral_bind [where g = g, OF assms(1,2)]]) (simp add: assms(3) split: prod.split)

text \<open>What the calls of a client look like to a session.\<close>

locale descriptor_session =
  fixes opens :: "'c \<Rightarrow> bool"
    and closes :: "'c \<Rightarrow> int option"
    and close_call :: "int \<Rightarrow> 'c"
  assumes close_call: "closes (close_call f) = Some f" "\<not> opens (close_call f)"
begin

lemma with_fd_neutral:
  assumes "opens c" and "closes c = None" and "\<And>fd. neutral opens closes (work fd)"
  shows "neutral opens closes (with_fd c close_call failed work)"
  unfolding neutral_def
proof (intro allI impI)
  fix k r k'
  assume run: "with_fd c close_call failed work k = (r, k')"
  let ?fd = "answer k (length (calls k))"
  let ?k1 = "k\<lparr>calls := calls k @ [(c, ?fd)]\<rparr>"
  show "\<exists>cs. k' = k\<lparr>calls := calls k @ cs\<rparr> \<and> (\<forall>fds. still_open opens closes fds cs = fds)"
  proof (cases "?fd = - 1")
    case True
    then have "k' = ?k1" using run by (simp add: with_fd_def call_eq)
    then show ?thesis using True assms(2) by (intro exI [of _ "[(c, ?fd)]"]) simp
  next
    case False
    obtain r2 k2 where w: "work ?fd ?k1 = (r2, k2)" by (cases "work ?fd ?k1")
    obtain cs where cs: "k2 = ?k1\<lparr>calls := calls ?k1 @ cs\<rparr>" "\<forall>fds. still_open opens closes fds cs = fds"
      using assms(3) [of ?fd] w unfolding neutral_def by blast
    let ?cl = "(close_call ?fd, answer k (length (calls k2)))"
    have "k' = k\<lparr>calls := calls k @ (c, ?fd) # cs @ [?cl]\<rparr>"
      using run False w cs(1) by (simp add: with_fd_def call_eq)
    then show ?thesis
      using cs(2) False assms(1) close_call
      by (intro exI [of _ "(c, ?fd) # cs @ [?cl]"]) (simp add: still_open_append)
  qed
qed

end

end
