(* ===== verification/Ml_Ntp_Client.thy ===== *)
theory Ml_Ntp_Client
  imports Ml_Kernel
begin

text \<open>
  The NTP client (\<open>src/src/ml_ntp_client.c\<close>): the conversion of an NTP time stamp, the exchange with
  one server over a socket, and the walk over the addresses of a server name. The addresses
  \<open>getaddrinfo\<close> returns are a parameter (\<open>None\<close> when it fails); every other call goes to the kernel.
\<close>

section \<open>The client\<close>

datatype ntp_call =
    Socket nat
  | Connect int nat
  | Write int bytes
  | Poll int int
  | Read int nat
  | Clock_settime u64 u64
  | Close int

type_synonym ntp_kernel = "ntp_call kernel"

definition NTP_PACKET_MIN :: nat where "NTP_PACKET_MIN = 48"
definition NTP_PACKET_MAX :: nat where "NTP_PACKET_MAX = 68"
definition JAN_1900_TO_1970 :: u64 where "JAN_1900_TO_1970 = 2208988800"

text \<open>Version 4 in bits 3 to 5 and mode 3, client, in the lowest three.\<close>

definition ntp_request_packet :: bytes where
  "ntp_request_packet = (push_bit 3 4 OR 3) # replicate 47 0"

definition ntp_send_request :: "int \<Rightarrow> ntp_kernel \<Rightarrow> int \<times> ntp_kernel" where
  "ntp_send_request sock k =
     (let (res, k) = call (Write sock ntp_request_packet) k
      in if res \<noteq> 48 then (- errno k, k) else (0, k))"

definition ntp_seconds :: "bytes \<Rightarrow> u64" where
  "ntp_seconds t =
     (let secs = ucast (be32 (byte_at t 0) (byte_at t 1) (byte_at t 2) (byte_at t 3));
          secs = (if byte_at t 0 AND 0x80 = 0 then secs + push_bit 32 1 else secs)
      in secs - JAN_1900_TO_1970)"

definition ntp_nanoseconds :: "bytes \<Rightarrow> u64" where
  "ntp_nanoseconds t =
     drop_bit 32 (ucast (be32 (byte_at t 4) (byte_at t 5) (byte_at t 6) (byte_at t 7)) * 1000000000)"

text \<open>\<open>tv_sec\<close> and \<open>tv_nsec\<close>.\<close>

definition ntp_time_to_timespec :: "bytes \<Rightarrow> u64 \<times> u64" where
  "ntp_time_to_timespec t = (ntp_seconds t, ntp_nanoseconds t)"

text \<open>The bytes a read delivers, at most as many as its result says; the result may be -1.\<close>

definition receive_response :: "int \<Rightarrow> ntp_kernel \<Rightarrow> (int + (u64 \<times> u64)) \<times> ntp_kernel" where
  "receive_response sock k =
     (let (res, k) = call (Poll sock 5000) k
      in if res = - 1 then (Inl (- errno k), k)
         else if res \<noteq> 1 then (Inl (- ETIMEDOUT), k)
         else
           let (sz, k) = call (Read sock NTP_PACKET_MAX) k;
               buf = delivered k
           in if sz = - 1 then (Inl (- errno k), k)
              else if sz < int NTP_PACKET_MIN then (Inl (- EPROTO), k)
              else if byte_at buf 0 AND 7 \<noteq> 4 then (Inl (- EPROTO), k)
              else if drop_bit 3 (byte_at buf 0) AND 7 \<noteq> 4 then (Inl (- EPROTO), k)
              else (Inr (ntp_time_to_timespec (drop 32 buf)), k))"

definition try_sync :: "int \<Rightarrow> ntp_kernel \<Rightarrow> int \<times> ntp_kernel" where
  "try_sync sock k =
     (let (res, k) = ntp_send_request sock k
      in if res \<noteq> 0 then (res, k)
         else case receive_response sock k of
                (Inl res, k) \<Rightarrow> (res, k)
              | (Inr (sec, nsec), k) \<Rightarrow> call (Clock_settime sec nsec) k)"

definition try_sync_with_server :: "nat \<Rightarrow> ntp_kernel \<Rightarrow> int \<times> ntp_kernel" where
  "try_sync_with_server info k =
     (let (sock, k) = call (Socket info) k
      in if sock = - 1 then (- errno k, k)
         else
           let (res, k) = call (Connect sock info) k;
               (res, k) = (if res = 0 then try_sync sock k else (res, k));
               (_, k) = call (Close sock) k
           in (res, k))"

text \<open>The loop over the addresses; \<open>res\<close> is the result so far.\<close>

fun sync_loop :: "nat list \<Rightarrow> int \<Rightarrow> ntp_kernel \<Rightarrow> int \<times> ntp_kernel" where
  "sync_loop [] res k = (res, k)"
| "sync_loop (info # infos) res k =
     (let (res, k) = try_sync_with_server info k
      in if res = 0 then (res, k) else sync_loop infos res k)"

definition ml_ntp_client_sync :: "nat list option \<Rightarrow> ntp_kernel \<Rightarrow> int \<times> ntp_kernel" where
  "ml_ntp_client_sync addresses k =
     (case addresses of
        None \<Rightarrow> (- EGENERAL, k)
      | Some infos \<Rightarrow> sync_loop infos (- EGENERAL) k)"

section \<open>Time stamps\<close>

text \<open>The NTP time stamp of a Unix time: seconds since 1900 modulo \<open>2\<^sup>3\<^sup>2\<close> and a fraction.\<close>

definition ntp_timestamp :: "int \<Rightarrow> u32 \<Rightarrow> bytes" where
  "ntp_timestamp t frac = to_be32 (word_of_int (t + 2208988800)) @ to_be32 frac"

lemma bytes_of_timestamp:
  "be32 (byte_at (to_be32 w @ xs) 0) (byte_at (to_be32 w @ xs) 1) (byte_at (to_be32 w @ xs) 2)
     (byte_at (to_be32 w @ xs) 3) = w"
  "be32 (byte_at (to_be32 v @ to_be32 w) 4) (byte_at (to_be32 v @ to_be32 w) 5)
     (byte_at (to_be32 v @ to_be32 w) 6) (byte_at (to_be32 v @ to_be32 w) 7) = w"
  by (simp_all add: to_be32_def byte_at_def)

lemma top_bit_of_first:
  "byte_at (to_be32 w @ xs) 0 AND 0x80 = 0 \<longleftrightarrow> unat w < 2 ^ 31"
proof -
  have "byte_at (to_be32 w @ xs) 0 = ucast (drop_bit 24 w)" by (simp add: to_be32_def byte_at_def)
  moreover have "(ucast (drop_bit 24 w) :: u8) AND 0x80 = 0 \<longleftrightarrow> \<not> bit w 31"
  proof -
    have "(0x80 :: u8) = push_bit 7 1" by simp
    then have "(ucast (drop_bit 24 w) :: u8) AND 0x80 = 0 \<longleftrightarrow> \<not> bit (ucast (drop_bit 24 w) :: u8) 7"
      by (simp only: and_exp_eq_0_iff_not_bit push_bit_of_1)
    then show ?thesis by (simp add: bit_simps)
  qed
  moreover have "bit w 31 \<longleftrightarrow> \<not> unat w < 2 ^ 31"
  proof -
    have "bit w 31 \<longleftrightarrow> bit (unat w) 31" by (simp add: bit_unsigned_iff)
    then have b: "bit w 31 \<longleftrightarrow> odd (unat w div 2 ^ 31)" by (simp only: bit_iff_odd)
    have "unat w < 2 ^ 32" using unsigned_less [of w, where ?'a = nat] by simp
    then have "unat w div 2 ^ 31 = (if unat w < 2 ^ 31 then 0 else 1)"
      by (simp add: div_nat_eqI)
    then show ?thesis using b by simp
  qed
  ultimately show ?thesis by simp
qed

lemma ntp_seconds_ok:
  assumes "- 61505152 \<le> t" and "t < 4233462144"
  shows "ntp_seconds (ntp_timestamp t frac) = word_of_int t"
proof -
  define w :: u32 where "w = word_of_int (t + 2208988800)"
  have u: "uint w = (t + 2208988800) mod 2 ^ 32" 
    unfolding w_def uint_word_of_int by simp
  have secs: "ntp_seconds (ntp_timestamp t frac) =
      (if unat w < 2 ^ 31 then ucast w + 2 ^ 32 else ucast w) - JAN_1900_TO_1970"
    unfolding ntp_seconds_def ntp_timestamp_def w_def [symmetric] bytes_of_timestamp Let_def top_bit_of_first
    by (simp add: push_bit_of_1)
  have uc: "(ucast w :: u64) = word_of_int (uint w)" by simp
  show ?thesis
  proof (cases "t + 2208988800 < 2 ^ 32")
    case True
    then have "uint w = t + 2208988800" using u assms by simp
    then have "\<not> unat w < 2 ^ 31" "(ucast w :: u64) = word_of_int (t + 2208988800)"
      using assms uc by (simp_all add: unat_eq_nat_uint)
    then show ?thesis using secs by (simp add: JAN_1900_TO_1970_def)
  next
    case False
    have "(t + 2208988800 - 2 ^ 32) mod 2 ^ 32 = t + 2208988800 - 2 ^ 32"
      using False assms by (intro mod_pos_pos_trivial) simp_all
    then have "uint w = t + 2208988800 - 2 ^ 32"
      using u minus_mod_self2 [of "t + 2208988800" "2 ^ 32"] by (simp only:)
    then have "unat w < 2 ^ 31" "(ucast w :: u64) = word_of_int (t + 2208988800 - 2 ^ 32)"
      using assms uc by (simp_all add: unat_eq_nat_uint nat_less_iff)
    then show ?thesis using secs by (simp add: JAN_1900_TO_1970_def)
  qed
qed

lemma ntp_nanoseconds_ok:
  "unat (ntp_nanoseconds (ntp_timestamp t frac)) = unat frac * 1000000000 div 2 ^ 32"
proof -
  have f: "unat frac < 2 ^ 32" using unsigned_less [of frac, where ?'a = nat] by simp
  have uc: "unat (ucast frac :: u64) = unat frac" using f by (simp add: unsigned_ucast_eq take_bit_nat_eq_self)
  have "ntp_nanoseconds (ntp_timestamp t frac) = drop_bit 32 (ucast frac * 1000000000)"
    unfolding ntp_nanoseconds_def ntp_timestamp_def bytes_of_timestamp ..
  moreover have "unat ((ucast frac :: u64) * 1000000000) = unat frac * 1000000000"
    using f by (simp add: unat_word_ariths uc)
  ultimately show ?thesis by (simp add: drop_bit_eq_div unat_div_distrib)
qed

section \<open>The exchange\<close>

fun ntp_opens :: "ntp_call \<Rightarrow> bool" where
  "ntp_opens (Socket _) = True"
| "ntp_opens _ = False"

fun ntp_closes :: "ntp_call \<Rightarrow> int option" where
  "ntp_closes (Close f) = Some f"
| "ntp_closes _ = None"

text \<open>A reply of a server in version 4, and the clock settings such replies allow.\<close>

definition valid_reply :: "bytes \<Rightarrow> bool" where
  "valid_reply buf \<longleftrightarrow> byte_at buf 0 AND 7 = 4 \<and> drop_bit 3 (byte_at buf 0) AND 7 = 4"

fun setting_from_reply :: "ntp_kernel \<Rightarrow> ntp_call \<times> int \<Rightarrow> bool" where
  "setting_from_reply k (Clock_settime s n, r) \<longleftrightarrow>
     (\<exists>i. valid_reply (reply k i) \<and> (s, n) = ntp_time_to_timespec (drop 32 (reply k i)))"
| "setting_from_reply k _ \<longleftrightarrow> True"

abbreviation clock_from_reply :: "ntp_kernel \<Rightarrow> (ntp_call \<times> int) list \<Rightarrow> bool" where
  "clock_from_reply k cs \<equiv> list_all (setting_from_reply k) cs"

fun sets_clock :: "ntp_call \<times> int \<Rightarrow> bool" where
  "sets_clock (Clock_settime s n, r) \<longleftrightarrow> r = 0"
| "sets_clock _ \<longleftrightarrow> False"

abbreviation clock_set :: "(ntp_call \<times> int) list \<Rightarrow> bool" where
  "clock_set cs \<equiv> list_ex sets_clock cs"

text \<open>What a part of the exchange may do: add calls that neither open nor close.\<close>

definition quiet :: "ntp_kernel \<Rightarrow> ntp_kernel \<Rightarrow> (ntp_call \<times> int) list \<Rightarrow> bool" where
  "quiet k k' cs \<longleftrightarrow> k' = k\<lparr>calls := calls k @ cs\<rparr> \<and> clock_from_reply k cs
     \<and> (\<forall>fds. still_open ntp_opens ntp_closes fds cs = fds)"

lemma send_request_calls:
  assumes "ntp_send_request sock k = (res, k')" and "\<forall>i. 0 < errno_at k i"
  shows "\<exists>cs. quiet k k' cs \<and> \<not> clock_set cs"
  using assms by (auto simp: ntp_send_request_def call_eq Let_def quiet_def split: if_splits intro!: exI)

lemma receive_response_calls:
  assumes "receive_response sock k = (r, k')" and "\<forall>i. 0 < errno_at k i"
  shows "\<exists>cs. quiet k k' cs \<and> \<not> clock_set cs
    \<and> (case r of Inl res \<Rightarrow> res \<noteq> 0
       | Inr t \<Rightarrow> \<exists>i. valid_reply (reply k i) \<and> t = ntp_time_to_timespec (drop 32 (reply k i)))"
proof -
  let ?n = "length (calls k)"
  let ?c1 = "(Poll sock 5000, answer k ?n)" and ?c2 = "(Read sock NTP_PACKET_MAX, answer k (Suc ?n))"
  let ?buf = "reply k (Suc ?n)"
  have e: "errno_at k i \<noteq> 0" for i using assms(2) by (metis less_irrefl)
  let ?k1 = "k\<lparr>calls := calls k @ [?c1]\<rparr>" and ?k2 = "k\<lparr>calls := calls k @ [?c1, ?c2]\<rparr>"
  have "receive_response sock k =
      (if answer k ?n = - 1 then (Inl (- errno_at k ?n), ?k1)
       else if answer k ?n \<noteq> 1 then (Inl (- ETIMEDOUT), ?k1)
       else if answer k (Suc ?n) = - 1 then (Inl (- errno_at k (Suc ?n)), ?k2)
       else if answer k (Suc ?n) < int NTP_PACKET_MIN \<or> \<not> valid_reply ?buf then (Inl (- EPROTO), ?k2)
       else (Inr (ntp_time_to_timespec (drop 32 ?buf)), ?k2))"
    by (simp add: receive_response_def call_eq errno_def delivered_def valid_reply_def Let_def)
  then have "(r, k') = (if answer k ?n = - 1 then (Inl (- errno_at k ?n), ?k1)
       else if answer k ?n \<noteq> 1 then (Inl (- ETIMEDOUT), ?k1)
       else if answer k (Suc ?n) = - 1 then (Inl (- errno_at k (Suc ?n)), ?k2)
       else if answer k (Suc ?n) < int NTP_PACKET_MIN \<or> \<not> valid_reply ?buf then (Inl (- EPROTO), ?k2)
       else (Inr (ntp_time_to_timespec (drop 32 ?buf)), ?k2))"
    using assms(1) by simp
  moreover have "ETIMEDOUT \<noteq> 0" "EPROTO \<noteq> 0" by (simp_all add: errno_defs)
  ultimately consider "k' = ?k1" "\<exists>e. r = Inl e \<and> e \<noteq> 0" | "k' = ?k2" "\<exists>e. r = Inl e \<and> e \<noteq> 0"
    | "k' = ?k2" "r = Inr (ntp_time_to_timespec (drop 32 ?buf))" "valid_reply ?buf"
    by (simp split: if_splits add: e)
  then show ?thesis
  proof cases
    case 1
    then show ?thesis by (intro exI [of _ "[?c1]"]) (auto simp: quiet_def)
  next
    case 2
    then show ?thesis by (intro exI [of _ "[?c1, ?c2]"]) (auto simp: quiet_def)
  next
    case 3
    then show ?thesis by (intro exI [of _ "[?c1, ?c2]"]) (auto simp: quiet_def)
  qed
qed

lemma quiet_trans: "quiet k k1 xs \<Longrightarrow> quiet k1 k2 ys \<Longrightarrow> quiet k k2 (xs @ ys)"
proof -
  assume a: "quiet k k1 xs" "quiet k1 k2 ys"
  have "setting_from_reply k1 = setting_from_reply k"
  proof (rule ext)
    fix x :: "ntp_call \<times> int"
    obtain c r where "x = (c, r)" by (cases x)
    then show "setting_from_reply k1 x = setting_from_reply k x"
      using a(1) by (cases c) (auto simp: quiet_def)
  qed
  then show ?thesis using a by (auto simp: quiet_def still_open_append)
qed

lemma try_sync_calls:
  assumes "try_sync sock k = (res, k')" and "\<forall>i. 0 < errno_at k i"
  shows "\<exists>cs. quiet k k' cs \<and> (res = 0 \<longleftrightarrow> clock_set cs)"
proof -
  obtain r1 k1 where s: "ntp_send_request sock k = (r1, k1)" by (cases "ntp_send_request sock k")
  obtain c1 where c1: "quiet k k1 c1" "\<not> clock_set c1" using send_request_calls [OF s assms(2)] by blast
  show ?thesis
  proof (cases "r1 = 0")
    case False
    then show ?thesis using assms(1) s c1 by (auto simp: try_sync_def)
  next
    case True
    obtain r2 k2 where r: "receive_response sock k1 = (r2, k2)" by (cases "receive_response sock k1")
    have e: "\<forall>i. 0 < errno_at k1 i" and same: "reply k1 = reply k"
      using c1(1) assms(2) by (simp_all add: quiet_def)
    obtain c2 where c2: "quiet k1 k2 c2" "\<not> clock_set c2" "case r2 of Inl res \<Rightarrow> res \<noteq> 0
       | Inr t \<Rightarrow> \<exists>i. valid_reply (reply k i) \<and> t = ntp_time_to_timespec (drop 32 (reply k i))"
      using receive_response_calls [OF r e] unfolding same by blast
    have q: "quiet k k2 (c1 @ c2)" by (rule quiet_trans [OF c1(1) c2(1)])
    show ?thesis
    proof (cases r2)
      case (Inl e)
      then have "res = e" "k' = k2" using assms(1) s True r by (auto simp: try_sync_def)
      then show ?thesis using q c1(2) c2(2,3) Inl by (intro exI [of _ "c1 @ c2"]) auto
    next
      case (Inr t)
      obtain sec nsec where t: "t = (sec, nsec)" by (cases t)
      have c: "call (Clock_settime sec nsec) k2 = (res, k')" using assms(1) s True r Inr t by (simp add: try_sync_def)
      then have "quiet k k' ((c1 @ c2) @ [(Clock_settime sec nsec, res)])"
        using q c2(3) Inr t by (auto simp: quiet_def call_eq still_open_append)
      then show ?thesis using c1(2) c2(2) by (intro exI [of _ "(c1 @ c2) @ [(Clock_settime sec nsec, res)]"]) auto
    qed
  qed
qed

text \<open>A server that could be reached leaves no descriptor behind, whatever happened.\<close>

lemma server_calls:
  assumes "try_sync_with_server info k = (res, k')" and "\<forall>i. 0 < errno_at k i"
  shows "\<exists>cs. quiet k k' cs \<and> (res = 0 \<longleftrightarrow> clock_set cs)"
proof -
  let ?sock = "answer k (length (calls k))"
  let ?k1 = "k\<lparr>calls := calls k @ [(Socket info, ?sock)]\<rparr>"
  show ?thesis
  proof (cases "?sock = - 1")
    case True
    then have "res = - errno ?k1" "k' = ?k1" using assms(1) by (auto simp: try_sync_with_server_def call_eq)
    moreover have "errno ?k1 \<noteq> 0" using assms(2) by (simp add: errno_def) (metis less_irrefl)
    ultimately show ?thesis using True by (intro exI [of _ "[(Socket info, ?sock)]"]) (simp add: quiet_def)
  next
    case False
    let ?con = "answer k (Suc (length (calls k)))"
    let ?k2 = "k\<lparr>calls := calls k @ [(Socket info, ?sock), (Connect ?sock info, ?con)]\<rparr>"
    obtain r3 k3 where k3: "(if ?con = 0 then try_sync ?sock ?k2 else (?con, ?k2)) = (r3, k3)"
      by (cases "if ?con = 0 then try_sync ?sock ?k2 else (?con, ?k2)")
    have "\<exists>cs. quiet ?k2 k3 cs \<and> (r3 = 0 \<longleftrightarrow> clock_set cs)"
    proof (cases "?con = 0")
      case True
      then show ?thesis using try_sync_calls [of ?sock ?k2 r3 k3] k3 assms(2) by simp
    next
      case neq: False
      then show ?thesis using k3 by (intro exI [of _ "[]"]) (auto simp: quiet_def)
    qed
    then obtain cs where cs: "quiet ?k2 k3 cs" "r3 = 0 \<longleftrightarrow> clock_set cs" by blast
    let ?cl = "(Close ?sock, answer k3 (length (calls k3)))"
    have "res = r3" "k' = k3\<lparr>calls := calls k3 @ [?cl]\<rparr>"
      using assms(1) False k3 by (auto simp: try_sync_with_server_def call_eq split: if_splits)
    moreover have "setting_from_reply ?k2 = setting_from_reply k"
    proof (rule ext)
      fix x :: "ntp_call \<times> int"
      show "setting_from_reply ?k2 x = setting_from_reply k x" by (cases x; cases "fst x") auto
    qed
    moreover have "calls k3 = calls ?k2 @ cs" "k3 = k\<lparr>calls := calls k3\<rparr>"
      using cs(1) by (auto simp: quiet_def)
    ultimately have "quiet k k' ((Socket info, ?sock) # (Connect ?sock info, ?con) # cs @ [?cl])"
      using cs(1) False by (simp add: quiet_def still_open_append)
    then show ?thesis using cs(2) \<open>res = r3\<close>
      by (intro exI [of _ "(Socket info, ?sock) # (Connect ?sock info, ?con) # cs @ [?cl]"]) simp
  qed
qed

lemma sync_loop_calls:
  assumes "\<forall>i. 0 < errno_at k i" and "r0 \<noteq> 0" and "sync_loop infos r0 k = (res, k')"
  shows "\<exists>cs. quiet k k' cs \<and> (res = 0 \<longleftrightarrow> clock_set cs)"
  using assms
proof (induction infos arbitrary: r0 k)
  case Nil
  then show ?case by (intro exI [of _ "[]"]) (auto simp: quiet_def)
next
  case (Cons info infos)
  obtain r1 k1 where s: "try_sync_with_server info k = (r1, k1)" by (cases "try_sync_with_server info k")
  obtain c1 where c1: "quiet k k1 c1" "r1 = 0 \<longleftrightarrow> clock_set c1" using server_calls [OF s Cons.prems(1)] by blast
  show ?case
  proof (cases "r1 = 0")
    case True
    then show ?thesis using Cons.prems(3) s c1 by auto
  next
    case False
    have "\<forall>i. 0 < errno_at k1 i" using c1(1) Cons.prems(1) by (simp add: quiet_def)
    then obtain c2 where "quiet k1 k' c2" "res = 0 \<longleftrightarrow> clock_set c2"
      using Cons.IH [of k1 r1] False Cons.prems(3) s by auto
    then show ?thesis using quiet_trans [OF c1(1)] c1(2) False by (intro exI [of _ "c1 @ c2"]) auto
  qed
qed

section \<open>Properties\<close>

text \<open>
  An NTP time stamp of any time between January 1968 and February 2104 is converted back to that
  time, across the wrap of the 32-bit seconds in 2036; the nanoseconds are the fraction rounded
  down, and always less than a second.
\<close>

theorem ntp_time_roundtrip:
  assumes "- 61505152 \<le> t" and "t < 4233462144"
  shows "sint (fst (ntp_time_to_timespec (ntp_timestamp t frac))) = t
    \<and> unat (snd (ntp_time_to_timespec (ntp_timestamp t frac))) = unat frac * 1000000000 div 2 ^ 32
    \<and> unat (snd (ntp_time_to_timespec (ntp_timestamp t frac))) < 1000000000"
proof -
  have "unat frac < 2 ^ 32" using unsigned_less [of frac, where ?'a = nat] by simp
  then have "unat frac * 1000000000 div 2 ^ 32 < 1000000000" by (simp add: div_less_iff_less_mult)
  moreover have "sint (word_of_int t :: u64) = t"
    unfolding sint_sbintrunc' by (rule signed_take_bit_int_eq_self) (use assms in simp_all)
  ultimately show ?thesis
    by (simp add: ntp_time_to_timespec_def ntp_seconds_ok [OF assms] ntp_nanoseconds_ok)
qed

theorem ntp_time_roundtrip_witness:
  "sint (fst (ntp_time_to_timespec (ntp_timestamp 2085978496 0x80000000))) = 2085978496
    \<and> unat (snd (ntp_time_to_timespec (ntp_timestamp 2085978496 0x80000000))) = 500000000"
  using ntp_time_roundtrip [of 2085978496 "0x80000000"] by simp



end
