(* ===== verification/Ml_Bytes.thy ===== *)
theory Ml_Bytes
  imports Ml_Prelude
begin

text \<open>
  Structures in memory as the kernel interfaces lay them out: a list of bytes, read and written
  field by field on a little-endian host. A field outside of the structure reads as 0 and a store
  outside of it has no effect; the lemmas below ask for fields inside.
\<close>

section \<open>Fields\<close>

definition get16 :: "bytes \<Rightarrow> nat \<Rightarrow> u16" where
  "get16 b i = ucast (byte_at b i) OR push_bit 8 (ucast (byte_at b (i + 1)))"

definition get32 :: "bytes \<Rightarrow> nat \<Rightarrow> u32" where
  "get32 b i = be32 (byte_at b (i + 3)) (byte_at b (i + 2)) (byte_at b (i + 1)) (byte_at b i)"

definition get64 :: "bytes \<Rightarrow> nat \<Rightarrow> u64" where
  "get64 b i = push_bit 32 (ucast (get32 b (i + 4))) OR ucast (get32 b i)"

definition poke :: "bytes \<Rightarrow> nat \<Rightarrow> bytes \<Rightarrow> bytes" where
  "poke b i bs = take (length b) (take i b @ bs @ drop (i + length bs) b)"

definition le16 :: "u16 \<Rightarrow> bytes" where
  "le16 w = [ucast w, ucast (drop_bit 8 w)]"

definition le32 :: "u32 \<Rightarrow> bytes" where
  "le32 w = rev (to_be32 w)"

definition put16 :: "bytes \<Rightarrow> nat \<Rightarrow> u16 \<Rightarrow> bytes" where
  "put16 b i w = poke b i (le16 w)"

definition put32 :: "bytes \<Rightarrow> nat \<Rightarrow> u32 \<Rightarrow> bytes" where
  "put32 b i w = poke b i (le32 w)"

text \<open>Strings in such a structure: up to the first zero byte, and stored with one.\<close>

definition str_at :: "bytes \<Rightarrow> nat \<Rightarrow> string" where
  "str_at b i = map (\<lambda>c. char_of (unat c)) (takeWhile (\<lambda>c. c \<noteq> 0) (drop i b))"

definition put_str :: "bytes \<Rightarrow> nat \<Rightarrow> string \<Rightarrow> bytes" where
  "put_str b i s = poke b i (map of_char s @ [0])"

text \<open>What the kernel delivers goes over what was there.\<close>

definition overwrite :: "bytes \<Rightarrow> bytes \<Rightarrow> bytes" where
  "overwrite new old = poke old 0 new"

section \<open>Lemmas\<close>

lemma length_poke [simp]: "length (poke b i bs) = length b"
  by (simp add: poke_def)

lemma length_overwrite [simp]: "length (overwrite new old) = length old"
  by (simp add: overwrite_def)

lemma length_le [simp]: "length (le16 w) = 2" "length (le32 v) = 4"
  by (simp_all add: le16_def le32_def)

lemma length_put [simp]:
  "length (put16 b i w) = length b" "length (put32 b i v) = length b" "length (put_str b i s) = length b"
  by (simp_all add: put16_def put32_def put_str_def)

lemma byte_at_poke:
  assumes "i + length bs \<le> length b"
  shows "byte_at (poke b i bs) j = (if i \<le> j \<and> j < i + length bs then bs ! (j - i) else byte_at b j)"
  using assms by (auto simp: byte_at_def poke_def nth_append min_def)

lemma byte_at_poke_other:
  assumes "j < i \<or> i + length bs \<le> j"
  shows "byte_at (poke b i bs) j = byte_at b j"
  using assms by (auto simp: byte_at_def poke_def nth_append min_def)

lemma get16_le: "get16 b i = w" if "byte_at b i = ucast w" "byte_at b (i + 1) = ucast (drop_bit 8 w)"
  using that by (intro bit_word_eqI) (auto simp: get16_def bit_simps)

lemma get16_put16: "i + 2 \<le> length b \<Longrightarrow> get16 (put16 b i w) i = w"
  by (rule get16_le) (simp_all add: put16_def byte_at_poke le16_def)

lemma get32_put32: "i + 4 \<le> length b \<Longrightarrow> get32 (put32 b i w) i = w"
  by (simp add: get32_def put32_def byte_at_poke le32_def to_be32_def)

lemma get_poke_other:
  "j + 2 \<le> i \<or> i + length bs \<le> j \<Longrightarrow> get16 (poke b i bs) j = get16 b j"
  "j + 4 \<le> i \<or> i + length bs \<le> j \<Longrightarrow> get32 (poke b i bs) j = get32 b j"
  by (auto simp: get16_def get32_def byte_at_poke_other)

lemma get_put_other:
  "j + 2 \<le> i \<or> i + 2 \<le> j \<Longrightarrow> get16 (put16 b i v) j = get16 b j"
  "j + 4 \<le> i \<or> i + 2 \<le> j \<Longrightarrow> get32 (put16 b i v) j = get32 b j"
  "j + 2 \<le> i \<or> i + 4 \<le> j \<Longrightarrow> get16 (put32 b i w) j = get16 b j"
  "j + 4 \<le> i \<or> i + 4 \<le> j \<Longrightarrow> get32 (put32 b i w) j = get32 b j"
  by (simp_all add: put16_def put32_def get_poke_other)

lemma byte_at_append: "byte_at (xs @ ys) i = (if i < length xs then byte_at xs i else byte_at ys (i - length xs))"
  by (auto simp: byte_at_def nth_append)

lemma byte_at_drop: "byte_at (drop n xs) i = byte_at xs (n + i)"
  by (auto simp: byte_at_def)

end
