(* ===== verification/Ml_Network.thy ===== *)
theory Ml_Network
  imports Ml_Kernel Ml_Bytes Ml_Shell
begin

text \<open>
  Network interfaces (\<open>src/src/ml_network.c\<close>): configuring an interface, its flags, addresses, routes
  and link settings, and the three shell commands over them. \<open>struct ifreq\<close> is a name and the bytes of
  its union, \<open>struct ethtool_cmd\<close> its 44 bytes; a request hands both to the kernel, which may write the
  union or the settings. \<open>inet_addr\<close> is a parameter. \<open>Net_info\<close> and \<open>Net_warning\<close> are lines of the log.
\<close>

section \<open>Requests\<close>

datatype net_request =
    SIOCGIFFLAGS | SIOCSIFFLAGS | SIOCSIFADDR | SIOCSIFNETMASK | SIOCSIFMTU
  | SIOCGIFINDEX | SIOCGIFHWADDR | SIOCGIFADDR | SIOCGIFMTU

record ifreq =
  ifr_name :: string
  ifr_ifru :: bytes

text \<open>The family and the address of a \<open>sockaddr_in\<close>.\<close>

record rtentry =
  rt_dst :: "u16 \<times> u32"
  rt_gateway :: "u16 \<times> u32"
  rt_genmask :: "u16 \<times> u32"
  rt_flags :: u16

datatype filter_query =
    Query_info string
  | Query_entries string u32

datatype net_call =
    Net_socket int int int
  | Net_ioctl int net_request ifreq
  | Net_addrt int rtentry
  | Net_ethtool int ifreq bytes
  | Net_setsockopt int int bytes nat
  | Net_getsockopt int int filter_query u32
  | Net_close int
  | Net_malloc u32
  | Net_free int
  | Net_info string
  | Net_warning string

type_synonym net_kernel = "net_call kernel"

definition NET_AF_INET :: int where "NET_AF_INET = 2"
definition NET_AF_INET6 :: int where "NET_AF_INET6 = 10"
definition SOCK_DGRAM :: int where "SOCK_DGRAM = 2"
definition SOCK_RAW :: int where "SOCK_RAW = 3"
definition IFF_UP :: u16 where "IFF_UP = 1"

definition net_ioctl :: "int \<Rightarrow> net_request \<Rightarrow> ifreq \<Rightarrow> net_kernel \<Rightarrow> (int \<times> ifreq) \<times> net_kernel" where
  "net_ioctl fd req ifr k =
     (let (res, k) = call (Net_ioctl fd req ifr) k
      in ((res, ifr\<lparr>ifr_ifru := overwrite (delivered k) (ifr_ifru ifr)\<rparr>), k))"

section \<open>Helpers\<close>

definition net_open :: "string \<Rightarrow> net_kernel \<Rightarrow> (int \<times> ifreq) \<times> net_kernel" where
  "net_open name k =
     (let (netfd, k) = call (Net_socket NET_AF_INET SOCK_DGRAM 0) k
      in ((netfd, \<lparr>ifr_name = take 15 name, ifr_ifru = replicate 24 0\<rparr>), k))"

definition net_close :: "int \<Rightarrow> net_kernel \<Rightarrow> net_kernel" where
  "net_close netfd k = snd (call (Net_close netfd) k)"

text \<open>A \<open>sockaddr_in\<close>: family, port, address (already in network order) and padding, 16 bytes.\<close>

definition create_address_request :: "(string \<Rightarrow> u32) \<Rightarrow> ifreq \<Rightarrow> string \<Rightarrow> ifreq" where
  "create_address_request inet_addr ifr address =
     ifr\<lparr>ifr_ifru := poke (ifr_ifru ifr) 0
       (le16 (word_of_int NET_AF_INET) @ le16 0 @ le32 (inet_addr address) @ replicate 8 0)\<rparr>"

definition up :: "int \<Rightarrow> ifreq \<Rightarrow> net_kernel \<Rightarrow> int \<times> net_kernel" where
  "up netfd ifr k =
     (let ((res, ifr), k) = net_ioctl netfd SIOCGIFFLAGS ifr k;
          (res, k) =
            (if res = 0
             then let ifr = ifr\<lparr>ifr_ifru := put16 (ifr_ifru ifr) 0 (get16 (ifr_ifru ifr) 0 OR IFF_UP)\<rparr>;
                      ((res, ifr), k) = net_ioctl netfd SIOCSIFFLAGS ifr k
                  in (res, k)
             else (res, k))
      in if res \<noteq> 0 then (- errno k, k) else (res, k))"

definition down :: "int \<Rightarrow> ifreq \<Rightarrow> net_kernel \<Rightarrow> int \<times> net_kernel" where
  "down netfd ifr k =
     (let ((res, ifr), k) = net_ioctl netfd SIOCGIFFLAGS ifr k;
          (res, k) =
            (if res = 0
             then let ifr = ifr\<lparr>ifr_ifru := put16 (ifr_ifru ifr) 0 (get16 (ifr_ifru ifr) 0 AND NOT IFF_UP)\<rparr>;
                      ((res, ifr), k) = net_ioctl netfd SIOCSIFFLAGS ifr k
                  in (res, k)
             else (res, k))
      in if res \<noteq> 0 then (- errno k, k) else (res, k))"

definition set_ip_address :: "(string \<Rightarrow> u32) \<Rightarrow> int \<Rightarrow> ifreq \<Rightarrow> string \<Rightarrow> net_kernel \<Rightarrow> (int \<times> ifreq) \<times> net_kernel" where
  "set_ip_address inet_addr netfd ifr address k =
     net_ioctl netfd SIOCSIFADDR (create_address_request inet_addr ifr address) k"

definition set_netmask :: "(string \<Rightarrow> u32) \<Rightarrow> int \<Rightarrow> ifreq \<Rightarrow> string \<Rightarrow> net_kernel \<Rightarrow> (int \<times> ifreq) \<times> net_kernel" where
  "set_netmask inet_addr netfd ifr netmask k =
     net_ioctl netfd SIOCSIFNETMASK (create_address_request inet_addr ifr netmask) k"

definition set_mtu :: "int \<Rightarrow> ifreq \<Rightarrow> int \<Rightarrow> net_kernel \<Rightarrow> (int \<times> ifreq) \<times> net_kernel" where
  "set_mtu netfd ifr mtu k =
     net_ioctl netfd SIOCSIFMTU (ifr\<lparr>ifr_ifru := put32 (ifr_ifru ifr) 0 (word_of_int mtu)\<rparr>) k"

definition get_ifreq :: "string \<Rightarrow> net_request \<Rightarrow> net_kernel \<Rightarrow> (int \<times> ifreq) \<times> net_kernel" where
  "get_ifreq name req k =
     (let ((netfd, ifr), k) = net_open name k
      in if netfd \<noteq> - 1
         then let ((res, ifr), k) = net_ioctl netfd req ifr k
              in ((res, ifr), net_close netfd k)
         else ((- EGENERAL, ifr), k))"

section \<open>Interfaces\<close>

definition ml_network_interface_configure ::
  "(string \<Rightarrow> u32) \<Rightarrow> string \<Rightarrow> string \<Rightarrow> string \<Rightarrow> int \<Rightarrow> net_kernel \<Rightarrow> int \<times> net_kernel" where
  "ml_network_interface_configure inet_addr name ipv4_address ipv4_netmask mtu k =
     (let ((netfd, ifr), k) = net_open name k
      in if netfd = - 1 then (- EGENERAL, k)
         else
           let ((res, ifr), k) = set_ip_address inet_addr netfd ifr ipv4_address k
           in if res \<noteq> 0 then (res, net_close netfd k)
              else
                let ((res, ifr), k) = set_netmask inet_addr netfd ifr ipv4_netmask k
                in if res \<noteq> 0 then (res, net_close netfd k)
                   else
                     let ((res, ifr), k) = set_mtu netfd ifr mtu k
                     in (res, net_close netfd k))"

definition ml_network_interface_up :: "string \<Rightarrow> net_kernel \<Rightarrow> int \<times> net_kernel" where
  "ml_network_interface_up name k =
     (let ((netfd, ifr), k) = net_open name k
      in if netfd \<noteq> - 1 then let (res, k) = up netfd ifr k in (res, net_close netfd k)
         else (- EGENERAL, k))"

definition ml_network_interface_down :: "string \<Rightarrow> net_kernel \<Rightarrow> int \<times> net_kernel" where
  "ml_network_interface_down name k =
     (let ((netfd, ifr), k) = net_open name k
      in if netfd \<noteq> - 1 then let (res, k) = down netfd ifr k in (res, net_close netfd k)
         else (- EGENERAL, k))"

text \<open>The second result is what is stored through the pointer, when anything is.\<close>

definition ml_network_interface_index :: "string \<Rightarrow> net_kernel \<Rightarrow> (int \<times> int option) \<times> net_kernel" where
  "ml_network_interface_index name k =
     (let ((res, ifr), k) = get_ifreq name SIOCGIFINDEX k
      in ((res, if res = 0 then Some (sint (get32 (ifr_ifru ifr) 0)) else None), k))"

definition ml_network_interface_mac_address :: "string \<Rightarrow> net_kernel \<Rightarrow> (int \<times> bytes option) \<times> net_kernel" where
  "ml_network_interface_mac_address name k =
     (let ((res, ifr), k) = get_ifreq name SIOCGIFHWADDR k
      in ((res, if res = 0 then Some (take 6 (drop 2 (ifr_ifru ifr))) else None), k))"

text \<open>An \<open>in_addr\<close> as its four bytes in memory.\<close>

definition ml_network_interface_ip_address :: "string \<Rightarrow> net_kernel \<Rightarrow> (int \<times> bytes option) \<times> net_kernel" where
  "ml_network_interface_ip_address name k =
     (let ((res, ifr), k) = get_ifreq name SIOCGIFADDR k
      in ((res, if res = 0 then Some (take 4 (drop 4 (ifr_ifru ifr))) else None), k))"

definition ml_network_interface_mtu :: "string \<Rightarrow> net_kernel \<Rightarrow> int \<times> net_kernel" where
  "ml_network_interface_mtu name k =
     (let ((res, ifr), k) = get_ifreq name SIOCGIFMTU k
      in (if res = 0 then sint (get32 (ifr_ifru ifr) 0) else res, k))"

definition default_route :: "u32 \<Rightarrow> rtentry" where
  "default_route gateway =
     \<lparr>rt_dst = (word_of_int NET_AF_INET, 0), rt_gateway = (word_of_int NET_AF_INET, gateway),
      rt_genmask = (word_of_int NET_AF_INET, 0), rt_flags = 1 OR 2\<rparr>"

definition ml_network_interface_add_route :: "(string \<Rightarrow> u32) \<Rightarrow> string \<Rightarrow> string \<Rightarrow> net_kernel \<Rightarrow> int \<times> net_kernel" where
  "ml_network_interface_add_route inet_addr name ip_address k =
     (let ((netfd, ifr), k) = net_open name k
      in if netfd \<noteq> - 1
         then let (res, k) = call (Net_addrt netfd (default_route (inet_addr ip_address))) k;
                  res = (if res = - 1 then if errno k = EEXIST then 0 else - errno k else res)
              in (res, net_close netfd k)
         else (- EGENERAL, k))"

section \<open>Link settings\<close>

definition ETHTOOL_GSET :: u32 where "ETHTOOL_GSET = 1"
definition ETHTOOL_SSET :: u32 where "ETHTOOL_SSET = 2"

definition net_ethtool :: "int \<Rightarrow> ifreq \<Rightarrow> bytes \<Rightarrow> net_kernel \<Rightarrow> (int \<times> bytes) \<times> net_kernel" where
  "net_ethtool fd ifr settings k =
     (let (res, k) = call (Net_ethtool fd ifr settings) k in ((res, overwrite (delivered k) settings), k))"

text \<open>\<open>ethtool_cmd_speed\<close> and \<open>ethtool_cmd_speed_set\<close> of \<open>linux/ethtool.h\<close>: the speed is in two halves.\<close>

definition ethtool_cmd_speed :: "bytes \<Rightarrow> u32" where
  "ethtool_cmd_speed settings = push_bit 16 (ucast (get16 settings 28)) OR ucast (get16 settings 12)"

definition ethtool_cmd_speed_set :: "bytes \<Rightarrow> u32 \<Rightarrow> bytes" where
  "ethtool_cmd_speed_set settings speed = put16 (put16 settings 12 (ucast speed)) 28 (ucast (drop_bit 16 speed))"

definition overwrite_settings :: "int \<Rightarrow> int \<Rightarrow> int \<Rightarrow> bytes \<Rightarrow> bytes" where
  "overwrite_settings speed duplex autoneg settings =
     (let settings = put32 settings 0 ETHTOOL_SSET;
          settings = (if speed \<noteq> - 1 then ethtool_cmd_speed_set settings (word_of_int speed) else settings);
          settings = (if duplex \<noteq> - 1 then poke settings 14 [word_of_int duplex] else settings)
      in if autoneg \<noteq> - 1 then poke settings 18 [word_of_int autoneg] else settings)"

definition link_message :: "int \<Rightarrow> int \<Rightarrow> int \<Rightarrow> string" where
  "link_message speed duplex autoneg =
     ''Setting speed '' @ show_int speed @ '', duplex '' @ show_int duplex @ '' and autoneg '' @ show_int autoneg @ ''.''"

text \<open>\<open>stack\<close> is what the uninitialised \<open>settings\<close> holds.\<close>

definition ml_network_interface_link_configure ::
  "bytes \<Rightarrow> string \<Rightarrow> int \<Rightarrow> int \<Rightarrow> int \<Rightarrow> net_kernel \<Rightarrow> int \<times> net_kernel" where
  "ml_network_interface_link_configure stack name speed duplex autoneg k =
     (let ((netfd, ifr), k) = net_open name k
      in if netfd = - 1 then (- errno k, k)
         else
           let ((res, settings), k) = net_ethtool netfd ifr (put32 stack 0 ETHTOOL_GSET) k
           in if res = - 1 then let res = - errno k in (res, net_close netfd k)
              else
                let (_, k) = call (Net_info (link_message speed duplex autoneg)) k;
                    ((res, settings), k) = net_ethtool netfd ifr (overwrite_settings speed duplex autoneg settings) k
                in if res = - 1 then let res = - errno k in (res, net_close netfd k)
                   else (0, net_close netfd k))"

section \<open>Shell commands\<close>

text \<open>\<open>inet_ntoa\<close> prints the four bytes of the address; \<open>atoi\<close> is \<open>strtol\<close> cut to an \<open>int\<close>.\<close>

definition inet_ntoa :: "bytes \<Rightarrow> string" where
  "inet_ntoa a = show_nat (unat (byte_at a 0)) @ ''.'' @ show_nat (unat (byte_at a 1)) @ ''.''
     @ show_nat (unat (byte_at a 2)) @ ''.'' @ show_nat (unat (byte_at a 3))"

definition blank :: "char \<Rightarrow> bool" where
  "blank c \<longleftrightarrow> c = CHR '' '' \<or> 9 \<le> (of_char c :: nat) \<and> (of_char c :: nat) \<le> 13"

definition decimal :: "char \<Rightarrow> bool" where
  "decimal c \<longleftrightarrow> 48 \<le> (of_char c :: nat) \<and> (of_char c :: nat) \<le> 57"

definition digits_value :: "string \<Rightarrow> int" where
  "digits_value s = foldl (\<lambda>n c. 10 * n + (int (of_char c) - 48)) 0 (takeWhile decimal s)"

definition strtol10 :: "string \<Rightarrow> int" where
  "strtol10 s =
     (let s = dropWhile blank s;
          n = (case s of [] \<Rightarrow> 0
               | c # t \<Rightarrow> if c = CHR ''-'' then - digits_value t else if c = CHR ''+'' then digits_value t
                         else digits_value s)
      in max (- (2 ^ 63)) (min (2 ^ 63 - 1) n))"

definition atoi :: "string \<Rightarrow> int" where
  "atoi s = sint (word_of_int (strtol10 s) :: u32)"

definition mac_string :: "bytes \<Rightarrow> string" where
  "mac_string m = hex_padded 2 (unat (byte_at m 0)) @ '':'' @ hex_padded 2 (unat (byte_at m 1)) @ '':''
     @ hex_padded 2 (unat (byte_at m 2)) @ '':'' @ hex_padded 2 (unat (byte_at m 3)) @ '':''
     @ hex_padded 2 (unat (byte_at m 4)) @ '':'' @ hex_padded 2 (unat (byte_at m 5))"

definition command_ifconfig_print :: "string \<Rightarrow> net_kernel \<Rightarrow> (int \<times> string) \<times> net_kernel" where
  "command_ifconfig_print name k =
     (let ((_, ip), k) = ml_network_interface_ip_address name k;
          out1 = ''IPAddress:  '' @ (case ip of Some a \<Rightarrow> inet_ntoa a | None \<Rightarrow> ''failure'') @ newline;
          ((_, mac), k) = ml_network_interface_mac_address name k;
          out2 = ''MACAddress: '' @ (case mac of Some m \<Rightarrow> mac_string m | None \<Rightarrow> ''failure'') @ newline;
          (res, k) = ml_network_interface_mtu name k;
          out3 = ''MTU:        '' @ (if res > 0 then show_int res else ''failure'') @ newline;
          ((_, index), k) = ml_network_interface_index name k;
          out4 = ''Index:      '' @ (case index of Some i \<Rightarrow> show_int i | None \<Rightarrow> ''failure'') @ newline
      in ((0, out1 @ out2 @ out3 @ out4), k))"

definition ifconfig_usage :: string where
  "ifconfig_usage = ''Usage: ifconfig <interface>'' @ newline
     @ ''       ifconfig <interface> up/down'' @ newline
     @ ''       ifconfig <interface> <ip-address> <netmask> <mtu>'' @ newline"

definition command_ifconfig :: "(string \<Rightarrow> u32) \<Rightarrow> string list \<Rightarrow> net_kernel \<Rightarrow> (int \<times> string) \<times> net_kernel" where
  "command_ifconfig inet_addr argv k =
     (let ((res, out), k) =
            (if length argv = 2 then command_ifconfig_print (argv ! 1) k
             else if length argv = 3
             then if strcmp (argv ! 2) ''up'' = 0
                  then let (res, k) = ml_network_interface_up (argv ! 1) k in ((res, ''''), k)
                  else if strcmp (argv ! 2) ''down'' = 0
                  then let (res, k) = ml_network_interface_down (argv ! 1) k in ((res, ''''), k)
                  else ((- EINVAL, ''''), k)
             else if length argv = 5
             then let (res, k) = ml_network_interface_configure inet_addr (argv ! 1) (argv ! 2) (argv ! 3) (atoi (argv ! 4)) k
                  in ((res, ''''), k)
             else ((- EINVAL, ''''), k))
      in ((res, if res \<noteq> 0 then out @ ifconfig_usage else out), k))"

definition command_route :: "(string \<Rightarrow> u32) \<Rightarrow> string list \<Rightarrow> net_kernel \<Rightarrow> (int \<times> string) \<times> net_kernel" where
  "command_route inet_addr argv k =
     (let (res, k) =
            (if length argv = 3 then ml_network_interface_add_route inet_addr (argv ! 1) (argv ! 2) k
             else (- EINVAL, k))
      in ((res, if res \<noteq> 0 then ''Usage: route <interface> <ip-address>'' @ newline else ''''), k))"

definition duplex_string :: "u8 \<Rightarrow> string" where
  "duplex_string duplex =
     (if duplex = 0 then ''half'' else if duplex = 1 then ''full'' else if duplex = 0xff then ''unknown''
      else ''invalid'')"

definition autoneg_string :: "u8 \<Rightarrow> string" where
  "autoneg_string autoneg = (if autoneg = 0 then ''off'' else if autoneg = 1 then ''on'' else ''invalid'')"

definition command_ethtool_print :: "bytes \<Rightarrow> string \<Rightarrow> net_kernel \<Rightarrow> (int \<times> string) \<times> net_kernel" where
  "command_ethtool_print stack name k =
     (let ((netfd, ifr), k) = net_open name k
      in if netfd = - 1 then ((- errno k, ''''), k)
         else
           let ((res, settings), k) = net_ethtool netfd ifr (put32 stack 0 ETHTOOL_GSET) k
           in if res = - 1 then let res = - errno k in ((res, ''''), net_close netfd k)
              else
                let speed = ethtool_cmd_speed settings;
                    out1 = ''Speed:           '' @ (if speed = - 1 then ''-'' else show_nat (unat speed)) @ '' Mbps'' @ newline;
                    out2 = ''Duplex:          '' @ duplex_string (byte_at settings 14) @ newline;
                    out3 = ''Autonegotiation: '' @ autoneg_string (byte_at settings 18) @ newline
                in ((0, out1 @ out2 @ out3), net_close netfd k))"

definition is_changed :: "string \<Rightarrow> bool" where
  "is_changed arg \<longleftrightarrow> strcmp arg ''-'' \<noteq> 0"

definition duplex_argument :: "string \<Rightarrow> int option" where
  "duplex_argument arg =
     (if is_changed arg
      then if strcmp arg ''half'' = 0 then Some 0 else if strcmp arg ''full'' = 0 then Some 1 else None
      else Some (- 1))"

definition autoneg_argument :: "string \<Rightarrow> int option" where
  "autoneg_argument arg =
     (if is_changed arg
      then if strcmp arg ''on'' = 0 then Some 1 else if strcmp arg ''off'' = 0 then Some 0 else None
      else Some (- 1))"

definition command_ethtool_link_configure :: "bytes \<Rightarrow> string list \<Rightarrow> net_kernel \<Rightarrow> int \<times> net_kernel" where
  "command_ethtool_link_configure stack argv k =
     (if length argv \<noteq> 5 then (- EINVAL, k)
      else
        let speed = (if is_changed (argv ! 2) then atoi (argv ! 2) else - 1)
        in case duplex_argument (argv ! 3) of
             None \<Rightarrow> (- EINVAL, k)
           | Some duplex \<Rightarrow>
               (case autoneg_argument (argv ! 4) of
                  None \<Rightarrow> (- EINVAL, k)
                | Some autoneg \<Rightarrow> ml_network_interface_link_configure stack (argv ! 1) speed duplex autoneg k))"

definition ethtool_usage :: string where
  "ethtool_usage = ''Usage: ethtool <interface>'' @ newline
     @ ''       ethtool <interface> <speed> <duplex> <autoneg>'' @ newline
     @ ''         where'' @ newline
     @ ''           <speed> is the speed in Mbps or -'' @ newline
     @ ''           <duplex> is half, full or -'' @ newline
     @ ''           <autoneg> is on, off or -'' @ newline"

definition command_ethtool :: "bytes \<Rightarrow> string list \<Rightarrow> net_kernel \<Rightarrow> (int \<times> string) \<times> net_kernel" where
  "command_ethtool stack argv k =
     (let ((res, out), k) =
            (if length argv = 2 then command_ethtool_print stack (argv ! 1) k
             else let (res, k) = command_ethtool_link_configure stack argv k in ((res, ''''), k))
      in ((res, if res \<noteq> 0 then out @ ethtool_usage else out), k))"

text \<open>The callbacks are numbered after the ones of the shell.\<close>

definition ml_network_init :: "(nat \<Rightarrow> bool) \<Rightarrow> nat \<Rightarrow> shell \<Rightarrow> shell res" where
  "ml_network_init mem first st =
     andthen (ml_shell_register_command mem ''ifconfig'' ''Network interface management.'' first st) (\<lambda>st.
     andthen (ml_shell_register_command mem ''route'' ''Network routing.'' (first + 1) st) (\<lambda>st.
       ml_shell_register_command mem ''ethtool'' ''Ethernet link settings.'' (first + 2) st))"

section \<open>Descriptors\<close>

fun net_opens :: "net_call \<Rightarrow> bool" where
  "net_opens (Net_socket _ _ _) = True"
| "net_opens _ = False"

fun net_closes :: "net_call \<Rightarrow> int option" where
  "net_closes (Net_close f) = Some f"
| "net_closes _ = None"

interpretation net: descriptor_session net_opens net_closes Net_close
  by unfold_locales simp_all

abbreviation net_neutral :: "(net_kernel \<Rightarrow> 'r \<times> net_kernel) \<Rightarrow> bool" where
  "net_neutral f \<equiv> neutral net_opens net_closes f"

abbreviation request :: "string \<Rightarrow> ifreq" where
  "request name \<equiv> \<lparr>ifr_name = take 15 name, ifr_ifru = replicate 24 0\<rparr>"

abbreviation net_session :: "(net_kernel \<Rightarrow> 'r) \<Rightarrow> (int \<Rightarrow> net_kernel \<Rightarrow> 'r \<times> net_kernel) \<Rightarrow> net_kernel \<Rightarrow> 'r \<times> net_kernel" where
  "net_session \<equiv> with_fd (Net_socket NET_AF_INET SOCK_DGRAM 0) Net_close"

lemmas net_call_defs = net_ioctl_def net_ethtool_def call_eq Let_def

lemma net_session_neutral: "(\<And>fd. net_neutral (work fd)) \<Longrightarrow> net_neutral (net_session failed work)"
  by (rule net.with_fd_neutral) simp_all

lemma net_ioctl_neutral: "net_neutral (net_ioctl fd req ifr)"
  by (auto simp: neutral_def net_call_defs)

lemma up_neutral: "net_neutral (up fd ifr)" and down_neutral: "net_neutral (down fd ifr)"
  by (auto simp: neutral_def up_def down_def net_call_defs split: if_splits)

text \<open>Each function is a session: the work between opening and closing the socket.\<close>

lemma get_ifreq_session:
  "get_ifreq name req = net_session (\<lambda>_. (- EGENERAL, request name)) (\<lambda>fd. net_ioctl fd req (request name))"
  by (rule ext) (simp add: get_ifreq_def with_fd_def net_open_def net_close_def call_eq Let_def split: prod.split)

lemma up_session:
  "ml_network_interface_up name = net_session (\<lambda>_. - EGENERAL) (\<lambda>fd. up fd (request name))"
  "ml_network_interface_down name = net_session (\<lambda>_. - EGENERAL) (\<lambda>fd. down fd (request name))"
  by (rule ext, simp add: ml_network_interface_up_def ml_network_interface_down_def with_fd_def net_open_def
        net_close_def call_eq Let_def split: prod.split)+

definition configure_work :: "(string \<Rightarrow> u32) \<Rightarrow> string \<Rightarrow> string \<Rightarrow> string \<Rightarrow> int \<Rightarrow> int \<Rightarrow> net_kernel \<Rightarrow> int \<times> net_kernel" where
  "configure_work inet_addr name ip netmask mtu fd k =
     (let ((res, ifr), k) = set_ip_address inet_addr fd (request name) ip k
      in if res \<noteq> 0 then (res, k)
         else let ((res, ifr), k) = set_netmask inet_addr fd ifr netmask k
              in if res \<noteq> 0 then (res, k)
                 else let ((res, ifr), k) = set_mtu fd ifr mtu k in (res, k))"

lemma configure_session:
  "ml_network_interface_configure inet_addr name ip netmask mtu =
     net_session (\<lambda>_. - EGENERAL) (configure_work inet_addr name ip netmask mtu)"
  by (rule ext) (simp add: ml_network_interface_configure_def configure_work_def with_fd_def net_open_def
    net_close_def call_eq Let_def split: prod.split)

lemma configure_work_neutral: "net_neutral (configure_work inet_addr name ip netmask mtu fd)"
  by (auto simp: neutral_def configure_work_def set_ip_address_def set_netmask_def set_mtu_def net_call_defs
      split: if_splits)

definition route_work :: "u32 \<Rightarrow> int \<Rightarrow> net_kernel \<Rightarrow> int \<times> net_kernel" where
  "route_work gateway fd k =
     (let (res, k) = call (Net_addrt fd (default_route gateway)) k
      in (if res = - 1 then if errno k = EEXIST then 0 else - errno k else res, k))"

lemma route_session:
  "ml_network_interface_add_route inet_addr name ip =
     net_session (\<lambda>_. - EGENERAL) (route_work (inet_addr ip))"
  by (rule ext) (simp add: ml_network_interface_add_route_def route_work_def with_fd_def net_open_def
    net_close_def call_eq Let_def)

lemma route_work_neutral: "net_neutral (route_work gateway fd)"
  by (auto simp: neutral_def route_work_def net_call_defs)

definition link_work :: "bytes \<Rightarrow> string \<Rightarrow> int \<Rightarrow> int \<Rightarrow> int \<Rightarrow> int \<Rightarrow> net_kernel \<Rightarrow> int \<times> net_kernel" where
  "link_work stack name speed duplex autoneg fd k =
     (let ((res, settings), k) = net_ethtool fd (request name) (put32 stack 0 ETHTOOL_GSET) k
      in if res = - 1 then (- errno k, k)
         else let (_, k) = call (Net_info (link_message speed duplex autoneg)) k;
                  ((res, settings), k) = net_ethtool fd (request name) (overwrite_settings speed duplex autoneg settings) k
              in if res = - 1 then (- errno k, k) else (0, k))"

lemma link_session:
  "ml_network_interface_link_configure stack name speed duplex autoneg =
     net_session (\<lambda>k. - errno k) (link_work stack name speed duplex autoneg)"
  by (rule ext) (simp add: ml_network_interface_link_configure_def link_work_def with_fd_def net_open_def
    net_close_def call_eq Let_def split: prod.split)

lemma link_work_neutral: "net_neutral (link_work stack name speed duplex autoneg fd)"
  by (auto simp: neutral_def link_work_def net_call_defs split: if_splits)

lemma interface_neutral:
  "net_neutral (get_ifreq name req)"
  "net_neutral (ml_network_interface_up name)"
  "net_neutral (ml_network_interface_down name)"
  "net_neutral (ml_network_interface_configure inet_addr name ip netmask mtu)"
  "net_neutral (ml_network_interface_add_route inet_addr name ip)"
  "net_neutral (ml_network_interface_link_configure stack name speed duplex autoneg)"
  unfolding get_ifreq_session up_session configure_session route_session link_session
  by (intro net_session_neutral net_ioctl_neutral up_neutral down_neutral configure_work_neutral
      route_work_neutral link_work_neutral)+

lemma query_neutral:
  "net_neutral (ml_network_interface_index name)"
  "net_neutral (ml_network_interface_mac_address name)"
  "net_neutral (ml_network_interface_ip_address name)"
  "net_neutral (ml_network_interface_mtu name)"
proof -
  show "net_neutral (ml_network_interface_index name)"
    by (rule neutral_snd [OF interface_neutral(1) [of name SIOCGIFINDEX]])
      (simp add: ml_network_interface_index_def split: prod.split)
  show "net_neutral (ml_network_interface_mac_address name)"
    by (rule neutral_snd [OF interface_neutral(1) [of name SIOCGIFHWADDR]])
      (simp add: ml_network_interface_mac_address_def split: prod.split)
  show "net_neutral (ml_network_interface_ip_address name)"
    by (rule neutral_snd [OF interface_neutral(1) [of name SIOCGIFADDR]])
      (simp add: ml_network_interface_ip_address_def split: prod.split)
  show "net_neutral (ml_network_interface_mtu name)"
    by (rule neutral_snd [OF interface_neutral(1) [of name SIOCGIFMTU]])
      (simp add: ml_network_interface_mtu_def split: prod.split)
qed

lemma ethtool_print_neutral: "net_neutral (command_ethtool_print stack name)"
proof (rule neutral_snd [OF net_session_neutral [where failed = "\<lambda>_. ()"
    and work = "\<lambda>fd k. ((), snd (net_ethtool fd (request name) (put32 stack 0 ETHTOOL_GSET) k))"]])
  show "net_neutral (\<lambda>k. ((), snd (net_ethtool fd (request name) (put32 stack 0 ETHTOOL_GSET) k)))" for fd
    by (auto simp: neutral_def net_call_defs)
qed (simp add: command_ethtool_print_def with_fd_def net_open_def net_close_def call_eq Let_def net_ethtool_def
    split: prod.split)

lemma ifconfig_print_neutral: "net_neutral (command_ifconfig_print name)"
proof -
  have a: "net_neutral (\<lambda>k. let (x, k) = ml_network_interface_ip_address name k
      in ml_network_interface_mac_address name k)"
    by (intro neutral_bind query_neutral)
  have b: "net_neutral (\<lambda>k. let (x, k) = (let (x, k) = ml_network_interface_ip_address name k
      in ml_network_interface_mac_address name k); (x, k) = ml_network_interface_mtu name k
      in ml_network_interface_index name k)"
    by (intro neutral_bind a query_neutral)
  show ?thesis
    by (rule neutral_snd [OF b]) (simp add: command_ifconfig_print_def split: prod.split)
qed

lemma command_neutral:
  "net_neutral (command_ifconfig inet_addr argv)"
  "net_neutral (command_route inet_addr argv)"
  "net_neutral (command_ethtool stack argv)"
proof -
  have snd_case: "snd (case p of ((a, b), k) \<Rightarrow> ((f a b, g a b), k)) = snd p" for p :: "('a \<times> 'b) \<times> 'c"
    and f :: "'a \<Rightarrow> 'b \<Rightarrow> 'd" and g :: "'a \<Rightarrow> 'b \<Rightarrow> 'e"
    by (simp split: prod.split)
  have i: "net_neutral (\<lambda>k. if length argv = 2 then ((), snd (command_ifconfig_print (argv ! 1) k))
      else if length argv = 3
      then if strcmp (argv ! 2) ''up'' = 0 then ((), snd (ml_network_interface_up (argv ! 1) k))
           else if strcmp (argv ! 2) ''down'' = 0 then ((), snd (ml_network_interface_down (argv ! 1) k)) else ((), k)
      else if length argv = 5
      then ((), snd (ml_network_interface_configure inet_addr (argv ! 1) (argv ! 2) (argv ! 3) (atoi (argv ! 4)) k))
      else ((), k))"
    by (intro neutral_if neutral_return neutral_snd [OF ifconfig_print_neutral] neutral_snd [OF interface_neutral(2)]
        neutral_snd [OF interface_neutral(3)] neutral_snd [OF interface_neutral(4)]) simp_all
  show "net_neutral (command_ifconfig inet_addr argv)"
    by (rule neutral_snd [OF i]) (simp add: command_ifconfig_def snd_case Let_def split: prod.split)
  have r: "net_neutral (\<lambda>k. if length argv = 3
      then ml_network_interface_add_route inet_addr (argv ! 1) (argv ! 2) k else (- EINVAL, k))"
    by (intro neutral_if neutral_return interface_neutral)
  show "net_neutral (command_route inet_addr argv)"
    by (rule neutral_snd [OF r]) (simp add: command_route_def Let_def split: prod.split)
  have l: "net_neutral (command_ethtool_link_configure stack argv)"
    unfolding command_ethtool_link_configure_def [abs_def] Let_def
    by (intro neutral_if; cases "duplex_argument (argv ! 3)"; cases "autoneg_argument (argv ! 4)")
      (simp_all add: neutral_return interface_neutral)
  have e: "net_neutral (\<lambda>k. if length argv = 2 then ((), snd (command_ethtool_print stack (argv ! 1) k))
      else ((), snd (command_ethtool_link_configure stack argv k)))"
    by (intro neutral_if neutral_snd [OF ethtool_print_neutral] neutral_snd [OF l]) simp_all
  show "net_neutral (command_ethtool stack argv)"
    by (rule neutral_snd [OF e]) (simp add: command_ethtool_def snd_case Let_def split: prod.split)
qed

section \<open>What the requests carry\<close>

text \<open>
  The address a request carries, or its MTU: the part of the union the kernel reads.
\<close>

fun carried :: "net_call \<times> int \<Rightarrow> (net_request \<times> string \<times> bytes) option" where
  "carried (Net_ioctl fd SIOCSIFMTU ifr, r) = Some (SIOCSIFMTU, ifr_name ifr, take 4 (ifr_ifru ifr))"
| "carried (Net_ioctl fd req ifr, r) = Some (req, ifr_name ifr, take 16 (ifr_ifru ifr))"
| "carried _ = None"

definition sockaddr_in :: "u32 \<Rightarrow> bytes" where
  "sockaddr_in address = le16 2 @ le16 0 @ le32 address @ replicate 8 0"

definition configure_requests :: "string \<Rightarrow> u32 \<Rightarrow> u32 \<Rightarrow> int \<Rightarrow> (net_request \<times> string \<times> bytes) list" where
  "configure_requests name ip netmask mtu =
     [(SIOCSIFADDR, take 15 name, sockaddr_in ip), (SIOCSIFNETMASK, take 15 name, sockaddr_in netmask),
      (SIOCSIFMTU, take 15 name, le32 (word_of_int mtu))]"

lemma take_poke: "length bs = n \<Longrightarrow> n \<le> length b \<Longrightarrow> take n (poke b 0 bs) = bs"
  by (simp add: poke_def min_def)

lemma length_sockaddr_in [simp]: "length (sockaddr_in a) = 16"
  by (simp add: sockaddr_in_def)

lemma create_address_request_eq:
  "create_address_request inet_addr ifr address = ifr\<lparr>ifr_ifru := poke (ifr_ifru ifr) 0 (sockaddr_in (inet_addr address))\<rparr>"
  by (simp add: create_address_request_def sockaddr_in_def NET_AF_INET_def)

lemma take_sockaddr: "length b = 24 \<Longrightarrow> take 16 (poke b 0 (sockaddr_in a)) = sockaddr_in a"
  by (rule take_poke) simp_all

lemma take_mtu: "length b = 24 \<Longrightarrow> take 4 (put32 b 0 w) = le32 w"
  unfolding put32_def by (rule take_poke) simp_all

lemmas configure_defs = configure_work_def set_ip_address_def set_netmask_def set_mtu_def net_call_defs
  create_address_request_eq take_sockaddr take_mtu configure_requests_def

lemma configure_work_requests:
  assumes "configure_work inet_addr name ip netmask mtu fd k = (res, k')"
  shows "\<exists>cs i. k' = k\<lparr>calls := calls k @ cs\<rparr> \<and> i \<le> 2
    \<and> map carried cs = map Some (take (Suc i) (configure_requests name (inet_addr ip) (inet_addr netmask) mtu))
    \<and> map snd cs = replicate i 0 @ [res] \<and> (i < 2 \<longrightarrow> res \<noteq> 0)"
proof -
  let ?n = "length (calls k)"
  consider "answer k ?n \<noteq> 0" | "answer k ?n = 0" "answer k (Suc ?n) \<noteq> 0"
    | "answer k ?n = 0" "answer k (Suc ?n) = 0" by blast
  then show ?thesis
  proof cases
    case 1
    then show ?thesis using assms
      by (intro exI [of _ "drop ?n (calls k')"] exI [of _ 0]) (auto simp: configure_defs)
  next
    case 2
    then show ?thesis using assms
      by (intro exI [of _ "drop ?n (calls k')"] exI [of _ 1]) (auto simp: configure_defs)
  next
    case 3
    then show ?thesis using assms
      by (intro exI [of _ "drop ?n (calls k')"] exI [of _ 2]) (auto simp: configure_defs numeral_2_eq_2)
  qed
qed

lemma flags_work:
  assumes "up fd (request name) k = (res, k') \<and> f = (\<lambda>w. w OR 1) \<or> down fd (request name) k = (res, k') \<and> f = (\<lambda>w. w AND NOT 1)"
    and "answer k (length (calls k)) = 0"
  defines "flags \<equiv> overwrite (reply k (length (calls k))) (replicate 24 0)"
  shows "\<exists>r. k' = k\<lparr>calls := calls k @ [(Net_ioctl fd SIOCGIFFLAGS (request name), 0),
      (Net_ioctl fd SIOCSIFFLAGS \<lparr>ifr_name = take 15 name, ifr_ifru = put16 flags 0 (f (get16 flags 0))\<rparr>, r)]\<rparr>
    \<and> res = (if r = 0 then 0 else - errno_at k (Suc (length (calls k))))"
  using assms by (auto simp: up_def down_def net_call_defs delivered_def errno_def IFF_UP_def split: if_splits)

text \<open>The bytes of the link settings a request to change them may touch.\<close>

definition touched :: "int \<Rightarrow> int \<Rightarrow> int \<Rightarrow> nat set" where
  "touched speed duplex autoneg = {0, 1, 2, 3} \<union> (if speed \<noteq> - 1 then {12, 13, 28, 29} else {})
     \<union> (if duplex \<noteq> - 1 then {14} else {}) \<union> (if autoneg \<noteq> - 1 then {18} else {})"

lemmas settings_defs = overwrite_settings_def ethtool_cmd_speed_set_def put16_def put32_def Let_def

lemma settings_untouched:
  assumes "i \<notin> touched speed duplex autoneg"
  shows "byte_at (overwrite_settings speed duplex autoneg settings) i = byte_at settings i"
proof -
  have "4 \<le> i" using assms by (auto simp: touched_def)
  then have "byte_at (put32 settings 0 w) i = byte_at settings i" for w
    by (simp add: put32_def byte_at_poke_other)
  moreover have "speed \<noteq> - 1 \<Longrightarrow> byte_at (ethtool_cmd_speed_set b w) i = byte_at b i" for b w
  proof -
    assume "speed \<noteq> - 1"
    then have "i \<notin> {12, 13, 28, 29}" using assms by (auto simp: touched_def)
    then have "i < 12 \<or> 14 \<le> i" "i < 28 \<or> 30 \<le> i" by auto
    then show "byte_at (ethtool_cmd_speed_set b w) i = byte_at b i"
      by (simp add: ethtool_cmd_speed_set_def put16_def byte_at_poke_other)
  qed
  moreover have "duplex \<noteq> - 1 \<Longrightarrow> byte_at (poke b 14 [w]) i = byte_at b i" for b w
    using assms by (intro byte_at_poke_other) (simp add: touched_def, arith)
  moreover have "autoneg \<noteq> - 1 \<Longrightarrow> byte_at (poke b 18 [w]) i = byte_at b i" for b w
    using assms by (intro byte_at_poke_other) (simp add: touched_def, arith)
  ultimately show ?thesis by (simp add: overwrite_settings_def Let_def)
qed

lemma length_overwrite_settings [simp]:
  "length (overwrite_settings speed duplex autoneg settings) = length settings"
  by (simp add: overwrite_settings_def ethtool_cmd_speed_set_def Let_def)

lemma ethtool_cmd_speed_set_get:
  assumes "30 \<le> length b"
  shows "ethtool_cmd_speed (ethtool_cmd_speed_set b speed) = speed"
proof -
  have "get16 (ethtool_cmd_speed_set b speed) 28 = ucast (drop_bit 16 speed)"
    "get16 (ethtool_cmd_speed_set b speed) 12 = ucast speed"
    using assms by (simp_all add: ethtool_cmd_speed_set_def get16_put16 get_put_other)
  moreover have "push_bit 16 (ucast (ucast (drop_bit 16 speed) :: u16)) OR ucast (ucast speed :: u16) = speed"
    by (rule bit_word_eqI) (auto simp: bit_simps)
  ultimately show ?thesis by (simp add: ethtool_cmd_speed_def)
qed

lemma settings_changed:
  fixes speed duplex autoneg :: int
  assumes "length settings = 44"
  defines "s \<equiv> overwrite_settings speed duplex autoneg settings"
  shows "get32 s 0 = ETHTOOL_SSET"
    and "speed \<noteq> - 1 \<Longrightarrow> ethtool_cmd_speed s = word_of_int speed"
    and "duplex \<noteq> - 1 \<Longrightarrow> byte_at s 14 = word_of_int duplex"
    and "autoneg \<noteq> - 1 \<Longrightarrow> byte_at s 18 = word_of_int autoneg"
proof -
  let ?a = "put32 settings 0 ETHTOOL_SSET"
  define b where "b = (if speed \<noteq> - 1 then ethtool_cmd_speed_set ?a (word_of_int speed) else ?a)"
  define c where "c = (if duplex \<noteq> - 1 then poke b 14 [word_of_int duplex] else b)"
  have s: "s = (if autoneg \<noteq> - 1 then poke c 18 [word_of_int autoneg] else c)"
    by (simp add: s_def b_def c_def overwrite_settings_def Let_def)
  have len: "length b = 44" "length c = 44" using assms by (simp_all add: b_def c_def ethtool_cmd_speed_set_def)
  show "get32 s 0 = ETHTOOL_SSET"
    using assms(1) by (simp add: s c_def b_def get_poke_other ethtool_cmd_speed_set_def get_put_other get32_put32)
  have "speed \<noteq> - 1 \<Longrightarrow> ethtool_cmd_speed b = word_of_int speed"
    using assms by (simp add: b_def ethtool_cmd_speed_set_get)
  then show "speed \<noteq> - 1 \<Longrightarrow> ethtool_cmd_speed s = word_of_int speed"
    by (simp add: s c_def ethtool_cmd_speed_def get_poke_other)
  show "duplex \<noteq> - 1 \<Longrightarrow> byte_at s 14 = word_of_int duplex"
    using len by (simp add: s c_def byte_at_poke byte_at_poke_other)
  show "autoneg \<noteq> - 1 \<Longrightarrow> byte_at s 18 = word_of_int autoneg"
    using len by (simp add: s byte_at_poke)
qed

lemma link_work_calls:
  assumes "answer k (length (calls k)) \<noteq> - 1"
  defines "n \<equiv> length (calls k)"
  shows "link_work stack name speed duplex autoneg fd k =
    (if answer k (Suc (Suc n)) = - 1 then - errno_at k (Suc (Suc n)) else 0,
     k\<lparr>calls := calls k @
      [(Net_ethtool fd (request name) (put32 stack 0 ETHTOOL_GSET), answer k n),
       (Net_info (link_message speed duplex autoneg), answer k (Suc n)),
       (Net_ethtool fd (request name) (overwrite_settings speed duplex autoneg
          (overwrite (reply k n) (put32 stack 0 ETHTOOL_GSET))), answer k (Suc (Suc n)))]\<rparr>)"
  using assms by (simp add: link_work_def net_call_defs delivered_def errno_def)

section \<open>Properties\<close>

abbreviation net_socket :: net_call where
  "net_socket \<equiv> Net_socket NET_AF_INET SOCK_DGRAM 0"

text \<open>
  Configuring an interface sets its address, netmask and MTU in this order, each carrying
  exactly the value asked for and the name of the interface, and stops at the first request that
  fails with its result; it returns 0 exactly when all three were made and succeeded, and closes its socket in
  every case.
\<close>

theorem network_configure_in_order:
  assumes "ml_network_interface_configure inet_addr name ip netmask mtu k = (res, k')"
  shows "(\<exists>i cs fd c. new_calls k k' = (net_socket, fd) # cs @ [(Net_close fd, c)] \<and> i \<le> 2
      \<and> map carried cs = map Some (take (Suc i) (configure_requests name (inet_addr ip) (inet_addr netmask) mtu))
      \<and> map snd cs = replicate i 0 @ [res] \<and> (i < 2 \<longrightarrow> res \<noteq> 0))
    \<or> new_calls k k' = [(net_socket, - 1)] \<and> res = - EGENERAL"
proof (cases "answer k (length (calls k)) = - 1")
  case True
  then show ?thesis using assms by (auto simp: configure_session with_fd_def call_eq new_calls_def)
next
  case False
  let ?fd = "answer k (length (calls k))"
  let ?k1 = "k\<lparr>calls := calls k @ [(net_socket, ?fd)]\<rparr>"
  obtain k2 where w: "configure_work inet_addr name ip netmask mtu ?fd ?k1 = (res, k2)"
    and k': "k' = k2\<lparr>calls := calls k2 @ [(Net_close ?fd, answer k2 (length (calls k2)))]\<rparr>"
    using with_fd_run [OF assms [unfolded configure_session] False] by blast
  obtain cs i where cs: "k2 = ?k1\<lparr>calls := calls ?k1 @ cs\<rparr>" "i \<le> 2"
    "map carried cs = map Some (take (Suc i) (configure_requests name (inet_addr ip) (inet_addr netmask) mtu))"
    "map snd cs = replicate i 0 @ [res]" "i < 2 \<longrightarrow> res \<noteq> 0"
    using configure_work_requests [OF w] by blast
  have "new_calls k k' = (net_socket, ?fd) # cs @ [(Net_close ?fd, answer k2 (length (calls k2)))]"
    using k' cs(1) by (simp add: new_calls_def)
  then show ?thesis using cs(2-5) by blast
qed

definition idle_kernel :: net_kernel where
  "idle_kernel = \<lparr>calls = [], answer = (\<lambda>_. 0), errno_at = (\<lambda>_. 0), reply = (\<lambda>_. [])\<rparr>"

theorem network_configure_in_order_witness:
  "(\<exists>i cs fd c. new_calls idle_kernel (snd (ml_network_interface_configure (\<lambda>_. 7) ''eth0'' ''a'' ''m'' 1500 idle_kernel))
      = (net_socket, fd) # cs @ [(Net_close fd, c)] \<and> i \<le> 2
      \<and> map carried cs = map Some (take (Suc i) (configure_requests ''eth0'' 7 7 1500)))
    \<and> fst (ml_network_interface_configure (\<lambda>_. 7) ''eth0'' ''a'' ''m'' 1500 idle_kernel) = 0"
proof -
  have r: "fst (ml_network_interface_configure (\<lambda>_. 7) ''eth0'' ''a'' ''m'' 1500 idle_kernel) = 0"
    by (simp add: ml_network_interface_configure_def net_open_def set_ip_address_def set_netmask_def set_mtu_def
        net_call_defs idle_kernel_def)
  moreover have "ml_network_interface_configure (\<lambda>_. 7) ''eth0'' ''a'' ''m'' 1500 idle_kernel
      = (0, snd (ml_network_interface_configure (\<lambda>_. 7) ''eth0'' ''a'' ''m'' 1500 idle_kernel))"
    using r by (metis prod.collapse)
  moreover have "(0 :: int) \<noteq> - EGENERAL" by (simp add: errno_defs)
  ultimately show ?thesis
    using network_configure_in_order [of "\<lambda>_. 7" "''eth0''" "''a''" "''m''" 1500 idle_kernel 0] by blast
qed

text \<open>
  Bringing an interface up or down is a read-modify-write of its flags: the flags written back
  are the ones read with only IFF_UP set or cleared, the rest of the request is what the kernel
  delivered, and the result is 0 exactly when the write succeeded. Bringing an interface up and
  down again restores flags that had IFF_UP clear.
\<close>

theorem network_flags_read_modify_write:
  fixes k :: net_kernel and go_up :: bool
  defines "n \<equiv> length (calls k)"
  defines "f \<equiv> (\<lambda>w :: u16. if go_up then w OR 1 else w AND NOT 1)"
  defines "flags \<equiv> overwrite (reply k (Suc n)) (replicate 24 0)"
  assumes "(if go_up then ml_network_interface_up name k else ml_network_interface_down name k) = (res, k')"
    and "answer k n \<noteq> - 1" and "answer k (Suc n) = 0"
  shows "\<exists>r c. new_calls k k' = [(net_socket, answer k n), (Net_ioctl (answer k n) SIOCGIFFLAGS (request name), 0),
      (Net_ioctl (answer k n) SIOCSIFFLAGS \<lparr>ifr_name = take 15 name, ifr_ifru = put16 flags 0 (f (get16 flags 0))\<rparr>, r),
      (Net_close (answer k n), c)]
    \<and> res = (if r = 0 then 0 else - errno_at k (Suc (Suc n)))
    \<and> get16 (put16 flags 0 (f (get16 flags 0))) 0 = f (get16 flags 0)
    \<and> (\<forall>i\<ge>2. byte_at (put16 flags 0 (f (get16 flags 0))) i = byte_at flags i)
    \<and> (\<forall>w :: u16. \<not> bit w 0 \<longrightarrow> (w OR 1) AND NOT 1 = w)"
proof -
  let ?fd = "answer k n" and ?k1 = "k\<lparr>calls := calls k @ [(net_socket, answer k n)]\<rparr>"
  have run: "net_session (\<lambda>_. - EGENERAL) (\<lambda>fd. if go_up then up fd (request name) else down fd (request name)) k = (res, k')"
    using assms(4) by (cases go_up) (simp_all add: up_session)
  obtain k2 where "(if go_up then up ?fd (request name) else down ?fd (request name)) ?k1 = (res, k2)"
    and k': "k' = k2\<lparr>calls := calls k2 @ [(Net_close ?fd, answer k2 (length (calls k2)))]\<rparr>"
    using with_fd_run [OF run] assms(5) unfolding n_def by blast
  then have w: "up ?fd (request name) ?k1 = (res, k2) \<and> f = (\<lambda>w. w OR 1)
      \<or> down ?fd (request name) ?k1 = (res, k2) \<and> f = (\<lambda>w. w AND NOT 1)"
    by (simp add: f_def split: if_splits)
  obtain r where r: "k2 = ?k1\<lparr>calls := calls ?k1 @ [(Net_ioctl ?fd SIOCGIFFLAGS (request name), 0),
      (Net_ioctl ?fd SIOCSIFFLAGS \<lparr>ifr_name = take 15 name, ifr_ifru = put16 flags 0 (f (get16 flags 0))\<rparr>, r)]\<rparr>"
    "res = (if r = 0 then 0 else - errno_at k (Suc (Suc n)))"
    using flags_work [OF w] assms(6) unfolding flags_def n_def by auto
  have "get16 (put16 flags 0 v) 0 = v" for v by (rule get16_put16) (simp add: flags_def)
  moreover have "byte_at (put16 flags 0 v) i = byte_at flags i" if "2 \<le> i" for v i
    using that by (simp add: put16_def byte_at_poke_other)
  moreover have "(w OR 1) AND NOT 1 = w" if "\<not> bit w 0" for w :: u16
    using that by (intro bit_word_eqI) (auto simp: bit_simps intro: gr0I)
  moreover have "new_calls k k' = [(net_socket, ?fd), (Net_ioctl ?fd SIOCGIFFLAGS (request name), 0),
      (Net_ioctl ?fd SIOCSIFFLAGS \<lparr>ifr_name = take 15 name, ifr_ifru = put16 flags 0 (f (get16 flags 0))\<rparr>, r),
      (Net_close ?fd, answer k2 (length (calls k2)))]"
    using k' r(1) by (simp add: new_calls_def)
  ultimately show ?thesis using r(2) by blast
qed

theorem network_flags_read_modify_write_witness:
  "\<exists>r c. new_calls idle_kernel (snd (ml_network_interface_up ''eth0'' idle_kernel))
     = [(net_socket, 0), (Net_ioctl 0 SIOCGIFFLAGS (request ''eth0''), 0),
        (Net_ioctl 0 SIOCSIFFLAGS \<lparr>ifr_name = ''eth0'', ifr_ifru = 1 # replicate 23 0\<rparr>, r), (Net_close 0, c)]"
proof -
  have u: "put16 (overwrite [] (replicate 24 0)) 0 (get16 (overwrite [] (replicate 24 0)) 0 OR 1) = 1 # replicate 23 0"
    by code_simp
  show ?thesis
    using network_flags_read_modify_write [of True "''eth0''" idle_kernel "fst (ml_network_interface_up ''eth0'' idle_kernel)"
        "snd (ml_network_interface_up ''eth0'' idle_kernel)"]
    by (simp add: idle_kernel_def u) blast
qed

text \<open>
  Changing the link settings writes back what the kernel reported with only the settings asked
  for changed (an argument of -1 leaves its setting alone): every other byte is the one that was
  read, the speed reads back as asked although it is stored in two halves, and the result is 0
  exactly when the write did not fail.
\<close>

theorem network_link_keeps_other_settings:
  fixes k :: net_kernel and stack :: bytes and speed duplex autoneg :: int
  defines "n \<equiv> length (calls k)"
  defines "got \<equiv> overwrite (reply k (Suc n)) (put32 stack 0 ETHTOOL_GSET)"
  defines "new \<equiv> overwrite_settings speed duplex autoneg got"
  assumes "length stack = 44" and "answer k n \<noteq> - 1" and "answer k (Suc n) \<noteq> - 1"
    and "ml_network_interface_link_configure stack name speed duplex autoneg k = (res, k')"
  shows "(\<exists>set c. new_calls k k' = [(net_socket, answer k n),
        (Net_ethtool (answer k n) (request name) (put32 stack 0 ETHTOOL_GSET), answer k (Suc n)),
        (Net_info (link_message speed duplex autoneg), answer k (Suc (Suc n))),
        (Net_ethtool (answer k n) (request name) new, set), (Net_close (answer k n), c)]
      \<and> res = (if set = - 1 then - errno_at k (n + 3) else 0))
      \<and> (\<forall>i. i \<notin> touched speed duplex autoneg \<longrightarrow> byte_at new i = byte_at got i)
      \<and> get32 new 0 = ETHTOOL_SSET \<and> (speed \<noteq> - 1 \<longrightarrow> ethtool_cmd_speed new = word_of_int speed)
      \<and> (duplex \<noteq> - 1 \<longrightarrow> byte_at new 14 = word_of_int duplex)
      \<and> (autoneg \<noteq> - 1 \<longrightarrow> byte_at new 18 = word_of_int autoneg)"
proof -
  let ?fd = "answer k n" and ?k1 = "k\<lparr>calls := calls k @ [(net_socket, answer k n)]\<rparr>"
  have len: "length got = 44" using assms(4) by (simp add: got_def)
  have a: "\<forall>i. i \<notin> touched speed duplex autoneg \<longrightarrow> byte_at new i = byte_at got i"
    unfolding new_def by (blast intro: settings_untouched)
  have b: "get32 new 0 = ETHTOOL_SSET \<and> (speed \<noteq> - 1 \<longrightarrow> ethtool_cmd_speed new = word_of_int speed)
      \<and> (duplex \<noteq> - 1 \<longrightarrow> byte_at new 14 = word_of_int duplex)
      \<and> (autoneg \<noteq> - 1 \<longrightarrow> byte_at new 18 = word_of_int autoneg)"
    using settings_changed [OF len] unfolding new_def by blast
  obtain k2 where w: "link_work stack name speed duplex autoneg ?fd ?k1 = (res, k2)"
    and k': "k' = k2\<lparr>calls := calls k2 @ [(Net_close ?fd, answer k2 (length (calls k2)))]\<rparr>"
    using with_fd_run [OF assms(7) [unfolded link_session]] assms(5) unfolding n_def by blast
  have "link_work stack name speed duplex autoneg ?fd ?k1 =
    (if answer k (n + 3) = - 1 then - errno_at k (n + 3) else 0, ?k1\<lparr>calls := calls ?k1 @
      [(Net_ethtool ?fd (request name) (put32 stack 0 ETHTOOL_GSET), answer k (Suc n)),
       (Net_info (link_message speed duplex autoneg), answer k (Suc (Suc n))),
       (Net_ethtool ?fd (request name) new, answer k (n + 3))]\<rparr>)"
    using link_work_calls [of ?k1] assms(6) unfolding new_def got_def n_def by (simp add: numeral_3_eq_3)
  then have "\<exists>set c. new_calls k k' = [(net_socket, ?fd),
        (Net_ethtool ?fd (request name) (put32 stack 0 ETHTOOL_GSET), answer k (Suc n)),
        (Net_info (link_message speed duplex autoneg), answer k (Suc (Suc n))),
        (Net_ethtool ?fd (request name) new, set), (Net_close ?fd, c)]
      \<and> res = (if set = - 1 then - errno_at k (n + 3) else 0)"
    using w k' by (auto simp: new_calls_def)
  then show ?thesis using a b by blast
qed

theorem network_link_keeps_other_settings_witness:
  "\<exists>set c. new_calls idle_kernel (snd (ml_network_interface_link_configure (replicate 44 0) ''eth0'' 100 1 (- 1) idle_kernel))
     = [(net_socket, 0), (Net_ethtool 0 (request ''eth0'') (put32 (replicate 44 0) 0 ETHTOOL_GSET), 0),
        (Net_info (link_message 100 1 (- 1)), 0),
        (Net_ethtool 0 (request ''eth0'')
          (overwrite_settings 100 1 (- 1) (overwrite [] (put32 (replicate 44 0) 0 ETHTOOL_GSET))), set),
        (Net_close 0, c)]"
  using network_link_keeps_other_settings [of "replicate 44 0" idle_kernel "''eth0''" 100 1 "- 1"
      "fst (ml_network_interface_link_configure (replicate 44 0) ''eth0'' 100 1 (- 1) idle_kernel)"
      "snd (ml_network_interface_link_configure (replicate 44 0) ''eth0'' 100 1 (- 1) idle_kernel)"]
  by (simp add: idle_kernel_def) blast

end
