(* ===== verification/Ml_Network_Filter.thy ===== *)
theory Ml_Network_Filter
  imports Ml_Network
begin

text \<open>
  The packet filter (\<open>src/src/ml_network.c\<close>, from \<open>ipt_set_option_as_string\<close> on): reading and
  replacing the tables of the kernel, the accept-all and drop-all tables, and the log of a table. The
  structures of \<open>linux/netfilter_ipv4/ip_tables.h\<close> are their bytes on a 64-bit host: an entry is 112
  bytes and its target follows, 40 bytes for a verdict and 64 for the error target; a table to
  install has a header of 96 bytes, a table that was read a header of 40. A read of a table outside
  of what the kernel delivered is \<open>OutOfBounds\<close>. \<open>malloc\<close> answers -1 for NULL.
\<close>

section \<open>Options\<close>

definition IPPROTO_RAW :: int where "IPPROTO_RAW = 255"
definition IPT_SO_SET_REPLACE :: int where "IPT_SO_SET_REPLACE = 64"
definition IPT_SO_GET_INFO :: int where "IPT_SO_GET_INFO = 64"
definition IPT_SO_GET_ENTRIES :: int where "IPT_SO_GET_ENTRIES = 65"

definition VERDICT_ACCEPT :: int where "VERDICT_ACCEPT = - 1 - 1"
definition VERDICT_DROP :: int where "VERDICT_DROP = - 0 - 1"
definition VERDICT_QUEUE :: int where "VERDICT_QUEUE = - 3 - 1"
definition XT_RETURN :: int where "XT_RETURN = - 4 - 1"

lemmas verdict_defs = VERDICT_ACCEPT_def VERDICT_DROP_def VERDICT_QUEUE_def XT_RETURN_def

definition ipt_set_option_as_string :: "int \<Rightarrow> string" where
  "ipt_set_option_as_string optname =
     (if optname = IPT_SO_SET_REPLACE then ''IPT_SO_SET_REPLACE'' else ''*** unknown ***'')"

definition ipt_get_option_as_string :: "int \<Rightarrow> string" where
  "ipt_get_option_as_string optname =
     (if optname = IPT_SO_GET_INFO then ''IPT_SO_GET_INFO''
      else if optname = IPT_SO_GET_ENTRIES then ''IPT_SO_GET_ENTRIES'' else ''*** unknown ***'')"

definition ml_info :: "string \<Rightarrow> net_kernel \<Rightarrow> net_kernel" where
  "ml_info msg k = snd (call (Net_info msg) k)"

text \<open>The kernel is handed \<open>size\<close> bytes of the memory at the buffer.\<close>

definition set_filter :: "(int \<Rightarrow> string) \<Rightarrow> int \<Rightarrow> int \<Rightarrow> bytes \<Rightarrow> nat \<Rightarrow> net_kernel \<Rightarrow> int \<times> net_kernel" where
  "set_filter strerror domain optname data sz k =
     (let (sockfd, k) = call (Net_socket domain SOCK_RAW IPPROTO_RAW) k;
          (res, k) =
            (if sockfd \<noteq> - 1
             then let (res, k) = call (Net_setsockopt sockfd optname (take sz data) sz) k;
                      res = (if res = - 1 then - errno k else res);
                      (_, k) = call (Net_close sockfd) k
                  in (res, k)
             else (- errno k, k))
      in if res \<noteq> 0
         then (res, ml_info (''network: Set filter option '' @ ipt_set_option_as_string optname
                      @ '' failed with: '' @ strerror (errno k)) k)
         else (res, k))"

text \<open>The bytes are what the kernel delivered into the buffer.\<close>

definition get_filter ::
  "(int \<Rightarrow> string) \<Rightarrow> int \<Rightarrow> int \<Rightarrow> filter_query \<Rightarrow> u32 \<Rightarrow> net_kernel \<Rightarrow> (int \<times> bytes) \<times> net_kernel" where
  "get_filter strerror domain optname query sz k =
     (let (sockfd, k) = call (Net_socket domain SOCK_RAW IPPROTO_RAW) k;
          ((res, bs), k) =
            (if sockfd \<noteq> - 1
             then let (res, k) = call (Net_getsockopt sockfd optname query sz) k;
                      bs = delivered k;
                      (_, k) = call (Net_close sockfd) k
                  in ((res, bs), k)
             else ((- EGENERAL, []), k))
      in ((res, bs),
          if res \<noteq> 0
          then ml_info (''network: Get filter option '' @ ipt_get_option_as_string optname
                 @ '' failed with: '' @ strerror (errno k)) k
          else k))"

text \<open>\<open>info\<close> is the caller's structure of 84 bytes.\<close>

definition get_info_from :: "int \<Rightarrow> (int \<Rightarrow> string) \<Rightarrow> string \<Rightarrow> bytes \<Rightarrow> net_kernel \<Rightarrow> (int \<times> bytes) \<times> net_kernel" where
  "get_info_from domain strerror table info k =
     (let info = put_str info 0 table;
          ((res, bs), k) = get_filter strerror domain IPT_SO_GET_INFO (Query_info table) 84 k
      in ((res, overwrite bs info), k))"

definition get_info :: "(int \<Rightarrow> string) \<Rightarrow> string \<Rightarrow> bytes \<Rightarrow> net_kernel \<Rightarrow> (int \<times> bytes) \<times> net_kernel" where
  "get_info = get_info_from NET_AF_INET"

definition get_info_ipv6 :: "(int \<Rightarrow> string) \<Rightarrow> string \<Rightarrow> bytes \<Rightarrow> net_kernel \<Rightarrow> (int \<times> bytes) \<times> net_kernel" where
  "get_info_ipv6 = get_info_from NET_AF_INET6"

section \<open>Tables to install\<close>

record replace_t =
  header :: bytes
  standard :: "bytes list"
  error_entry :: bytes

definition replace_bytes :: "replace_t \<Rightarrow> bytes" where
  "replace_bytes r = header r @ concat (standard r) @ error_entry r"

definition init_replace :: "bytes \<Rightarrow> replace_t" where
  "init_replace info =
     (let h = replicate 96 0;
          h = put_str h 0 ''filter'';
          h = put32 h 32 (push_bit 1 1 OR push_bit 2 1 OR push_bit 3 1);
          h = put32 h 36 4;
          h = put32 h 40 (3 * 152 + 176);
          h = put32 h 48 0;
          h = put32 h 52 152;
          h = put32 h 56 (2 * 152);
          h = put32 h 68 0;
          h = put32 h 72 152;
          h = put32 h 76 (2 * 152);
          h = put32 h 84 (get32 info 76)
      in \<lparr>header = h, standard = replicate 3 (replicate 152 0), error_entry = replicate 176 0\<rparr>)"

definition fill_standard_entry :: "int \<Rightarrow> bytes \<Rightarrow> bytes" where
  "fill_standard_entry verdict e =
     (let e = put16 e 88 112;
          e = put16 e 90 152;
          e = put16 e 112 40
      in put32 e 144 (word_of_int verdict))"

definition fill_error_entry :: "bytes \<Rightarrow> bytes" where
  "fill_error_entry e =
     (let e = put16 e 88 112;
          e = put16 e 90 176;
          e = put16 e 112 64;
          e = put_str e 114 ''ERROR''
      in put_str e 144 ''ERROR'')"

definition ml_network_filter_ipv4_set :: "(int \<Rightarrow> string) \<Rightarrow> bytes \<Rightarrow> net_kernel \<Rightarrow> int \<times> net_kernel" where
  "ml_network_filter_ipv4_set strerror filt k =
     set_filter strerror NET_AF_INET IPT_SO_SET_REPLACE filt (unat (get32 filt 40) + 96) k"

definition ml_network_filter_ipv6_set :: "(int \<Rightarrow> string) \<Rightarrow> bytes \<Rightarrow> net_kernel \<Rightarrow> int \<times> net_kernel" where
  "ml_network_filter_ipv6_set strerror filt k =
     set_filter strerror NET_AF_INET6 IPT_SO_SET_REPLACE filt (unat (get32 filt 40) + 96) k"

text \<open>\<open>stack\<close> is what the uninitialised \<open>info\<close> holds.\<close>

definition filter_apply_all :: "(int \<Rightarrow> string) \<Rightarrow> bytes \<Rightarrow> int \<Rightarrow> net_kernel \<Rightarrow> int \<times> net_kernel" where
  "filter_apply_all strerror stack verdict k =
     (let ((res, info), k) = get_info strerror ''filter'' stack k
      in if res \<noteq> 0 then (res, k)
         else
           let r = init_replace info;
               r = r\<lparr>standard := (standard r)[0 := fill_standard_entry verdict (standard r ! 0)]\<rparr>;
               r = r\<lparr>standard := (standard r)[1 := fill_standard_entry verdict (standard r ! 1)]\<rparr>;
               r = r\<lparr>standard := (standard r)[2 := fill_standard_entry verdict (standard r ! 2)]\<rparr>;
               r = r\<lparr>error_entry := fill_error_entry (error_entry r)\<rparr>
           in ml_network_filter_ipv4_set strerror (replace_bytes r) k)"

definition ml_network_filter_ipv4_accept_all :: "(int \<Rightarrow> string) \<Rightarrow> bytes \<Rightarrow> net_kernel \<Rightarrow> int \<times> net_kernel" where
  "ml_network_filter_ipv4_accept_all strerror stack k = filter_apply_all strerror stack VERDICT_ACCEPT k"

definition ml_network_filter_ipv4_drop_all :: "(int \<Rightarrow> string) \<Rightarrow> bytes \<Rightarrow> net_kernel \<Rightarrow> int \<times> net_kernel" where
  "ml_network_filter_ipv4_drop_all strerror stack k = filter_apply_all strerror stack VERDICT_DROP k"

section \<open>Reading a table\<close>

record get_entries =
  entries_block :: int
  entries_name :: string
  entries_size :: u32
  entrytable :: bytes

definition filter_get_from ::
  "int \<Rightarrow> (int \<Rightarrow> string) \<Rightarrow> string \<Rightarrow> bytes \<Rightarrow> net_kernel \<Rightarrow> (get_entries option \<times> bytes) \<times> net_kernel" where
  "filter_get_from domain strerror table info k =
     (let ((res, info), k) = get_info_from domain strerror table info k
      in if res \<noteq> 0 then ((None, info), k)
         else
           let sz = 40 + get32 info 80;
               (block, k) = call (Net_malloc sz) k
           in if block = - 1 then ((None, info), k)
              else
                let ((res, bs), k) =
                      get_filter strerror domain IPT_SO_GET_ENTRIES (Query_entries table (get32 info 80)) sz k
                in if res \<noteq> 0 then let (_, k) = call (Net_free block) k in ((None, info), k)
                   else ((Some \<lparr>entries_block = block, entries_name = table, entries_size = get32 info 80,
                            entrytable = take (unat (get32 info 80)) bs\<rparr>, info), k))"

definition ml_network_filter_ipv4_get ::
  "(int \<Rightarrow> string) \<Rightarrow> string \<Rightarrow> bytes \<Rightarrow> net_kernel \<Rightarrow> (get_entries option \<times> bytes) \<times> net_kernel" where
  "ml_network_filter_ipv4_get = filter_get_from NET_AF_INET"

definition ml_network_filter_ipv6_get ::
  "(int \<Rightarrow> string) \<Rightarrow> string \<Rightarrow> bytes \<Rightarrow> net_kernel \<Rightarrow> (get_entries option \<times> bytes) \<times> net_kernel" where
  "ml_network_filter_ipv6_get = filter_get_from NET_AF_INET6"

section \<open>The log of a table\<close>

definition format_ipv4 :: "u32 \<Rightarrow> string" where
  "format_ipv4 address =
     show_nat (unat (drop_bit 24 address AND 0xff)) @ ''.'' @ show_nat (unat (drop_bit 16 address AND 0xff)) @ ''.''
     @ show_nat (unat (drop_bit 8 address AND 0xff)) @ ''.'' @ show_nat (unat (drop_bit 0 address AND 0xff))"

definition c_string :: "bytes \<Rightarrow> nat \<Rightarrow> string res" where
  "c_string tab i = (if 0 \<in> set (drop i tab) then Inr (str_at tab i) else Inl OutOfBounds)"

definition verdict_string :: "int \<Rightarrow> string" where
  "verdict_string verdict =
     (if verdict < 0
      then if verdict = VERDICT_ACCEPT then ''ACCEPT''
           else if verdict = VERDICT_DROP then ''DROP''
           else if verdict = VERDICT_QUEUE then ''QUEUE''
           else if verdict = XT_RETURN then ''RETURN''
           else ''UNKNOWN''
      else show_int verdict)"

text \<open>The lines for the target of an entry, by its name.\<close>

definition target_lines :: "bytes \<Rightarrow> nat \<Rightarrow> string \<Rightarrow> string list res" where
  "target_lines tab target name =
     (if strcmp name '''' = 0
      then if target + 36 \<le> length tab
           then Inr [''network:     Verdict:     '' @ verdict_string (sint (get32 tab (target + 32)))]
           else Inl OutOfBounds
      else if strcmp name ''ERROR'' = 0
      then andthen (c_string tab (target + 32)) (\<lambda>errorname. Inr [''network:     Error:       '' @ [CHR 0x27] @ errorname @ [CHR 0x27]])
      else Inr [])"

text \<open>The lines for an entry, given the three strings read from it.\<close>

definition entry_lines :: "bytes \<Rightarrow> nat \<Rightarrow> nat \<Rightarrow> string \<Rightarrow> string \<Rightarrow> string \<Rightarrow> string list" where
  "entry_lines tab offset i iniface outiface name =
      [''network:   Entry '' @ show_nat i @ '':'',
      ''network:     FromIp:      '' @ format_ipv4 (get32 tab offset) @ ''/'' @ format_ipv4 (get32 tab (offset + 8)),
      ''network:     ToIp:        '' @ format_ipv4 (get32 tab (offset + 4)) @ ''/'' @ format_ipv4 (get32 tab (offset + 12)),
      ''network:     FromIf:      '' @ [CHR 0x27] @ iniface @ [CHR 0x27],
      ''network:     ToIf:        '' @ [CHR 0x27] @ outiface @ [CHR 0x27],
      ''network:     Protocol:    '' @ show_nat (unat (get16 tab (offset + 80))),
      ''network:     Flags:       0x'' @ hex_padded 2 (unat (byte_at tab (offset + 82))),
      ''network:     Invflags:    0x'' @ hex_padded 2 (unat (byte_at tab (offset + 83))),
      ''network:     NrOfPackets: '' @ show_nat (unat (get64 tab (offset + 96))),
      ''network:     NrOfBytes:   '' @ show_nat (unat (get64 tab (offset + 104))),
      ''network:     Cache:       0x'' @ hex_padded 8 (unat (get32 tab (offset + 84))),
      ''network:     Target:      '' @ [CHR 0x27] @ name @ [CHR 0x27]]"

definition log_entry :: "bytes \<Rightarrow> nat \<Rightarrow> nat \<Rightarrow> string list res" where
  "log_entry tab offset i =
     (if length tab < offset + 112 then Inl OutOfBounds
      else
        let target = offset + unat (get16 tab (offset + 88))
        in andthen (c_string tab (offset + 16)) (\<lambda>iniface.
           andthen (c_string tab (offset + 32)) (\<lambda>outiface.
           andthen (c_string tab (target + 2)) (\<lambda>name.
           andthen (target_lines tab target name) (\<lambda>tlines.
             Inr (entry_lines tab offset i iniface outiface name
                  @ tlines))))))"

text \<open>The walk over the entries, which has no end when an entry says that the next one is at the same place.\<close>

partial_function (option) log_loop :: "get_entries \<Rightarrow> nat \<Rightarrow> nat \<Rightarrow> string list \<Rightarrow> string list res option" where
  "log_loop e offset i printed =
     (if offset < unat (entries_size e)
      then case log_entry (entrytable e) offset i of
             Inl err \<Rightarrow> Some (Inl err)
           | Inr ls \<Rightarrow> log_loop e (offset + unat (get16 (entrytable e) (offset + 90))) (i + 1) (printed @ ls)
      else Some (Inr printed))"

declare log_loop.simps [code]

fun log_lines :: "string list \<Rightarrow> net_kernel \<Rightarrow> net_kernel" where
  "log_lines [] k = k"
| "log_lines (l # ls) k = log_lines ls (ml_info l k)"

definition ml_network_filter_ipv4_log ::
  "(int \<Rightarrow> string) \<Rightarrow> bytes \<Rightarrow> string \<Rightarrow> net_kernel \<Rightarrow> net_kernel res option" where
  "ml_network_filter_ipv4_log strerror stack table k =
     (case ml_network_filter_ipv4_get strerror table stack k of
        ((None, _), k) \<Rightarrow> Some (Inr k)
      | ((Some e, _), k) \<Rightarrow>
          (case log_loop e 0 1 [''network: Table: '' @ [CHR 0x27] @ entries_name e @ [CHR 0x27]] of
             None \<Rightarrow> None
           | Some (Inl err) \<Rightarrow> Some (Inl err)
           | Some (Inr ls) \<Rightarrow> Some (Inr (snd (call (Net_free (entries_block e)) (log_lines ls k))))))"

definition ml_network_filter_ipv6_log :: "(int \<Rightarrow> string) \<Rightarrow> bytes \<Rightarrow> string \<Rightarrow> net_kernel \<Rightarrow> net_kernel" where
  "ml_network_filter_ipv6_log strerror stack table k =
     (case ml_network_filter_ipv6_get strerror table stack k of
        ((None, _), k) \<Rightarrow> k
      | ((Some e, _), k) \<Rightarrow>
          snd (call (Net_free (entries_block e))
            (ml_info ''network: ml_network_filter_ipv6_log is not implemented.'' k)))"

section \<open>Entries inside a table\<close>

lemma byte_inside: "j < length e \<Longrightarrow> byte_at (pre @ e @ post) (length pre + j) = byte_at e j"
  by (simp add: byte_at_append)

lemma get_inside:
  "j + 2 \<le> length e \<Longrightarrow> get16 (pre @ e @ post) (length pre + j) = get16 e j"
  "j + 4 \<le> length e \<Longrightarrow> get32 (pre @ e @ post) (length pre + j) = get32 e j"
  using byte_inside [of j e pre post] byte_inside [of "j + 1" e pre post] byte_inside [of "j + 2" e pre post]
    byte_inside [of "j + 3" e pre post]
  by (simp_all add: get16_def get32_def add.assoc [symmetric])

lemma get64_inside: "j + 8 \<le> length e \<Longrightarrow> get64 (pre @ e @ post) (length pre + j) = get64 e j"
  using get_inside(2) [of "j + 4" e pre post] get_inside(2) [of j e pre post] by (simp add: get64_def add.assoc)

lemma c_string_inside:
  assumes "c_string e j = Inr s"
  shows "c_string (pre @ e @ post) (length pre + j) = Inr s"
proof -
  have z: "0 \<in> set (drop j e)" and s: "s = str_at e j" using assms by (auto simp: c_string_def split: if_splits)
  then have "j < length e" by (cases "j < length e") auto
  then have "drop (length pre + j) (pre @ e @ post) = drop j e @ post" by simp
  moreover have "takeWhile (\<lambda>c. c \<noteq> 0) (drop j e @ post) = takeWhile (\<lambda>c. c \<noteq> 0) (drop j e)"
    using z by (intro takeWhile_append1) auto
  ultimately show ?thesis using z s by (simp add: c_string_def str_at_def del: drop_append)
qed

lemma target_lines_inside:
  assumes "target_lines e t name = Inr ls"
  shows "target_lines (pre @ e @ post) (length pre + t) name = Inr ls"
proof -
  consider "strcmp name '''' = 0" | "strcmp name '''' \<noteq> 0" "strcmp name ''ERROR'' = 0"
    | "strcmp name '''' \<noteq> 0" "strcmp name ''ERROR'' \<noteq> 0" by blast
  then show ?thesis
  proof cases
    case 1
    then have "t + 36 \<le> length e" using assms by (auto simp: target_lines_def split: if_splits)
    then show ?thesis using 1 assms get_inside(2) [of "t + 32" e pre post]
      by (simp add: target_lines_def add.assoc)
  next
    case 2
    then obtain en where "c_string e (t + 32) = Inr en" using assms by (auto simp: target_lines_def andthen_eq_Inr)
    then show ?thesis using 2 assms c_string_inside [of e "t + 32" en pre post]
      by (simp add: target_lines_def add.assoc)
  next
    case 3
    then show ?thesis using assms by (simp add: target_lines_def)
  qed
qed

lemma log_entry_inside:
  assumes "log_entry e 0 i = Inr ls"
  shows "log_entry (pre @ e @ post) (length pre) i = Inr ls"
proof -
  let ?t = "unat (get16 e 88)"
  have len: "112 \<le> length e" using assms by (auto simp: log_entry_def not_less split: if_splits)
  then obtain a b nm tl where r: "c_string e 16 = Inr a" "c_string e 32 = Inr b" "c_string e (?t + 2) = Inr nm"
    "target_lines e ?t nm = Inr tl"
    using assms by (auto simp: log_entry_def Let_def andthen_eq_Inr)
  have g: "get16 (pre @ e @ post) (length pre + 88) = get16 e 88" "get16 (pre @ e @ post) (length pre + 80) = get16 e 80"
    "get32 (pre @ e @ post) (length pre + 84) = get32 e 84" "get32 (pre @ e @ post) (length pre + 8) = get32 e 8"
    "get32 (pre @ e @ post) (length pre + 4) = get32 e 4" "get32 (pre @ e @ post) (length pre + 12) = get32 e 12"
    "get32 (pre @ e @ post) (length pre) = get32 e 0"
    using len get_inside [of _ e pre post] get_inside(2) [of 0 e pre post] by simp_all
  have g64: "get64 (pre @ e @ post) (length pre + 96) = get64 e 96" "get64 (pre @ e @ post) (length pre + 104) = get64 e 104"
    using len by (simp_all add: get64_inside)
  have bb: "byte_at (pre @ e @ post) (length pre + 82) = byte_at e 82" "byte_at (pre @ e @ post) (length pre + 83) = byte_at e 83"
    using len by (simp_all add: byte_inside)
  have c: "c_string (pre @ e @ post) (length pre + 16) = Inr a" "c_string (pre @ e @ post) (length pre + 32) = Inr b"
    "c_string (pre @ e @ post) (length pre + ?t + 2) = Inr nm"
    "target_lines (pre @ e @ post) (length pre + ?t) nm = Inr tl"
    using r c_string_inside [of e 16 a pre post] c_string_inside [of e 32 b pre post]
      c_string_inside [of e "?t + 2" nm pre post] target_lines_inside [of e ?t nm tl pre post]
    by (simp_all add: add.assoc)
  have "entry_lines (pre @ e @ post) (length pre) i a b nm = entry_lines e 0 i a b nm"
    unfolding entry_lines_def g g64 bb by simp
  moreover have "ls = entry_lines e 0 i a b nm @ tl" using assms len r by (simp add: log_entry_def)
  moreover have "log_entry (pre @ e @ post) (length pre) i = Inr (entry_lines (pre @ e @ post) (length pre) i a b nm @ tl)"
    using len unfolding log_entry_def Let_def g c andthen_simps by simp
  ultimately show ?thesis by simp
qed

section \<open>The walk over a table\<close>

definition entry_log :: "bytes \<Rightarrow> nat \<Rightarrow> string list" where
  "entry_log e i = (case log_entry e 0 i of Inl _ \<Rightarrow> [] | Inr ls \<Rightarrow> ls)"

text \<open>An entry that can be read without leaving it, and whose next entry is right behind it.\<close>

definition entry_ok :: "bytes \<Rightarrow> bool" where
  "entry_ok e \<longleftrightarrow> log_entry e 0 1 \<noteq> Inl OutOfBounds \<and> length e = unat (get16 e 90)"

fun table_log :: "nat \<Rightarrow> bytes list \<Rightarrow> string list" where
  "table_log i [] = []"
| "table_log i (e # es) = entry_log e i @ table_log (i + 1) es"

lemma c_string_Inl: "c_string tab i = Inl err \<Longrightarrow> err = OutOfBounds"
  by (auto simp: c_string_def split: if_splits)

lemma target_lines_Inl: "target_lines tab t name = Inl err \<Longrightarrow> err = OutOfBounds"
  by (auto simp: target_lines_def andthen_eq_Inl split: if_splits dest: c_string_Inl)

lemma log_entry_Inl:
  assumes "log_entry e o1 i = Inl err"
  shows "err = OutOfBounds" and "log_entry e o1 j = Inl err"
proof -
  show "err = OutOfBounds"
    using assms by (auto simp: log_entry_def Let_def andthen_eq_Inl split: if_splits dest: c_string_Inl target_lines_Inl)
  show "log_entry e o1 j = Inl err"
    using assms by (auto simp: log_entry_def Let_def andthen_eq_Inl split: if_splits)
qed

lemma entry_ok_log:
  assumes "entry_ok e"
  shows "log_entry e 0 i = Inr (entry_log e i)"
proof (cases "log_entry e 0 i")
  case (Inl err)
  then have "log_entry e 0 1 = Inl OutOfBounds" using log_entry_Inl [of e 0 i err] by blast
  then show ?thesis using assms by (simp add: entry_ok_def)
qed (simp add: entry_log_def)

lemma entry_ok_length: "entry_ok e \<Longrightarrow> 112 \<le> length e"
  by (auto simp: entry_ok_def log_entry_def not_less split: if_splits)

lemma log_loop_walk:
  assumes "entrytable t = concat (seen @ es)" and "unat (entries_size t) = length (concat (seen @ es))"
    and "list_all entry_ok es"
  shows "log_loop t (length (concat seen)) i printed = Some (Inr (printed @ table_log i es))"
  using assms
proof (induction es arbitrary: seen i printed)
  case Nil
  then show ?case by (simp add: log_loop.simps [of t])
next
  case (Cons e es)
  let ?n = "length (concat seen)"
  have ok: "entry_ok e" using Cons.prems(3) by simp
  have tab: "entrytable t = concat seen @ e @ concat es" using Cons.prems(1) by simp
  have l: "log_entry (entrytable t) ?n i = Inr (entry_log e i)"
    unfolding tab by (rule log_entry_inside [OF entry_ok_log [OF ok]])
  have n: "unat (get16 (entrytable t) (?n + 90)) = length e"
    unfolding tab using get_inside(1) [of 90 e "concat seen" "concat es"] ok entry_ok_length [OF ok]
    by (simp add: entry_ok_def)
  have more: "?n < unat (entries_size t)" using Cons.prems(2) entry_ok_length [OF ok] by (cases e) simp_all
  have "log_loop t ?n i printed = log_loop t (?n + length e) (i + 1) (printed @ entry_log e i)"
    unfolding log_loop.simps [of t ?n] using more l n by simp
  also have "\<dots> = Some (Inr ((printed @ entry_log e i) @ table_log (i + 1) es))"
    using Cons.IH [of "seen @ [e]" "i + 1" "printed @ entry_log e i"] Cons.prems by simp
  finally show ?case by simp
qed

text \<open>An entry that points to itself.\<close>

lemma log_loop_stuck_aux:
  assumes "log_loop t offset i printed = Some r"
  shows "offset < unat (entries_size t) \<and> get16 (entrytable t) (offset + 90) = 0
    \<and> log_entry (entrytable t) offset 1 \<noteq> Inl OutOfBounds \<longrightarrow> False"
proof (rule log_loop.raw_induct [OF _ assms, where P = "\<lambda>t offset i printed r. offset < unat (entries_size t)
    \<and> get16 (entrytable t) (offset + 90) = 0 \<and> log_entry (entrytable t) offset 1 \<noteq> Inl OutOfBounds \<longrightarrow> False"],
    intro impI)
  fix rec t offset i printed r
  assume IH: "\<And>a b c d r. rec a b c d = Some r \<Longrightarrow> b < unat (entries_size a)
      \<and> get16 (entrytable a) (b + 90) = 0 \<and> log_entry (entrytable a) b 1 \<noteq> Inl OutOfBounds \<longrightarrow> False"
    and run: "(if offset < unat (entries_size t)
      then case log_entry (entrytable t) offset i of Inl err \<Rightarrow> Some (Inl err)
           | Inr ls \<Rightarrow> rec t (offset + unat (get16 (entrytable t) (offset + 90))) (i + 1) (printed @ ls)
      else Some (Inr printed)) = Some r"
    and st: "offset < unat (entries_size t) \<and> get16 (entrytable t) (offset + 90) = 0
      \<and> log_entry (entrytable t) offset 1 \<noteq> Inl OutOfBounds"
  obtain ls where "log_entry (entrytable t) offset i = Inr ls"
    using st log_entry_Inl [of "entrytable t" offset i] by (cases "log_entry (entrytable t) offset i") auto
  then have "rec t offset (i + 1) (printed @ ls) = Some r" using run st by simp
  then show False using IH st by blast
qed

section \<open>The installed table\<close>

abbreviation verdict_entry :: "int \<Rightarrow> bytes" where
  "verdict_entry v \<equiv> fill_standard_entry v (replicate 152 0)"

definition end_entry :: bytes where
  "end_entry = fill_error_entry (replicate 176 0)"

lemma c_string_empty: "j < length tab \<Longrightarrow> byte_at tab j = 0 \<Longrightarrow> c_string tab j = Inr ''''"
proof -
  assume a: "j < length tab" "byte_at tab j = 0"
  then have "drop j tab = 0 # drop (Suc j) tab" by (simp add: byte_at_def Cons_nth_drop_Suc [symmetric])
  then show ?thesis by (simp add: c_string_def str_at_def)
qed

lemma byte_at_replicate_0 [simp]: "byte_at (replicate n 0) i = 0"
  by (simp add: byte_at_def)

lemma verdict_entry_fields:
  "length (verdict_entry v) = 152"
  "get16 (verdict_entry v) 88 = 112" "get16 (verdict_entry v) 90 = 152"
  "get32 (verdict_entry v) 144 = word_of_int v"
  by (simp_all add: fill_standard_entry_def get16_put16 get32_put32 get_put_other)

lemma verdict_entry_strings:
  "c_string (verdict_entry v) 16 = Inr ''''" "c_string (verdict_entry v) 32 = Inr ''''"
  "c_string (verdict_entry v) 114 = Inr ''''"
proof -
  have b: "byte_at (verdict_entry v) j = 0" if "j < 88 \<or> j = 114" for j
    using that by (auto simp: fill_standard_entry_def put16_def put32_def byte_at_poke_other)
  show "c_string (verdict_entry v) 16 = Inr ''''" "c_string (verdict_entry v) 32 = Inr ''''"
    "c_string (verdict_entry v) 114 = Inr ''''"
    by (rule c_string_empty; simp add: verdict_entry_fields b)+
qed

lemma verdict_entry_log:
  assumes "- (2 ^ 31) \<le> v" and "v < 2 ^ 31"
  shows "log_entry (verdict_entry v) 0 i =
    Inr (entry_lines (verdict_entry v) 0 i '''' '''' '''' @ [''network:     Verdict:     '' @ verdict_string v])"
proof -
  have s: "sint (word_of_int v :: u32) = v"
    unfolding sint_sbintrunc' by (rule signed_take_bit_int_eq_self) (use assms in simp_all)
  have "target_lines (verdict_entry v) 112 '''' = Inr [''network:     Verdict:     '' @ verdict_string v]"
    using s by (simp add: target_lines_def verdict_entry_fields)
  then show ?thesis
    using verdict_entry_strings [of v] by (simp add: log_entry_def Let_def verdict_entry_fields)
qed

lemma end_entry_fields:
  "length end_entry = 176" "get16 end_entry 88 = 112" "get16 end_entry 90 = 176"
  by (simp add: end_entry_def fill_error_entry_def) code_simp+

lemma end_entry_strings:
  "c_string end_entry 16 = Inr ''''" "c_string end_entry 32 = Inr ''''"
  "c_string end_entry 114 = Inr ''ERROR''" "c_string end_entry 144 = Inr ''ERROR''"
  by code_simp+

lemma end_entry_log:
  "log_entry end_entry 0 i =
    Inr (entry_lines end_entry 0 i '''' '''' ''ERROR'' @ [''network:     Error:       '' @ [CHR 0x27] @ ''ERROR'' @ [CHR 0x27]])"
proof -
  have "target_lines end_entry 112 ''ERROR'' = Inr [''network:     Error:       '' @ [CHR 0x27] @ ''ERROR'' @ [CHR 0x27]]"
    by (simp add: target_lines_def end_entry_strings)
  then show ?thesis
    using end_entry_strings by (simp add: log_entry_def Let_def end_entry_fields)
qed

definition apply_table :: "bytes \<Rightarrow> int \<Rightarrow> bytes" where
  "apply_table info v = header (init_replace info) @ concat (replicate 3 (verdict_entry v)) @ end_entry"

lemma apply_table_length: "length (header (init_replace info)) = 96" "length (apply_table info v) = 728"
  by (simp_all add: apply_table_def init_replace_def Let_def verdict_entry_fields end_entry_fields numeral_3_eq_3)

lemma get_header: "j + 4 \<le> 96 \<Longrightarrow> get32 (apply_table info v) j = get32 (header (init_replace info)) j"
  using get_inside(2) [of j "header (init_replace info)" "[]"] by (simp add: apply_table_def apply_table_length)

lemma apply_table_header:
  "get32 (apply_table info v) 36 = 4" "get32 (apply_table info v) 40 = 632"
  "get32 (apply_table info v) 48 = 0" "get32 (apply_table info v) 52 = 152" "get32 (apply_table info v) 56 = 304"
  "get32 (apply_table info v) 68 = 0" "get32 (apply_table info v) 72 = 152" "get32 (apply_table info v) 76 = 304"
  by (simp_all add: get_header init_replace_def Let_def get32_put32 get_put_other)

lemma filter_apply_all_eq:
  "filter_apply_all strerror stack v k =
     (let ((res, info), k) = get_info strerror ''filter'' stack k
      in if res \<noteq> 0 then (res, k)
         else ml_network_filter_ipv4_set strerror (apply_table info v) k)"
  by (simp add: filter_apply_all_def apply_table_def replace_bytes_def init_replace_def end_entry_def Let_def
      numeral_3_eq_3 numeral_2_eq_2 split: prod.split)

lemma apply_table_walk:
  assumes "- (2 ^ 31) \<le> v" and "v < 2 ^ 31"
  shows "log_loop \<lparr>entries_block = b, entries_name = name, entries_size = get32 (apply_table info v) 40,
      entrytable = drop 96 (apply_table info v)\<rparr> 0 1 printed
    = Some (Inr (printed @ concat (map (\<lambda>i. entry_lines (verdict_entry v) 0 i '''' '''' ''''
          @ [''network:     Verdict:     '' @ verdict_string v]) [1, 2, 3])
        @ entry_lines end_entry 0 4 '''' '''' ''ERROR''
        @ [''network:     Error:       '' @ [CHR 0x27] @ ''ERROR'' @ [CHR 0x27]]))"
proof -
  let ?es = "[verdict_entry v, verdict_entry v, verdict_entry v, end_entry]"
  have ok: "list_all entry_ok ?es"
    by (simp add: entry_ok_def verdict_entry_log [OF assms] end_entry_log verdict_entry_fields end_entry_fields)
  have d: "drop 96 (apply_table info v) = concat ?es"
    by (simp add: apply_table_def apply_table_length numeral_3_eq_3)
  have sz: "unat (get32 (apply_table info v) 40) = length (concat ?es)"
    by (simp add: apply_table_header verdict_entry_fields end_entry_fields)
  show ?thesis
    using log_loop_walk [of "\<lparr>entries_block = b, entries_name = name, entries_size = get32 (apply_table info v) 40,
        entrytable = drop 96 (apply_table info v)\<rparr>" "[]" ?es 1 printed] ok sz
    by (simp add: d entry_log_def verdict_entry_log [OF assms] end_entry_log numeral_2_eq_2 [symmetric])
qed

section \<open>Sockets and memory\<close>

fun mem_opens :: "net_call \<Rightarrow> bool" where
  "mem_opens (Net_malloc _) = True"
| "mem_opens _ = False"

fun mem_closes :: "net_call \<Rightarrow> int option" where
  "mem_closes (Net_free p) = Some p"
| "mem_closes _ = None"

interpretation block: descriptor_session mem_opens mem_closes Net_free
  by unfold_locales simp_all

text \<open>Calls that leave both the sockets and the memory as they were.\<close>

definition tidy :: "net_kernel \<Rightarrow> net_kernel \<Rightarrow> (net_call \<times> int) list \<Rightarrow> bool" where
  "tidy k k' cs \<longleftrightarrow> k' = k\<lparr>calls := calls k @ cs\<rparr> \<and> (\<forall>fds. still_open net_opens net_closes fds cs = fds)
     \<and> (\<forall>bs. still_open mem_opens mem_closes bs cs = bs)"

lemma tidy_trans: "tidy k k1 xs \<Longrightarrow> tidy k1 k2 ys \<Longrightarrow> tidy k k2 (xs @ ys)"
  by (simp add: tidy_def still_open_append)

lemma tidy_refl: "tidy k k []"
  by (simp add: tidy_def)

lemma tidy_info: "tidy k (ml_info msg k) [(Net_info msg, answer k (length (calls k)))]"
  by (simp add: tidy_def ml_info_def call_eq)

lemma set_filter_run:
  assumes "set_filter strerror domain optname data sz k = (res, k')" and "\<forall>i. 0 < errno_at k i"
  shows "\<exists>cs. tidy k k' cs \<and> (res = 0 \<longrightarrow> (\<exists>fd. (Net_setsockopt fd optname (take sz data) sz, 0) \<in> set cs))"
proof -
  have e: "errno_at k i \<noteq> 0" for i using assms(2) by (metis less_irrefl)
  show ?thesis
    using assms(1) by (auto simp: set_filter_def call_eq Let_def errno_def ml_info_def tidy_def e split: if_splits)
qed

lemma get_filter_run:
  assumes "get_filter strerror domain optname query sz k = ((res, bs), k')"
  shows "\<exists>cs. tidy k k' cs"
  using assms by (auto simp: get_filter_def call_eq Let_def ml_info_def tidy_def split: if_splits)

lemma get_info_from_run:
  assumes "get_info_from domain strerror table info k = ((res, info'), k')"
  shows "\<exists>cs. tidy k k' cs"
proof -
  obtain r bs k1 where g: "get_filter strerror domain IPT_SO_GET_INFO (Query_info table) 84 k = ((r, bs), k1)"
    by (metis surj_pair)
  then have "k' = k1" using assms by (simp add: get_info_from_def Let_def)
  then show ?thesis using get_filter_run [OF g] by simp
qed

lemma filter_get_run:
  assumes "filter_get_from domain strerror table info k = ((r, info'), k')"
  shows "\<exists>cs. k' = k\<lparr>calls := calls k @ cs\<rparr> \<and> (\<forall>fds. still_open net_opens net_closes fds cs = fds)
    \<and> (\<forall>bs. still_open mem_opens mem_closes bs cs = (case r of None \<Rightarrow> bs | Some e \<Rightarrow> entries_block e # bs))"
proof -
  obtain r1 i1 k1 where g: "get_info_from domain strerror table info k = ((r1, i1), k1)" by (metis surj_pair)
  obtain c1 where c1: "tidy k k1 c1" using get_info_from_run [OF g] by blast
  let ?b = "answer k1 (length (calls k1))"
  let ?m = "(Net_malloc (40 + get32 i1 80), ?b)"
  let ?k2 = "k1\<lparr>calls := calls k1 @ [?m]\<rparr>"
  show ?thesis
  proof (cases "r1 \<noteq> 0 \<or> ?b = - 1")
    case True
    then have "r = None \<and> (k' = k1 \<or> k' = ?k2 \<and> ?b = - 1)"
      using assms g by (auto simp: filter_get_from_def call_eq Let_def split: if_splits)
    then show ?thesis
    proof (elim conjE disjE)
      assume "r = None" "k' = k1"
      then show ?thesis using c1 by (intro exI [of _ c1]) (simp add: tidy_def)
    next
      assume "r = None" "k' = ?k2" "?b = - 1"
      then show ?thesis using c1 by (intro exI [of _ "c1 @ [?m]"]) (simp add: tidy_def still_open_append)
    qed
  next
    case False
    obtain r2 bs k3 where g2: "get_filter strerror domain IPT_SO_GET_ENTRIES (Query_entries table (get32 i1 80))
        (40 + get32 i1 80) ?k2 = ((r2, bs), k3)" by (metis surj_pair)
    obtain c2 where c2: "tidy ?k2 k3 c2" using get_filter_run [OF g2] by blast
    show ?thesis
    proof (cases "r2 = 0")
      case True
      then have "k' = k3" "\<exists>e. r = Some e \<and> entries_block e = ?b"
        using assms g g2 False by (auto simp: filter_get_from_def call_eq Let_def)
      then show ?thesis using c1 c2 False
        by (intro exI [of _ "c1 @ ?m # c2"]) (auto simp: tidy_def still_open_append)
    next
      case neq: False
      let ?f = "(Net_free ?b, answer k3 (length (calls k3)))"
      have "r = None" "k' = k3\<lparr>calls := calls k3 @ [?f]\<rparr>"
        using assms g g2 False neq by (auto simp: filter_get_from_def call_eq Let_def)
      then show ?thesis using c1 c2 False
        by (intro exI [of _ "c1 @ ?m # c2 @ [?f]"]) (auto simp: tidy_def still_open_append)
    qed
  qed
qed

lemma log_lines_run: "\<exists>cs. tidy k (log_lines ls k) cs"
proof (induction ls arbitrary: k)
  case Nil
  then show ?case using tidy_refl by auto
next
  case (Cons l ls)
  obtain cs where "tidy (ml_info l k) (log_lines ls (ml_info l k)) cs" using Cons by blast
  then have "tidy k (log_lines (l # ls) k) ([(Net_info l, answer k (length (calls k)))] @ cs)"
    unfolding log_lines.simps by (rule tidy_trans [OF tidy_info])
  then show ?case by blast
qed

lemma free_after_get:
  assumes "filter_get_from domain strerror table info k = ((Some e, info'), k1)" and "tidy k1 k2 cs"
  shows "\<exists>cs. tidy k (snd (call (Net_free (entries_block e)) k2)) cs"
proof -
  obtain c1 where c1: "k1 = k\<lparr>calls := calls k @ c1\<rparr>" "\<forall>fds. still_open net_opens net_closes fds c1 = fds"
    "\<forall>bs. still_open mem_opens mem_closes bs c1 = entries_block e # bs"
    using filter_get_run [OF assms(1)] by auto
  then show ?thesis using assms(2)
    by (intro exI [of _ "c1 @ cs @ [(Net_free (entries_block e), answer k2 (length (calls k2)))]"])
      (simp add: tidy_def call_eq still_open_append)
qed

lemma ipv4_log_run:
  assumes "ml_network_filter_ipv4_log strerror stack table k = Some (Inr k')"
  shows "\<exists>cs. tidy k k' cs"
proof -
  obtain r i k1 where g: "ml_network_filter_ipv4_get strerror table stack k = ((r, i), k1)" by (metis surj_pair)
  show ?thesis
  proof (cases r)
    case None
    then show ?thesis using assms g filter_get_run [of NET_AF_INET strerror table stack k r i k1]
      by (auto simp: ml_network_filter_ipv4_log_def ml_network_filter_ipv4_get_def tidy_def)
  next
    case (Some e)
    then obtain ls where "k' = snd (call (Net_free (entries_block e)) (log_lines ls k1))"
      using assms g by (auto simp: ml_network_filter_ipv4_log_def split: option.splits sum.splits)
    then show ?thesis
      using free_after_get g Some log_lines_run [of k1 ls] unfolding ml_network_filter_ipv4_get_def by blast
  qed
qed

lemma ipv6_log_run: "\<exists>cs. tidy k (ml_network_filter_ipv6_log strerror stack table k) cs"
proof -
  obtain r i k1 where g: "ml_network_filter_ipv6_get strerror table stack k = ((r, i), k1)" by (metis surj_pair)
  show ?thesis
  proof (cases r)
    case None
    then show ?thesis using g filter_get_run [of NET_AF_INET6 strerror table stack k r i k1]
      by (auto simp: ml_network_filter_ipv6_log_def ml_network_filter_ipv6_get_def tidy_def)
  next
    case (Some e)
    then show ?thesis
      using free_after_get [OF g [unfolded ml_network_filter_ipv6_get_def Some] tidy_info] g
      by (simp add: ml_network_filter_ipv6_log_def)
  qed
qed

lemma filter_apply_all_run:
  assumes "filter_apply_all strerror stack v k = (res, k')" and "\<forall>i. 0 < errno_at k i"
  shows "\<exists>cs. tidy k k' cs \<and> (res = 0 \<longrightarrow> (\<exists>fd info. (Net_setsockopt fd IPT_SO_SET_REPLACE (apply_table info v) 728, 0) \<in> set cs))"
proof -
  obtain r1 i1 k1 where g: "get_info strerror ''filter'' stack k = ((r1, i1), k1)" by (metis surj_pair)
  obtain c1 where c1: "tidy k k1 c1" using get_info_from_run g unfolding get_info_def by blast
  show ?thesis
  proof (cases "r1 = 0")
    case False
    then show ?thesis using assms(1) g c1 by (auto simp: filter_apply_all_eq)
  next
    case True
    then have s: "set_filter strerror NET_AF_INET IPT_SO_SET_REPLACE (apply_table i1 v) 728 k1 = (res, k')"
      using assms(1) g by (simp add: filter_apply_all_eq ml_network_filter_ipv4_set_def apply_table_header)
    have "\<forall>i. 0 < errno_at k1 i" using c1 assms(2) by (simp add: tidy_def)
    then obtain c2 where "tidy k1 k' c2"
      "res = 0 \<longrightarrow> (\<exists>fd. (Net_setsockopt fd IPT_SO_SET_REPLACE (take 728 (apply_table i1 v)) 728, 0) \<in> set c2)"
      using set_filter_run [OF s] by blast
    then show ?thesis using tidy_trans [OF c1] by (intro exI [of _ "c1 @ c2"]) (auto simp: apply_table_length)
  qed
qed

section \<open>Properties\<close>

lemma neutral_still_open: "neutral op cl f \<Longrightarrow> still_open op cl fds (new_calls k (snd (f k))) = fds"
  using neutralD(1) by (metis prod.collapse)

lemma tidy_new_calls:
  "\<exists>cs. tidy k k' cs \<Longrightarrow> still_open net_opens net_closes fds (new_calls k k') = fds
     \<and> still_open mem_opens mem_closes bs (new_calls k k') = bs"
  by (auto simp: tidy_def new_calls_def)


text \<open>A kernel that refuses every call.\<close>

definition refusing_kernel :: net_kernel where
  "refusing_kernel = \<lparr>calls = [], answer = (\<lambda>_. - 1), errno_at = (\<lambda>_. 1), reply = (\<lambda>_. [])\<rparr>"


text \<open>
  C31: the log walks a table of well-formed entries to its end, printing every entry once and in order
  and reading nothing outside of the table, however many entries there are; an entry that says the next
  one is at its own place makes the walk go on forever.
\<close>

theorem filter_log_walks_every_entry:
  shows "list_all entry_ok es \<Longrightarrow> unat (entries_size t) = length (concat es) \<Longrightarrow> entrytable t = concat es \<Longrightarrow>
      log_loop t 0 1 printed = Some (Inr (printed @ table_log 1 es))
    \<and> (log_entry tab 0 1 \<noteq> Inl OutOfBounds \<longrightarrow> get16 tab 90 = 0 \<longrightarrow> 0 < n \<longrightarrow>
      log_loop (t\<lparr>entries_size := n, entrytable := tab\<rparr>) 0 1 printed = None)"
  using log_loop_walk [of t "[]" es 1 printed]
    log_loop_stuck_aux [of "t\<lparr>entries_size := n, entrytable := tab\<rparr>" 0 1 printed]
  by (cases "log_loop (t\<lparr>entries_size := n, entrytable := tab\<rparr>) 0 1 printed") (auto simp: word_gt_0 unat_gt_0)

theorem filter_log_walks_every_entry_witness:
  "log_loop \<lparr>entries_block = 1, entries_name = ''filter'', entries_size = 176, entrytable = end_entry\<rparr> 0 1 []
     = Some (Inr (table_log 1 [end_entry]))"
  using filter_log_walks_every_entry [of "[end_entry]"
      "\<lparr>entries_block = 1, entries_name = ''filter'', entries_size = 176, entrytable = end_entry\<rparr>" "[]"]
  by (simp add: entry_ok_def end_entry_log end_entry_fields)

text \<open>
  C15: when accepting or dropping everything returns 0, the kernel has taken a table of 728 bytes whose
  header counts four entries and points the input, forward and output hooks at the first three; logging
  the entries of exactly that table ends and prints three entries with the verdict asked for and the error entry.
\<close>

theorem filter_apply_all_installs_verdict:
  assumes "\<forall>i. 0 < errno_at k i" and "- (2 ^ 31) \<le> v" and "v < 2 ^ 31"
    and "filter_apply_all strerror stack v k = (0, k')"
  shows "\<exists>fd b. (Net_setsockopt fd IPT_SO_SET_REPLACE b 728, 0) \<in> set (new_calls k k') \<and> length b = 728
    \<and> get32 b 36 = 4 \<and> get32 b 40 = 632
    \<and> [get32 b 48, get32 b 52, get32 b 56] = [0, 152, 304] \<and> [get32 b 68, get32 b 72, get32 b 76] = [0, 152, 304]
    \<and> (\<forall>p name. log_loop \<lparr>entries_block = p, entries_name = name, entries_size = get32 b 40, entrytable = drop 96 b\<rparr> 0 1 []
        = Some (Inr (concat (map (\<lambda>i. entry_lines (verdict_entry v) 0 i '''' '''' ''''
              @ [''network:     Verdict:     '' @ verdict_string v]) [1, 2, 3])
            @ entry_lines end_entry 0 4 '''' '''' ''ERROR''
            @ [''network:     Error:       '' @ [CHR 0x27] @ ''ERROR'' @ [CHR 0x27]])))"
proof -
  obtain cs fd info where cs: "tidy k k' cs"
    and s: "(Net_setsockopt fd IPT_SO_SET_REPLACE (apply_table info v) 728, 0) \<in> set cs"
    using filter_apply_all_run [OF assms(4,1)] by blast
  have n: "new_calls k k' = cs" using cs by (simp add: tidy_def new_calls_def)
  show ?thesis
    using s apply_table_length apply_table_header apply_table_walk [OF assms(2,3), where printed = "[]"]
    by (intro exI [of _ fd] exI [of _ "apply_table info v"]) (simp add: n)
qed

theorem filter_apply_all_installs_verdict_witness:
  "\<exists>fd b. (Net_setsockopt fd IPT_SO_SET_REPLACE b 728, 0)
     \<in> set (new_calls (idle_kernel\<lparr>errno_at := \<lambda>_. 1\<rparr>)
         (snd (filter_apply_all (\<lambda>_. '''') (replicate 84 0) VERDICT_DROP (idle_kernel\<lparr>errno_at := \<lambda>_. 1\<rparr>))))
     \<and> length b = 728"
proof -
  let ?k = "idle_kernel\<lparr>errno_at := \<lambda>_. 1\<rparr>"
  have "fst (filter_apply_all (\<lambda>_. '''') (replicate 84 0) VERDICT_DROP ?k) = 0"
    by (simp add: filter_apply_all_eq get_info_def get_info_from_def get_filter_def ml_network_filter_ipv4_set_def
        set_filter_def call_eq Let_def idle_kernel_def)
  then have "filter_apply_all (\<lambda>_. '''') (replicate 84 0) VERDICT_DROP ?k
      = (0, snd (filter_apply_all (\<lambda>_. '''') (replicate 84 0) VERDICT_DROP ?k))"
    by (metis prod.collapse)
  then show ?thesis
    using filter_apply_all_installs_verdict [of ?k VERDICT_DROP "\<lambda>_. ''''" "replicate 84 0"]
    by (simp add: VERDICT_DROP_def) blast
qed

end
