(* ===== verification/Ml_One_Wire.thy ===== *)
theory Ml_One_Wire
  imports Ml_Kernel Ml_Bytes "HOL-Library.Multiset"
begin

text \<open>
  The one-wire module (\<open>src/src/ml_one_wire.c\<close>): reading a DS18B20 temperature sensor over the netlink
  connector of the kernel. The state is \<open>struct module_t\<close>; its message queue is the list of messages on it
  (\<open>Ml_Queue\<close> shows that the queue is one), the timer is whether it runs, and a response is a call
  \<open>Ow_put\<close> with the queue, the result and the temperature in units of 1/16 degree, which a float holds exactly.
  What the thread receives is an argument: the result of \<open>read\<close>, \<open>errno\<close> and the bytes. A read outside of the bytes
  received is \<open>OutOfBounds\<close>, as is a put on the queue NULL. The log is left out.
\<close>

section \<open>State\<close>

datatype ds18b20_state_t =
    ds18b20_state_idle_t
  | ds18b20_state_wait_for_convert_done_t
  | ds18b20_state_wait_for_convert_timeout_t
  | ds18b20_state_wait_for_read_done_t

text \<open>The messages on the queue of the module: \<open>struct ml_one_wire_read_temperature_req_t\<close> and the timeout.\<close>

datatype ow_message =
    Read_temperature_req u64 nat
  | Read_temperature_timeout

datatype ow_call =
    Ow_socket
  | Ow_bind int
  | Ow_epoll_create
  | Ow_eventfd
  | Ow_epoll_add int int
  | Ow_send int bytes
  | Ow_write int
  | Ow_put nat int int
  | Ow_timer_start nat nat
  | Ow_pthread_create
  | Ow_close int

record one_wire =
  cn_seqno :: int
  ow_queue :: "ow_message list"
  ow_fd :: int
  ow_put_fd :: int
  ow_epoll_fd :: int
  ow_state :: ds18b20_state_t
  ow_id :: u64
  ow_seqno :: int
  ow_timer :: bool
  ow_response_queue :: "nat option"
  ow_os :: "ow_call kernel"

definition ow_sys :: "ow_call \<Rightarrow> one_wire \<Rightarrow> int \<times> one_wire" where
  "ow_sys c s = (let (r, k) = call c (ow_os s) in (r, s\<lparr>ow_os := k\<rparr>))"

section \<open>Requests to the kernel\<close>

definition ds18b20_set_state :: "ds18b20_state_t \<Rightarrow> one_wire \<Rightarrow> one_wire" where
  "ds18b20_set_state state s = s\<lparr>ow_state := state\<rparr>"

definition next_seqno :: "one_wire \<Rightarrow> int \<times> one_wire" where
  "next_seqno s =
     (let s = (if cn_seqno s = 1000 then s\<lparr>cn_seqno := 0\<rparr> else s);
          s = s\<lparr>cn_seqno := cn_seqno s + 1\<rparr>
      in (cn_seqno s, s))"

definition le64 :: "u64 \<Rightarrow> bytes" where
  "le64 w = le32 (ucast w) @ le32 (ucast (drop_bit 32 w))"

text \<open>
  The offsets of the parts of a message: the netlink header (16 bytes), the connector message (20
  bytes), the one-wire message (12 bytes) and its commands. The result is the buffer.
\<close>

abbreviation cn_at :: nat where "cn_at \<equiv> 16"
abbreviation w1_at :: nat where "w1_at \<equiv> 36"
abbreviation cmd_at :: nat where "cmd_at \<equiv> 48"

definition init_nl_message :: "nat \<Rightarrow> u64 \<Rightarrow> one_wire \<Rightarrow> bytes \<times> one_wire" where
  "init_nl_message sz reg s =
     (let buf = replicate sz 0;
          (seq, s) = next_seqno s;
          buf = put32 buf 8 (word_of_int seq);
          buf = put16 buf 4 3;
          buf = put32 buf cn_at 3;
          buf = put32 buf (cn_at + 4) 1;
          buf = put32 buf (cn_at + 8) (word_of_int seq);
          buf = put32 buf (cn_at + 12) 0;
          buf = poke buf w1_at [5];
          buf = put16 buf (w1_at + 2) 0;
          buf = poke buf (w1_at + 4) (le64 reg)
      in (buf, s))"

definition send_nl_message :: "bytes \<Rightarrow> one_wire \<Rightarrow> int \<times> one_wire" where
  "send_nl_message buf s =
     (let len = unat (get16 buf (w1_at + 2));
          nlmsg_len = 16 + (20 + 12 + len);
          buf = put32 buf 0 (word_of_nat nlmsg_len);
          buf = put16 buf (cn_at + 16) (word_of_nat (12 + len));
          (res, s) = ow_sys (Ow_send (ow_fd s) (take (16 + nlmsg_len) buf)) s
      in if res = - 1 then (- errno (ow_os s), s) else (uint (get32 buf (cn_at + 8)), s))"

text \<open>A command behind the ones in the message: its code, its length and its data.\<close>

definition append_cmd :: "u8 \<Rightarrow> u16 \<Rightarrow> bytes \<Rightarrow> bytes \<Rightarrow> bytes" where
  "append_cmd cmd len data buf =
     (let pos = cmd_at + unat (get16 buf (w1_at + 2));
          buf = poke buf pos [cmd];
          buf = put16 buf (pos + 2) len;
          buf = poke buf (pos + 4) data
      in put16 buf (w1_at + 2) (get16 buf (w1_at + 2) + (4 + len)))"

definition W1_CMD_READ :: u8 where "W1_CMD_READ = 0"
definition W1_CMD_WRITE :: u8 where "W1_CMD_WRITE = 1"
definition W1_SLAVE_CMD :: u8 where "W1_SLAVE_CMD = 5"
definition DS18B20_CONVERT_T :: u8 where "DS18B20_CONVERT_T = 0x44"
definition DS18B20_READ_SCRATCHPAD :: u8 where "DS18B20_READ_SCRATCHPAD = 0xbe"

definition ds18b20_send_convert :: "u64 \<Rightarrow> one_wire \<Rightarrow> int \<times> one_wire" where
  "ds18b20_send_convert reg s =
     (let (buf, s) = init_nl_message 256 reg s;
          buf = append_cmd W1_CMD_WRITE 1 [DS18B20_CONVERT_T] buf
      in send_nl_message buf s)"

definition ds18b20_send_read_scratchpad :: "u64 \<Rightarrow> one_wire \<Rightarrow> int \<times> one_wire" where
  "ds18b20_send_read_scratchpad reg s =
     (let (buf, s) = init_nl_message 256 reg s;
          buf = append_cmd W1_CMD_WRITE 1 [DS18B20_READ_SCRATCHPAD] buf;
          buf = append_cmd W1_CMD_READ 9 [] buf
      in send_nl_message buf s)"

section \<open>The sensor\<close>

definition ds18b20_finalize_busy :: "nat \<Rightarrow> one_wire \<Rightarrow> one_wire" where
  "ds18b20_finalize_busy response_queue s = snd (ow_sys (Ow_put response_queue (- EBUSY) 0) s)"

definition ds18b20_finalize :: "int \<Rightarrow> int \<Rightarrow> one_wire \<Rightarrow> one_wire res" where
  "ds18b20_finalize res temperature s =
     (case ow_response_queue s of
        None \<Rightarrow> Inl OutOfBounds
      | Some q \<Rightarrow>
          (let (_, s) = ow_sys (Ow_put q res temperature) s;
               s = ds18b20_set_state ds18b20_state_idle_t s
           in Inr (s\<lparr>ow_seqno := - 1, ow_response_queue := None\<rparr>)))"

text \<open>The register number in memory: family, 48 bits of id, and crc, taken from the slave id.\<close>

definition reg_num :: "u64 \<Rightarrow> u64" where
  "reg_num slave_id =
     drop_bit 56 slave_id OR push_bit 8 (drop_bit 8 slave_id AND mask 48) OR push_bit 56 (slave_id AND 0xff)"

definition ds18b20_handle_read_temperature :: "u64 \<Rightarrow> nat \<Rightarrow> one_wire \<Rightarrow> one_wire res" where
  "ds18b20_handle_read_temperature slave_id response_queue s =
     (if ow_response_queue s \<noteq> None then Inr (ds18b20_finalize_busy response_queue s)
      else
        let s = s\<lparr>ow_response_queue := Some response_queue, ow_id := reg_num slave_id\<rparr>;
            (seq, s) = ds18b20_send_convert (ow_id s) s;
            s = s\<lparr>ow_seqno := seq\<rparr>
        in if ow_seqno s \<ge> 0 then Inr (ds18b20_set_state ds18b20_state_wait_for_convert_done_t s)
           else ds18b20_finalize (ow_seqno s) 0 s)"

definition ds18b20_handle_read_temperature_convert_done :: "one_wire \<Rightarrow> one_wire" where
  "ds18b20_handle_read_temperature_convert_done s =
     (let (_, s) = ow_sys (Ow_timer_start 750 0) s
      in ds18b20_set_state ds18b20_state_wait_for_convert_timeout_t (s\<lparr>ow_timer := True\<rparr>))"

definition ds18b20_handle_read_temperature_timeout :: "one_wire \<Rightarrow> one_wire res" where
  "ds18b20_handle_read_temperature_timeout s =
     (let (seq, s) = ds18b20_send_read_scratchpad (ow_id s) s;
          s = s\<lparr>ow_seqno := seq\<rparr>
      in if ow_seqno s \<ge> 0 then Inr (ds18b20_set_state ds18b20_state_wait_for_read_done_t s)
         else ds18b20_finalize (ow_seqno s) 0 s)"

section \<open>Received messages\<close>

text \<open>Checked reads of what was received.\<close>

definition read8 :: "bytes \<Rightarrow> nat \<Rightarrow> u8 res" where
  "read8 m i = (if i < length m then Inr (byte_at m i) else Inl OutOfBounds)"

definition read16 :: "bytes \<Rightarrow> nat \<Rightarrow> u16 res" where
  "read16 m i = (if i + 2 \<le> length m then Inr (get16 m i) else Inl OutOfBounds)"

definition read32 :: "bytes \<Rightarrow> nat \<Rightarrow> u32 res" where
  "read32 m i = (if i + 4 \<le> length m then Inr (get32 m i) else Inl OutOfBounds)"

text \<open>The scratchpad starts with the temperature; \<open>cmd\<close> is the place of the command.\<close>

definition ds18b20_handle_read_temperature_read_scratchpad_done :: "bytes \<Rightarrow> nat \<Rightarrow> one_wire \<Rightarrow> one_wire res" where
  "ds18b20_handle_read_temperature_read_scratchpad_done m cmd s =
     andthen (read16 m (cmd + 2)) (\<lambda>len.
       if len \<noteq> 9 then Inr s
       else andthen (read16 m (cmd + 4)) (\<lambda>temperature. ds18b20_finalize 0 (sint temperature) s))"

definition next_cmd :: "bytes \<Rightarrow> nat \<Rightarrow> nat \<Rightarrow> nat option res" where
  "next_cmd m nl_msg offset =
     andthen (read16 m (nl_msg + 2)) (\<lambda>len.
       if offset + 4 > unat len then Inr None
       else andthen (read16 m (nl_msg + 12 + offset + 2)) (\<lambda>cmd_len.
         if offset + 4 + unat cmd_len > unat len then Inr None else Inr (Some (nl_msg + 12 + offset))))"

text \<open>What a command of a reply does.\<close>

definition handle_cmd :: "bytes \<Rightarrow> nat \<Rightarrow> one_wire \<Rightarrow> one_wire res" where
  "handle_cmd m cmd s =
     andthen (read8 m cmd) (\<lambda>code.
       if code = W1_CMD_WRITE
       then Inr (if ow_state s = ds18b20_state_wait_for_convert_done_t
                 then ds18b20_handle_read_temperature_convert_done s else s)
       else if code = W1_CMD_READ
       then if ow_state s = ds18b20_state_wait_for_read_done_t
            then ds18b20_handle_read_temperature_read_scratchpad_done m cmd s else Inr s
       else Inr s)"

lemma read16_Inr: "read16 m i = Inr w \<longleftrightarrow> i + 2 \<le> length m \<and> w = get16 m i"
  by (auto simp: read16_def)

lemma next_cmd_room: "next_cmd m nl offset = Inr (Some c) \<Longrightarrow> offset < 65536"
  using unsigned_less [of "get16 m (nl + 2)", where ?'a = nat]
  by (auto simp: next_cmd_def andthen_eq_Inr read16_Inr split: if_splits)

function slave_response_loop :: "bytes \<Rightarrow> nat \<Rightarrow> nat \<Rightarrow> one_wire \<Rightarrow> one_wire res" where
  "slave_response_loop m nl_msg offset s =
     andthen (next_cmd m nl_msg offset) (\<lambda>cmd.
       case cmd of
         None \<Rightarrow> Inr s
       | Some c \<Rightarrow>
           andthen (handle_cmd m c s) (\<lambda>s.
           andthen (read16 m (c + 2)) (\<lambda>len. slave_response_loop m nl_msg (offset + (4 + unat len)) s)))"
  by pat_completeness auto
termination
  by (relation "measure (\<lambda>(m, nl, offset, s). 65536 - offset)") (auto dest: next_cmd_room)

declare slave_response_loop.simps [simp del]

definition ds18b20_handle_read_temperature_slave_response :: "bytes \<Rightarrow> nat \<Rightarrow> one_wire \<Rightarrow> one_wire res" where
  "ds18b20_handle_read_temperature_slave_response m nl_msg s =
     andthen (read8 m (nl_msg + 1)) (\<lambda>status.
       if status \<noteq> 0 then ds18b20_finalize (- int (unat status)) 0 s
       else slave_response_loop m nl_msg 0 s)"

text \<open>The place of the message at an offset, in a connector message at \<open>cn\<close>.\<close>

definition next_nl_msg :: "bytes \<Rightarrow> nat \<Rightarrow> u16 \<Rightarrow> nat option res" where
  "next_nl_msg m cn offset =
     andthen (read16 m (cn + 16)) (\<lambda>len. Inr (if offset = len then None else Some (cn + 20 + unat offset)))"

text \<open>
  The offset is a \<open>uint16_t\<close>, which wraps: a message that claims 65524 bytes of data leaves it
  where it is, and the loop does not end.
\<close>

partial_function (option) message_done_loop :: "bytes \<Rightarrow> nat \<Rightarrow> u16 \<Rightarrow> one_wire \<Rightarrow> one_wire res option" where
  "message_done_loop m cn offset s =
     (case next_nl_msg m cn offset of
        Inl e \<Rightarrow> Some (Inl e)
      | Inr None \<Rightarrow> Some (Inr s)
      | Inr (Some nl) \<Rightarrow>
          (case andthen (read8 m nl) (\<lambda>type.
                andthen (read32 m (cn + 8)) (\<lambda>seq.
                  if type = W1_SLAVE_CMD \<and> seq = word_of_int (ow_seqno s)
                  then ds18b20_handle_read_temperature_slave_response m nl s else Inr s)) of
             Inl e \<Rightarrow> Some (Inl e)
           | Inr s \<Rightarrow>
               (case read16 m (nl + 2) of
                  Inl e \<Rightarrow> Some (Inl e)
                | Inr len \<Rightarrow> message_done_loop m cn (offset + (12 + len)) s)))"

declare message_done_loop.simps [code]

definition handle_message_done :: "bytes \<Rightarrow> nat \<Rightarrow> one_wire \<Rightarrow> one_wire res option" where
  "handle_message_done m cn s = message_done_loop m cn 0 s"

text \<open>\<open>sz\<close> is the result of \<open>read\<close>, \<open>err\<close> the value of \<open>errno\<close> and \<open>data\<close> the bytes received.\<close>

definition handle_socket :: "int \<Rightarrow> int \<Rightarrow> bytes \<Rightarrow> one_wire \<Rightarrow> (int \<times> one_wire) res option" where
  "handle_socket sz err data s =
     (if sz \<le> 0 then Some (Inr (if sz = - 1 \<and> err = EINTR then 0 else - 1, s))
      else if sz < 16 then Some (Inr (0, s))
      else
        let m = take (nat sz) (take 512 data)
        in case read16 m 4 of
             Inl e \<Rightarrow> Some (Inl e)
           | Inr type \<Rightarrow>
               if type = 3
               then map_option (\<lambda>r. andthen r (\<lambda>s. Inr (0, s))) (handle_message_done m cn_at s)
               else Some (Inr (0, s)))"

section \<open>The thread\<close>

text \<open>What \<open>epoll_wait\<close> reports, with what the read behind it returns.\<close>

datatype ow_event =
    Epoll_failed int
  | Socket_event int int bytes
  | Put_event int
  | Other_event

text \<open>A round of the loop; the thread goes on when the first result is 0.\<close>

definition one_wire_round :: "ow_event \<Rightarrow> one_wire \<Rightarrow> (int \<times> one_wire) res option" where
  "one_wire_round ev s =
     (case ev of
        Epoll_failed res \<Rightarrow> Some (Inr (if res = 0 then - 1 else res, s))
      | Socket_event sz err data \<Rightarrow> handle_socket sz err data s
      | Put_event res \<Rightarrow>
          if res \<noteq> 8 then Some (Inr (- 1, s))
          else
            (case ow_queue s of
               [] \<Rightarrow> Some (Inl Blocked)
             | msg # q \<Rightarrow>
                 let s = s\<lparr>ow_queue := q\<rparr>
                 in Some (andthen
                      (case msg of
                         Read_temperature_req slave_id response_queue \<Rightarrow> ds18b20_handle_read_temperature slave_id response_queue s
                       | Read_temperature_timeout \<Rightarrow> ds18b20_handle_read_temperature_timeout s)
                      (\<lambda>s. Inr (0, s))))
      | Other_event \<Rightarrow> Some (Inr (1, s)))"

text \<open>
  The loop over the events of a run; \<open>res\<close> is uninitialised at first. The result says whether the
  thread is still waiting for an event.
\<close>

fun one_wire_main :: "int \<Rightarrow> ow_event list \<Rightarrow> one_wire \<Rightarrow> (bool \<times> one_wire) res option" where
  "one_wire_main res evs s =
     (if res \<noteq> 0 then let (_, s) = ow_sys (Ow_close (ow_fd s)) s in Some (Inr (False, s))
      else case evs of
             [] \<Rightarrow> Some (Inr (True, s))
           | ev # evs \<Rightarrow>
               (case one_wire_round ev s of
                  None \<Rightarrow> None
                | Some (Inl e) \<Rightarrow> Some (Inl e)
                | Some (Inr (res, s)) \<Rightarrow> one_wire_main res evs s))"

declare one_wire_main.simps [simp del]

section \<open>Starting and using the module\<close>

definition init_socket :: "one_wire \<Rightarrow> int \<times> one_wire" where
  "init_socket s =
     (let (fd, s) = ow_sys Ow_socket s;
          s = s\<lparr>ow_fd := fd\<rparr>
      in if ow_fd s = - 1 then (- 1, s)
         else
           let (res, s) = ow_sys (Ow_bind (ow_fd s)) s
           in if res = - 1 then let (_, s) = ow_sys (Ow_close (ow_fd s)) s in (- 1, s)
              else
                let (res, s) = ow_sys (Ow_epoll_add (ow_epoll_fd s) (ow_fd s)) s
                in if res = - 1 then let (_, s) = ow_sys (Ow_close (ow_fd s)) s in (- 1, s)
                   else
                     let (res, s) = ow_sys (Ow_epoll_add (ow_epoll_fd s) (ow_put_fd s)) s
                     in (0, s))"

definition ml_one_wire_init :: "one_wire \<Rightarrow> one_wire" where
  "ml_one_wire_init s =
     (let s = s\<lparr>cn_seqno := 0, ow_seqno := - 1, ow_state := ds18b20_state_idle_t, ow_response_queue := None,
                ow_queue := [], ow_timer := False\<rparr>;
          (fd, s) = ow_sys Ow_epoll_create s;
          s = s\<lparr>ow_epoll_fd := fd\<rparr>
      in if ow_epoll_fd s = - 1 then s
         else let (fd, s) = ow_sys Ow_eventfd s in s\<lparr>ow_put_fd := fd\<rparr>)"

definition ml_one_wire_start :: "one_wire \<Rightarrow> one_wire" where
  "ml_one_wire_start s = (let (_, s) = init_socket s; (_, s) = ow_sys Ow_pthread_create s in s)"

definition on_put_signal_event :: "one_wire \<Rightarrow> one_wire" where
  "on_put_signal_event s = snd (ow_sys (Ow_write (ow_put_fd s)) s)"

text \<open>The queue calls the callback on every put.\<close>

definition ow_queue_put :: "ow_message \<Rightarrow> one_wire \<Rightarrow> one_wire" where
  "ow_queue_put msg s = on_put_signal_event (s\<lparr>ow_queue := ow_queue s @ [msg]\<rparr>)"

text \<open>
  The request of \<open>ml_one_wire_read_temperature\<close>, which then waits for the response on its queue.
\<close>

definition read_temperature_request :: "u64 \<Rightarrow> nat \<Rightarrow> one_wire \<Rightarrow> one_wire" where
  "read_temperature_request slave_id response_queue s = ow_queue_put (Read_temperature_req slave_id response_queue) s"

section \<open>The shell command\<close>

definition ds18b20_state_string :: "ds18b20_state_t \<Rightarrow> string" where
  "ds18b20_state_string state =
     (case state of
        ds18b20_state_idle_t \<Rightarrow> ''IDLE''
      | ds18b20_state_wait_for_convert_done_t \<Rightarrow> ''WAIT-FOR-CONVERT-DONE''
      | ds18b20_state_wait_for_convert_timeout_t \<Rightarrow> ''WAIT-FOR-CONVERT-TIMEOUT''
      | ds18b20_state_wait_for_read_done_t \<Rightarrow> ''WAIT-FOR-READ-DONE'')"

text \<open>\<open>%.2f\<close> of a temperature in 1/16 degree: to the nearest hundredth, a tie to the even one.\<close>

definition hundredths :: "int \<Rightarrow> int" where
  "hundredths t =
     (let q = \<bar>t\<bar> * 25 div 4; r = \<bar>t\<bar> * 25 mod 4
      in if r < 2 \<or> r = 2 \<and> even q then q else q + 1)"

definition show_temperature :: "int \<Rightarrow> string" where
  "show_temperature t =
     (let h = hundredths t
      in (if t < 0 then ''-'' else '''') @ show_int (h div 100) @ ''.''
         @ [digit_char (nat (h div 10 mod 10)), digit_char (nat (h mod 10))])"

text \<open>\<open>strtoull\<close> in base 16: blanks, a sign, a prefix, digits, and the largest value on overflow.\<close>

definition hex_value :: "char \<Rightarrow> nat option" where
  "hex_value c =
     (let n = of_char c :: nat
      in if 48 \<le> n \<and> n \<le> 57 then Some (n - 48)
         else if 97 \<le> n \<and> n \<le> 102 then Some (n - 87)
         else if 65 \<le> n \<and> n \<le> 70 then Some (n - 55) else None)"

fun hex_digits :: "nat \<Rightarrow> string \<Rightarrow> nat" where
  "hex_digits acc [] = acc"
| "hex_digits acc (c # s) = (case hex_value c of None \<Rightarrow> acc | Some d \<Rightarrow> hex_digits (16 * acc + d) s)"

definition strip_prefix_0x :: "string \<Rightarrow> string" where
  "strip_prefix_0x s =
     (case s of a # b # c # t \<Rightarrow>
        if a = CHR ''0'' \<and> (b = CHR ''x'' \<or> b = CHR ''X'') \<and> hex_value c \<noteq> None then c # t else s
      | _ \<Rightarrow> s)"

definition strtoull16 :: "string \<Rightarrow> u64" where
  "strtoull16 s =
     (let s = dropWhile (\<lambda>c. c = CHR '' '' \<or> 9 \<le> (of_char c :: nat) \<and> (of_char c :: nat) \<le> 13) s;
          negative = (s \<noteq> [] \<and> hd s = CHR ''-'');
          s = (if s \<noteq> [] \<and> (hd s = CHR ''-'' \<or> hd s = CHR ''+'') then tl s else s);
          n = hex_digits 0 (strip_prefix_0x s)
      in if n \<ge> 2 ^ 64 then - 1 else if negative then - word_of_nat n else word_of_nat n)"

text \<open>\<open>read\<close> is \<open>ml_one_wire_read_temperature\<close>, with its result and the temperature.\<close>

definition ds18b20_command_read :: "(u64 \<Rightarrow> int \<times> int) \<Rightarrow> string list \<Rightarrow> int \<times> string" where
  "ds18b20_command_read read argv =
     (if length argv \<noteq> 3 then (- EINVAL, '''')
      else let (res, temperature) = read (strtoull16 (argv ! 2))
           in (res, if res = 0 then ''Temperature: '' @ show_temperature temperature @ '' C'' @ [CHR 0x0A] else ''''))"

definition ds18b20_command :: "(u64 \<Rightarrow> int \<times> int) \<Rightarrow> string list \<Rightarrow> int \<times> string" where
  "ds18b20_command read argv =
     (let (res, out) =
            (if length argv \<ge> 2 \<and> argv ! 1 = ''read'' then ds18b20_command_read read argv else (- EINVAL, ''''))
      in (res, if res \<noteq> 0 then out @ ''Usage: ds18b20 read <sensor-id>'' @ [CHR 0x0A] else out))"

lemma hundredths_near: "\<bar>16 * hundredths t - 100 * \<bar>t\<bar>\<bar> \<le> 8"
proof -
  define q r where "q = \<bar>t\<bar> * 25 div 4" and "r = \<bar>t\<bar> * 25 mod 4"
  have "4 * q + r = \<bar>t\<bar> * 25" "0 \<le> r" "r < 4" by (simp_all add: q_def r_def)
  moreover have "hundredths t = (if r < 2 \<or> r = 2 \<and> even q then q else q + 1)"
    by (simp add: hundredths_def q_def r_def Let_def)
  ultimately show ?thesis by (auto split: if_splits)
qed

section \<open>The system\<close>

text \<open>
  What happens around the thread: a client asks for a temperature, the timer expires and its handler
  posts the timeout, or the thread wakes up. It does not wake up for a queue that is empty: the
  event descriptor counts the messages.
\<close>

datatype ow_action =
    Request u64 nat
  | Expire
  | Wake ow_event

fun wakes_for_nothing :: "ow_event \<Rightarrow> one_wire \<Rightarrow> bool" where
  "wakes_for_nothing (Put_event res) s \<longleftrightarrow> ow_queue s = []"
| "wakes_for_nothing _ s \<longleftrightarrow> False"

fun ow_step :: "ow_action \<Rightarrow> bool \<times> one_wire \<Rightarrow> (bool \<times> one_wire) res option" where
  "ow_step (Request slave_id q) (alive, s) = Some (Inr (alive, read_temperature_request slave_id q s))"
| "ow_step Expire (alive, s) =
     Some (Inr (alive, if ow_timer s then ow_queue_put Read_temperature_timeout (s\<lparr>ow_timer := False\<rparr>) else s))"
| "ow_step (Wake ev) (alive, s) =
     (if \<not> alive \<or> wakes_for_nothing ev s then Some (Inr (alive, s)) else one_wire_main 0 [ev] s)"

fun ow_run :: "ow_action list \<Rightarrow> bool \<times> one_wire \<Rightarrow> (bool \<times> one_wire) res option" where
  "ow_run [] st = Some (Inr st)"
| "ow_run (a # as) st =
     (case ow_step a st of None \<Rightarrow> None | Some (Inl e) \<Rightarrow> Some (Inl e) | Some (Inr st) \<Rightarrow> ow_run as st)"

section \<open>Replies\<close>

text \<open>The commands of a reply: code, result and data.\<close>

fun cmd_bytes :: "(u8 \<times> u8 \<times> bytes) list \<Rightarrow> bytes" where
  "cmd_bytes [] = []"
| "cmd_bytes ((code, r, d) # cs) = [code, r] @ le16 (word_of_nat (length d)) @ d @ cmd_bytes cs"

text \<open>A received reply of a sensor: the headers, one message with a status, and its commands.\<close>

definition is_reply :: "bytes \<Rightarrow> u32 \<Rightarrow> u8 \<Rightarrow> (u8 \<times> u8 \<times> bytes) list \<Rightarrow> bool" where
  "is_reply m seq status cmds \<longleftrightarrow>
     (\<exists>hdr cn reg. m = hdr @ cn @ [W1_SLAVE_CMD, status] @ le16 (word_of_nat (length (cmd_bytes cmds))) @ reg @ cmd_bytes cmds
       \<and> length hdr = 16 \<and> get16 hdr 4 = 3 \<and> length cn = 20 \<and> get32 cn 8 = seq
       \<and> get16 cn 16 = word_of_nat (12 + length (cmd_bytes cmds)) \<and> length reg = 8) \<and> length m \<le> 512"

text \<open>What a command and a reply mean.\<close>

definition cmd_spec :: "u8 \<times> u8 \<times> bytes \<Rightarrow> one_wire \<Rightarrow> one_wire res" where
  "cmd_spec = (\<lambda>(code, r, d) s.
     if code = W1_CMD_WRITE \<and> ow_state s = ds18b20_state_wait_for_convert_done_t
     then Inr (ds18b20_handle_read_temperature_convert_done s)
     else if code = W1_CMD_READ \<and> ow_state s = ds18b20_state_wait_for_read_done_t \<and> length d = 9
     then ds18b20_finalize 0 (sint (get16 d 0)) s
     else Inr s)"

fun cmds_spec :: "(u8 \<times> u8 \<times> bytes) list \<Rightarrow> one_wire \<Rightarrow> one_wire res" where
  "cmds_spec [] s = Inr s"
| "cmds_spec (c # cs) s = andthen (cmd_spec c s) (cmds_spec cs)"

definition reply_spec :: "u32 \<Rightarrow> u8 \<Rightarrow> (u8 \<times> u8 \<times> bytes) list \<Rightarrow> one_wire \<Rightarrow> one_wire res" where
  "reply_spec seq status cmds s =
     (if seq \<noteq> word_of_int (ow_seqno s) then Inr s
      else if status \<noteq> 0 then ds18b20_finalize (- int (unat status)) 0 s
      else cmds_spec cmds s)"

section \<open>Parsing a reply\<close>

lemma get16_at: "get16 (pre @ le16 w @ post) (length pre) = w"
  by (rule get16_le) (simp_all add: le16_def byte_at_def nth_append)

lemma get16_at': "length pre = n \<Longrightarrow> get16 (pre @ le16 w @ post) n = w"
  using get16_at by blast

lemma unat_word_len: "n < 65536 \<Longrightarrow> unat (word_of_nat n :: u16) = n"
  by (simp add: unat_of_nat take_bit_nat_eq_self)

lemma cmd_bytes_append: "cmd_bytes (xs @ ys) = cmd_bytes xs @ cmd_bytes ys"
  by (induction xs rule: cmd_bytes.induct) auto

lemma get16_append: "i + 2 \<le> length xs \<Longrightarrow> get16 (xs @ ys) i = get16 xs i"
  by (simp add: get16_def byte_at_append)

lemma handle_cmd_spec:
  assumes "m = pre @ [code, r] @ le16 (word_of_nat (length d)) @ d @ post" and "length d < 65536"
  shows "handle_cmd m (length pre) s = cmd_spec (code, r, d) s"
proof -
  have c: "read8 m (length pre) = Inr code" by (simp add: assms(1) read8_def byte_at_append byte_at_def)
  have l: "read16 m (length pre + 2) = Inr (word_of_nat (length d))"
    using get16_at' [of "pre @ [code, r]" "length pre + 2" "word_of_nat (length d)" "d @ post"]
    by (simp add: assms(1) read16_Inr)
  have t: "read16 m (length pre + 4) = Inr (get16 d 0)" if "length d = 9"
  proof -
    have "byte_at m (length pre + 4 + j) = byte_at d j" if "j < 9" for j
      using that \<open>length d = 9\<close> by (simp add: assms(1) byte_at_append byte_at_def nth_append)
    from this [of 0] this [of 1] show ?thesis using that
      by (simp add: read16_Inr get16_def assms(1))
  qed
  have "word_of_nat (length d) = (9 :: u16) \<longleftrightarrow> length d = 9"
  proof
    assume "word_of_nat (length d) = (9 :: u16)"
    then have "unat (word_of_nat (length d) :: u16) = 9" by simp
    then show "length d = 9" using unat_word_len [OF assms(2)] by simp
  qed simp
  then show ?thesis
    using c l t by (auto simp: handle_cmd_def cmd_spec_def ds18b20_handle_read_temperature_read_scratchpad_done_def
        W1_CMD_READ_def W1_CMD_WRITE_def)
qed

text \<open>The loop over the commands: \<open>seen\<close> are behind it, \<open>cs\<close> ahead.\<close>

lemma slave_response_walk:
  assumes "m = pre @ [t, status] @ le16 (word_of_nat (length (cmd_bytes (seen @ cs)))) @ reg @ cmd_bytes (seen @ cs)"
    and "length reg = 8" and "length (cmd_bytes (seen @ cs)) < 65536"
  shows "slave_response_loop m (length pre) (length (cmd_bytes seen)) s = cmds_spec cs s"
  using assms
proof (induction cs arbitrary: seen s)
  case Nil
  have "get16 m (length pre + 2) = word_of_nat (length (cmd_bytes seen))"
    using get16_at' [of "pre @ [t, status]" "length pre + 2" _ "reg @ cmd_bytes seen"] Nil.prems(1) by simp
  then have "read16 m (length pre + 2) = Inr (word_of_nat (length (cmd_bytes seen)))"
    using Nil.prems(1) by (simp add: read16_Inr)
  then have "next_cmd m (length pre) (length (cmd_bytes seen)) = Inr None"
    using Nil.prems(3) by (simp add: next_cmd_def unat_word_len)
  then show ?case unfolding slave_response_loop.simps [of m "length pre" "length (cmd_bytes seen)" s] by simp
next
  case (Cons c cs)
  obtain code r d where c: "c = (code, r, d)" by (cases c) auto
  let ?all = "cmd_bytes (seen @ c # cs)" and ?o = "length (cmd_bytes seen)"
  define L where "L = le16 (word_of_nat (length ?all))"
  let ?p = "pre @ [t, status] @ L @ reg @ cmd_bytes seen"
  have m0: "m = pre @ [t, status] @ L @ reg @ ?all" unfolding L_def by (rule Cons.prems(1))
  have L: "length L = 2" by (simp add: L_def)
  have all: "?all = cmd_bytes seen @ [code, r] @ le16 (word_of_nat (length d)) @ d @ cmd_bytes cs"
    by (simp add: cmd_bytes_append c)
  have len: "length ?all = ?o + 4 + length d + length (cmd_bytes cs)" by (simp add: all)
  have d: "length d < 65536" using Cons.prems(3) len by simp
  have m: "m = ?p @ [code, r] @ le16 (word_of_nat (length d)) @ d @ cmd_bytes cs"
    unfolding m0 all by simp
  have p: "length ?p = length pre + 12 + ?o" using Cons.prems(2) L by simp
  have "get16 m (length pre + 2) = word_of_nat (length ?all)"
    using get16_at' [of "pre @ [t, status]" "length pre + 2" _ "reg @ ?all"] Cons.prems(1) by simp
  then have l: "read16 m (length pre + 2) = Inr (word_of_nat (length ?all))"
    using Cons.prems(1) by (simp add: read16_Inr)
  have "get16 m (length ?p + 2) = word_of_nat (length d)"
    using get16_at' [of "?p @ [code, r]" "length ?p + 2" "word_of_nat (length d)" "d @ cmd_bytes cs"] m by simp
  then have cl: "read16 m (length pre + 12 + ?o + 2) = Inr (word_of_nat (length d))"
    unfolding p [symmetric] using arg_cong [OF m, of length] by (simp add: read16_Inr)
  define w :: u16 where "w = word_of_nat (length ?all)"
  have "unat w = length ?all" unfolding w_def by (rule unat_word_len [OF Cons.prems(3)])
  then have w: "\<not> unat w < ?o + 4" "\<not> unat w < ?o + 4 + length d" using len by simp_all
  have n: "next_cmd m (length pre) ?o = Inr (Some (length pre + 12 + ?o))"
    using w unfolding next_cmd_def l [folded w_def] andthen_simps cl unat_word_len [OF d] by simp
  have h: "handle_cmd m (length pre + 12 + ?o) s = cmd_spec c s" for s
    unfolding p [symmetric] c by (rule handle_cmd_spec [OF m d])
  have step: "slave_response_loop m (length pre) (?o + (4 + length d)) s = cmds_spec cs s" for s
  proof -
    have o1: "length (cmd_bytes (seen @ [c])) = ?o + (4 + length d)" by (simp add: cmd_bytes_append c)
    have a: "(seen @ [c]) @ cs = seen @ c # cs" by simp
    show ?thesis using Cons.IH [of "seen @ [c]" s, unfolded a o1] Cons.prems by blast
  qed
  show ?case
    unfolding slave_response_loop.simps [of m "length pre" ?o s] n andthen_simps option.case h cl
      unat_word_len [OF d] step cmds_spec.simps ..
qed

lemma handle_reply:
  assumes "is_reply m seq status cmds"
  shows "handle_message_done m cn_at s = Some (reply_spec seq status cmds s)"
proof -
  obtain hdr cn reg where m: "m = hdr @ cn @ [W1_SLAVE_CMD, status] @ le16 (word_of_nat (length (cmd_bytes cmds))) @ reg @ cmd_bytes cmds"
    and l: "length hdr = 16" "length cn = 20" "length reg = 8" and c: "get32 cn 8 = seq"
    "get16 cn 16 = word_of_nat (12 + length (cmd_bytes cmds))" and max: "length m \<le> 512"
    using assms by (auto simp: is_reply_def)
  let ?n = "length (cmd_bytes cmds)"
  have n: "?n < 65536 - 12" using max m l by simp
  have total: "length m = 48 + ?n" using m l by simp
  have in_cn: "byte_at m (16 + j) = byte_at cn j" if "j < 20" for j
    using that by (simp add: m l byte_at_append)
  have "get16 m (16 + 16) = get16 cn 16" unfolding get16_def using in_cn [of 16] in_cn [of 17] by simp
  then have len: "read16 m (cn_at + 16) = Inr (word_of_nat (12 + ?n))"
    using c total by (simp add: read16_Inr)
  have "get32 m (16 + 8) = get32 cn 8"
    unfolding get32_def using in_cn [of 8] in_cn [of 9] in_cn [of 10] in_cn [of 11] by simp
  then have sq: "read32 m (cn_at + 8) = Inr seq" using c total by (simp add: read32_def)
  have ty: "read8 m 36 = Inr W1_SLAVE_CMD" and st: "read8 m (36 + 1) = Inr status"
    by (simp_all add: m l read8_def byte_at_def nth_append)
  have "get16 m 38 = word_of_nat ?n"
    using get16_at' [of "hdr @ cn @ [W1_SLAVE_CMD, status]" 38 "word_of_nat ?n" "reg @ cmd_bytes cmds"] l by (simp add: m)
  then have ml: "read16 m (36 + 2) = Inr (word_of_nat ?n)" using total by (simp add: read16_Inr)
  have walk: "slave_response_loop m 36 0 s = cmds_spec cmds s" for s
    using slave_response_walk [of m "hdr @ cn" W1_SLAVE_CMD status "[]" cmds reg s] m l n by simp
  have "(word_of_nat (12 + ?n) :: u16) \<noteq> 0"
    using unat_word_len [of "12 + ?n"] n by (metis add_is_0 unat_0 zero_neq_numeral less_diff_conv add.commute)
  then have first: "next_nl_msg m cn_at 0 = Inr (Some 36)" using len by (simp add: next_nl_msg_def)
  have "next_nl_msg m cn_at (0 + (12 + word_of_nat ?n)) = Inr None" using len by (simp add: next_nl_msg_def)
  then have last: "message_done_loop m cn_at (0 + (12 + word_of_nat ?n)) s = Some (Inr s)" for s
    unfolding message_done_loop.simps [of m cn_at "0 + (12 + word_of_nat ?n)" s] by simp
  have body: "andthen (read8 m 36) (\<lambda>type. andthen (read32 m (cn_at + 8)) (\<lambda>seq'.
      if type = W1_SLAVE_CMD \<and> seq' = word_of_int (ow_seqno s)
      then ds18b20_handle_read_temperature_slave_response m 36 s else Inr s)) = reply_spec seq status cmds s"
    unfolding ty sq ds18b20_handle_read_temperature_slave_response_def st
    by (simp add: reply_spec_def walk)
  show ?thesis
    unfolding handle_message_done_def message_done_loop.simps [of m cn_at 0] first
    using body ml last by (simp split: sum.split)
qed

section \<open>The invariant\<close>

fun put_queue :: "ow_call \<times> int \<Rightarrow> nat list" where
  "put_queue (Ow_put q res temperature, r) = [q]"
| "put_queue _ = []"

fun req_queue :: "ow_message \<Rightarrow> nat list" where
  "req_queue (Read_temperature_req slave_id q) = [q]"
| "req_queue Read_temperature_timeout = []"

text \<open>The queues that have got a response, and the ones that wait for one.\<close>

definition answered :: "one_wire \<Rightarrow> nat multiset" where
  "answered s = mset (concat (map put_queue (calls (ow_os s))))"

definition outstanding :: "one_wire \<Rightarrow> nat multiset" where
  "outstanding s = mset (concat (map req_queue (ow_queue s)))
     + (case ow_response_queue s of None \<Rightarrow> {#} | Some q \<Rightarrow> {#q#})"

definition ow_total :: "one_wire \<Rightarrow> nat multiset" where
  "ow_total s = answered s + outstanding s"

definition timeouts :: "one_wire \<Rightarrow> nat" where
  "timeouts s = length (filter (\<lambda>m. m = Read_temperature_timeout) (ow_queue s)) + (if ow_timer s then 1 else 0)"

text \<open>What holds also in the middle of a handler.\<close>

definition ow_base :: "one_wire \<Rightarrow> bool" where
  "ow_base s \<longleftrightarrow> 0 \<le> cn_seqno s \<and> cn_seqno s \<le> 1000 \<and> (\<forall>i. 0 < errno_at (ow_os s) i)"

definition ow_ok :: "one_wire \<Rightarrow> bool" where
  "ow_ok s \<longleftrightarrow> ow_base s
     \<and> (ow_response_queue s = None \<longleftrightarrow> ow_state s = ds18b20_state_idle_t)
     \<and> (if ow_state s = ds18b20_state_idle_t then ow_seqno s = - 1 else 0 \<le> ow_seqno s \<and> ow_seqno s \<le> 1000)
     \<and> timeouts s = (if ow_state s = ds18b20_state_wait_for_convert_timeout_t then 1 else 0)"

definition settles :: "one_wire res \<Rightarrow> nat multiset \<Rightarrow> bool" where
  "settles r m \<longleftrightarrow> (case r of Inl _ \<Rightarrow> False | Inr s \<Rightarrow> ow_ok s \<and> ow_total s = m)"

lemma settles_simps [simp]:
  "settles (Inr s) m \<longleftrightarrow> ow_ok s \<and> ow_total s = m"
  "settles (Inl e) m \<longleftrightarrow> False"
  by (simp_all add: settles_def)

lemma settles_andthen:
  "settles r m \<Longrightarrow> (\<And>s. ow_ok s \<Longrightarrow> ow_total s = m \<Longrightarrow> settles (f s) m) \<Longrightarrow> settles (andthen r f) m"
  by (cases r) auto

lemmas ow_defs = ow_sys_def call_eq Let_def ow_total_def answered_def outstanding_def timeouts_def ds18b20_set_state_def

lemma finalize_settles:
  assumes "ow_base s" and "ow_response_queue s = Some q" and "timeouts s = 0"
  shows "settles (ds18b20_finalize r t s) (ow_total s)"
  using assms by (simp add: ds18b20_finalize_def ow_ok_def ow_base_def ow_defs split: if_splits)

lemma convert_done_settles:
  assumes "ow_ok s" and "ow_state s = ds18b20_state_wait_for_convert_done_t"
  shows "ow_ok (ds18b20_handle_read_temperature_convert_done s)"
    and "ow_total (ds18b20_handle_read_temperature_convert_done s) = ow_total s"
  using assms
  by (auto simp: ds18b20_handle_read_temperature_convert_done_def ow_ok_def ow_base_def ow_defs split: if_splits)

lemma cmd_settles: "ow_ok s \<Longrightarrow> settles (cmd_spec c s) (ow_total s)"
proof -
  assume ok: "ow_ok s"
  obtain code r d where c: "c = (code, r, d)" by (cases c) auto
  let ?A = "code = W1_CMD_WRITE \<and> ow_state s = ds18b20_state_wait_for_convert_done_t"
  let ?B = "code = W1_CMD_READ \<and> ow_state s = ds18b20_state_wait_for_read_done_t \<and> length d = 9"
  consider ?A | "\<not> ?A" ?B | "\<not> ?A" "\<not> ?B" by blast
  then show ?thesis
  proof cases
    case 1
    then show ?thesis using convert_done_settles [OF ok] by (simp add: c cmd_spec_def)
  next
    case 2
    then obtain q where "ow_response_queue s = Some q" using ok by (auto simp: ow_ok_def)
    moreover have "ow_base s" "timeouts s = 0" using ok 2(2) by (simp_all add: ow_ok_def)
    ultimately have "settles (ds18b20_finalize 0 (sint (get16 d 0)) s) (ow_total s)" using finalize_settles by blast
    moreover have "cmd_spec c s = ds18b20_finalize 0 (sint (get16 d 0)) s"
      using 2 unfolding c cmd_spec_def case_prod_conv by (simp only: if_False if_True simp_thms)
    ultimately show ?thesis by simp
  next
    case 3
    then have "cmd_spec c s = Inr s" unfolding c cmd_spec_def case_prod_conv by (simp only: if_False)
    then show ?thesis using ok by simp
  qed
qed

lemma cmds_settle: "ow_ok s \<Longrightarrow> settles (cmds_spec cs s) (ow_total s)"
proof (induction cs arbitrary: s)
  case (Cons c cs)
  have "settles (andthen (cmd_spec c s) (cmds_spec cs)) (ow_total s)"
    by (rule settles_andthen [OF cmd_settles [OF Cons.prems]]) (metis Cons.IH)
  then show ?case by simp
qed simp

text \<open>A reply is in order: no reply carries the sequence number -1, and no error while the timer runs.\<close>

definition orderly_reply :: "one_wire \<Rightarrow> u32 \<Rightarrow> u8 \<Rightarrow> bool" where
  "orderly_reply s seq status \<longleftrightarrow> seq \<noteq> - 1
     \<and> (seq = word_of_int (ow_seqno s) \<and> ow_state s = ds18b20_state_wait_for_convert_timeout_t \<longrightarrow> status = 0)"

lemma reply_settles:
  assumes "ow_ok s" and "orderly_reply s seq status"
  shows "settles (reply_spec seq status cmds s) (ow_total s)"
proof (cases "seq = word_of_int (ow_seqno s)")
  case False
  then show ?thesis using assms by (simp add: reply_spec_def)
next
  case True
  then have "ow_seqno s \<noteq> - 1" using assms(2) by (auto simp: orderly_reply_def)
  then have st: "ow_state s \<noteq> ds18b20_state_idle_t" using assms(1) by (auto simp: ow_ok_def)
  show ?thesis
  proof (cases "status = 0")
    case False
    then have "timeouts s = 0" using True assms by (auto simp: ow_ok_def orderly_reply_def)
    moreover obtain q where "ow_response_queue s = Some q" using st assms(1) by (auto simp: ow_ok_def)
    moreover have "ow_base s" using assms(1) by (simp add: ow_ok_def)
    ultimately show ?thesis using True False finalize_settles by (simp add: reply_spec_def)
  next
    case 0: True
    then show ?thesis using True cmds_settle [OF assms(1)] by (simp add: reply_spec_def)
  qed
qed

section \<open>Sending\<close>

lemma get32_append_cmd: "j + 4 \<le> 38 \<Longrightarrow> get32 (append_cmd cmd len data b) j = get32 b j"
  by (simp add: append_cmd_def Let_def put16_def get_poke_other)

lemma length_append_cmd [simp]: "length (append_cmd cmd len data b) = length b"
  by (simp add: append_cmd_def Let_def)

lemma init_nl_message_seq:
  assumes "init_nl_message 256 reg s = (b, s')" and "0 \<le> cn_seqno s" and "cn_seqno s \<le> 1000"
  shows "s' = s\<lparr>cn_seqno := cn_seqno s'\<rparr>" and "1 \<le> cn_seqno s'" and "cn_seqno s' \<le> 1000"
    and "get32 b 24 = word_of_int (cn_seqno s')" and "length b = 256"
proof -
  show "s' = s\<lparr>cn_seqno := cn_seqno s'\<rparr>" "1 \<le> cn_seqno s'" "cn_seqno s' \<le> 1000"
    using assms by (auto simp: init_nl_message_def next_seqno_def Let_def split: if_splits)
  show "get32 b 24 = word_of_int (cn_seqno s')" "length b = 256"
    using assms(1)
    by (auto simp: init_nl_message_def next_seqno_def Let_def get_put_other get_poke_other get32_put32 split: if_splits)
qed

lemma send_nl_message_run:
  assumes "send_nl_message b s = (seq, s')" and "get32 b 24 = word_of_int n" and "1 \<le> n" and "n \<le> 1000"
    and "\<forall>i. 0 < errno_at (ow_os s) i"
  shows "(seq = n \<or> seq < 0) \<and> (\<exists>d r. s' = s\<lparr>ow_os := ow_os s\<lparr>calls := calls (ow_os s) @ [(Ow_send (ow_fd s) d, r)]\<rparr>\<rparr>)
    \<and> (answer (ow_os s) (length (calls (ow_os s))) \<noteq> - 1 \<longrightarrow> seq = n)"
proof -
  have "get32 (put16 (put32 b 0 v) 32 w) 24 = get32 b 24" for v w by (simp add: get_put_other)
  then have g: "uint (get32 (put16 (put32 b 0 v) 32 w) 24) = n" for v w
    using assms(2-4) by (simp add: uint_word_of_int)
  show ?thesis
    using assms(1,5) by (auto simp: send_nl_message_def ow_sys_def call_eq Let_def g errno_def split: if_splits)
qed

lemma send_run:
  assumes "ds18b20_send_convert reg s = (seq, s') \<or> ds18b20_send_read_scratchpad reg s = (seq, s')" and "ow_base s"
  shows "(0 \<le> seq \<and> seq \<le> 1000 \<or> seq < 0) \<and> (\<exists>n d r. 1 \<le> n \<and> n \<le> 1000
    \<and> s' = s\<lparr>cn_seqno := n, ow_os := ow_os s\<lparr>calls := calls (ow_os s) @ [(Ow_send (ow_fd s) d, r)]\<rparr>\<rparr>
    \<and> (answer (ow_os s) (length (calls (ow_os s))) \<noteq> - 1 \<longrightarrow> seq = n))"
proof -
  obtain b s1 where i: "init_nl_message 256 reg s = (b, s1)" by (cases "init_nl_message 256 reg s")
  have base: "0 \<le> cn_seqno s" "cn_seqno s \<le> 1000" "\<forall>i. 0 < errno_at (ow_os s) i"
    using assms(2) by (simp_all add: ow_base_def)
  note init = init_nl_message_seq [OF i base(1,2)]
  obtain c where c: "send_nl_message c s1 = (seq, s')" "get32 c 24 = word_of_int (cn_seqno s1)"
    using assms(1) i init(4)
    by (auto simp: ds18b20_send_convert_def ds18b20_send_read_scratchpad_def Let_def get32_append_cmd)
  have s1: "ow_os s1 = ow_os s" "ow_fd s1 = ow_fd s" using init(1) by (metis one_wire.select_convs one_wire.surjective one_wire.update_convs(1))+
  have "\<forall>i. 0 < errno_at (ow_os s1) i" using base(3) s1 by simp
  then obtain d r where r: "seq = cn_seqno s1 \<or> seq < 0"
    "s' = s1\<lparr>ow_os := ow_os s\<lparr>calls := calls (ow_os s) @ [(Ow_send (ow_fd s) d, r)]\<rparr>\<rparr>"
    "answer (ow_os s) (length (calls (ow_os s))) \<noteq> - 1 \<longrightarrow> seq = cn_seqno s1"
    using send_nl_message_run [OF c init(2,3)] unfolding s1 by blast
  have "s' = s\<lparr>cn_seqno := cn_seqno s1, ow_os := ow_os s\<lparr>calls := calls (ow_os s) @ [(Ow_send (ow_fd s) d, r)]\<rparr>\<rparr>"
    unfolding r(2) s1 by (subst init(1)) simp
  moreover have "0 \<le> seq \<and> seq \<le> 1000 \<or> seq < 0" using r(1) init(2,3) by auto
  ultimately show ?thesis using init(2,3) r(3) by blast
qed

section \<open>The handlers keep the invariant\<close>

lemma read_temperature_settles:
  assumes "ow_ok s"
  shows "settles (ds18b20_handle_read_temperature slave_id q s) (ow_total s + {#q#})"
proof (cases "ow_response_queue s")
  case (Some q')
  then show ?thesis using assms
    by (auto simp: ds18b20_handle_read_temperature_def ds18b20_finalize_busy_def ow_ok_def ow_base_def ow_defs split: if_splits)
next
  case None
  let ?s = "s\<lparr>ow_response_queue := Some q, ow_id := reg_num slave_id\<rparr>"
  have base: "ow_base ?s" and t0: "timeouts s = 0" using assms None by (auto simp: ow_ok_def ow_base_def)
  obtain seq s1 where run: "ds18b20_send_convert (ow_id ?s) ?s = (seq, s1)" by (cases "ds18b20_send_convert (ow_id ?s) ?s")
  obtain n d r where n: "1 \<le> n" "n \<le> 1000"
    and s1: "s1 = ?s\<lparr>cn_seqno := n, ow_os := ow_os ?s\<lparr>calls := calls (ow_os ?s) @ [(Ow_send (ow_fd ?s) d, r)]\<rparr>\<rparr>"
    and seq: "0 \<le> seq \<and> seq \<le> 1000 \<or> seq < 0"
    using send_run [OF disjI1 [OF run] base] by blast
  have tot: "ow_total (s1\<lparr>ow_seqno := seq\<rparr>) = ow_total s + {#q#}" using None by (simp add: s1 ow_defs)
  have eq: "ds18b20_handle_read_temperature slave_id q s =
      (if seq \<ge> 0 then Inr (ds18b20_set_state ds18b20_state_wait_for_convert_done_t (s1\<lparr>ow_seqno := seq\<rparr>))
       else ds18b20_finalize seq 0 (s1\<lparr>ow_seqno := seq\<rparr>))"
    using None run by (simp add: ds18b20_handle_read_temperature_def)
  show ?thesis
  proof (cases "0 \<le> seq")
    case True
    have "ow_ok (ds18b20_set_state ds18b20_state_wait_for_convert_done_t (s1\<lparr>ow_seqno := seq\<rparr>))"
      using True seq n base t0 by (auto simp: s1 ow_ok_def ow_base_def ds18b20_set_state_def timeouts_def)
    moreover have "ow_total (ds18b20_set_state ds18b20_state_wait_for_convert_done_t (s1\<lparr>ow_seqno := seq\<rparr>)) = ow_total s + {#q#}"
      using tot by (simp add: ow_defs)
    ultimately show ?thesis using True by (simp add: eq)
  next
    case False
    have "ow_base (s1\<lparr>ow_seqno := seq\<rparr>)" "ow_response_queue (s1\<lparr>ow_seqno := seq\<rparr>) = Some q"
      "timeouts (s1\<lparr>ow_seqno := seq\<rparr>) = 0"
      using n base t0 by (simp_all add: s1 ow_base_def timeouts_def)
    then have "settles (ds18b20_finalize seq 0 (s1\<lparr>ow_seqno := seq\<rparr>)) (ow_total (s1\<lparr>ow_seqno := seq\<rparr>))"
      by (rule finalize_settles)
    then show ?thesis using False by (simp only: eq tot if_False)
  qed
qed

lemma timeout_settles:
  assumes "ow_ok s" and "ow_queue s = Read_temperature_timeout # qs"
  shows "settles (ds18b20_handle_read_temperature_timeout (s\<lparr>ow_queue := qs\<rparr>)) (ow_total s)"
proof -
  let ?s = "s\<lparr>ow_queue := qs\<rparr>"
  have st: "ow_state s = ds18b20_state_wait_for_convert_timeout_t" and t0: "timeouts ?s = 0"
    using assms by (auto simp: ow_ok_def timeouts_def split: if_splits)
  then obtain q where q: "ow_response_queue s = Some q" using assms(1) by (auto simp: ow_ok_def)
  have base: "ow_base ?s" using assms(1) by (simp add: ow_ok_def ow_base_def)
  obtain seq s1 where run: "ds18b20_send_read_scratchpad (ow_id ?s) ?s = (seq, s1)"
    by (cases "ds18b20_send_read_scratchpad (ow_id ?s) ?s")
  obtain n d r where n: "1 \<le> n" "n \<le> 1000"
    and s1: "s1 = ?s\<lparr>cn_seqno := n, ow_os := ow_os ?s\<lparr>calls := calls (ow_os ?s) @ [(Ow_send (ow_fd ?s) d, r)]\<rparr>\<rparr>"
    and seq: "0 \<le> seq \<and> seq \<le> 1000 \<or> seq < 0"
    using send_run [OF disjI2 [OF run] base] by blast
  have tot: "ow_total (s1\<lparr>ow_seqno := seq\<rparr>) = ow_total s" using q assms(2) by (simp add: s1 ow_defs)
  have eq: "ds18b20_handle_read_temperature_timeout ?s =
      (if seq \<ge> 0 then Inr (ds18b20_set_state ds18b20_state_wait_for_read_done_t (s1\<lparr>ow_seqno := seq\<rparr>))
       else ds18b20_finalize seq 0 (s1\<lparr>ow_seqno := seq\<rparr>))"
    using run by (simp add: ds18b20_handle_read_temperature_timeout_def)
  show ?thesis
  proof (cases "0 \<le> seq")
    case True
    have "ow_ok (ds18b20_set_state ds18b20_state_wait_for_read_done_t (s1\<lparr>ow_seqno := seq\<rparr>))"
      using True seq n base t0 q by (auto simp: s1 ow_ok_def ow_base_def ds18b20_set_state_def timeouts_def)
    moreover have "ow_total (ds18b20_set_state ds18b20_state_wait_for_read_done_t (s1\<lparr>ow_seqno := seq\<rparr>)) = ow_total s"
      using tot by (simp add: ow_defs)
    ultimately show ?thesis using True by (simp add: eq)
  next
    case False
    have "ow_base (s1\<lparr>ow_seqno := seq\<rparr>)" "ow_response_queue (s1\<lparr>ow_seqno := seq\<rparr>) = Some q"
      "timeouts (s1\<lparr>ow_seqno := seq\<rparr>) = 0"
      using n base t0 q by (simp_all add: s1 ow_base_def timeouts_def)
    then have "settles (ds18b20_finalize seq 0 (s1\<lparr>ow_seqno := seq\<rparr>)) (ow_total (s1\<lparr>ow_seqno := seq\<rparr>))"
      by (rule finalize_settles)
    then show ?thesis using False by (simp only: eq tot if_False)
  qed
qed

text \<open>The events the theorems are about: what is received is short, of another type, or a reply in order.\<close>

definition orderly :: "ow_event \<Rightarrow> one_wire \<Rightarrow> bool" where
  "orderly ev s \<longleftrightarrow> (case ev of
     Socket_event sz err data \<Rightarrow> sz < 16
       \<or> (\<exists>seq status cmds. is_reply data seq status cmds \<and> sz = int (length data) \<and> orderly_reply s seq status)
       \<or> 16 \<le> length data \<and> get16 data 4 \<noteq> 3
   | _ \<Rightarrow> True)"

definition round_settles :: "(int \<times> one_wire) res option \<Rightarrow> nat multiset \<Rightarrow> bool" where
  "round_settles r m \<longleftrightarrow> (\<exists>res s. r = Some (Inr (res, s)) \<and> ow_ok s \<and> ow_total s = m)"

lemma round_settlesI: "settles r m \<Longrightarrow> round_settles (Some (andthen r (\<lambda>s. Inr (x, s)))) m"
  by (cases r) (auto simp: round_settles_def)

lemma handle_socket_settles:
  assumes "ow_ok s" and "orderly (Socket_event sz err data) s"
  shows "round_settles (handle_socket sz err data s) (ow_total s)"
proof (cases "sz < 16")
  case True
  then show ?thesis using assms(1) by (auto simp: handle_socket_def round_settles_def)
next
  case False
  let ?m = "take (nat sz) (take 512 data)"
  have sz: "16 \<le> nat sz" "\<not> sz \<le> 0" using False by simp_all
  consider seq status cmds where "is_reply data seq status cmds" "sz = int (length data)" "orderly_reply s seq status"
    | "16 \<le> length data" "get16 data 4 \<noteq> 3"
    using assms(2) False by (auto simp: orderly_def)
  then show ?thesis
  proof cases
    case 1
    then have m: "?m = data" by (simp add: is_reply_def)
    have ty: "read16 data 4 = Inr 3" using 1(1) by (auto simp: is_reply_def read16_Inr get16_append)
    have "handle_message_done data cn_at s = Some (reply_spec seq status cmds s)" by (rule handle_reply [OF 1(1)])
    then have "handle_socket sz err data s = Some (andthen (reply_spec seq status cmds s) (\<lambda>s. Inr (0, s)))"
      using False sz unfolding handle_socket_def m Let_def ty by simp
    then show ?thesis using round_settlesI [OF reply_settles [OF assms(1) 1(3)]] by simp
  next
    case 2
    have l: "16 \<le> length ?m" using 2 sz by simp
    have "byte_at ?m i = byte_at data i" if "i < 16" for i using that l by (simp add: byte_at_def)
    from this [of 4] this [of 5] have "get16 ?m 4 = get16 data 4" by (simp add: get16_def)
    then have "read16 ?m 4 = Inr (get16 data 4)" using l by (simp add: read16_Inr)
    then have "handle_socket sz err data s = Some (Inr (0, s))"
      using False sz 2 unfolding handle_socket_def Let_def by simp
    then show ?thesis using assms(1) by (simp add: round_settles_def)
  qed
qed

lemma round_settles_event:
  assumes "ow_ok s" and "orderly ev s" and "\<not> wakes_for_nothing ev s"
  shows "round_settles (one_wire_round ev s) (ow_total s)"
proof (cases ev)
  case (Socket_event sz err data)
  then show ?thesis using handle_socket_settles assms by (simp add: one_wire_round_def)
next
  case (Put_event res)
  then obtain msg qs where q: "ow_queue s = msg # qs" using assms(3) by (cases "ow_queue s") auto
  show ?thesis
  proof (cases "res = 8")
    case False
    then show ?thesis using assms(1) Put_event by (simp add: one_wire_round_def round_settles_def)
  next
    case True
    show ?thesis
    proof (cases msg)
      case (Read_temperature_req slave_id queue)
      have "ow_ok (s\<lparr>ow_queue := qs\<rparr>)" "ow_total (s\<lparr>ow_queue := qs\<rparr>) + {#queue#} = ow_total s"
        using assms(1) q Read_temperature_req by (simp_all add: ow_ok_def ow_base_def timeouts_def ow_total_def answered_def outstanding_def)
      then have "settles (ds18b20_handle_read_temperature slave_id queue (s\<lparr>ow_queue := qs\<rparr>)) (ow_total s)"
        using read_temperature_settles by metis
      then show ?thesis using round_settlesI Put_event True q Read_temperature_req
        by (simp add: one_wire_round_def Let_def)
    next
      case Read_temperature_timeout
      then have "settles (ds18b20_handle_read_temperature_timeout (s\<lparr>ow_queue := qs\<rparr>)) (ow_total s)"
        using timeout_settles assms(1) q by blast
      then show ?thesis using round_settlesI Put_event True q Read_temperature_timeout
        by (simp add: one_wire_round_def Let_def)
    qed
  qed
qed (use assms(1) in \<open>simp_all add: one_wire_round_def round_settles_def\<close>)

section \<open>Runs of the system\<close>

lemma ow_sys_ok:
  assumes "ow_ok s" and "put_queue (c, answer (ow_os s) (length (calls (ow_os s)))) = []"
  shows "ow_ok (snd (ow_sys c s))" and "ow_total (snd (ow_sys c s)) = ow_total s"
  using assms by (auto simp: ow_ok_def ow_base_def ow_defs)

fun requested_by :: "ow_action \<Rightarrow> nat list" where
  "requested_by (Request slave_id q) = [q]"
| "requested_by _ = []"

definition requested :: "ow_action list \<Rightarrow> nat multiset" where
  "requested as = mset (concat (map requested_by as))"

fun orderly_action :: "ow_action \<Rightarrow> bool \<times> one_wire \<Rightarrow> bool" where
  "orderly_action (Wake ev) (alive, s) \<longleftrightarrow> (alive \<longrightarrow> orderly ev s)"
| "orderly_action _ st \<longleftrightarrow> True"

text \<open>Every message the thread receives in the run is in order when it comes.\<close>

fun orderly_run :: "ow_action list \<Rightarrow> bool \<times> one_wire \<Rightarrow> bool" where
  "orderly_run [] st \<longleftrightarrow> True"
| "orderly_run (a # as) st \<longleftrightarrow> orderly_action a st
     \<and> (case ow_step a st of Some (Inr st) \<Rightarrow> orderly_run as st | _ \<Rightarrow> True)"

lemma main_settles:
  assumes "ow_ok s" and "orderly ev s" and "\<not> wakes_for_nothing ev s"
  shows "\<exists>alive s'. one_wire_main 0 [ev] s = Some (Inr (alive, s')) \<and> ow_ok s' \<and> ow_total s' = ow_total s"
proof -
  obtain res s1 where r: "one_wire_round ev s = Some (Inr (res, s1))" "ow_ok s1" "ow_total s1 = ow_total s"
    using round_settles_event [OF assms] by (auto simp: round_settles_def)
  show ?thesis
  proof (cases "res = 0")
    case True
    then have "one_wire_main 0 [ev] s = Some (Inr (True, s1))"
      using r(1) by (simp add: one_wire_main.simps [of 0])
    then show ?thesis using r by blast
  next
    case False
    have "one_wire_main 0 [ev] s = one_wire_main res [] s1" using r(1) by (simp add: one_wire_main.simps [of 0])
    also have "\<dots> = Some (Inr (False, snd (ow_sys (Ow_close (ow_fd s1)) s1)))"
      using False by (simp add: one_wire_main.simps [of res] split: prod.split)
    finally show ?thesis using ow_sys_ok [OF r(2), of "Ow_close (ow_fd s1)"] r(3)
      by (intro exI [of _ False] exI [of _ "snd (ow_sys (Ow_close (ow_fd s1)) s1)"]) simp
  qed
qed

lemma queue_put_ok:
  assumes "ow_ok s"
  shows "ow_ok (read_temperature_request slave_id q s)"
    and "ow_total (read_temperature_request slave_id q s) = ow_total s + {#q#}"
  using assms
  by (auto simp: read_temperature_request_def ow_queue_put_def on_put_signal_event_def ow_ok_def ow_base_def ow_defs)

lemma expire_ok:
  assumes "ow_ok s" and "ow_timer s"
  shows "ow_ok (ow_queue_put Read_temperature_timeout (s\<lparr>ow_timer := False\<rparr>))"
    and "ow_total (ow_queue_put Read_temperature_timeout (s\<lparr>ow_timer := False\<rparr>)) = ow_total s"
  using assms by (auto simp: ow_queue_put_def on_put_signal_event_def ow_ok_def ow_base_def ow_defs)

lemma step_settles:
  assumes "ow_ok s" and "orderly_action a (alive, s)"
  shows "\<exists>alive' s'. ow_step a (alive, s) = Some (Inr (alive', s')) \<and> ow_ok s'
    \<and> ow_total s' = ow_total s + mset (requested_by a)"
proof (cases a)
  case (Request slave_id q)
  then show ?thesis using queue_put_ok [OF assms(1)] by simp
next
  case Expire
  then show ?thesis using expire_ok [OF assms(1)] assms(1) by (cases "ow_timer s") simp_all
next
  case (Wake ev)
  show ?thesis
  proof (cases "\<not> alive \<or> wakes_for_nothing ev s")
    case True
    then show ?thesis using Wake assms(1) by auto
  next
    case False
    then obtain alive' s' where "one_wire_main 0 [ev] s = Some (Inr (alive', s'))" "ow_ok s'" "ow_total s' = ow_total s"
      using main_settles [OF assms(1), of ev] assms(2) Wake by auto
    then show ?thesis using Wake False by simp
  qed
qed

lemma run_settles:
  assumes "ow_ok s" and "orderly_run as (alive, s)"
  shows "\<exists>alive' s'. ow_run as (alive, s) = Some (Inr (alive', s')) \<and> ow_ok s' \<and> ow_total s' = ow_total s + requested as"
  using assms
proof (induction as arbitrary: alive s)
  case (Cons a as)
  obtain alive1 s1 where s1: "ow_step a (alive, s) = Some (Inr (alive1, s1))" "ow_ok s1"
    "ow_total s1 = ow_total s + mset (requested_by a)"
    using step_settles [OF Cons.prems(1), of a alive] Cons.prems(2) by auto
  then have "orderly_run as (alive1, s1)" using Cons.prems(2) by simp
  then obtain alive2 s2 where "ow_run as (alive1, s1) = Some (Inr (alive2, s2))" "ow_ok s2"
    "ow_total s2 = ow_total s1 + requested as"
    using Cons.IH [OF s1(2)] by blast
  then show ?case using s1 by (simp add: requested_def add.assoc)
qed (simp add: requested_def)

lemma started_ok:
  assumes "\<forall>i. 0 < errno_at (ow_os s) i"
  shows "ow_ok (ml_one_wire_start (ml_one_wire_init s))"
    and "ow_total (ml_one_wire_start (ml_one_wire_init s)) = answered s"
proof -
  have i: "ow_ok (ml_one_wire_init s)" "ow_total (ml_one_wire_init s) = answered s"
    using assms by (auto simp: ml_one_wire_init_def ow_ok_def ow_base_def ow_defs)
  have fd: "ow_ok (s\<lparr>ow_fd := fd\<rparr>) \<longleftrightarrow> ow_ok s" "ow_total (s\<lparr>ow_fd := fd\<rparr>) = ow_total s" for s fd
    by (simp_all add: ow_ok_def ow_base_def ow_total_def answered_def outstanding_def timeouts_def)
  have so: "ow_ok (snd (init_socket s)) \<and> ow_total (snd (init_socket s)) = ow_total s" if "ow_ok s" for s
    using that ow_sys_ok fd by (auto simp: init_socket_def Let_def split: prod.split) (metis snd_conv put_queue.simps)+
  show "ow_ok (ml_one_wire_start (ml_one_wire_init s))" "ow_total (ml_one_wire_start (ml_one_wire_init s)) = answered s"
    using so [OF i(1)] i(2) ow_sys_ok [of "snd (init_socket (ml_one_wire_init s))" Ow_pthread_create]
    by (auto simp: ml_one_wire_start_def Let_def split: prod.split)
qed

section \<open>Properties\<close>


text \<open>A kernel in which every call returns 0.\<close>

definition ow_example :: one_wire where
  "ow_example = \<lparr>cn_seqno = 0, ow_queue = [], ow_fd = 0, ow_put_fd = 0, ow_epoll_fd = 0,
     ow_state = ds18b20_state_idle_t, ow_id = 0, ow_seqno = 0, ow_timer = False, ow_response_queue = None,
     ow_os = \<lparr>calls = [], answer = (\<lambda>_. 0), errno_at = (\<lambda>_. 1), reply = (\<lambda>_. [])\<rparr>\<rparr>"


text \<open>A reply in the layout of the kernel.\<close>

definition reply_bytes :: "u32 \<Rightarrow> u8 \<Rightarrow> (u8 \<times> u8 \<times> bytes) list \<Rightarrow> bytes" where
  "reply_bytes seq status cmds =
     (let n = length (cmd_bytes cmds)
      in le32 (word_of_nat (48 + n)) @ le16 3 @ le16 0 @ le32 seq @ le32 0
         @ le32 3 @ le32 1 @ le32 seq @ le32 0 @ le16 (word_of_nat (12 + n)) @ le16 0
         @ [W1_SLAVE_CMD, status] @ le16 (word_of_nat n) @ replicate 8 0 @ cmd_bytes cmds)"

lemma is_reply_bytes:
  assumes "length (cmd_bytes cmds) \<le> 464"
  shows "is_reply (reply_bytes seq status cmds) seq status cmds"
proof -
  let ?n = "length (cmd_bytes cmds)"
  define hdr where "hdr = le32 (word_of_nat (48 + ?n)) @ le16 3 @ le16 0 @ le32 seq @ le32 0"
  define cn where "cn = le32 3 @ le32 1 @ le32 seq @ le32 0 @ le16 (word_of_nat (12 + ?n)) @ le16 0"
  have "get16 hdr 4 = 3" unfolding hdr_def by (rule get16_at') simp
  moreover have "get16 cn 16 = word_of_nat (12 + ?n)"
    using get16_at' [of "le32 3 @ le32 1 @ le32 seq @ le32 0" 16] by (simp add: cn_def)
  moreover have "get32 cn 8 = seq"
    by (simp add: cn_def get32_def byte_at_append le32_def to_be32_def byte_at_def)
  moreover have "reply_bytes seq status cmds =
      hdr @ cn @ [W1_SLAVE_CMD, status] @ le16 (word_of_nat ?n) @ replicate 8 0 @ cmd_bytes cmds"
    by (simp add: reply_bytes_def hdr_def cn_def Let_def)
  moreover have "length hdr = 16" "length cn = 20" by (simp_all add: hdr_def cn_def)
  moreover from calculation have "length (reply_bytes seq status cmds) \<le> 512" using assms by simp
  ultimately show ?thesis unfolding is_reply_def by (intro conjI exI) auto
qed

lemma main_reply:
  assumes "is_reply m seq status cmds"
  shows "one_wire_main 0 [Socket_event (int (length m)) err m] s =
    Some (andthen (reply_spec seq status cmds s) (\<lambda>s. Inr (True, s)))"
proof -
  have l: "length m \<le> 512" "16 \<le> length m" using assms by (auto simp: is_reply_def)
  have ty: "read16 m 4 = Inr 3" using assms l by (auto simp: is_reply_def read16_Inr get16_append)
  have "handle_socket (int (length m)) err m s = Some (andthen (reply_spec seq status cmds s) (\<lambda>s. Inr (0, s)))"
    using l ty handle_reply [OF assms] by (auto simp: handle_socket_def Let_def)
  then show ?thesis
    by (cases "reply_spec seq status cmds s")
      (simp_all add: one_wire_main.simps [of 0] one_wire_round_def)
qed

lemma main_timeout:
  assumes "ow_base s" and "ow_queue s = [Read_temperature_timeout]" and "\<forall>i. answer (ow_os s) i \<noteq> - 1"
  shows "\<exists>n s'. 1 \<le> n \<and> n \<le> 1000 \<and> one_wire_main 0 [Put_event 8] s = Some (Inr (True, s'))
    \<and> ow_state s' = ds18b20_state_wait_for_read_done_t \<and> ow_seqno s' = n
    \<and> ow_response_queue s' = ow_response_queue s"
proof -
  let ?s = "s\<lparr>ow_queue := []\<rparr>"
  have base: "ow_base ?s" using assms(1) by (simp add: ow_base_def)
  obtain seq s1 where run: "ds18b20_send_read_scratchpad (ow_id ?s) ?s = (seq, s1)"
    by (cases "ds18b20_send_read_scratchpad (ow_id ?s) ?s")
  obtain n d r where n: "1 \<le> n" "n \<le> 1000" "seq = n"
    and s1: "s1 = ?s\<lparr>cn_seqno := n, ow_os := ow_os ?s\<lparr>calls := calls (ow_os ?s) @ [(Ow_send (ow_fd ?s) d, r)]\<rparr>\<rparr>"
    using send_run [OF disjI2 [OF run] base] assms(3) by auto
  let ?s2 = "ds18b20_set_state ds18b20_state_wait_for_read_done_t (s1\<lparr>ow_seqno := n\<rparr>)"
  have "ds18b20_handle_read_temperature_timeout ?s = Inr ?s2"
    using run n by (simp add: ds18b20_handle_read_temperature_timeout_def)
  then have "one_wire_main 0 [Put_event 8] s = Some (Inr (True, ?s2))"
    using assms(2) by (simp add: one_wire_main.simps [of 0] one_wire_round_def Let_def)
  then show ?thesis using n by (intro exI [of _ n] exI [of _ ?s2]) (simp add: s1 ds18b20_set_state_def)
qed

text \<open>
  C17: the limits of the above are sharp. When the sensor reports an error while the conversion timer runs, the request is
  answered but the timer is not stopped: its timeout makes the idle sensor ask for the scratchpad, and the reply
  to that is put on the queue NULL.
\<close>

theorem one_wire_error_during_conversion_crashes:
  assumes "ow_ok s" and "ow_state s = ds18b20_state_wait_for_convert_timeout_t" and "ow_queue s = []"
    and "\<forall>i. answer (ow_os s) i \<noteq> - 1"
    and "is_reply m1 (word_of_int (ow_seqno s)) status cmds" and "status \<noteq> 0"
  shows "\<exists>n. \<forall>m2 r d. is_reply m2 (word_of_int n) 0 [(W1_CMD_READ, r, d)] \<and> length d = 9 \<longrightarrow>
    ow_run [Wake (Socket_event (int (length m1)) 0 m1), Expire, Wake (Put_event 8),
            Wake (Socket_event (int (length m2)) 0 m2)] (True, s) = Some (Inl OutOfBounds)"
proof -
  obtain q where q: "ow_response_queue s = Some q" using assms(1,2) by (auto simp: ow_ok_def)
  have tm: "ow_timer s" using assms(1-3) by (auto simp: ow_ok_def timeouts_def split: if_splits)
  define s1 where "s1 = (ds18b20_set_state ds18b20_state_idle_t (snd (ow_sys (Ow_put q (- int (unat status)) 0) s)))
      \<lparr>ow_seqno := - 1, ow_response_queue := None\<rparr>"
  have r1: "reply_spec (word_of_int (ow_seqno s)) status cmds s = Inr s1"
    using assms(6) q by (simp add: reply_spec_def ds18b20_finalize_def s1_def Let_def split: prod.split)
  have s1: "ow_timer s1" "ow_queue s1 = []" "ow_response_queue s1 = None" "\<forall>i. answer (ow_os s1) i \<noteq> - 1" "ow_base s1"
    using tm assms(1,3,4) by (simp_all add: s1_def ow_sys_def call_eq ds18b20_set_state_def ow_ok_def ow_base_def)
  define s2 where "s2 = ow_queue_put Read_temperature_timeout (s1\<lparr>ow_timer := False\<rparr>)"
  have s2: "ow_base s2" "ow_queue s2 = [Read_temperature_timeout]" "\<forall>i. answer (ow_os s2) i \<noteq> - 1"
    "ow_response_queue s2 = None"
    using s1 by (simp_all add: s2_def ow_queue_put_def on_put_signal_event_def ow_sys_def call_eq ow_base_def)
  obtain n s3 where s3: "one_wire_main 0 [Put_event 8] s2 = Some (Inr (True, s3))"
    "ow_state s3 = ds18b20_state_wait_for_read_done_t" "ow_seqno s3 = n" "ow_response_queue s3 = None"
    using main_timeout [OF s2(1-3)] s2(4) by auto
  have "ow_run [Wake (Socket_event (int (length m1)) 0 m1), Expire, Wake (Put_event 8),
            Wake (Socket_event (int (length m2)) 0 m2)] (True, s) = Some (Inl OutOfBounds)"
    if m2: "is_reply m2 (word_of_int n) 0 [(W1_CMD_READ, r, d)]" "length d = 9" for m2 r d
  proof -
    have "reply_spec (word_of_int n) 0 [(W1_CMD_READ, r, d)] s3 = Inl OutOfBounds"
      using s3(2-4) m2(2) by (simp add: reply_spec_def cmd_spec_def ds18b20_finalize_def W1_CMD_READ_def W1_CMD_WRITE_def)
    then show ?thesis
      using main_reply [OF assms(5)] main_reply [OF m2(1)] r1 s1(1) s2(2) s3(1) by (simp add: s2_def)
  qed
  then show ?thesis by blast
qed

theorem one_wire_error_during_conversion_crashes_witness:
  "\<exists>n. \<forall>m2 r d. is_reply m2 (word_of_int n) 0 [(W1_CMD_READ, r, d)] \<and> length d = 9 \<longrightarrow>
    ow_run [Wake (Socket_event 48 0 (reply_bytes 1 5 [])), Expire, Wake (Put_event 8),
            Wake (Socket_event (int (length m2)) 0 m2)]
      (True, ow_example\<lparr>cn_seqno := 1, ow_seqno := 1, ow_state := ds18b20_state_wait_for_convert_timeout_t,
         ow_timer := True, ow_response_queue := Some 7\<rparr>) = Some (Inl OutOfBounds)"
proof -
  let ?s = "ow_example\<lparr>cn_seqno := 1, ow_seqno := 1, ow_state := ds18b20_state_wait_for_convert_timeout_t,
         ow_timer := True, ow_response_queue := Some 7\<rparr>"
  have "ow_ok ?s" "ow_state ?s = ds18b20_state_wait_for_convert_timeout_t" "ow_queue ?s = []"
    "\<forall>i. answer (ow_os ?s) i \<noteq> - 1" "is_reply (reply_bytes 1 5 []) (word_of_int (ow_seqno ?s)) 5 []"
    using is_reply_bytes [of "[]" 1 5] by (simp_all add: ow_example_def ow_ok_def ow_base_def timeouts_def)
  moreover have "length (reply_bytes 1 5 []) = 48" by (simp add: reply_bytes_def)
  ultimately show ?thesis
    using one_wire_error_during_conversion_crashes [of ?s "reply_bytes 1 5 []" 5 "[]"] by simp
qed

text \<open>A message that claims 65524 bytes of data makes the loop over the messages go on forever.\<close>

lemma message_done_stuck:
  assumes "message_done_loop m cn offset s = Some r"
  shows "36 + unat offset + 4 \<le> length m \<and> cn = 16 \<and> get16 m 32 \<noteq> offset \<and> byte_at m (36 + unat offset) \<noteq> W1_SLAVE_CMD
    \<and> get16 m (36 + unat offset + 2) = 65524 \<longrightarrow> False"
proof (rule message_done_loop.raw_induct [OF _ assms, where P = "\<lambda>m cn offset s r. 36 + unat offset + 4 \<le> length m
    \<and> cn = 16 \<and> get16 m 32 \<noteq> offset \<and> byte_at m (36 + unat offset) \<noteq> W1_SLAVE_CMD
    \<and> get16 m (36 + unat offset + 2) = 65524 \<longrightarrow> False"], intro impI)
  fix rec m cn offset s r
  assume IH: "\<And>a b c d r. rec a b c d = Some r \<Longrightarrow> 36 + unat c + 4 \<le> length a
      \<and> b = 16 \<and> get16 a 32 \<noteq> c \<and> byte_at a (36 + unat c) \<noteq> W1_SLAVE_CMD \<and> get16 a (36 + unat c + 2) = 65524 \<longrightarrow> False"
    and run: "(case next_nl_msg m cn offset of
        Inl e \<Rightarrow> Some (Inl e)
      | Inr None \<Rightarrow> Some (Inr s)
      | Inr (Some nl) \<Rightarrow>
          (case andthen (read8 m nl) (\<lambda>type.
                andthen (read32 m (cn + 8)) (\<lambda>seq.
                  if type = W1_SLAVE_CMD \<and> seq = word_of_int (ow_seqno s)
                  then ds18b20_handle_read_temperature_slave_response m nl s else Inr s)) of
             Inl e \<Rightarrow> Some (Inl e)
           | Inr s \<Rightarrow>
               (case read16 m (nl + 2) of
                  Inl e \<Rightarrow> Some (Inl e)
                | Inr len \<Rightarrow> rec m cn (offset + (12 + len)) s))) = Some r"
    and st: "36 + unat offset + 4 \<le> length m \<and> cn = 16 \<and> get16 m 32 \<noteq> offset
      \<and> byte_at m (36 + unat offset) \<noteq> W1_SLAVE_CMD \<and> get16 m (36 + unat offset + 2) = 65524"
  have nl: "next_nl_msg m cn offset = Inr (Some (36 + unat offset))"
    using st by (auto simp: next_nl_msg_def read16_def)
  have "read8 m (36 + unat offset) = Inr (byte_at m (36 + unat offset))" "read32 m (cn + 8) = Inr (get32 m 24)"
    "read16 m (36 + unat offset + 2) = Inr 65524"
    using st by (auto simp: read8_def read32_def read16_def)
  then have "rec m cn (offset + 65536) s = Some r" using run st unfolding nl by simp
  moreover have wrap: "offset + 65536 = offset" by simp
  ultimately have "rec m cn offset s = Some r" by (simp only: wrap)
  then show False using IH st by blast
qed

end
