(* ===== verification/Ml_Module.thy ===== *)
theory Ml_Module
  imports Ml_Bus Ml_Worker_Pool Ml_Timer Ml_Log_Object
begin

text \<open>
  The module of the library (\<open>src/src/ml.c\<close>): its bus, worker pool, timer handler and default log
  object, put together by \<open>ml_init\<close>, and the functions that use them. The memory and the queues the
  bus and the pool work on are one world, the one in the pool.
\<close>

section \<open>The module\<close>

record ml_module =
  mod_bus :: ml_bus_t
  mod_pool :: ml_worker_pool_t
  mod_timer_handler :: ml_timer_handler_t
  mod_log :: log_module

abbreviation mod_world :: "ml_module \<Rightarrow> world" where
  "mod_world M \<equiv> pool_world (mod_pool M)"

definition set_world :: "world \<Rightarrow> ml_module \<Rightarrow> ml_module" where
  "set_world w M = M\<lparr>mod_pool := (mod_pool M)\<lparr>pool_world := w\<rparr>\<rparr>"

text \<open>The address of the default log object; the one of the log module itself is 0.\<close>

definition default_object :: nat where "default_object = 1"

text \<open>The queue of the pool is the one at \<open>jobs\<close>.\<close>

definition ml_init :: "addr \<Rightarrow> world \<Rightarrow> ml_timer_handler_t \<Rightarrow> log_module \<Rightarrow> ml_module res" where
  "ml_init jobs w handler log =
     (let log = ml_log_object_module_init log None;
          log = ml_log_object_init log default_object ''default'' 6;
          log = ml_log_object_register log default_object
      in andthen (ml_bus_init w) (\<lambda>(bus, w).
         andthen (ml_worker_pool_init w jobs 4 32) (\<lambda>pool.
           Inr \<lparr>mod_bus = bus, mod_pool = pool, mod_timer_handler = ml_timer_handler_init handler, mod_log = log\<rparr>)))"

definition ml_broadcast :: "addr \<Rightarrow> ml_module \<Rightarrow> ml_module res" where
  "ml_broadcast m M = andthen (ml_bus_broadcast (mod_world M) (mod_bus M) m) (\<lambda>w. Inr (set_world w M))"

definition ml_subscribe :: "addr \<Rightarrow> uid \<Rightarrow> ml_module \<Rightarrow> ml_module res" where
  "ml_subscribe q u M =
     andthen (ml_bus_subscribe (mod_world M) (mod_bus M) q u) (\<lambda>(bus, w). Inr (set_world w (M\<lparr>mod_bus := bus\<rparr>)))"

definition ml_spawn :: "callback \<Rightarrow> addr \<Rightarrow> ml_module \<Rightarrow> ml_module res" where
  "ml_spawn entry arg M =
     andthen (ml_worker_pool_spawn (mod_world M) (jobs_p (mod_pool M)) entry arg) (\<lambda>w. Inr (set_world w M))"

definition ml_timer_init :: "addr \<Rightarrow> uid \<Rightarrow> addr \<Rightarrow> ml_module \<Rightarrow> ml_module" where
  "ml_timer_init t u q M = M\<lparr>mod_timer_handler := ml_timer_handler_timer_init (mod_timer_handler M) t u q\<rparr>"

definition ml_timer_start :: "addr \<Rightarrow> u32 \<Rightarrow> u32 \<Rightarrow> ml_module \<Rightarrow> ml_module" where
  "ml_timer_start t initial repeat M =
     M\<lparr>mod_timer_handler := ml_timer_handler_timer_start (mod_timer_handler M) t initial repeat\<rparr>"

definition ml_timer_stop :: "addr \<Rightarrow> ml_module \<Rightarrow> ml_module" where
  "ml_timer_stop t M = M\<lparr>mod_timer_handler := ml_timer_handler_timer_stop (mod_timer_handler M) t\<rparr>"

definition ml_log_print :: "int \<Rightarrow> string \<Rightarrow> string \<Rightarrow> ml_module \<Rightarrow> ml_module res" where
  "ml_log_print level now msg M =
     andthen (ml_log_object_vprint (mod_log M) default_object level now msg) (\<lambda>log. Inr (M\<lparr>mod_log := log\<rparr>))"

definition ml_log_set_level :: "int \<Rightarrow> ml_module \<Rightarrow> ml_module" where
  "ml_log_set_level level M = M\<lparr>mod_log := ml_log_object_set_level (mod_log M) default_object level\<rparr>"

definition ml_log_is_enabled_for :: "int \<Rightarrow> ml_module \<Rightarrow> bool" where
  "ml_log_is_enabled_for level M \<longleftrightarrow> ml_log_object_is_enabled_for (mod_log M) default_object level"

section \<open>Subscribing\<close>

fun subscribe_all :: "(addr \<times> uid) list \<Rightarrow> ml_module \<Rightarrow> ml_module res" where
  "subscribe_all [] M = Inr M"
| "subscribe_all ((q, u) # subs) M = andthen (ml_subscribe q u M) (subscribe_all subs)"

definition queues_of :: "uid \<Rightarrow> (addr \<times> uid) list \<Rightarrow> addr list" where
  "queues_of u subs = map fst (filter (\<lambda>s. snd s = u) subs)"

lemma subscribe_world:
  assumes "ml_bus_subscribe w b q u = Inr (b', w')"
  shows "heap w' = heap w" and "queues w' = queues w" and "malloc_ok w' = malloc_ok w"
  using assms
  by (auto simp: ml_bus_subscribe_def append_queue_to_element_def insert_element_def xrealloc_def xmalloc_def
      andthen_eq_Inr Let_def split: option.splits if_splits)

lemma subscribe_step:
  assumes "bus_inv (mod_bus M)" and "ml_subscribe q u M = Inr M'"
  shows "bus_inv (mod_bus M')" and "subscribers (mod_bus M') = (subscribers (mod_bus M))(u := subscribers (mod_bus M) u @ [q])"
    and "heap (mod_world M') = heap (mod_world M)" and "queues (mod_world M') = queues (mod_world M)"
    and "malloc_ok (mod_world M') = malloc_ok (mod_world M)"
    and "mod_timer_handler M' = mod_timer_handler M" and "mod_log M' = mod_log M"
proof -
  obtain b w where r: "ml_bus_subscribe (mod_world M) (mod_bus M) q u = Inr (b, w)"
    and M': "M' = set_world w (M\<lparr>mod_bus := b\<rparr>)"
    using assms(2) by (auto simp: ml_subscribe_def andthen_eq_Inr)
  show "bus_inv (mod_bus M')" "subscribers (mod_bus M') = (subscribers (mod_bus M))(u := subscribers (mod_bus M) u @ [q])"
    using subscribe_effect [OF assms(1) r] by (simp_all add: M' set_world_def)
  show "heap (mod_world M') = heap (mod_world M)" "queues (mod_world M') = queues (mod_world M)"
    "malloc_ok (mod_world M') = malloc_ok (mod_world M)"
    "mod_timer_handler M' = mod_timer_handler M" "mod_log M' = mod_log M"
    using subscribe_world [OF r] by (simp_all add: M' set_world_def)
qed

lemma subscribe_all_run:
  assumes "bus_inv (mod_bus M)" and "\<And>a. malloc_ok (mod_world M) a"
  shows "\<exists>M'. subscribe_all subs M = Inr M' \<and> bus_inv (mod_bus M')
    \<and> (\<forall>u. subscribers (mod_bus M') u = subscribers (mod_bus M) u @ queues_of u subs)
    \<and> heap (mod_world M') = heap (mod_world M) \<and> queues (mod_world M') = queues (mod_world M)"
  using assms
proof (induction subs arbitrary: M)
  case (Cons s subs)
  obtain q v where s: "s = (q, v)" by (cases s)
  obtain b w where "ml_bus_subscribe (mod_world M) (mod_bus M) q v = Inr (b, w)"
    using subscribe_returns [OF Cons.prems] by fastforce
  then obtain M1 where M1: "ml_subscribe q v M = Inr M1" by (simp add: ml_subscribe_def)
  note e = subscribe_step [OF Cons.prems(1) M1]
  have mem: "malloc_ok (mod_world M1) a" for a using e(5) Cons.prems(2) by simp
  obtain M2 where M2: "subscribe_all subs M1 = Inr M2" "bus_inv (mod_bus M2)"
    "\<And>u. subscribers (mod_bus M2) u = subscribers (mod_bus M1) u @ queues_of u subs"
    "heap (mod_world M2) = heap (mod_world M1)" "queues (mod_world M2) = queues (mod_world M1)"
    using Cons.IH [OF e(1) mem] by blast
  have "subscribers (mod_bus M2) u = subscribers (mod_bus M) u @ queues_of u (s # subs)" for u
    using M2(3) [of u] e(2) by (auto simp: s queues_of_def)
  then show ?case using M1 M2 e by (intro exI [of _ M2]) (simp add: s)
qed (simp add: queues_of_def)

section \<open>After initialisation\<close>

lemma ml_init_run:
  assumes "\<And>a. malloc_ok w a"
  shows "\<exists>M. ml_init jobs w handler log = Inr M"
  using assms
  by (simp add: ml_init_def ml_bus_init_def ml_worker_pool_init_def ml_queue_init_def xmalloc_def set_queue_def Let_def)

lemma ml_init_bus:
  assumes "ml_init jobs w handler log = Inr M"
  shows "bus_inv (mod_bus M)" and "subscribers (mod_bus M) u = []"
    and "malloc_ok (mod_world M) = malloc_ok w" and "heap (mod_world M) = heap w"
    and "\<And>q. q \<noteq> jobs \<Longrightarrow> queues (mod_world M) q = queues w q"
    and "queue_inv (queues (mod_world M) jobs)" and "contents (queues (mod_world M) jobs) = []"
    and "timer_list (mod_timer_handler M) = []"
proof -
  obtain w1 where w1: "ml_bus_init w = Inr (\<lparr>elems_p = []\<rparr>, w1)" "malloc_ok w1 = malloc_ok w" "heap w1 = heap w"
    "queues w1 = queues w"
    using assms by (auto simp: ml_init_def ml_bus_init_def andthen_eq_Inr Let_def xmalloc_def split: if_splits)
  obtain w2 where w2: "ml_queue_init w1 jobs 32 = Inr w2"
    and M: "mod_bus M = \<lparr>elems_p = []\<rparr>" "mod_world M = w2" "timer_list (mod_timer_handler M) = []"
    using assms w1(1) by (auto simp: ml_init_def ml_worker_pool_init_def andthen_eq_Inr Let_def ml_timer_handler_init_def)
  have q2: "malloc_ok w2 = malloc_ok w1" "heap w2 = heap w1" "\<And>q. q \<noteq> jobs \<Longrightarrow> queues w2 q = queues w1 q"
    using w2 by (auto simp: ml_queue_init_def xmalloc_def set_queue_def split: if_splits)
  show "bus_inv (mod_bus M)" "subscribers (mod_bus M) u = []" "timer_list (mod_timer_handler M) = []"
    using M by (simp_all add: bus_inv_def subscribers_def)
  show "malloc_ok (mod_world M) = malloc_ok w" "heap (mod_world M) = heap w"
    "\<And>q. q \<noteq> jobs \<Longrightarrow> queues (mod_world M) q = queues w q"
    using w1 q2 M(2) by simp_all
  show "queue_inv (queues (mod_world M) jobs)" "contents (queues (mod_world M) jobs) = []"
    using queue_init_queue [OF w2] M(2) by simp_all
qed

section \<open>Properties\<close>

text \<open>
  C19: after \<open>ml_init\<close> with memory available, any sequence of subscriptions succeeds, and a message broadcast then
  reaches exactly the queues that subscribed to its identifier, once per subscription and behind what was in
  them; it lives on with one reference per delivery, or is freed when nobody subscribed. Every other queue, the one of
  the worker pool among them, and every other message is left alone.
\<close>

theorem module_broadcast_reaches_subscribers:
  assumes "\<And>a. malloc_ok w a" and "ml_init jobs w handler log = Inr M"
    and "queues_inv w" and "heap w m = Some h" and "count h = 1"
    and "\<forall>(q, u) \<in> set subs. q \<noteq> jobs \<and> length (contents (queues w q)) + length subs < q_length (queues w q)"
  shows "\<exists>M1 M2. subscribe_all subs M = Inr M1 \<and> ml_broadcast m M1 = Inr M2
    \<and> (\<forall>q. q \<noteq> jobs \<longrightarrow> contents (queues (mod_world M2) q)
          = contents (queues w q) @ replicate (count_list (queues_of (uid_p h) subs) q) m)
    \<and> contents (queues (mod_world M2) jobs) = []
    \<and> heap (mod_world M2) m = (if queues_of (uid_p h) subs = [] then None
          else Some (h\<lparr>count := int (length (queues_of (uid_p h) subs))\<rparr>))
    \<and> (\<forall>m'. m' \<noteq> m \<longrightarrow> heap (mod_world M2) m' = heap w m')"
proof -
  note init = ml_init_bus [OF assms(2)]
  let ?qs = "queues_of (uid_p h) subs"
  have mem: "malloc_ok (mod_world M) a" for a using init(3) assms(1) by simp
  obtain M1 where M1: "subscribe_all subs M = Inr M1" "bus_inv (mod_bus M1)"
    "\<And>u. subscribers (mod_bus M1) u = subscribers (mod_bus M) u @ queues_of u subs"
    "heap (mod_world M1) = heap (mod_world M)" "queues (mod_world M1) = queues (mod_world M)"
    using subscribe_all_run [OF init(1) mem] by blast
  have qs: "?qs = subscribers (mod_bus M1) (uid_p h)" using M1(3) init(2) by simp
  have "queues_inv (mod_world M1)"
    unfolding queues_inv_def M1(5) using init(5,6) assms(3) by (metis queues_inv_def)
  moreover have live: "heap (mod_world M1) m = Some h" using M1(4) init(4) assms(4) by simp
  moreover have jobs: "jobs \<notin> set ?qs" using assms(6) by (auto simp: queues_of_def)
  moreover have "\<forall>q \<in> set ?qs. length (contents (queues (mod_world M1) q)) + count_list ?qs q < q_length (queues (mod_world M1) q)"
  proof
    fix q assume q: "q \<in> set ?qs"
    then have "q \<noteq> jobs" using jobs by blast
    moreover have "length (contents (queues w q)) + length subs < q_length (queues w q)"
      using q assms(6) by (auto simp: queues_of_def)
    moreover have "count_list ?qs q \<le> length subs"
      using count_le_length [of ?qs q] length_filter_le [of "\<lambda>s. snd s = uid_p h" subs]
      unfolding queues_of_def length_map by (rule order_trans)
    ultimately show "length (contents (queues (mod_world M1) q)) + count_list ?qs q < q_length (queues (mod_world M1) q)"
      using M1(5) init(5) by simp
  qed
  ultimately obtain w2 where w2: "ml_bus_broadcast (mod_world M1) (mod_bus M1) m = Inr w2"
    "\<forall>q. contents (queues w2 q) = contents (queues (mod_world M1) q) @ replicate (count_list ?qs q) m"
    "heap w2 m = (if ?qs = [] then None else Some (h\<lparr>count := int (length ?qs)\<rparr>))"
    "\<forall>m'. m' \<noteq> m \<longrightarrow> heap w2 m' = heap (mod_world M1) m'"
    using broadcast_effect [OF M1(2) _ live assms(5) qs] by blast
  have "ml_broadcast m M1 = Inr (set_world w2 M1)" using w2(1) by (simp add: ml_broadcast_def)
  moreover have "count_list ?qs jobs = 0" using jobs by (simp add: count_notin)
  ultimately show ?thesis
    using M1 w2 init by (intro exI [of _ M1] exI [of _ "set_world w2 M1"]) (simp add: set_world_def)
qed

definition module_world :: world where
  "module_world = bus_world\<lparr>queues := (\<lambda>_. \<lparr>on_put = None, rdpos = 0, wrpos = 0, q_length = 9, messages_p = replicate 9 0\<rparr>)\<rparr>"

theorem module_broadcast_reaches_subscribers_witness:
  "\<exists>M M1 M2. ml_init 3 module_world \<lparr>timers = (\<lambda>_. undefined), timer_list = []\<rparr> example_module = Inr M
    \<and> subscribe_all [(4, uid_p example_header), (5, uid_p example_header), (4, uid_p example_header)] M = Inr M1
    \<and> ml_broadcast 7 M1 = Inr M2 \<and> contents (queues (mod_world M2) 4) = [7, 7]"
proof -
  let ?h = "\<lparr>timers = (\<lambda>_. undefined), timer_list = []\<rparr>"
  let ?subs = "[(4, uid_p example_header), (5, uid_p example_header), (4, uid_p example_header)]"
  have w: "malloc_ok module_world a" "heap module_world 7 = Some example_header" "queues_inv module_world"
    "contents (queues module_world q) = []" for a q
    by (simp_all add: module_world_def bus_world_def example_world_def queues_inv_def queue_inv_def contents_def fill_level_def)
  obtain M where M: "ml_init 3 module_world ?h example_module = Inr M" using ml_init_run [of module_world] w(1) by blast
  have "count example_header = 1" by (simp add: example_header_def)
  moreover have "\<forall>(q, u) \<in> set ?subs. q \<noteq> 3
      \<and> length (contents (queues module_world q)) + length ?subs < q_length (queues module_world q)"
    using w(4) by (simp add: module_world_def)
  ultimately show ?thesis
    using module_broadcast_reaches_subscribers [OF w(1) M w(3,2)] M w(4)
    by (fastforce simp: queues_of_def numeral_2_eq_2)
qed

section \<open>Well-formedness\<close>

text \<open>
  A well-formed module: every ring buffer has its indices inside, every live message a positive count and an
  address that was handed out, the table of the bus is sorted and without empty entries, the deltas of the timer
  list fit and the list has no timer twice, and the registry of log objects is a list without a cycle.
\<close>

definition world_ok :: "world \<Rightarrow> bool" where
  "world_ok w \<longleftrightarrow> queues_inv w \<and> heap_inv w"

definition module_ok :: "ml_module \<Rightarrow> bool" where
  "module_ok M \<longleftrightarrow> world_ok (mod_world M) \<and> bus_inv (mod_bus M) \<and> timer_inv (mod_timer_handler M)
     \<and> (\<exists>as. registry (mod_log M) as)"

text \<open>What the threads of a program do with the module: its functions, the timer tick, and consumers of messages.\<close>

inductive module_step :: "ml_module \<Rightarrow> ml_module \<Rightarrow> bool" where
  Broadcast: "ml_broadcast m M = Inr M' \<Longrightarrow> module_step M M'"
| Subscribe: "ml_subscribe q u M = Inr M' \<Longrightarrow> module_step M M'"
| Spawn: "ml_spawn entry arg M = Inr M' \<Longrightarrow> module_step M M'"
| Timer_init: "t \<notin> set (timer_list (mod_timer_handler M)) \<Longrightarrow> module_step M (ml_timer_init t u q M)"
| Timer_start: "module_step M (ml_timer_start t initial repeat M)"
| Timer_stop: "module_step M (ml_timer_stop t M)"
| Tick: "tick (mod_timer_handler M) (mod_world M) = Some (Inr (h, w)) \<Longrightarrow>
    module_step M (set_world w M\<lparr>mod_timer_handler := h\<rparr>)"
| Get: "ml_queue_get (mod_world M) q = Inr (u, m, w) \<Longrightarrow> module_step M (set_world w M)"
| Free: "ml_message_free (mod_world M) m = Inr w \<Longrightarrow> module_step M (set_world w M)"
| Log: "ml_log_print level now msg M = Inr M' \<Longrightarrow> module_step M M'"
| Log_level: "module_step M (ml_log_set_level level M)"

lemma world_ok_put:
  assumes "world_ok w" and "ml_queue_put w q m = Inr w'"
  shows "world_ok w'"
  using assms put_frame [OF assms(2)] queues_inv_put [OF _ assms(2)] by (simp add: world_ok_def heap_inv_def)

lemma world_ok_alloc: "world_ok w \<Longrightarrow> ml_message_alloc w u d = Inr (m, w') \<Longrightarrow> world_ok w'"
  using heap_inv_alloc [of w u d m w'] by (auto simp: world_ok_def alloc_Inr queues_inv_def store_header_def)

lemma world_ok_put_all: "world_ok w \<Longrightarrow> put_all w qs m = Inr w' \<Longrightarrow> world_ok w'"
  by (induction qs arbitrary: w) (auto simp: andthen_eq_Inr dest: world_ok_put)

lemma world_ok_free: "world_ok w \<Longrightarrow> ml_message_free w m = Inr w' \<Longrightarrow> world_ok w'"
  using heap_inv_free free_queues same_queues(2) by (metis world_ok_def)

lemma world_ok_share:
  assumes "world_ok w" and "0 \<le> n" and "ml_message_share w m n = Inr w'"
  shows "world_ok w'"
proof -
  have "queues w' = queues w" using assms(3) by (auto simp: ml_message_share_def andthen_eq_Inr)
  then have "queues_inv w' = queues_inv w" by (rule same_queues(2))
  then show ?thesis using assms(1) heap_inv_share [OF _ assms(2,3)] unfolding world_ok_def by blast
qed

lemma world_ok_post: "world_ok w \<Longrightarrow> post_timeouts w xs = Inr w' \<Longrightarrow> world_ok w'"
proof (induction xs arbitrary: w)
  case (Cons x xs)
  then obtain m w1 w2 where "ml_message_alloc w (timer_message x) NoData = Inr (m, w1)"
    "ml_queue_put w1 (timer_queue x) m = Inr w2" "post_timeouts w2 xs = Inr w'"
    by (auto simp: andthen_eq_Inr post_timeout_def)
  then show ?case using Cons.IH world_ok_put [OF world_ok_alloc [OF Cons.prems(1)]] by blast
qed simp

lemma world_ok_broadcast:
  assumes "world_ok w" and "bus_inv b" and "ml_bus_broadcast w b m = Inr w'"
  shows "world_ok w'"
proof -
  obtain h where h: "load_header w m = Inr h" using assms(3) by (auto simp: ml_bus_broadcast_def andthen_eq_Inr)
  show ?thesis
  proof (cases "find_element b (uid_p h)")
    case None
    then show ?thesis using assms h world_ok_free by (auto simp: ml_bus_broadcast_def)
  next
    case (Some i)
    then have "i < length (elems_p b)"
      using assms(2) find_element_Some by (simp add: bus_inv_def)
    then have "queues_pp (elems_p b ! i) \<noteq> []" using assms(2) by (simp add: bus_inv_def)
    then have "0 \<le> int (length (queues_pp (elems_p b ! i))) - 1"
      by (cases "queues_pp (elems_p b ! i)") simp_all
    moreover obtain w1 where "ml_message_share w m (int (length (queues_pp (elems_p b ! i))) - 1) = Inr w1"
      "put_all w1 (queues_pp (elems_p b ! i)) m = Inr w'"
      using assms(3) h Some by (auto simp: ml_bus_broadcast_def andthen_eq_Inr Let_def)
    ultimately show ?thesis using world_ok_put_all world_ok_share [OF assms(1)] by blast
  qed
qed

lemma world_ok_subscribe:
  assumes "world_ok w" and "ml_bus_subscribe w b q u = Inr (b', w')"
  shows "world_ok w'"
proof -
  have "next_addr w \<le> next_addr w'"
    using assms(2)
    by (auto simp: ml_bus_subscribe_def append_queue_to_element_def insert_element_def xrealloc_def xmalloc_def
        andthen_eq_Inr Let_def split: option.splits if_splits)
  then show ?thesis
    using assms(1) subscribe_world [OF assms(2)] by (auto simp: world_ok_def queues_inv_def heap_inv_def intro: less_le_trans)
qed

lemma world_ok_spawn: "world_ok w \<Longrightarrow> ml_worker_pool_spawn w jobs e a = Inr w' \<Longrightarrow> world_ok w'"
  by (auto simp: ml_worker_pool_spawn_def andthen_eq_Inr dest: world_ok_alloc world_ok_put)

lemma world_ok_get:
  assumes "world_ok w" and "ml_queue_get w q = Inr (u, m, w')"
  shows "world_ok w'"
  using assms get_frame [OF assms(2)] queues_inv_get [OF _ assms(2)] by (simp add: world_ok_def heap_inv_def)

lemma timer_inv_init:
  assumes "timer_inv h" and "t \<notin> set (timer_list h)"
  shows "timer_inv (ml_timer_handler_timer_init h t u q)"
proof -
  have "delta (timers (ml_timer_handler_timer_init h t u q) x) = delta (timers h x)" for x
    by (simp add: ml_timer_handler_timer_init_def)
  then show ?thesis
    using assms(1) timer_inv_same_deltas [of "ml_timer_handler_timer_init h t u q" h]
    by (simp add: ml_timer_handler_timer_init_def)
qed

lemma log_print_registry:
  assumes "registry m as" and "ml_log_object_vprint m obj level now msg = Inr m'"
  shows "registry m' as"
proof -
  have "log_module.head_p m' = log_module.head_p m" "objects m' = objects m"
    using assms(2) by (auto simp: ml_log_object_vprint_def andthen_eq_Inr Let_def split: if_splits)
  then show ?thesis using registry_cong [OF assms(1), of m'] by simp
qed

lemma module_step_ok: "module_step M M' \<Longrightarrow> module_ok M \<Longrightarrow> module_ok M'"
proof (induction rule: module_step.induct)
  case (Broadcast m M M')
  then show ?case using world_ok_broadcast
    by (auto simp: module_ok_def ml_broadcast_def andthen_eq_Inr set_world_def)
next
  case (Subscribe q u M M')
  obtain b w where r: "ml_bus_subscribe (mod_world M) (mod_bus M) q u = Inr (b, w)"
    and M': "M' = set_world w (M\<lparr>mod_bus := b\<rparr>)"
    using Subscribe(1) by (auto simp: ml_subscribe_def andthen_eq_Inr)
  show ?case
    using Subscribe(2) subscribe_step(1) [OF _ Subscribe(1)] world_ok_subscribe [OF _ r]
    by (simp add: module_ok_def M' set_world_def)
next
  case (Spawn entry arg M M')
  then show ?case using world_ok_spawn
    by (auto simp: module_ok_def ml_spawn_def andthen_eq_Inr set_world_def)
next
  case (Tick M h w)
  obtain h' where "\<forall>w. tick (mod_timer_handler M) w = Some (andthen (post_timeouts w (map (timers (mod_timer_handler M))
      (expired_in 1 (mod_timer_handler M)))) (\<lambda>w. Inr (h', w)))" "timer_inv h'"
    using tick_effect [of "mod_timer_handler M"] Tick(2) by (auto simp: module_ok_def fired_def)
  then have "timer_inv h" "world_ok w"
    using Tick world_ok_post by (auto simp: module_ok_def andthen_eq_Inr)
  then show ?case using Tick(2) by (simp add: module_ok_def set_world_def)
next
  case (Log level now msg M M')
  then obtain as log where "registry (mod_log M) as" and M': "M' = M\<lparr>mod_log := log\<rparr>"
    and "ml_log_object_vprint (mod_log M) default_object level now msg = Inr log"
    by (auto simp: module_ok_def ml_log_print_def andthen_eq_Inr)
  then have "registry log as" by (blast intro: log_print_registry)
  then show ?case using Log(2) by (auto simp: module_ok_def M')
next
  case (Log_level M level)
  then obtain as where "registry (mod_log M) as" by (auto simp: module_ok_def)
  then have "registry (ml_log_object_set_level (mod_log M) default_object level) as"
    by (rule registry_cong) (simp_all add: ml_log_object_set_level_def)
  then show ?case using Log_level by (auto simp: module_ok_def ml_log_set_level_def)
qed (auto simp: module_ok_def set_world_def ml_timer_init_def ml_timer_start_def ml_timer_stop_def
    intro: timer_inv_init start_timer_inv stop_effect(1) dest: world_ok_get world_ok_free)

lemma ml_init_world_ok:
  assumes "ml_init jobs w handler log = Inr M" and "world_ok w"
  shows "world_ok (mod_world M)"
proof -
  note init = ml_init_bus [OF assms(1)]
  have "queues_inv (mod_world M)" using init(5,6) assms(2) by (metis queues_inv_def world_ok_def)
  moreover have "next_addr w \<le> next_addr (mod_world M)"
    using assms(1) by (auto simp: ml_init_def ml_bus_init_def ml_worker_pool_init_def ml_queue_init_def xmalloc_def
        set_queue_def andthen_eq_Inr Let_def split: if_splits)
  then have "heap_inv (mod_world M)" using assms(2) init(4) by (auto simp: world_ok_def heap_inv_def intro: less_le_trans)
  ultimately show ?thesis by (simp add: world_ok_def)
qed

lemma ml_init_ok:
  assumes "ml_init jobs w handler log = Inr M" and "world_ok w" and "registry log as" and "0 \<notin> set as" and "1 \<notin> set as"
  shows "module_ok M"
proof -
  note init = ml_init_bus [OF assms(1)]
  have "world_ok (mod_world M)" by (rule ml_init_world_ok [OF assms(1,2)])
  moreover have "timer_inv (mod_timer_handler M)" using init(8) by (simp add: timer_inv_def list_inv_def)
  moreover have "registry (mod_log M) (1 # 0 # as)"
  proof -
    have reg: "registry (ml_log_object_init m a n l) bs" if "registry m bs" for m a n l bs
      by (rule registry_cong [OF that]) (simp_all add: ml_log_object_init_def)
    have log: "mod_log M = ml_log_object_register (ml_log_object_init (ml_log_object_module_init log None) 1 ''default'' 6) 1"
      using assms(1) by (auto simp: ml_init_def andthen_eq_Inr Let_def default_object_def)
    have "registry (ml_log_object_module_init log None) (0 # as)"
      unfolding ml_log_object_module_init_def Let_def
      by (intro registry_register reg registry_cong [OF assms(3)] assms(4)) simp_all
    then show ?thesis unfolding log using assms(5) by (intro registry_register reg) simp_all
  qed
  ultimately show ?thesis using init(1) by (auto simp: module_ok_def)
qed

text \<open>
  C20: the module is well-formed at all times. From \<open>ml_init\<close> on, in every interleaving of broadcasts, subscriptions, spawned
  jobs, timer calls and ticks, receptions, frees and log calls, the indices of every queue stay inside its array,
  every live message has a positive count, the table of the bus stays sorted, the timer list keeps its deltas within
  32 bits and no timer twice, and the list of log objects stays free of cycles.
\<close>

theorem module_stays_well_formed:
  assumes "ml_init jobs w handler log = Inr M" and "queues_inv w" and "heap_inv w"
    and "registry log as" and "0 \<notin> set as" and "1 \<notin> set as" and "module_step\<^sup>*\<^sup>* M M'"
  shows "module_ok M'"
  using assms(7)
proof (induction rule: rtranclp_induct)
  case base
  show ?case using ml_init_ok [OF assms(1) _ assms(4-6)] assms(2,3) by (simp add: world_ok_def)
next
  case (step M1 M2)
  then show ?case by (blast intro: module_step_ok)
qed

text \<open>After \<open>ml_init\<close>: a subscription, then a timer is initialised and started.\<close>

theorem module_stays_well_formed_witness:
  "\<exists>M M'. ml_init 3 module_world \<lparr>timers = (\<lambda>_. undefined), timer_list = []\<rparr> (example_module\<lparr>head_p := None\<rparr>) = Inr M
    \<and> ml_subscribe 4 (uid_p example_header) M = Inr M'
    \<and> module_ok (ml_timer_start 6 100 0 (ml_timer_init 6 (uid_p example_header) 4 M'))"
proof -
  let ?h = "\<lparr>timers = (\<lambda>_. undefined), timer_list = []\<rparr>"
  let ?log = "example_module\<lparr>head_p := None\<rparr>"
  have w: "malloc_ok module_world a" "queues_inv module_world" "heap_inv module_world" for a
    by (simp_all add: module_world_def bus_world_def example_world_def example_header_def queues_inv_def queue_inv_def heap_inv_def)
  have log: "registry ?log []" by (simp add: registry_def)
  obtain M where M: "ml_init 3 module_world ?h ?log = Inr M" using ml_init_run [of module_world] w(1) by blast
  note init = ml_init_bus [OF M]
  have "malloc_ok (mod_world M) a" for a using init(3) w(1) by simp
  then obtain M' where M': "ml_subscribe 4 (uid_p example_header) M = Inr M'"
    using subscribe_all_run [OF init(1), of "[(4, uid_p example_header)]"] by (auto simp: andthen_eq_Inr)
  have "timer_list (mod_timer_handler M') = []" using subscribe_step(6) [OF init(1) M'] init(8) by simp
  then have "module_step M' (ml_timer_init 6 (uid_p example_header) 4 M')" by (simp add: Timer_init)
  then have "module_step\<^sup>*\<^sup>* M (ml_timer_start 6 100 0 (ml_timer_init 6 (uid_p example_header) 4 M'))"
    using Subscribe [OF M'] Timer_start by (blast intro: rtranclp.intros)
  then show ?thesis using module_stays_well_formed [OF M w(2,3) log] M M' by auto
qed

end
