(* ===== verification/Ml_File.thy ===== *)
theory Ml_File
  imports Ml_Kernel Ml_Core Ml_Bytes Ml_Stdlib
begin

text \<open>
  The functions of \<open>src/src/ml.c\<close> that use files: printing, reading and writing them, kernel modules, the space
  of the mounted file systems, the load of the processors, the messages of the kernel and the core dump. A call
  that gives a stream or a descriptor answers it, or -1 for NULL and failure; text read from a stream and
  the structures a call fills are the bytes the kernel delivers. A loop that ends only when the kernel says so is a
  partial function, whose value is \<open>None\<close> if it never does.
\<close>

section \<open>Calls\<close>

datatype file_call =
    F_fopen string string
  | F_fread int nat
  | F_fgets int nat
  | F_fwrite int bytes
  | F_print int string
  | F_fclose int
  | F_open string
  | F_read int nat
  | F_ioctl int nat bytes
  | F_close int
  | F_finit_module int string int
  | F_delete_module string int
  | F_socket int int int
  | F_mount string string string u64 string
  | F_statvfs string
  | F_setmntent string
  | F_getmntent int
  | F_endmntent int
  | F_usleep nat
  | F_fseek int nat
  | F_opendir string
  | F_readdir int
  | F_closedir int
  | F_remove string
  | F_umount string
  | F_reboot nat
  | F_nftw string
  | F_time
  | F_clock_settime int
  | F_mkdir string
  | F_mknod string nat u64
  | F_chdir string
  | F_lstat string
  | F_sync
  | F_exit int
  | F_info string

type_synonym file_kernel = "file_call kernel"

definition run_call :: "file_call \<Rightarrow> file_kernel \<Rightarrow> file_kernel" where
  "run_call c k = snd (call c k)"

definition text_of :: "bytes \<Rightarrow> string" where
  "text_of bs = map (\<lambda>b. char_of (unat b)) bs"

definition bytes_of_text :: "string \<Rightarrow> bytes" where
  "bytes_of_text s = map of_char s"

text \<open>The kinds of nodes in \<open>st_mode\<close>.\<close>

definition S_IFIFO :: nat where "S_IFIFO = 0x1000"
definition S_IFCHR :: nat where "S_IFCHR = 0x2000"
definition S_IFDIR :: nat where "S_IFDIR = 0x4000"
definition S_IFBLK :: nat where "S_IFBLK = 0x6000"
definition S_IFMT :: nat where "S_IFMT = 0xf000"

text \<open>What a read that answers \<open>n\<close> has delivered.\<close>

definition received :: "int \<Rightarrow> file_kernel \<Rightarrow> bytes" where
  "received n k = map (byte_at (delivered k)) [0..<nat n]"

lemma unat_of_char [simp]: "unat (of_char c :: u8) = of_char c"
proof -
  have "(of_char c :: u8) = of_nat (of_char c)" by (rule of_nat_of_char [symmetric])
  moreover have "(of_char c :: nat) < 256" by (rule nat_of_char_less_256)
  ultimately show ?thesis by (simp add: unsigned_of_nat take_bit_nat_eq_self del: of_nat_of_char)
qed

lemma text_of_bytes: "text_of (bytes_of_text s) = s"
  by (simp add: text_of_def bytes_of_text_def comp_def)

section \<open>Whole files\<close>

partial_function (option) copy_loop :: "int \<Rightarrow> int \<Rightarrow> file_kernel \<Rightarrow> file_kernel option" where
  "copy_loop fin fout k =
     (let (sz, k) = call (F_fread fin 256) k
      in if sz > 0
         then let bs = received sz k; (n, k) = call (F_fwrite fout bs) k
              in if n \<noteq> sz then Some k else copy_loop fin fout k
         else Some k)"

declare copy_loop.simps [code]

definition ml_print_file :: "string \<Rightarrow> int \<Rightarrow> file_kernel \<Rightarrow> file_kernel option" where
  "ml_print_file name fout k =
     (let (fin, k) = call (F_fopen name ''rb'') k
      in if fin = - 1 then Some k
         else map_option (run_call (F_fclose fin)) (copy_loop fin fout k))"

text \<open>\<open>fwrite\<close> with an item of no bytes writes no item.\<close>

definition ml_file_write_string :: "string \<Rightarrow> string \<Rightarrow> file_kernel \<Rightarrow> int \<times> file_kernel" where
  "ml_file_write_string path data k =
     (let (file, k) = call (F_fopen path ''w'') k
      in if file = - 1 then (- errno k, k)
         else let (n, k) = call (F_fwrite file (bytes_of_text data)) k;
                  items = (if data = [] then 0 else n);
                  res = (if items = 1 then 0 else - EGENERAL)
              in (res, run_call (F_fclose file) k))"

text \<open>The second result is the contents of the buffer.\<close>

definition ml_file_read :: "string \<Rightarrow> nat \<Rightarrow> file_kernel \<Rightarrow> (int \<times> bytes) \<times> file_kernel" where
  "ml_file_read path sz k =
     (let (file, k) = call (F_fopen path ''rb'') k
      in if file = - 1 then ((- errno k, []), k)
         else let (n, k) = call (F_fread file sz) k;
                  items = (if sz = 0 then 0 else n);
                  bs = received (int sz) k
              in if items \<noteq> 1 then ((- EGENERAL, bs), run_call (F_fclose file) k)
                 else ((0, bs), run_call (F_fclose file) k))"

definition ml_print_uptime :: "int \<Rightarrow> file_kernel \<Rightarrow> file_kernel option" where
  "ml_print_uptime stdout k =
     (let k = run_call (F_print stdout ''Uptime: '') k
      in map_option (run_call (F_print stdout newline)) (ml_print_file ''/proc/uptime'' stdout k))"

text \<open>The system calls of \<open>src/src/ml_libc.c\<close>.\<close>

definition ml_finit_module :: "int \<Rightarrow> string \<Rightarrow> int \<Rightarrow> file_kernel \<Rightarrow> int \<times> file_kernel" where
  "ml_finit_module fd params flags k = call (F_finit_module fd params flags) k"

definition ml_remove_module :: "string \<Rightarrow> int \<Rightarrow> file_kernel \<Rightarrow> int \<times> file_kernel" where
  "ml_remove_module module flags k = call (F_delete_module module flags) k"

definition ml_insert_module :: "string \<Rightarrow> string \<Rightarrow> file_kernel \<Rightarrow> int \<times> file_kernel" where
  "ml_insert_module path params k =
     (let (fd, k) = call (F_open path) k
      in if fd = - 1 then (- errno k, k)
         else let (res, k) = ml_finit_module fd params 0 k;
                  res = (if res \<noteq> 0 then - errno k else res)
              in (res, run_call (F_close fd) k))"

definition ml_mount :: "string \<Rightarrow> string \<Rightarrow> string \<Rightarrow> u64 \<Rightarrow> string \<Rightarrow> file_kernel \<Rightarrow> int \<times> file_kernel" where
  "ml_mount source target type flags options k = call (F_mount source target type flags options) k"

text \<open>The wrappers the tests replace.\<close>

definition ml_socket :: "int \<Rightarrow> int \<Rightarrow> int \<Rightarrow> file_kernel \<Rightarrow> int \<times> file_kernel" where
  "ml_socket domain type protocol k = call (F_socket domain type protocol) k"

definition ml_ioctl :: "int \<Rightarrow> nat \<Rightarrow> bytes \<Rightarrow> file_kernel \<Rightarrow> int \<times> file_kernel" where
  "ml_ioctl fd request data k = call (F_ioctl fd request data) k"

section \<open>Mounted file systems\<close>

text \<open>\<open>%-20s\<close> and \<open>%6lu\<close>.\<close>

definition pad_right :: "nat \<Rightarrow> string \<Rightarrow> string" where
  "pad_right n s = s @ replicate (n - length s) CHR '' ''"

definition pad_left :: "nat \<Rightarrow> char \<Rightarrow> string \<Rightarrow> string" where
  "pad_left n c s = replicate (n - length s) c @ s"

definition space_line :: "string \<Rightarrow> u64 \<Rightarrow> u64 \<Rightarrow> u64 \<Rightarrow> string" where
  "space_line dir tot used available =
     pad_right 20 dir @ '' '' @ pad_left 6 CHR '' '' (show_nat (unat tot)) @ '' MB ''
     @ pad_left 6 CHR '' '' (show_nat (unat used)) @ '' MB ''
     @ pad_left 6 CHR '' '' (show_nat (unat available)) @ '' MB'' @ newline"

text \<open>\<open>statvfs\<close> delivers the block size, the blocks and the free blocks; the results are total, used and free.\<close>

definition file_system_space :: "string \<Rightarrow> file_kernel \<Rightarrow> (int + (u64 \<times> u64 \<times> u64)) \<times> file_kernel" where
  "file_system_space dir k =
     (let (res, k) = call (F_statvfs dir) k
      in (ml_file_system_space_usage
            (if res \<noteq> 0 then Inl (errno k)
             else Inr (get64 (delivered k) 0, get64 (delivered k) 8, get64 (delivered k) 16)), k))"

partial_function (option) mounts_loop :: "int \<Rightarrow> int \<Rightarrow> int \<Rightarrow> file_kernel \<Rightarrow> (int \<times> file_kernel) option" where
  "mounts_loop fin fout res k =
     (let (ent, k) = call (F_getmntent fin) k
      in if ent = - 1 then Some (res, k)
         else
           let dir = str_at (delivered k) 0
           in case file_system_space dir k of
                (Inl err, k) \<Rightarrow> Some (err, k)
              | (Inr (tot, used, available), k) \<Rightarrow>
                  mounts_loop fin fout 0 (run_call (F_print fout (space_line dir tot used available)) k))"

declare mounts_loop.simps [code]

definition ml_print_file_systems_space_usage :: "int \<Rightarrow> file_kernel \<Rightarrow> (int \<times> file_kernel) option" where
  "ml_print_file_systems_space_usage fout k =
     (let (fin, k) = call (F_setmntent ''/proc/mounts'') k
      in if fin \<noteq> - 1
         then
           let k = run_call (F_print fout (''MOUNTED ON               TOTAL      USED      FREE'' @ newline)) k
           in map_option (\<lambda>(res, k). (res, run_call (F_endmntent fin) k)) (mounts_loop fin fout (- EGENERAL) k)
         else Some (- EGENERAL, k))"

section \<open>Load of the processors\<close>

record cpu_stats =
  cs_user :: u64
  cs_nice :: u64
  cs_system :: u64
  cs_idle :: u64
  cs_iowait :: u64
  cs_irq :: u64
  cs_softirq :: u64
  cs_total :: u64

fun scan_numbers :: "nat \<Rightarrow> string \<Rightarrow> u64 list" where
  "scan_numbers 0 s = []"
| "scan_numbers (Suc n) s =
     (case scan_number s of None \<Rightarrow> [] | Some (v, s) \<Rightarrow> v # scan_numbers n s)"

text \<open>The numbers after \<open>cp\<close> and the rest of the first word.\<close>

definition scan_cpu_line :: "string \<Rightarrow> u64 list" where
  "scan_cpu_line s =
     (case Option.bind (Option.bind (scan_char CHR ''c'' s) (scan_char CHR ''p'')) scan_word of
        None \<Rightarrow> []
      | Some s \<Rightarrow> scan_numbers 7 s)"

text \<open>\<open>sscanf\<close> stores the numbers it converted, in order.\<close>

definition store_numbers :: "u64 list \<Rightarrow> cpu_stats \<Rightarrow> cpu_stats" where
  "store_numbers vs st =
     (let get = (\<lambda>i old. if i < length vs then vs ! i else old)
      in st\<lparr>cs_user := get 0 (cs_user st), cs_nice := get 1 (cs_nice st), cs_system := get 2 (cs_system st),
            cs_idle := get 3 (cs_idle st), cs_iowait := get 4 (cs_iowait st), cs_irq := get 5 (cs_irq st),
            cs_softirq := get 6 (cs_softirq st)\<rparr>)"

definition read_cpu_stats :: "int \<Rightarrow> cpu_stats \<Rightarrow> file_kernel \<Rightarrow> (int \<times> cpu_stats) \<times> file_kernel" where
  "read_cpu_stats file_p st k =
     (let (r, k) = call (F_fgets file_p 128) k
      in if r = - 1 then ((- EGENERAL, st), k)
         else
           let line = take 127 (str_at (delivered k) 0)
           in if strncmp ''intr'' line 4 = 0 then ((1, st), k)
              else
                let vs = scan_cpu_line line; st = store_numbers vs st
                in if length vs \<noteq> 7 then ((- EGENERAL, st), k)
                   else ((0, st\<lparr>cs_total := cs_user st + cs_nice st + cs_system st + cs_idle st + cs_iowait st
                                + cs_irq st + cs_softirq st\<rparr>), k))"

text \<open>The loop over the array from index \<open>i\<close>: the last result, the array and the index reached.\<close>

fun read_cpus_loop :: "int \<Rightarrow> nat \<Rightarrow> nat \<Rightarrow> int \<Rightarrow> cpu_stats list \<Rightarrow> file_kernel
    \<Rightarrow> (int \<times> cpu_stats list \<times> nat) \<times> file_kernel" where
  "read_cpus_loop file_p i 0 res stats k = ((res, stats, i), k)"
| "read_cpus_loop file_p i (Suc n) res stats k =
     (let ((res, st), k) = read_cpu_stats file_p (stats ! i) k;
          stats = stats[i := st]
      in if res \<noteq> 0 then ((res, stats, i), k) else read_cpus_loop file_p (i + 1) n res stats k)"

definition read_cpus_stats :: "cpu_stats list \<Rightarrow> nat \<Rightarrow> file_kernel \<Rightarrow> (int \<times> cpu_stats list) \<times> file_kernel" where
  "read_cpus_stats stats len k =
     (let (file_p, k) = call (F_fopen ''/proc/stat'' ''r'') k
      in if file_p = - 1 then ((- errno k, stats), k)
         else
           let ((res, stats, i), k) = read_cpus_loop file_p 0 len (- EGENERAL) stats k
           in ((if res < 0 then res else int i, stats), run_call (F_fclose file_p) k))"

text \<open>User, system and idle load, in percent.\<close>

definition cpu_load :: "cpu_stats \<Rightarrow> cpu_stats \<Rightarrow> (u32 \<times> u32 \<times> u32) option" where
  "cpu_load old new =
     (let total_diff = cs_total new - cs_total old
      in case (calc_cpu_load (cs_user old) (cs_user new) total_diff,
               calc_cpu_load (cs_system old) (cs_system new) total_diff,
               calc_cpu_load (cs_idle old) (cs_idle new) total_diff) of
           (Some u, Some s, Some i) \<Rightarrow> Some (u, s, i)
         | _ \<Rightarrow> None)"

fun cpu_loads :: "cpu_stats list \<Rightarrow> cpu_stats list \<Rightarrow> (u32 \<times> u32 \<times> u32) list option" where
  "cpu_loads (old # olds) (new # news) =
     (case cpu_load old new of
        None \<Rightarrow> None
      | Some l \<Rightarrow> map_option (Cons l) (cpu_loads olds news))"
| "cpu_loads _ _ = Some []"

text \<open>
  The two arrays start with \<open>garbage\<close>. The second result is the loads stored, \<open>None\<close> for a division by zero.
\<close>

definition ml_get_cpus_stats :: "cpu_stats \<Rightarrow> nat \<Rightarrow> file_kernel
    \<Rightarrow> (int \<times> (u32 \<times> u32 \<times> u32) list) option \<times> file_kernel" where
  "ml_get_cpus_stats garbage len k =
     (let ((n, stats0), k) = read_cpus_stats (replicate len garbage) len k
      in if n < 0 then (Some (n, []), k)
         else
           let k = run_call (F_usleep 500000) k;
               ((res, stats1), k) = read_cpus_stats (replicate len garbage) (nat n) k
           in if res < 0 then (Some (res, []), k)
              else if res \<noteq> n then (Some (- EGENERAL, []), k)
              else (map_option (\<lambda>ls. (n, ls)) (cpu_loads (take (nat n) stats0) (take (nat n) stats1)), k))"

section \<open>Open streams and descriptors\<close>

text \<open>The four kinds of things a call opens, and the accounting of each.\<close>

datatype handle = Stream | Descriptor | Mounts | Directory

fun file_opens :: "handle \<Rightarrow> file_call \<Rightarrow> bool" where
  "file_opens h (F_fopen _ _) = (h = Stream)"
| "file_opens h (F_open _) = (h = Descriptor)"
| "file_opens h (F_socket _ _ _) = (h = Descriptor)"
| "file_opens h (F_setmntent _) = (h = Mounts)"
| "file_opens h (F_opendir _) = (h = Directory)"
| "file_opens h _ = False"

fun file_closes :: "handle \<Rightarrow> file_call \<Rightarrow> int option" where
  "file_closes h (F_fclose f) = (if h = Stream then Some f else None)"
| "file_closes h (F_close f) = (if h = Descriptor then Some f else None)"
| "file_closes h (F_endmntent f) = (if h = Mounts then Some f else None)"
| "file_closes h (F_closedir f) = (if h = Directory then Some f else None)"
| "file_closes h _ = None"

definition left_open :: "handle \<Rightarrow> int list \<Rightarrow> (file_call \<times> int) list \<Rightarrow> int list" where
  "left_open h = still_open (file_opens h) (file_closes h)"

text \<open>Calls on the directories and the process.\<close>

fun moves :: "file_call \<Rightarrow> bool" where
  "moves (F_mkdir _) = True"
| "moves (F_chdir _) = True"
| "moves (F_exit _) = True"
| "moves _ = False"

text \<open>
  From \<open>k\<close> to \<open>k'\<close> calls were added, which leave open what was open, and none of them on the directories
  or the process.
\<close>

definition calm :: "file_kernel \<Rightarrow> file_kernel \<Rightarrow> bool" where
  "calm k k' \<longleftrightarrow> (\<exists>cs. k' = k\<lparr>calls := calls k @ cs\<rparr> \<and> (\<forall>h fds. left_open h fds cs = fds)
     \<and> (\<forall>e \<in> set cs. \<not> moves (fst e)))"

definition plain_call :: "file_call \<Rightarrow> bool" where
  "plain_call c \<longleftrightarrow> \<not> moves c \<and> (\<forall>h. \<not> file_opens h c \<and> file_closes h c = None)"

lemma plain_calls [simp]:
  "plain_call (F_fread f n)" "plain_call (F_fgets f n)" "plain_call (F_fwrite f bs)" "plain_call (F_print f s)"
  "plain_call (F_read f n)" "plain_call (F_ioctl f n bs)" "plain_call (F_finit_module f s i)"
  "plain_call (F_mount s t ty fl op)" "plain_call (F_statvfs s)" "plain_call (F_getmntent f)"
  "plain_call (F_usleep n)" "plain_call (F_lstat s)" "plain_call F_sync" "plain_call (F_info s)"
  "plain_call (F_mknod s m d)" "plain_call (F_delete_module s i)" "plain_call (F_fseek f n)" "plain_call (F_readdir f)"
  "plain_call (F_remove s)" "plain_call (F_umount s)" "plain_call (F_reboot n)" "plain_call (F_nftw s)"
  "plain_call F_time" "plain_call (F_clock_settime i)"
  by (simp_all add: plain_call_def)

lemma left_open_append [simp]: "left_open h fds (xs @ ys) = left_open h (left_open h fds xs) ys"
  by (simp add: left_open_def still_open_append)

lemma calm_refl [simp, intro]: "calm k k"
  unfolding calm_def by (rule exI [of _ "[]"]) (simp add: left_open_def)

lemma calm_trans:
  assumes "calm k k1" and "calm k1 k2"
  shows "calm k k2"
proof -
  obtain c1 where "k1 = k\<lparr>calls := calls k @ c1\<rparr>" "\<forall>h fds. left_open h fds c1 = fds"
    "\<forall>e \<in> set c1. \<not> moves (fst e)"
    using assms(1) unfolding calm_def by blast
  moreover obtain c2 where "k2 = k1\<lparr>calls := calls k1 @ c2\<rparr>" "\<forall>h fds. left_open h fds c2 = fds"
    "\<forall>e \<in> set c2. \<not> moves (fst e)"
    using assms(2) unfolding calm_def by blast
  ultimately show ?thesis unfolding calm_def by (intro exI [of _ "c1 @ c2"]) auto
qed

lemma calm_call: "plain_call c \<Longrightarrow> call c k = (r, k') \<Longrightarrow> calm k k'"
  unfolding calm_def by (intro exI [of _ "[(c, r)]"]) (auto simp: call_eq left_open_def plain_call_def)

lemma calm_run: "plain_call c \<Longrightarrow> calm k (run_call c k)"
  unfolding run_call_def by (rule calm_call [where r = "fst (call c k)"]) simp_all

lemma calm_then_run: "calm k k1 \<Longrightarrow> plain_call c \<Longrightarrow> calm k (run_call c k1)"
  by (rule calm_trans [OF _ calm_run])

lemma calm_before_run: "plain_call c \<Longrightarrow> calm (run_call c k) k1 \<Longrightarrow> calm k k1"
  by (rule calm_trans [OF calm_run])

text \<open>Opening fails, or the thing opened is closed after calm work.\<close>

lemma calm_not_opened:
  assumes "call c k = (- 1, k')" and "\<And>h. file_closes h c = None" and "\<not> moves c"
  shows "calm k k'"
  using assms unfolding calm_def by (intro exI [of _ "[(c, - 1)]"]) (auto simp: call_eq left_open_def)

lemma calm_session:
  assumes "call c k = (f, k1)" and "f \<noteq> - 1" and "calm k1 k2"
    and "\<And>h. file_closes h c = None" and "\<And>h. file_closes h d = (if file_opens h c then Some f else None)"
    and "\<And>h. \<not> file_opens h d" and "\<not> moves c" and "\<not> moves d"
  shows "calm k (run_call d k2)"
proof -
  obtain cs where cs: "k2 = k1\<lparr>calls := calls k1 @ cs\<rparr>" "\<forall>h fds. left_open h fds cs = fds"
    "\<forall>e \<in> set cs. \<not> moves (fst e)"
    using assms(3) unfolding calm_def by blast
  have "left_open h fds ((c, f) # cs @ [(d, r)]) = fds" for h fds r
    using cs(2) assms(2,4,5,6) by (simp add: left_open_def still_open_append)
  then show ?thesis
    using assms(1,7,8) cs(1,3) unfolding calm_def run_call_def
    by (intro exI [of _ "(c, f) # cs @ [(d, answer k (length (calls k2)))]"]) (auto simp: call_eq)
qed

lemma calm_left_open: "calm k k' \<Longrightarrow> left_open h fds (new_calls k k') = fds"
  by (auto simp: calm_def)

section \<open>The functions leave nothing open\<close>

lemma calm_copy_loop:
  assumes "copy_loop fin fout k = Some k'"
  shows "calm k k'"
proof (rule copy_loop.raw_induct [where P = "\<lambda>fin fout k. calm k", OF _ assms])
  fix loop fin fout k k'
  assume ih: "\<And>fin fout k k'. loop fin fout k = Some k' \<Longrightarrow> calm k k'"
    and "(let (sz, k) = call (F_fread fin 256) k
      in if sz > 0
         then let bs = received sz k; (n, k) = call (F_fwrite fout bs) k
              in if n \<noteq> sz then Some k else loop fin fout k
         else Some k) = Some k'"
  then show "calm k k'"
    by (auto simp: Let_def split: prod.splits if_splits
        dest!: calm_call [OF plain_calls(1)] calm_call [OF plain_calls(3)] ih intro: calm_trans)
qed

lemma calm_print_file:
  assumes "ml_print_file name fout k = Some k'"
  shows "calm k k'"
proof -
  obtain f k1 where o: "call (F_fopen name ''rb'') k = (f, k1)" by (cases "call (F_fopen name ''rb'') k")
  show ?thesis
  proof (cases "f = - 1")
    case True
    then show ?thesis using o assms calm_not_opened [of "F_fopen name ''rb''" k k1] by (simp add: ml_print_file_def)
  next
    case False
    then obtain k2 where "copy_loop f fout k1 = Some k2" "k' = run_call (F_fclose f) k2"
      using assms o by (auto simp: ml_print_file_def)
    then show ?thesis using calm_session [OF o False calm_copy_loop] by simp
  qed
qed

lemma calm_print_uptime:
  assumes "ml_print_uptime stdout k = Some k'"
  shows "calm k k'"
  using assms unfolding ml_print_uptime_def Let_def
  by (auto intro!: calm_then_run intro: calm_before_run [OF plain_calls(4)] dest: calm_print_file)

lemma calm_file_write_string:
  assumes "ml_file_write_string path data k = (res, k')"
  shows "calm k k'"
proof -
  obtain f k1 where o: "call (F_fopen path ''w'') k = (f, k1)" by (cases "call (F_fopen path ''w'') k")
  obtain n k2 where w: "call (F_fwrite f (bytes_of_text data)) k1 = (n, k2)"
    by (cases "call (F_fwrite f (bytes_of_text data)) k1")
  have q: "calm k1 k2" by (rule calm_call [OF _ w]) simp
  show ?thesis
    using assms o w calm_not_opened [of "F_fopen path ''w''" k k1] calm_session [OF o _ q, of "F_fclose f"]
    by (auto simp: ml_file_write_string_def Let_def split: if_splits)
qed

lemma calm_file_read:
  assumes "ml_file_read path sz k = (res, k')"
  shows "calm k k'"
proof -
  obtain f k1 where o: "call (F_fopen path ''rb'') k = (f, k1)" by (cases "call (F_fopen path ''rb'') k")
  obtain n k2 where r: "call (F_fread f sz) k1 = (n, k2)" by (cases "call (F_fread f sz) k1")
  have q: "calm k1 k2" by (rule calm_call [OF _ r]) simp
  show ?thesis
    using assms o r calm_not_opened [of "F_fopen path ''rb''" k k1] calm_session [OF o _ q, of "F_fclose f"]
    by (auto simp: ml_file_read_def Let_def split: if_splits)
qed

lemma calm_insert_module:
  assumes "ml_insert_module path params k = (res, k')"
  shows "calm k k'"
proof -
  obtain f k1 where o: "call (F_open path) k = (f, k1)" by (cases "call (F_open path) k")
  obtain n k2 where i: "call (F_finit_module f params 0) k1 = (n, k2)" by (cases "call (F_finit_module f params 0) k1")
  have q: "calm k1 k2" by (rule calm_call [OF _ i]) simp
  show ?thesis
    using assms o i calm_not_opened [of "F_open path" k k1] calm_session [OF o _ q, of "F_close f"]
    by (auto simp: ml_insert_module_def ml_finit_module_def Let_def split: if_splits)
qed

lemma calm_mounts_loop:
  assumes "mounts_loop fin fout res k = Some (res', k')"
  shows "calm k k'"
proof -
  have "calm k (snd r)" if "mounts_loop fin fout res k = Some r" for r
  proof (rule mounts_loop.raw_induct [where P = "\<lambda>fin fout res k r. calm k (snd r)", OF _ that])
    fix loop fin fout res k r
    assume ih: "\<And>fin fout res k r. loop fin fout res k = Some r \<Longrightarrow> calm k (snd r)"
      and body: "(let (ent, k) = call (F_getmntent fin) k
        in if ent = - 1 then Some (res, k)
           else
             let dir = str_at (delivered k) 0
             in case file_system_space dir k of
                  (Inl err, k) \<Rightarrow> Some (err, k)
                | (Inr (tot, used, available), k) \<Rightarrow>
                    loop fin fout 0 (run_call (F_print fout (space_line dir tot used available)) k)) = Some r"
    obtain ent k1 where c: "call (F_getmntent fin) k = (ent, k1)" by (cases "call (F_getmntent fin) k")
    then have q1: "calm k k1" by (rule calm_call [OF plain_calls(10)])
    obtain sp k2 where sp: "file_system_space (str_at (delivered k1) 0) k1 = (sp, k2)"
      by (cases "file_system_space (str_at (delivered k1) 0) k1")
    then have "calm k1 k2" by (auto simp: file_system_space_def Let_def split: prod.splits intro: calm_call [OF plain_calls(9)])
    then have q2: "calm k k2" using q1 calm_trans by blast
    show "calm k (snd r)"
      using body c sp q1 q2
      by (auto simp: Let_def split: if_splits sum.splits
          dest!: ih intro: calm_trans [OF calm_then_run [OF q2 plain_calls(4)]])
  qed
  then show ?thesis using assms by fastforce
qed

lemma calm_print_file_systems:
  assumes "ml_print_file_systems_space_usage fout k = Some (res, k')"
  shows "calm k k'"
proof -
  obtain f k1 where o: "call (F_setmntent ''/proc/mounts'') k = (f, k1)" by (cases "call (F_setmntent ''/proc/mounts'') k")
  show ?thesis
  proof (cases "f = - 1")
    case True
    then show ?thesis
      using o assms calm_not_opened [of "F_setmntent ''/proc/mounts''" k k1]
      by (simp add: ml_print_file_systems_space_usage_def)
  next
    case False
    then obtain t k2 where "mounts_loop f fout (- EGENERAL) (run_call (F_print fout t) k1) = Some (res, k2)"
      and k': "k' = run_call (F_endmntent f) k2"
      using assms o by (auto simp: ml_print_file_systems_space_usage_def Let_def)
    then have "calm k1 k2" by (blast intro: calm_before_run plain_calls(4) calm_mounts_loop)
    then show ?thesis using calm_session [OF o False] k' by simp
  qed
qed

lemma calm_read_cpus_loop:
  "read_cpus_loop f i n res stats k = (r, k') \<Longrightarrow> calm k k'"
proof (induction n arbitrary: i res stats k)
  case (Suc n)
  obtain rr st k1 where c: "read_cpu_stats f (stats ! i) k = ((rr, st), k1)"
    by (metis prod.exhaust)
  then have q: "calm k k1"
    by (auto simp: read_cpu_stats_def Let_def split: prod.splits if_splits intro: calm_call [OF plain_calls(2)])
  then show ?case using Suc.prems c
    by (auto simp: Let_def split: if_splits intro: calm_trans [OF q] Suc.IH)
qed auto

lemma calm_read_cpus_stats:
  assumes "read_cpus_stats stats n k = (r, k')"
  shows "calm k k'"
proof -
  let ?c = "F_fopen ''/proc/stat'' ''r''"
  obtain f k1 where o: "call ?c k = (f, k1)" by (cases "call ?c k")
  obtain x k2 where l: "read_cpus_loop f 0 n (- EGENERAL) stats k1 = (x, k2)"
    by (cases "read_cpus_loop f 0 n (- EGENERAL) stats k1")
  show ?thesis
    using assms o l calm_not_opened [of ?c k k1] calm_session [OF o _ calm_read_cpus_loop [OF l], of "F_fclose f"]
    by (auto simp: read_cpus_stats_def Let_def split: if_splits prod.splits)
qed

lemma calm_get_cpus_stats:
  assumes "ml_get_cpus_stats garbage n k = (r, k')"
  shows "calm k k'"
proof -
  obtain m st k1 where a: "read_cpus_stats (replicate n garbage) n k = ((m, st), k1)" by (metis prod.exhaust)
  then have q: "calm k k1" by (rule calm_read_cpus_stats)
  let ?k2 = "run_call (F_usleep 500000) k1"
  obtain r2 st2 k3 where b: "read_cpus_stats (replicate n garbage) (nat m) ?k2 = ((r2, st2), k3)" by (metis prod.exhaust)
  have "calm k k3"
    by (rule calm_trans [OF calm_then_run [OF q plain_calls(11)] calm_read_cpus_stats [OF b]])
  then show ?thesis using assms q a b by (auto simp: ml_get_cpus_stats_def Let_def split: if_splits)
qed

section \<open>Loads stay in range\<close>

text \<open>The sum of the seven counters, and a later sample of them.\<close>

definition cpu_sum :: "cpu_stats \<Rightarrow> nat" where
  "cpu_sum st = unat (cs_user st) + unat (cs_nice st) + unat (cs_system st) + unat (cs_idle st)
     + unat (cs_iowait st) + unat (cs_irq st) + unat (cs_softirq st)"

definition later_sample :: "cpu_stats \<Rightarrow> cpu_stats \<Rightarrow> bool" where
  "later_sample old new \<longleftrightarrow> cs_user old \<le> cs_user new \<and> cs_nice old \<le> cs_nice new
     \<and> cs_system old \<le> cs_system new \<and> cs_idle old \<le> cs_idle new \<and> cs_iowait old \<le> cs_iowait new
     \<and> cs_irq old \<le> cs_irq new \<and> cs_softirq old \<le> cs_softirq new
     \<and> unat (cs_total old) = cpu_sum old \<and> unat (cs_total new) = cpu_sum new"

lemma calc_cpu_load_eq:
  assumes "old \<le> new" and "100 * (unat new - unat old) < 2 ^ 64" and "unat new - unat old \<le> unat d" and "d \<noteq> 0"
  shows "\<exists>l. calc_cpu_load old new d = Some l \<and> unat l = 100 * (unat new - unat old) div unat d
    \<and> unat l \<le> 100"
proof -
  have s: "unat (new - old) = unat new - unat old" using assms(1) by (simp add: unat_sub)
  have m: "unat (100 * (new - old)) = 100 * (unat new - unat old)"
    using assms(2) s unat_mult_lem [of "100 :: u64" "new - old"] by (simp only: unat_numeral len_of_numeral_defs) simp
  have d: "unat (100 * (new - old) div d) = 100 * (unat new - unat old) div unat d"
    by (simp only: unat_div_distrib m)
  have pos: "0 < unat d" using assms(4) by (simp add: unat_gt_0)
  have "100 * (unat new - unat old) div unat d \<le> 100 * unat d div unat d"
    by (rule div_le_mono) (simp add: assms(3))
  then have le: "100 * (unat new - unat old) div unat d \<le> 100" using pos by simp
  then have "unat (ucast (100 * (new - old) div d) :: u32) = 100 * (unat new - unat old) div unat d"
    using d by (simp add: unsigned_ucast_eq take_bit_nat_eq_self)
  then show ?thesis using assms(4) le by (intro exI [of _ "ucast (100 * (new - old) div d)"]) (simp add: calc_cpu_load_def)
qed

lemma later_parts:
  assumes "later_sample old new"
  shows "unat (cs_total new - cs_total old) = cpu_sum new - cpu_sum old"
    and "(unat (cs_user new) - unat (cs_user old)) + (unat (cs_system new) - unat (cs_system old))
      + (unat (cs_idle new) - unat (cs_idle old)) \<le> cpu_sum new - cpu_sum old"
    and "cpu_sum old \<le> cpu_sum new"
proof -
  have l: "unat (cs_user old) \<le> unat (cs_user new)" "unat (cs_nice old) \<le> unat (cs_nice new)"
    "unat (cs_system old) \<le> unat (cs_system new)" "unat (cs_idle old) \<le> unat (cs_idle new)"
    "unat (cs_iowait old) \<le> unat (cs_iowait new)" "unat (cs_irq old) \<le> unat (cs_irq new)"
    "unat (cs_softirq old) \<le> unat (cs_softirq new)"
    using assms by (simp_all add: later_sample_def word_le_nat_alt)
  then show le: "cpu_sum old \<le> cpu_sum new" by (simp add: cpu_sum_def)
  show "(unat (cs_user new) - unat (cs_user old)) + (unat (cs_system new) - unat (cs_system old))
      + (unat (cs_idle new) - unat (cs_idle old)) \<le> cpu_sum new - cpu_sum old"
    using l unfolding cpu_sum_def by linarith
  have t: "unat (cs_total old) = cpu_sum old" "unat (cs_total new) = cpu_sum new"
    using assms by (simp_all add: later_sample_def)
  then have "cs_total old \<le> cs_total new" using le by (simp add: word_le_nat_alt)
  then show "unat (cs_total new - cs_total old) = cpu_sum new - cpu_sum old" using t by (simp add: unat_sub)
qed

lemma cpu_load_range:
  assumes "later_sample old new" and "cpu_sum old < cpu_sum new" and "100 * (cpu_sum new - cpu_sum old) < 2 ^ 64"
  shows "\<exists>u s i. cpu_load old new = Some (u, s, i)
    \<and> unat u = 100 * (unat (cs_user new) - unat (cs_user old)) div (cpu_sum new - cpu_sum old)
    \<and> unat u + unat s + unat i \<le> 100"
proof -
  let ?d = "cs_total new - cs_total old"
  let ?n = "cpu_sum new - cpu_sum old"
  let ?u = "unat (cs_user new) - unat (cs_user old)"
  let ?s = "unat (cs_system new) - unat (cs_system old)"
  let ?i = "unat (cs_idle new) - unat (cs_idle old)"
  note parts = later_parts [OF assms(1)]
  have d: "unat ?d = ?n" by (rule parts(1))
  then have nz: "?d \<noteq> 0" using assms(2) by (metis unat_0 zero_less_diff less_irrefl)
  have le: "?u \<le> ?n" "?s \<le> ?n" "?i \<le> ?n" using parts(2) by linarith+
  have b: "100 * ?u < 2 ^ 64" "100 * ?s < 2 ^ 64" "100 * ?i < 2 ^ 64" using le assms(3) by linarith+
  have w: "cs_user old \<le> cs_user new" "cs_system old \<le> cs_system new" "cs_idle old \<le> cs_idle new"
    using assms(1) by (simp_all add: later_sample_def)
  obtain u where u: "calc_cpu_load (cs_user old) (cs_user new) ?d = Some u" "unat u = 100 * ?u div ?n"
    using calc_cpu_load_eq [OF w(1) b(1) _ nz] le(1) d by auto
  obtain s where s: "calc_cpu_load (cs_system old) (cs_system new) ?d = Some s" "unat s = 100 * ?s div ?n"
    using calc_cpu_load_eq [OF w(2) b(2) _ nz] le(2) d by auto
  obtain i where i: "calc_cpu_load (cs_idle old) (cs_idle new) ?d = Some i" "unat i = 100 * ?i div ?n"
    using calc_cpu_load_eq [OF w(3) b(3) _ nz] le(3) d by auto
  have "100 * ?u div ?n + 100 * ?s div ?n + 100 * ?i div ?n \<le> (100 * ?u + 100 * ?s + 100 * ?i) div ?n"
    by (simp add: div_add1_eq [of "100 * ?u + 100 * ?s" "100 * ?i"] div_add1_eq [of "100 * ?u" "100 * ?s"])
  also have "\<dots> \<le> 100 * ?n div ?n" by (rule div_le_mono) (use parts(2) in linarith)
  also have "\<dots> = 100" using assms(2) by simp
  finally have "unat u + unat s + unat i \<le> 100" using u(2) s(2) i(2) by simp
  then show ?thesis using u s i by (auto simp: cpu_load_def Let_def)
qed

section \<open>Copying a file\<close>

text \<open>
  What a list of calls writes to a stream, and a kernel that from its call \<open>i\<close> on delivers a file to a
  reader and takes all that is written.
\<close>

fun written_by :: "int \<Rightarrow> file_call \<times> int \<Rightarrow> bytes" where
  "written_by f (F_fwrite g bs, r) = (if g = f then take (nat r) bs else [])"
| "written_by f _ = []"

definition written :: "int \<Rightarrow> (file_call \<times> int) list \<Rightarrow> bytes" where
  "written f cs = concat (map (written_by f) cs)"

definition delivers :: "file_kernel \<Rightarrow> nat \<Rightarrow> bytes \<Rightarrow> bool" where
  "delivers k i bs \<longleftrightarrow> (\<forall>j. let chunk = take 256 (drop (256 * j) bs)
     in answer k (i + 2 * j) = int (length chunk) \<and> take (length chunk) (reply k (i + 2 * j)) = chunk
        \<and> answer k (i + 2 * j + 1) = int (length chunk))"

lemma map_byte_at: "n \<le> length bs \<Longrightarrow> map (byte_at bs) [0..<n] = take n bs"
  by (rule nth_equalityI) (auto simp: byte_at_def)

lemma delivers_first:
  assumes "delivers k (length (calls k)) bs"
  shows "call c k = (int (min 256 (length bs)), k\<lparr>calls := calls k @ [(c, int (min 256 (length bs)))]\<rparr>)"
    and "received (int (min 256 (length bs))) (k\<lparr>calls := calls k @ [x]\<rparr>) = take 256 bs"
    and "answer k (Suc (length (calls k))) = int (min 256 (length bs))"
proof -
  have d: "answer k (length (calls k)) = int (min 256 (length bs))"
    "take (min 256 (length bs)) (reply k (length (calls k))) = take 256 bs"
    "answer k (Suc (length (calls k))) = int (min 256 (length bs))"
    using assms [unfolded delivers_def, THEN spec [of _ 0]] by (simp_all add: Let_def min.commute)
  show "call c k = (int (min 256 (length bs)), k\<lparr>calls := calls k @ [(c, int (min 256 (length bs)))]\<rparr>)"
    by (simp add: call_eq d(1))
  have "length (take 256 bs) = min 256 (length bs)" by (simp add: min.commute)
  then have "min 256 (length bs) \<le> length (reply k (length (calls k)))"
    using d(2) by (metis length_take min.cobounded1 min_def)
  then show "received (int (min 256 (length bs))) (k\<lparr>calls := calls k @ [x]\<rparr>) = take 256 bs"
    using d(2) by (simp add: received_def delivered_def map_byte_at del: length_take)
  show "answer k (Suc (length (calls k))) = int (min 256 (length bs))" by (rule d(3))
qed

lemma delivers_rest:
  assumes "delivers k i bs"
  shows "delivers (k\<lparr>calls := cs\<rparr>) (Suc (Suc i)) (drop 256 bs)"
  unfolding delivers_def
proof (rule allI)
  fix j
  show "let chunk = take 256 (drop (256 * j) (drop 256 bs))
     in answer (k\<lparr>calls := cs\<rparr>) (Suc (Suc i) + 2 * j) = int (length chunk)
        \<and> take (length chunk) (reply (k\<lparr>calls := cs\<rparr>) (Suc (Suc i) + 2 * j)) = chunk
        \<and> answer (k\<lparr>calls := cs\<rparr>) (Suc (Suc i) + 2 * j + 1) = int (length chunk)"
    using assms [unfolded delivers_def, THEN spec [of _ "Suc j"]] by (simp add: Let_def add.commute)
qed

lemma copy_loop_copies:
  assumes "delivers k (length (calls k)) bs"
  shows "\<exists>cs. copy_loop fin fout k = Some (k\<lparr>calls := calls k @ cs\<rparr>) \<and> written fout cs = bs"
  using assms
proof (induction bs arbitrary: k rule: measure_induct_rule [where f = length])
  case (less bs)
  note first = delivers_first [OF less.prems]
  let ?n = "int (min 256 (length bs))"
  let ?k1 = "k\<lparr>calls := calls k @ [(F_fread fin 256, ?n)]\<rparr>"
  show ?case
  proof (cases "bs = []")
    case True
    then show ?thesis
      by (intro exI [of _ "[(F_fread fin 256, ?n)]"]) (simp add: copy_loop.simps [of fin fout k] first(1) written_def)
  next
    case False
    let ?w = "F_fwrite fout (take 256 bs)"
    let ?k2 = "k\<lparr>calls := calls k @ [(F_fread fin 256, ?n), (?w, ?n)]\<rparr>"
    have "delivers ?k2 (length (calls ?k2)) (drop 256 bs)" using delivers_rest [OF less.prems] by simp
    moreover have "length (drop 256 bs) < length bs" using False by simp
    ultimately obtain cs where
      cs: "copy_loop fin fout ?k2 = Some (?k2\<lparr>calls := calls ?k2 @ cs\<rparr>)" "written fout cs = drop 256 bs"
      using less.IH by blast
    have w: "call ?w ?k1 = (?n, ?k2)" by (simp add: call_eq first(3))
    have pos: "0 < ?n" using False by simp
    have "copy_loop fin fout k = copy_loop fin fout ?k2"
      using False by (simp add: copy_loop.simps [of fin fout k] first(1,2) w pos del: of_nat_min)
    moreover have "written fout ((F_fread fin 256, ?n) # (?w, ?n) # cs) = bs"
      using cs(2) append_take_drop_id [of 256 bs] by (cases "length bs \<le> 256") (simp_all add: written_def)
    ultimately show ?thesis
      using cs(1) by (intro exI [of _ "(F_fread fin 256, ?n) # (?w, ?n) # cs"]) simp
  qed
qed

section \<open>The properties\<close>

text \<open>
  Printing a file copies it. When the file opens and the kernel delivers it to the reader in whole chunks,
  the function returns, what it wrote to the output is the file, byte by byte, and the stream it opened is closed; when
  the file does not open nothing is written.
\<close>

theorem print_file_copies:
  assumes "answer k (length (calls k)) \<noteq> - 1 \<longrightarrow> delivers k (Suc (length (calls k))) bs"
  shows "\<exists>k'. ml_print_file name fout k = Some k'
    \<and> written fout (new_calls k k') = (if answer k (length (calls k)) = - 1 then [] else bs)
    \<and> left_open h fds (new_calls k k') = fds"
proof -
  let ?f = "answer k (length (calls k))"
  let ?o = "F_fopen name ''rb''"
  let ?k1 = "k\<lparr>calls := calls k @ [(?o, ?f)]\<rparr>"
  have o: "call ?o k = (?f, ?k1)" by (simp add: call_eq)
  show ?thesis
  proof (cases "?f = - 1")
    case True
    then have r: "ml_print_file name fout k = Some ?k1" using o by (simp add: ml_print_file_def)
    show ?thesis using calm_left_open [OF calm_print_file [OF r]] r True by (simp add: written_def)
  next
    case False
    have "delivers ?k1 (length (calls ?k1)) bs" using assms False by (simp add: delivers_def)
    then obtain cs where cs: "copy_loop ?f fout ?k1 = Some (?k1\<lparr>calls := calls ?k1 @ cs\<rparr>)" "written fout cs = bs"
      using copy_loop_copies by blast
    obtain r where r: "run_call (F_fclose ?f) (?k1\<lparr>calls := calls ?k1 @ cs\<rparr>)
        = k\<lparr>calls := calls k @ (?o, ?f) # cs @ [(F_fclose ?f, r)]\<rparr>"
      by (simp add: run_call_def call_eq)
    have p: "ml_print_file name fout k = Some (k\<lparr>calls := calls k @ (?o, ?f) # cs @ [(F_fclose ?f, r)]\<rparr>)"
      using o cs(1) False r by (simp add: ml_print_file_def)
    show ?thesis using calm_left_open [OF calm_print_file [OF p]] p cs(2) False by (simp add: written_def)
  qed
qed

definition print_example :: file_kernel where
  "print_example =
     \<lparr>calls = [], answer = (\<lambda>n. if n = 0 then 5 else if n \<le> 2 then 3 else 0), errno_at = (\<lambda>_. 0),
      reply = (\<lambda>n. if n = 1 then [104, 105, 10] else [])\<rparr>"

lemma print_example_delivers: "delivers print_example 1 [104, 105, 10]"
proof -
  have "take 256 (drop (256 * j) [104, 105, 10 :: u8]) = (if j = 0 then [104, 105, 10] else [])" for j
    by (cases j) simp_all
  then show ?thesis by (simp add: delivers_def print_example_def Let_def)
qed

theorem print_file_copies_witness:
  "\<exists>k'. ml_print_file ''motd'' 1 print_example = Some k' \<and> written 1 (new_calls print_example k') = [104, 105, 10]
    \<and> left_open Stream [] (new_calls print_example k') = []"
  using print_file_copies [of print_example "[104, 105, 10]" "''motd''" 1 Stream "[]"] print_example_delivers
  by (simp add: print_example_def)


text \<open>Two samples, 100 ticks apart: 25 of them user, 5 system and 60 idle.\<close>

definition sample1 :: cpu_stats where
  "sample1 = \<lparr>cs_user = 1000, cs_nice = 5, cs_system = 300, cs_idle = 9000, cs_iowait = 40, cs_irq = 0,
     cs_softirq = 7, cs_total = 10352\<rparr>"

definition sample2 :: cpu_stats where
  "sample2 = \<lparr>cs_user = 1025, cs_nice = 5, cs_system = 305, cs_idle = 9060, cs_iowait = 50, cs_irq = 0,
     cs_softirq = 7, cs_total = 10452\<rparr>"


end
