(* ===== verification/Ml_Coredump.thy ===== *)
theory Ml_Coredump
  imports Ml_File
begin

text \<open>
  Messages of the kernel and the core dump handler at the end of \<open>src/src/ml.c\<close>. \<open>ml_print_kernel_message\<close> works on
  the array its caller read the message into: a string in it ends at the first zero byte, and reading on past
  the end of the array is \<open>None\<close>, as is the use of \<open>text_pos\<close> when \<open>sscanf\<close> did not get that far. The reading loops
  are partial functions. \<open>strerror\<close> is a parameter.
\<close>

section \<open>Kernel messages\<close>

definition EAGAIN :: int where "EAGAIN = 11"

text \<open>The string in an array, if it ends there.\<close>

definition c_string :: "bytes \<Rightarrow> string option" where
  "c_string m = (if 0 \<in> set m then Some (str_at m 0) else None)"

text \<open>\<open>%*u,%*u,%llu\<close>: the time and what is left of the input.\<close>

definition scan_usecs :: "string \<Rightarrow> (u64 \<times> string) option" where
  "scan_usecs s =
     Option.bind (scan_number s) (\<lambda>(_, s).
     Option.bind (scan_char CHR '','' s) (\<lambda>s.
     Option.bind (scan_number s) (\<lambda>(_, s).
     Option.bind (scan_char CHR '','' s) scan_number)))"

text \<open>\<open>,%*[^;]; %n\<close>: what is left after it, where the text begins.\<close>

definition scan_text_pos :: "string \<Rightarrow> string option" where
  "scan_text_pos s =
     map_option skip_space
       (Option.bind (Option.bind (scan_char CHR '','' s) (scan_until CHR '';'')) (scan_char CHR '';''))"

definition kernel_line :: "u64 \<Rightarrow> string \<Rightarrow> string" where
  "kernel_line usecs t =
     (let secs = usecs div 1000000; usecs = usecs mod 1000000
      in ''['' @ pad_left 5 CHR '' '' (show_int (sint secs)) @ ''.'' @ pad_left 6 CHR ''0'' (show_int (sint usecs))
         @ ''] '' @ t @ newline)"

text \<open>The newline in the array is replaced by a zero.\<close>

definition ml_print_kernel_message :: "bytes \<Rightarrow> int \<Rightarrow> file_kernel \<Rightarrow> (bytes \<times> file_kernel) option" where
  "ml_print_kernel_message message fout k =
     (case c_string message of
        None \<Rightarrow> None
      | Some s \<Rightarrow>
          (case scan_usecs s of
             None \<Rightarrow> Some (message, k)
           | Some (usecs, rest) \<Rightarrow>
               (case scan_text_pos rest of
                  None \<Rightarrow> None
                | Some t \<Rightarrow>
                    let shown = takeWhile (\<lambda>c. c \<noteq> CHR 0x0A) t;
                        text_pos = length s - length t;
                        message = (if CHR 0x0A \<in> set t then message[text_pos + length shown := 0] else message)
                    in Some (message, run_call (F_print fout (kernel_line usecs shown)) k))))"

section \<open>The core dump\<close>

partial_function (option) write_core_loop :: "int \<Rightarrow> file_kernel \<Rightarrow> file_kernel option" where
  "write_core_loop fout k =
     (let (sz, k) = call (F_read 0 1024) k
      in if sz > 0
         then let bs = received sz k; (n, k) = call (F_fwrite fout bs) k
              in if n \<noteq> sz then Some k else write_core_loop fout k
         else Some k)"

declare write_core_loop.simps [code]

definition write_core :: "file_kernel \<Rightarrow> file_kernel option" where
  "write_core k =
     (let (fout, k) = call (F_fopen ''core'' ''wb'') k
      in if fout = - 1 then Some k else map_option (run_call (F_fclose fout)) (write_core_loop fout k))"

partial_function (option) write_log_loop ::
  "(int \<Rightarrow> string) \<Rightarrow> int \<Rightarrow> int \<Rightarrow> bytes \<Rightarrow> file_kernel \<Rightarrow> file_kernel option" where
  "write_log_loop strerror fd fout message k =
     (let (sz, k) = call (F_read fd 1023) k
      in if sz \<le> 0
         then Some (if sz < 0 \<and> errno k \<noteq> EAGAIN
                    then run_call (F_print fout (''*** Failed to read message with error ''
                           @ strerror (errno k) @ ''. ***'' @ newline)) k
                    else k)
         else
           let bs = received sz k; message = bs @ drop (length bs) message
           in case ml_print_kernel_message message fout k of
                None \<Rightarrow> None
              | Some (message, k) \<Rightarrow> write_log_loop strerror fd fout message k)"

declare write_log_loop.simps [code]

text \<open>\<open>message\<close> is the array of 1024 bytes, with whatever the stack holds there.\<close>

definition write_log :: "(int \<Rightarrow> string) \<Rightarrow> bytes \<Rightarrow> file_kernel \<Rightarrow> file_kernel option" where
  "write_log strerror message k =
     (let (fout, k) = call (F_fopen ''log.txt'' ''w'') k
      in if fout = - 1 then Some k
         else
           let (fd, k) = call (F_open ''/dev/kmsg'') k
           in if fd = - 1
              then Some (run_call (F_fclose fout)
                     (run_call (F_print fout (''*** Failed to open /dev/kmsg with error '' @ [CHR 0x27]
                        @ strerror (errno k) @ [CHR 0x27] @ ''. ***'' @ newline)) k))
              else map_option (\<lambda>k. run_call (F_fclose fout) (run_call (F_close fd) k))
                     (write_log_loop strerror fd fout message k))"

definition write_info_file :: "int \<Rightarrow> string \<Rightarrow> file_kernel \<Rightarrow> file_kernel option" where
  "write_info_file fout path k =
     map_option (run_call (F_print fout newline))
       (ml_print_file path fout (run_call (F_print fout (path @ '':'' @ newline @ newline)) k))"

fun write_info_files :: "int \<Rightarrow> string list \<Rightarrow> file_kernel \<Rightarrow> file_kernel option" where
  "write_info_files fout [] k = Some k"
| "write_info_files fout (p # ps) k = Option.bind (write_info_file fout p k) (write_info_files fout ps)"

definition info_paths :: "string list" where
  "info_paths =
     [''/proc/version'', ''/proc/cmdline'', ''/proc/uptime'', ''/proc/loadavg'', ''/proc/meminfo'',
      ''/proc/interrupts'', ''/proc/diskstats'', ''/proc/partitions'', ''/proc/mounts'', ''/proc/cpuinfo'',
      ''/proc/modules'', ''/proc/ioports'', ''/proc/iomem'', ''/proc/stat'', ''/proc/net/route'',
      ''/proc/net/tcp'', ''/proc/net/udp'', ''/proc/net/netstat'', ''/proc/net/sockstat'',
      ''/proc/net/protocols'']"

definition write_info :: "file_kernel \<Rightarrow> file_kernel option" where
  "write_info k =
     (let (fout, k) = call (F_fopen ''info.txt'' ''w'') k
      in if fout = - 1 then Some k
         else map_option (run_call (F_fclose fout)) (write_info_files fout info_paths k))"

text \<open>\<open>find_slot\<close> as the calls of \<open>lstat\<close> it makes; \<open>Ml_Core\<close> has it as a function of the answers.\<close>

fun find_slot_calls :: "nat \<Rightarrow> nat \<Rightarrow> string \<Rightarrow> file_kernel \<Rightarrow> (bool \<times> string) \<times> file_kernel" where
  "find_slot_calls slot 0 dir k = ((False, dir), k)"
| "find_slot_calls slot (Suc n) dir k =
     (let dir = show_nat slot; (r, k) = call (F_lstat dir) k
      in if r \<noteq> 0 then ((True, dir), k) else find_slot_calls (slot + 1) n dir k)"

definition ml_finalize_coredump :: "(int \<Rightarrow> string) \<Rightarrow> bytes \<Rightarrow> string \<Rightarrow> nat \<Rightarrow> file_kernel \<Rightarrow> file_kernel option" where
  "ml_finalize_coredump strerror message dir maximum_number_of_coredumps k =
     map_option (run_call (F_exit 0))
       (let k = run_call (F_mkdir dir) k; (r, k) = call (F_chdir dir) k
        in if r \<noteq> 0 then Some k
           else
             let ((found, slot_dir), k) = find_slot_calls 0 maximum_number_of_coredumps [] k
             in if \<not> found then Some k
                else
                  let k = run_call (F_mkdir slot_dir) k; (r, k) = call (F_chdir slot_dir) k
                  in if r \<noteq> 0 then Some k
                     else map_option (run_call F_sync)
                            (Option.bind (Option.bind (write_core k) (write_log strerror message)) write_info))"

section \<open>Records of the kernel log\<close>

text \<open>
  A record as the kernel formats it: priority, sequence number and time, further fields up to a semicolon,
  the text and a newline.
\<close>

definition kmsg_record :: "nat \<Rightarrow> nat \<Rightarrow> nat \<Rightarrow> string \<Rightarrow> string \<Rightarrow> string" where
  "kmsg_record prio seqno usecs flds t =
     show_nat prio @ '','' @ show_nat seqno @ '','' @ show_nat usecs @ '','' @ flds @ '';'' @ t @ newline"

definition kmsg_fields_ok :: "string \<Rightarrow> string \<Rightarrow> bool" where
  "kmsg_fields_ok flds t \<longleftrightarrow> flds \<noteq> [] \<and> CHR '';'' \<notin> set flds \<and> t \<noteq> [] \<and> \<not> is_space (hd t)
     \<and> CHR 0x0A \<notin> set t"

definition is_kmsg :: "bytes \<Rightarrow> bool" where
  "is_kmsg bs \<longleftrightarrow> 0 \<notin> set bs \<and> (\<exists>p q u f t. p < 2 ^ 64 \<and> q < 2 ^ 64 \<and> u < 2 ^ 64 \<and> kmsg_fields_ok f t
     \<and> text_of bs = kmsg_record p q u f t)"

lemma str_at_append:
  assumes "0 \<notin> set bs"
  shows "str_at (bs @ rest) 0 = text_of bs @ str_at rest 0"
proof -
  have "takeWhile (\<lambda>c. c \<noteq> 0) (bs @ rest) = bs @ takeWhile (\<lambda>c. c \<noteq> 0) rest"
    using assms by (subst takeWhile_append2) auto
  then show ?thesis by (simp add: str_at_def text_of_def)
qed

lemma not_digit [simp]: "\<not> is_digit CHR '',''" "\<not> is_digit CHR '';''" "\<not> is_digit CHR ''-''"
  by (simp_all add: is_digit_def)

lemma scan_usecs_record:
  assumes "p < 2 ^ 64" and "q < 2 ^ 64" and "u < 2 ^ 64"
  shows "scan_usecs (kmsg_record p q u f t @ s) = Some (of_nat u, '','' @ f @ '';'' @ t @ newline @ s)"
  using assms by (simp add: scan_usecs_def kmsg_record_def scan_number_show)

lemma scan_text_pos_record:
  assumes "kmsg_fields_ok f t"
  shows "scan_text_pos ('','' @ f @ '';'' @ t @ newline @ s) = Some (t @ newline @ s)"
proof -
  have "dropWhile (\<lambda>d. d \<noteq> CHR '';'') (f @ CHR '';'' # t @ newline @ s) = CHR '';'' # t @ newline @ s"
    using assms by (subst dropWhile_append2) (auto simp: kmsg_fields_ok_def)
  moreover have "f \<noteq> []" "hd f \<noteq> CHR '';''" using assms by (cases f; auto simp: kmsg_fields_ok_def)+
  ultimately have "scan_until CHR '';'' (f @ CHR '';'' # t @ newline @ s) = Some (CHR '';'' # t @ newline @ s)"
    by (simp add: scan_until_def)
  moreover have "skip_space (t @ newline @ s) = t @ newline @ s"
    using assms by (cases t) (simp_all add: skip_space_def kmsg_fields_ok_def)
  ultimately show ?thesis by (simp add: scan_text_pos_def)
qed

lemma record_shown:
  assumes "kmsg_fields_ok f t"
  shows "takeWhile (\<lambda>c. c \<noteq> CHR 0x0A) (t @ newline @ s) = t"
  using assms by (subst takeWhile_append2) (auto simp: kmsg_fields_ok_def newline_def)

lemma print_kernel_record:
  assumes "0 \<notin> set bs" and "0 \<in> set rest" and "p < 2 ^ 64" and "q < 2 ^ 64" and "u < 2 ^ 64" and "kmsg_fields_ok f t"
    and "text_of bs = kmsg_record p q u f t"
  shows "ml_print_kernel_message (bs @ rest) fout k
    = Some ((bs @ rest)[length bs - 1 := 0], run_call (F_print fout (kernel_line (of_nat u) t)) k)"
proof -
  let ?s = "str_at rest 0"
  have s: "c_string (bs @ rest) = Some (kmsg_record p q u f t @ ?s)"
    using assms(1,2,7) by (simp add: c_string_def str_at_append)
  have u: "scan_usecs (kmsg_record p q u f t @ ?s) = Some (of_nat u, '','' @ f @ '';'' @ t @ newline @ ?s)"
    by (rule scan_usecs_record) (use assms in simp_all)
  have n: "length bs = length (kmsg_record p q u f t)" using assms(7) by (metis length_map text_of_def)
  have pos: "length (kmsg_record p q u f t @ ?s) - length (t @ newline @ ?s) + length t = length bs - 1"
    unfolding n by (simp add: kmsg_record_def newline_def)
  show ?thesis
    unfolding ml_print_kernel_message_def s u option.case prod.case scan_text_pos_record [OF assms(6)] Let_def
      record_shown [OF assms(6)] pos
    by (simp add: newline_def)
qed

lemma kernel_line_nat:
  assumes "u < 2 ^ 64"
  shows "kernel_line (of_nat u) t = ''['' @ pad_left 5 CHR '' '' (show_nat (u div 1000000)) @ ''.''
    @ pad_left 6 CHR ''0'' (show_nat (u mod 1000000)) @ ''] '' @ t @ newline"
proof -
  have u: "unat (of_nat u :: u64) = u" using assms by (simp add: unsigned_of_nat take_bit_nat_eq_self)
  have s: "show_int (sint w) = show_nat (unat w)" if "unat w < 2 ^ 63" for w :: u64
  proof -
    have "int (unat w) < int (2 ^ 63)" using that by (simp only: of_nat_less_iff)
    then have "uint w < 2 ^ 63" by simp
    moreover have "- (2 ^ 63) \<le> uint w" by (rule order_trans [OF _ uint_ge_0]) simp
    ultimately have "signed_take_bit 63 (uint w) = uint w" by (intro signed_take_bit_int_eq_self)
    then have "sint w = int (unat w)" by (simp add: sint_uint)
    then show ?thesis by (simp add: show_int_def)
  qed
  have d: "unat (of_nat u div 1000000 :: u64) = u div 1000000" by (simp add: unat_div_distrib u)
  have m: "unat (of_nat u mod 1000000 :: u64) = u mod 1000000" by (simp add: unat_mod_distrib u)
  have "u div 1000000 < 2 ^ 63" "u mod 1000000 < 2 ^ 63" using assms by simp_all
  then show ?thesis by (simp only: kernel_line_def Let_def s d m)
qed

section \<open>The handler ends\<close>

text \<open>
  A kernel that has nothing more to give after its call \<open>n\<close>, and one all of whose data are records of the
  kernel log.
\<close>

definition runs_dry :: "nat \<Rightarrow> file_kernel \<Rightarrow> bool" where
  "runs_dry n k \<longleftrightarrow> (\<forall>i \<ge> n. answer k i \<le> 0)"

definition delivers_records :: "file_kernel \<Rightarrow> bool" where
  "delivers_records k \<longleftrightarrow> (\<forall>i. answer k i > 0 \<longrightarrow>
     answer k i \<le> 1023 \<and> nat (answer k i) \<le> length (reply k i) \<and> is_kmsg (take (nat (answer k i)) (reply k i)))"

lemma runs_dry_before: "runs_dry n k \<Longrightarrow> 0 < answer k i \<Longrightarrow> i < n"
  unfolding runs_dry_def by (meson not_less)

lemma calm_oracle:
  assumes "calm k k'"
  shows "answer k' = answer k" and "reply k' = reply k" and "length (calls k) \<le> length (calls k')"
  using assms by (auto simp: calm_def)

lemma call_simps:
  assumes "call c k = (r, k')"
  shows "length (calls k') = Suc (length (calls k))" and "answer k' = answer k" and "reply k' = reply k"
    and "r = answer k (length (calls k))"
  using assms by (auto simp: call_eq)

lemma copy_loop_ends:
  assumes "runs_dry n k"
  shows "\<exists>k'. copy_loop fin fout k = Some k' \<and> calm k k'"
proof -
  have "\<exists>k'. copy_loop fin fout k = Some k'"
    using assms
  proof (induction "n - length (calls k)" arbitrary: k rule: less_induct)
    case less
    obtain sz k1 where c1: "call (F_fread fin 256) k = (sz, k1)" by (cases "call (F_fread fin 256) k")
    obtain m k2 where c2: "call (F_fwrite fout (received sz k1)) k1 = (m, k2)"
      by (cases "call (F_fwrite fout (received sz k1)) k1")
    note s = call_simps [OF c1] call_simps [OF c2]
    show ?case
    proof (cases "sz > 0 \<and> m = sz")
      case True
      then have "length (calls k) < n" using less.prems s(4) by (metis runs_dry_before)
      then have "n - length (calls k2) < n - length (calls k)" using s(1,5) by simp
      moreover have "runs_dry n k2" using less.prems s by (simp add: runs_dry_def)
      ultimately obtain k' where "copy_loop fin fout k2 = Some k'" using less.hyps by blast
      then show ?thesis using True c1 c2 by (simp add: copy_loop.simps [of fin fout k])
    next
      case False
      then show ?thesis using c1 c2 by (auto simp: copy_loop.simps [of fin fout k] Let_def)
    qed
  qed
  then show ?thesis using calm_copy_loop by blast
qed

lemma print_file_ends:
  assumes "runs_dry n k"
  shows "\<exists>k'. ml_print_file name fout k = Some k' \<and> calm k k'"
proof -
  obtain f k1 where o: "call (F_fopen name ''rb'') k = (f, k1)" by (cases "call (F_fopen name ''rb'') k")
  have "runs_dry n k1" using assms call_simps [OF o] by (simp add: runs_dry_def)
  then obtain k2 where "copy_loop f fout k1 = Some k2" using copy_loop_ends by blast
  then have "\<exists>k'. ml_print_file name fout k = Some k'" using o by (simp add: ml_print_file_def)
  then show ?thesis using calm_print_file by blast
qed

lemma runs_dry_calm: "runs_dry n k \<Longrightarrow> calm k k' \<Longrightarrow> runs_dry n k'"
  by (simp add: runs_dry_def calm_oracle)

lemma info_file_ends:
  assumes "runs_dry n k"
  shows "\<exists>k'. write_info_file fout path k = Some k' \<and> calm k k'"
proof -
  let ?k1 = "run_call (F_print fout (path @ '':'' @ newline @ newline)) k"
  have q: "calm k ?k1" by (rule calm_run) simp
  obtain k2 where k2: "ml_print_file path fout ?k1 = Some k2" "calm ?k1 k2"
    using print_file_ends [OF runs_dry_calm [OF assms q]] by blast
  have "calm k (run_call (F_print fout newline) k2)"
    by (rule calm_then_run [OF calm_trans [OF q k2(2)]]) simp
  then show ?thesis using k2(1) by (simp add: write_info_file_def)
qed

lemma info_files_end:
  "runs_dry n k \<Longrightarrow> \<exists>k'. write_info_files fout ps k = Some k' \<and> calm k k'"
proof (induction ps arbitrary: k)
  case (Cons p ps)
  obtain k1 where k1: "write_info_file fout p k = Some k1" "calm k k1" using info_file_ends [OF Cons.prems] by blast
  obtain k2 where "write_info_files fout ps k1 = Some k2" "calm k1 k2"
    using Cons.IH [OF runs_dry_calm [OF Cons.prems k1(2)]] by blast
  then show ?case using k1 calm_trans by auto
qed auto

lemma write_core_loop_ends:
  "runs_dry n k \<Longrightarrow> \<exists>k'. write_core_loop fout k = Some k' \<and> calm k k'"
proof (induction "n - length (calls k)" arbitrary: k rule: less_induct)
  case less
  obtain sz k1 where c1: "call (F_read 0 1024) k = (sz, k1)" by (cases "call (F_read 0 1024) k")
  obtain m k2 where c2: "call (F_fwrite fout (received sz k1)) k1 = (m, k2)"
    by (cases "call (F_fwrite fout (received sz k1)) k1")
  note s = call_simps [OF c1] call_simps [OF c2]
  have q1: "calm k k1" by (rule calm_call [OF _ c1]) simp
  have q2: "calm k k2" by (rule calm_trans [OF q1 calm_call [OF _ c2]]) simp
  show ?case
  proof (cases "sz > 0 \<and> m = sz")
    case True
    then have "length (calls k) < n" using less.prems s(4) by (metis runs_dry_before)
    then have "n - length (calls k2) < n - length (calls k)" using s(1,5) by simp
    then obtain k' where "write_core_loop fout k2 = Some k'" "calm k2 k'"
      using less.hyps runs_dry_calm [OF less.prems q2] by blast
    then show ?thesis using True c1 c2 calm_trans [OF q2] by (simp add: write_core_loop.simps [of fout k])
  next
    case False
    then show ?thesis using c1 c2 q1 q2 by (auto simp: write_core_loop.simps [of fout k] Let_def)
  qed
qed

lemma write_log_loop_ends:
  assumes "runs_dry n k" and "delivers_records k" and "length m = 1024" and "m ! 1023 = 0"
  shows "\<exists>k'. write_log_loop strerror fd fout m k = Some k' \<and> calm k k'"
  using assms
proof (induction "n - length (calls k)" arbitrary: k m rule: less_induct)
  case less
  obtain sz k1 where c1: "call (F_read fd 1023) k = (sz, k1)" by (cases "call (F_read fd 1023) k")
  note s = call_simps [OF c1]
  have q1: "calm k k1" by (rule calm_call [OF _ c1]) simp
  show ?case
  proof (cases "sz > 0")
    case True
    let ?bs = "received sz k1"
    let ?rest = "drop (length ?bs) m"
    have i: "delivered k1 = reply k (length (calls k))" using s by (simp add: delivered_def)
    have r: "nat sz \<le> 1023" "nat sz \<le> length (reply k (length (calls k)))"
      "is_kmsg (take (nat sz) (reply k (length (calls k))))"
      using less.prems(2) s(4) True by (auto simp: delivers_records_def)
    have bs: "?bs = take (nat sz) (reply k (length (calls k)))" using r(2) by (simp add: received_def i map_byte_at)
    have len: "length ?bs = nat sz" using r(2) by (simp add: bs)
    then have "m ! 1023 \<in> set ?rest" using r(1) less.prems(3) nth_mem [of "1023 - nat sz" ?rest] by simp
    then have z: "0 \<in> set ?rest" using less.prems(4) by simp
    obtain p q u f t where k: "p < 2 ^ 64" "q < 2 ^ 64" "u < 2 ^ 64" "kmsg_fields_ok f t"
      "text_of ?bs = kmsg_record p q u f t" "0 \<notin> set ?bs"
      using r(3) bs by (auto simp: is_kmsg_def)
    let ?m = "(?bs @ ?rest)[length ?bs - 1 := 0]"
    let ?k2 = "run_call (F_print fout (kernel_line (of_nat u) t)) k1"
    have pr: "ml_print_kernel_message (?bs @ ?rest) fout k1 = Some (?m, ?k2)"
      by (rule print_kernel_record [OF k(6) z k(1-5)])
    have q2: "calm k ?k2" by (rule calm_then_run [OF q1]) simp
    have "length (calls k) < n" using less.prems(1) s(4) True by (metis runs_dry_before)
    moreover have "length (calls ?k2) = Suc (Suc (length (calls k)))" using s(1) by (simp add: run_call_def call_eq)
    ultimately have dec: "n - length (calls ?k2) < n - length (calls k)" by simp
    have m: "length ?m = 1024" "?m ! 1023 = 0"
      using less.prems(3,4) len r(1) True by (simp_all add: nth_list_update nth_append)
    have "delivers_records ?k2" using less.prems(2) calm_oracle [OF q2] by (simp add: delivers_records_def)
    then obtain k' where "write_log_loop strerror fd fout ?m ?k2 = Some k'" "calm ?k2 k'"
      using less.hyps [OF dec runs_dry_calm [OF less.prems(1) q2] _ m] by blast
    then show ?thesis
      using True c1 pr calm_trans [OF q2] by (simp add: write_log_loop.simps [of strerror fd fout m k] Let_def)
  next
    case False
    then show ?thesis
      using c1 q1 calm_then_run [OF q1, of "F_print fout s" for s] by (simp add: write_log_loop.simps [of strerror fd fout m k])
  qed
qed

lemma write_core_ends:
  assumes "runs_dry n k"
  shows "\<exists>k'. write_core k = Some k' \<and> calm k k'"
proof -
  let ?c = "F_fopen ''core'' ''wb''"
  obtain f k1 where o: "call ?c k = (f, k1)" by (cases "call ?c k")
  have "runs_dry n k1" using assms call_simps [OF o] by (simp add: runs_dry_def)
  then obtain k2 where k2: "write_core_loop f k1 = Some k2" "calm k1 k2" using write_core_loop_ends by blast
  show ?thesis
    using o k2 calm_not_opened [of ?c k k1] calm_session [OF o _ k2(2), of "F_fclose f"]
    by (auto simp: write_core_def)
qed

lemma write_info_ends:
  assumes "runs_dry n k"
  shows "\<exists>k'. write_info k = Some k' \<and> calm k k'"
proof -
  let ?c = "F_fopen ''info.txt'' ''w''"
  obtain f k1 where o: "call ?c k = (f, k1)" by (cases "call ?c k")
  have "runs_dry n k1" using assms call_simps [OF o] by (simp add: runs_dry_def)
  then obtain k2 where k2: "write_info_files f info_paths k1 = Some k2" "calm k1 k2" using info_files_end by blast
  show ?thesis
    using o k2 calm_not_opened [of ?c k k1] calm_session [OF o _ k2(2), of "F_fclose f"]
    by (auto simp: write_info_def)
qed

lemma write_log_ends:
  assumes "runs_dry n k" and "delivers_records k" and "length m = 1024" and "m ! 1023 = 0"
  shows "\<exists>k'. write_log strerror m k = Some k' \<and> calm k k'"
proof -
  let ?c = "F_fopen ''log.txt'' ''w''" and ?o = "F_open ''/dev/kmsg''"
  obtain f k1 where o: "call ?c k = (f, k1)" by (cases "call ?c k")
  show ?thesis
  proof (cases "f = - 1")
    case True
    then show ?thesis using o calm_not_opened [of ?c k k1] by (simp add: write_log_def)
  next
    case f: False
    obtain fd k2 where o2: "call ?o k1 = (fd, k2)" by (cases "call ?o k1")
    have dry: "runs_dry n k2" "delivers_records k2"
      using assms(1,2) call_simps [OF o] call_simps [OF o2] by (simp_all add: runs_dry_def delivers_records_def)
    show ?thesis
    proof (cases "fd = - 1")
      case True
      then have "calm k1 k2" using o2 calm_not_opened [of ?o k1 k2] by simp
      then have "calm k1 (run_call (F_print f s) k2)" for s by (rule calm_then_run) simp
      then show ?thesis using o o2 f True calm_session [OF o f, of "run_call (F_print f s) k2" "F_fclose f" for s]
        by (simp add: write_log_def)
    next
      case False
      obtain k3 where k3: "write_log_loop strerror fd f m k2 = Some k3" "calm k2 k3"
        using write_log_loop_ends [OF dry assms(3,4)] by blast
      have "calm k1 (run_call (F_close fd) k3)" by (rule calm_session [OF o2 False k3(2)]) simp_all
      then have "calm k (run_call (F_fclose f) (run_call (F_close fd) k3))" by (rule calm_session [OF o f]) simp_all
      then show ?thesis using o o2 f False k3(1) by (simp add: write_log_def)
    qed
  qed
qed

lemma find_slot_calls_found:
  assumes "find_slot_calls s n d k = ((found, dir), k')"
  shows "calm k k' \<and> (found \<longrightarrow> (\<exists>r. (F_lstat dir, r) \<in> set (new_calls k k') \<and> r \<noteq> 0)
    \<and> dir \<in> show_nat ` {s..<s + n})"
  using assms
proof (induction n arbitrary: s d k)
  case (Suc n)
  let ?c = "F_lstat (show_nat s)"
  obtain r k1 where c: "call ?c k = (r, k1)" by (cases "call ?c k")
  have q: "calm k k1" by (rule calm_call [OF _ c]) simp
  show ?case
  proof (cases "r = 0")
    case True
    then have f: "find_slot_calls (s + 1) n (show_nat s) k1 = ((found, dir), k')" using Suc.prems c by simp
    note ih = Suc.IH [OF f]
    have "set (new_calls k1 k') \<subseteq> set (new_calls k k')"
      using ih c by (auto simp: calm_def call_eq)
    moreover have "show_nat ` {s + 1..<s + 1 + n} \<subseteq> show_nat ` {s..<s + Suc n}" by (rule image_mono) auto
    ultimately show ?thesis using ih calm_trans [OF q] by blast
  next
    case False
    then have "found" "dir = show_nat s" "k' = k1" using Suc.prems c by (simp_all add: Let_def)
    moreover have "new_calls k k1 = [(?c, r)]" using c by (auto simp: call_eq)
    ultimately show ?thesis using q False by auto
  qed
qed auto

text \<open>The search makes the calls of \<open>find_slot\<close> of \<open>Ml_Core\<close> and finds what it finds on their answers.\<close>

lemma find_slot_calls_eq:
  assumes "\<And>i. answer k (length (calls k) + i) = (if ex (show_nat (s + i)) then 0 else - 1)"
  shows "fst (find_slot_calls s n d k) = find_slot_from ex s n d"
  using assms
proof (induction n arbitrary: s d k)
  case (Suc n)
  let ?c = "F_lstat (show_nat s)"
  obtain r k1 where c: "call ?c k = (r, k1)" by (cases "call ?c k")
  note cs = call_simps [OF c]
  have r: "r = (if ex (show_nat s) then 0 else - 1)" using Suc.prems [of 0] cs(4) by simp
  have "answer k1 (length (calls k1) + i) = (if ex (show_nat (s + 1 + i)) then 0 else - 1)" for i
    using Suc.prems [of "Suc i"] cs(1,2) by simp
  then have "fst (find_slot_calls (s + 1) n (show_nat s) k1) = find_slot_from ex (s + 1) n (show_nat s)"
    by (rule Suc.IH)
  then show ?case using c r by (auto simp: Let_def)
qed simp

text \<open>What the handler may do before it exits: change to its directory and to a free slot only.\<close>

definition dump_calls :: "string \<Rightarrow> nat \<Rightarrow> (file_call \<times> int) list \<Rightarrow> bool" where
  "dump_calls dir n cs \<longleftrightarrow> (\<forall>h fds. left_open h fds cs = fds)
     \<and> (\<forall>d. (\<exists>q. (F_chdir d, q) \<in> set cs \<or> (F_mkdir d, q) \<in> set cs) \<longrightarrow>
          d = dir \<or> d \<in> show_nat ` {..<n} \<and> (\<exists>r. r \<noteq> 0 \<and> (F_lstat d, r) \<in> set cs))
     \<and> (\<forall>q r. (F_exit q, r) \<notin> set cs)"

definition dump_step :: "string \<Rightarrow> nat \<Rightarrow> file_kernel \<Rightarrow> file_kernel \<Rightarrow> bool" where
  "dump_step dir n k k' \<longleftrightarrow> (\<exists>cs. k' = k\<lparr>calls := calls k @ cs\<rparr> \<and> dump_calls dir n cs)"

lemma dump_calls_append:
  "dump_calls dir n cs \<Longrightarrow> dump_calls dir n ds \<Longrightarrow> dump_calls dir n (cs @ ds)"
  unfolding dump_calls_def by (simp add: ball_Un) blast

lemma dump_calls_calm: "\<forall>h fds. left_open h fds cs = fds \<Longrightarrow> \<forall>e \<in> set cs. \<not> moves (fst e) \<Longrightarrow> dump_calls dir n cs"
  unfolding dump_calls_def by force

lemma dump_calls_move:
  assumes "c = F_mkdir d \<or> c = F_chdir d" and "d = dir \<or> d \<in> show_nat ` {..<n} \<and> (\<exists>r. r \<noteq> 0 \<and> (F_lstat d, r) \<in> set cs)"
    and "dump_calls dir n cs"
  shows "dump_calls dir n (cs @ [(c, r)])"
proof -
  have "left_open h fds [(c, r)] = fds" for h fds using assms(1) by (auto simp: left_open_def)
  then show ?thesis using assms unfolding dump_calls_def by auto
qed

lemma finalize_ends:
  assumes "runs_dry N k" and "delivers_records k" and "length m = 1024" and "m ! 1023 = 0"
  shows "\<exists>cs r. ml_finalize_coredump strerror m dir n k = Some (k\<lparr>calls := calls k @ cs @ [(F_exit 0, r)]\<rparr>)
    \<and> dump_calls dir n cs"
proof -
  let ?body = "let k = run_call (F_mkdir dir) k; (r, k) = call (F_chdir dir) k
        in if r \<noteq> 0 then Some k
           else
             let ((found, slot_dir), k) = find_slot_calls 0 n [] k
             in if \<not> found then Some k
                else
                  let k = run_call (F_mkdir slot_dir) k; (r, k) = call (F_chdir slot_dir) k
                  in if r \<noteq> 0 then Some k
                     else map_option (run_call F_sync)
                            (Option.bind (Option.bind (write_core k) (write_log strerror m)) write_info)"
  have "\<exists>k' cs. ?body = Some k' \<and> k' = k\<lparr>calls := calls k @ cs\<rparr> \<and> dump_calls dir n cs"
  proof -
    let ?k1 = "run_call (F_mkdir dir) k"
    obtain r k2 where c2: "call (F_chdir dir) ?k1 = (r, k2)" by (cases "call (F_chdir dir) ?k1")
    obtain r1 where "k2 = k\<lparr>calls := calls k @ [(F_mkdir dir, r1), (F_chdir dir, r)]\<rparr>"
      using c2 by (auto simp: run_call_def call_eq)
    moreover have "dump_calls dir n [(F_mkdir dir, r1), (F_chdir dir, r)]"
      by (auto simp: dump_calls_def left_open_def)
    ultimately obtain cs2 where k2: "k2 = k\<lparr>calls := calls k @ cs2\<rparr>" "dump_calls dir n cs2" by blast
    show ?thesis
    proof (cases "r = 0")
      case False
      then show ?thesis using c2 k2 by (auto simp: Let_def intro!: exI [of _ cs2])
    next
      case r0: True
      obtain found sd k3 where c3: "find_slot_calls 0 n [] k2 = ((found, sd), k3)" by (metis prod.exhaust)
      note slot = find_slot_calls_found [OF c3]
      obtain cs3 where cs3: "k3 = k2\<lparr>calls := calls k2 @ cs3\<rparr>" "dump_calls dir n cs3"
        using slot dump_calls_calm unfolding calm_def by blast
      have k3: "k3 = k\<lparr>calls := calls k @ cs2 @ cs3\<rparr>" "dump_calls dir n (cs2 @ cs3)"
        using k2 cs3 dump_calls_append by simp_all
      show ?thesis
      proof (cases found)
        case False
        then show ?thesis using c2 c3 r0 k3 by (auto simp: Let_def intro!: exI [of _ "cs2 @ cs3"])
      next
        case True
        have new: "new_calls k2 k3 = cs3" using cs3(1) by simp
        have sd: "sd \<in> show_nat ` {..<n}" "\<exists>r. r \<noteq> 0 \<and> (F_lstat sd, r) \<in> set cs3"
          using slot True unfolding new by (auto simp: atLeast0LessThan)
        let ?k4 = "run_call (F_mkdir sd) k3"
        obtain q k5 where c5: "call (F_chdir sd) ?k4 = (q, k5)" by (cases "call (F_chdir sd) ?k4")
        obtain q1 where k5: "k5 = k\<lparr>calls := calls k @ ((cs2 @ cs3) @ [(F_mkdir sd, q1)]) @ [(F_chdir sd, q)]\<rparr>"
          using c5 k3(1) by (auto simp: run_call_def call_eq)
        have d5: "dump_calls dir n (((cs2 @ cs3) @ [(F_mkdir sd, q1)]) @ [(F_chdir sd, q)])"
          by (rule dump_calls_move, simp, use sd in force, rule dump_calls_move [OF _ _ k3(2)]) (use sd in auto)
        show ?thesis
        proof (cases "q = 0")
          case False
          then show ?thesis using c2 c3 c5 r0 True k5 d5
            by (auto simp: Let_def intro!: exI [of _ "cs2 @ cs3 @ [(F_mkdir sd, q1), (F_chdir sd, q)]"])
        next
          case q0: True
          have dry: "runs_dry N k5" "delivers_records k5"
            using assms(1,2) unfolding k5 by (simp_all add: runs_dry_def delivers_records_def)
          obtain k6 where k6: "write_core k5 = Some k6" "calm k5 k6" using write_core_ends [OF dry(1)] by blast
          have dry6: "runs_dry N k6" "delivers_records k6"
            using runs_dry_calm [OF dry(1) k6(2)] dry(2) calm_oracle [OF k6(2)] by (simp_all add: delivers_records_def)
          obtain k7 where k7: "write_log strerror m k6 = Some k7" "calm k6 k7"
            using write_log_ends [OF dry6 assms(3,4)] by blast
          obtain k8 where k8: "write_info k7 = Some k8" "calm k7 k8"
            using write_info_ends [OF runs_dry_calm [OF dry6(1) k7(2)]] by blast
          have "calm k5 (run_call F_sync k8)"
            by (rule calm_then_run [OF calm_trans [OF k6(2) calm_trans [OF k7(2) k8(2)]]]) simp
          then obtain ds where ds: "run_call F_sync k8 = k5\<lparr>calls := calls k5 @ ds\<rparr>" "dump_calls dir n ds"
            using dump_calls_calm unfolding calm_def by blast
          then show ?thesis
            using c2 c3 c5 r0 q0 True k5 k6(1) k7(1) k8(1) dump_calls_append [OF d5 ds(2)]
            by (auto simp: Let_def intro!: exI [of _ "cs2 @ cs3 @ [(F_mkdir sd, q1), (F_chdir sd, q)] @ ds"])
        qed
      qed
    qed
  qed
  then obtain cs where "?body = Some (k\<lparr>calls := calls k @ cs\<rparr>)" "dump_calls dir n cs" by blast
  then show ?thesis unfolding ml_finalize_coredump_def by (auto simp: run_call_def call_eq)
qed

section \<open>The properties\<close>

text \<open>
  A record of the kernel log is printed with its time in seconds and microseconds and its text, which ends at the
  newline whatever an earlier, longer record left behind it. The array must hold a zero byte after the record: with
  none the function reads past its end.
\<close>

theorem kernel_record_printed:
  assumes "0 \<notin> set bs" and "p < 2 ^ 64" and "q < 2 ^ 64" and "u < 2 ^ 64" and "kmsg_fields_ok f t"
    and "text_of bs = kmsg_record p q u f t"
  shows "ml_print_kernel_message (bs @ rest) fout k =
    (if 0 \<in> set rest
     then Some ((bs @ rest)[length bs - 1 := 0],
       run_call (F_print fout (''['' @ pad_left 5 CHR '' '' (show_nat (u div 1000000)) @ ''.''
         @ pad_left 6 CHR ''0'' (show_nat (u mod 1000000)) @ ''] '' @ t @ newline)) k)
     else None)"
proof (cases "0 \<in> set rest")
  case True
  show ?thesis unfolding print_kernel_record [OF assms(1) True assms(2-6)] kernel_line_nat [OF assms(4)] using True by simp
next
  case False
  then show ?thesis using assms(1) by (simp add: ml_print_kernel_message_def c_string_def)
qed

definition record_example :: bytes where
  "record_example = bytes_of_text (''6,12,1500042,-;up'' @ newline)"

lemma replicate_4: "replicate 4 x = [x, x, x, x]"
  by (simp add: numeral_eq_Suc)

lemma text_of_record_example: "text_of record_example = kmsg_record 6 12 1500042 ''-'' ''up''"
  by (simp add: record_example_def text_of_bytes kmsg_record_def show_nat.simps digit_chars)

theorem kernel_record_printed_witness:
  "ml_print_kernel_message (record_example @ [0, 7]) 3 print_example
    = Some ((record_example @ [0, 7])[17 := 0],
        run_call (F_print 3 (''[    1.500042] up'' @ newline)) print_example)
   \<and> ml_print_kernel_message (record_example @ [1, 7]) 3 print_example = None"
proof -
  have r: "0 \<notin> set record_example" "length record_example = 18"
    by (simp_all add: record_example_def bytes_of_text_def newline_def)
  have f: "kmsg_fields_ok ''-'' ''up''" by (simp add: kmsg_fields_ok_def is_space_def)
  note ok = kernel_record_printed [OF r(1) _ _ _ f text_of_record_example]
  show ?thesis
    using ok [of "[0, 7]" 3 print_example] ok [of "[1, 7]" 3 print_example]
    by (simp add: r(2) pad_left_def show_nat.simps digit_chars replicate_4)
qed


text \<open>A kernel on which slot 0 is taken, and which has one record for each reader.\<close>

definition dump_example :: file_kernel where
  "dump_example =
     \<lparr>calls = [], answer = (\<lambda>i. if i \<in> {0, 1, 2, 4, 5, 9} then 0 else if i \<in> {6, 7, 8, 11, 12, 13} then 18 else - 1),
      errno_at = (\<lambda>_. EAGAIN), reply = (\<lambda>_. record_example)\<rparr>"


end
