(* ===== verification/Ml_Device.thy ===== *)
theory Ml_Device
  imports Ml_File
begin

text \<open>
  Devices: the device mapper (\<open>src/src/ml_device_mapper.c\<close>) and the real-time clock (\<open>src/src/ml_rtc.c\<close>). The
  structures given to \<open>ioctl\<close> are bytes in the layout of a 64-bit host; the kernel writes its answer over
  them. \<open>strerror\<close> is a parameter, and what goes to the log is the call \<open>F_info\<close>.
\<close>

section \<open>The device mapper\<close>

text \<open>
  \<open>struct ioctl_t\<close> is 312 bytes: version 0, data size 12, data start 16, target count 20, flags 28, device 40, name
  48, uuid 176. \<open>struct load_table_t\<close> goes on with the target at 312 (length 8 and type 24 bytes into it) and the
  string of 512 bytes at 352.
\<close>

definition DEV_CREATE :: nat where "DEV_CREATE = 0xC138FD03"
definition DEV_SUSPEND :: nat where "DEV_SUSPEND = 0xC138FD06"
definition TABLE_LOAD :: nat where "TABLE_LOAD = 0xC138FD09"

definition READONLY_FLAG :: u32 where "READONLY_FLAG = 1"
definition EXISTS_FLAG :: u32 where "EXISTS_FLAG = 4"
definition SECURE_DATA_FLAG :: u32 where "SECURE_DATA_FLAG = 0x8000"

text \<open>\<open>strncpy\<close> into a field of \<open>n\<close> bytes: no terminating zero if the string has \<open>n\<close> characters or more.\<close>

definition strncpy_at :: "bytes \<Rightarrow> nat \<Rightarrow> string \<Rightarrow> nat \<Rightarrow> bytes" where
  "strncpy_at b i s n = poke b i (bytes_of_text (take n s) @ replicate (n - length s) 0)"

text \<open>\<open>snprintf\<close> into an array of \<open>n\<close> bytes.\<close>

definition snprintf_at :: "bytes \<Rightarrow> nat \<Rightarrow> nat \<Rightarrow> string \<Rightarrow> bytes" where
  "snprintf_at b i n s = put_str b i (take (n - 1) s)"

definition le64 :: "u64 \<Rightarrow> bytes" where
  "le64 w = le32 (ucast w) @ le32 (ucast (drop_bit 32 w))"

definition put64 :: "bytes \<Rightarrow> nat \<Rightarrow> u64 \<Rightarrow> bytes" where
  "put64 b i w = poke b i (le64 w)"

definition create_params :: "string \<Rightarrow> string \<Rightarrow> bytes" where
  "create_params mapping_name mapping_uuid =
     (let ctl = replicate 312 0;
          ctl = put32 ctl 0 4;
          ctl = strncpy_at ctl 48 mapping_name 128;
          ctl = strncpy_at ctl 176 mapping_uuid 129;
          ctl = put32 ctl 12 312
      in put32 ctl 28 EXISTS_FLAG)"

definition create_device :: "(int \<Rightarrow> string) \<Rightarrow> int \<Rightarrow> string \<Rightarrow> string \<Rightarrow> file_kernel \<Rightarrow> int \<times> file_kernel" where
  "create_device strerror control_fd mapping_name mapping_uuid k =
     (let ctl = create_params mapping_name mapping_uuid;
          (res, k) = call (F_ioctl control_fd DEV_CREATE ctl) k;
          ctl = overwrite (delivered k) ctl
      in if res \<noteq> 0
         then (res, run_call (F_info (''device-mapper: Failed to create mapping device '' @ [CHR 0x27] @ mapping_name
                     @ [CHR 0x27] @ '': '' @ strerror (errno k))) k)
         else
           let buf = take 255 (''/dev/mapper/'' @ mapping_uuid);
               (res, k) = call (F_mknod buf S_IFBLK (get64 ctl 40)) k
           in if res \<noteq> 0
              then (res, run_call (F_info (''device-mapper: Failed to create node for mapping device '' @ [CHR 0x27]
                          @ mapping_name @ [CHR 0x27] @ '': '' @ strerror (errno k))) k)
              else (res, k))"

definition verity_table :: "string \<Rightarrow> u64 \<Rightarrow> string \<Rightarrow> u64 \<Rightarrow> string \<Rightarrow> string \<Rightarrow> string" where
  "verity_table data_dev data_size hash_tree_dev hash_offset root_hash salt =
     ''1 '' @ data_dev @ '' '' @ hash_tree_dev @ '' 4096 4096 '' @ show_nat (unat (data_size div 4096)) @ '' ''
     @ show_nat (unat (hash_offset div 4096)) @ '' sha256 '' @ root_hash @ '' '' @ salt"

definition table_params :: "string \<Rightarrow> string \<Rightarrow> u64 \<Rightarrow> string \<Rightarrow> u64 \<Rightarrow> string \<Rightarrow> string \<Rightarrow> bytes" where
  "table_params mapping_name data_dev data_size hash_tree_dev hash_offset root_hash salt =
     (let params = replicate 864 0;
          params = put32 params 0 4;
          params = put32 params 12 864;
          params = put32 params 16 312;
          params = strncpy_at params 48 mapping_name 128;
          params = put32 params 20 1;
          params = put32 params 28 (READONLY_FLAG OR EXISTS_FLAG OR SECURE_DATA_FLAG);
          params = put64 params 320 (data_size div 512);
          params = put_str params 336 ''verity''
      in snprintf_at params 352 512 (verity_table data_dev data_size hash_tree_dev hash_offset root_hash salt))"

definition load_table :: "(int \<Rightarrow> string) \<Rightarrow> int \<Rightarrow> string \<Rightarrow> string \<Rightarrow> u64 \<Rightarrow> string \<Rightarrow> u64 \<Rightarrow> string \<Rightarrow> string
    \<Rightarrow> file_kernel \<Rightarrow> int \<times> file_kernel" where
  "load_table strerror control_fd mapping_name data_dev data_size hash_tree_dev hash_offset root_hash salt k =
     (let params = table_params mapping_name data_dev data_size hash_tree_dev hash_offset root_hash salt;
          (res, k) = call (F_ioctl control_fd TABLE_LOAD params) k
      in if res \<noteq> 0
         then (res, run_call (F_info (''device-mapper: Failed to load hash tree for mapping device '' @ [CHR 0x27]
                     @ mapping_name @ [CHR 0x27] @ '': '' @ strerror (errno k))) k)
         else (res, k))"

definition suspend_params :: "string \<Rightarrow> bytes" where
  "suspend_params mapping_name =
     (let ctl = replicate 312 0;
          ctl = put32 ctl 0 4;
          ctl = put32 ctl 12 312
      in strncpy_at ctl 48 mapping_name 128)"

definition suspend_device :: "(int \<Rightarrow> string) \<Rightarrow> int \<Rightarrow> string \<Rightarrow> file_kernel \<Rightarrow> int \<times> file_kernel" where
  "suspend_device strerror control_fd mapping_name k =
     (let (res, k) = call (F_ioctl control_fd DEV_SUSPEND (suspend_params mapping_name)) k
      in if res \<noteq> 0
         then (res, run_call (F_info (''device-mapper: Failed to suspend mapping device '' @ [CHR 0x27]
                     @ mapping_name @ [CHR 0x27] @ '': '' @ strerror (errno k))) k)
         else (res, k))"

definition ml_device_mapper_verity_create :: "(int \<Rightarrow> string) \<Rightarrow> string \<Rightarrow> string \<Rightarrow> string \<Rightarrow> u64 \<Rightarrow> string \<Rightarrow> u64
    \<Rightarrow> string \<Rightarrow> string \<Rightarrow> file_kernel \<Rightarrow> int \<times> file_kernel" where
  "ml_device_mapper_verity_create strerror mapping_name mapping_uuid data_dev data_size hash_tree_dev hash_offset
     root_hash salt k =
     (let (control_fd, k) = call (F_open ''/dev/mapper/control'') k
      in if control_fd = - 1
         then (- errno k, run_call (F_info (''device-mapper: Failed to open file '' @ [CHR 0x27]
                 @ ''/dev/mapper/control'' @ [CHR 0x27] @ '': '' @ strerror (errno k))) k)
         else
           let (res, k) = create_device strerror control_fd mapping_name mapping_uuid k
           in if res \<noteq> 0 then (res, run_call (F_close control_fd) k)
              else
                let (res, k) = load_table strerror control_fd mapping_name data_dev data_size hash_tree_dev
                                 hash_offset root_hash salt k
                in if res \<noteq> 0 then (res, run_call (F_close control_fd) k)
                   else
                     let (res, k) = suspend_device strerror control_fd mapping_name k
                     in (res, run_call (F_close control_fd) k))"

section \<open>The real-time clock\<close>

record tm =
  tm_sec :: u32
  tm_min :: u32
  tm_hour :: u32
  tm_mday :: u32
  tm_mon :: u32
  tm_year :: u32
  tm_wday :: u32
  tm_yday :: u32
  tm_isdst :: u32

definition RTC_RD_TIME :: nat where "RTC_RD_TIME = 0x80247009"
definition RTC_SET_TIME :: nat where "RTC_SET_TIME = 0x4024700A"

text \<open>The new time is what was stored through the pointer, \<open>None\<close> if nothing was.\<close>

definition ml_rtc_get_time :: "string \<Rightarrow> file_kernel \<Rightarrow> (int \<times> tm option) \<times> file_kernel" where
  "ml_rtc_get_time device k =
     (let (fd, k) = call (F_open device) k
      in if fd \<noteq> - 1
         then
           let (res, k) = call (F_ioctl fd RTC_RD_TIME []) k;
               rtm = delivered k;
               t = (if res = 0
                    then Some \<lparr>tm_sec = get32 rtm 0, tm_min = get32 rtm 4, tm_hour = get32 rtm 8,
                               tm_mday = get32 rtm 12, tm_mon = get32 rtm 16, tm_year = get32 rtm 20,
                               tm_wday = get32 rtm 24, tm_yday = get32 rtm 28, tm_isdst = get32 rtm 32\<rparr>
                    else None)
           in ((res, t), run_call (F_close fd) k)
         else ((- 1, None), k))"

text \<open>The nine fields of \<open>struct rtc_time\<close>, four bytes each.\<close>

definition rtc_time_of :: "tm \<Rightarrow> bytes" where
  "rtc_time_of t =
     le32 (tm_sec t) @ le32 (tm_min t) @ le32 (tm_hour t) @ le32 (tm_mday t) @ le32 (tm_mon t) @ le32 (tm_year t)
     @ le32 (tm_wday t) @ le32 (tm_yday t) @ le32 (tm_isdst t)"

definition ml_rtc_set_time :: "string \<Rightarrow> tm \<Rightarrow> file_kernel \<Rightarrow> int \<times> file_kernel" where
  "ml_rtc_set_time device t k =
     (let (fd, k) = call (F_open device) k
      in if fd \<noteq> - 1
         then let (res, k) = call (F_ioctl fd RTC_SET_TIME (rtc_time_of t)) k in (res, run_call (F_close fd) k)
         else (- 1, k))"

section \<open>Reading the structures back\<close>

lemma str_at_eqI:
  assumes "i + length s < length b" and "CHR 0x00 \<notin> set s"
    and "\<And>l. l < length s \<Longrightarrow> byte_at b (i + l) = of_char (s ! l)" and "byte_at b (i + length s) = 0"
  shows "str_at b i = s"
proof -
  have "drop i b = bytes_of_text s @ 0 # drop (i + length s + 1) b"
  proof (rule nth_equalityI)
    show "length (drop i b) = length (bytes_of_text s @ 0 # drop (i + length s + 1) b)"
      using assms(1) by (simp add: bytes_of_text_def)
    fix l assume l: "l < length (drop i b)"
    then have b: "drop i b ! l = byte_at b (i + l)" using less_diff_conv [of l "length b" i] by (simp add: byte_at_def add.commute)
    show "drop i b ! l = (bytes_of_text s @ 0 # drop (i + length s + 1) b) ! l"
    proof (cases "l < length s")
      case True
      then show ?thesis using assms(3) b by (simp add: bytes_of_text_def nth_append)
    next
      case False
      then obtain m where m: "l = length s + m" using le_Suc_ex not_less by blast
      show ?thesis
        using assms(1,4) b l unfolding m by (cases m) (simp_all add: bytes_of_text_def nth_append byte_at_def add.assoc)
    qed
  qed
  moreover have "0 \<notin> set (bytes_of_text s)"
  proof
    assume "0 \<in> set (bytes_of_text s)"
    then obtain c where c: "c \<in> set s" "(of_char c :: u8) = 0" by (auto simp: bytes_of_text_def)
    then have "of_char c = (0 :: nat)" using unat_of_char [of c] by (metis unsigned_0)
    then have "of_char c = (of_char CHR 0x00 :: nat)" by simp
    then have "c = CHR 0x00" by (simp only: of_char_eq_iff)
    then show False using c(1) assms(2) by simp
  qed
  ultimately have "takeWhile (\<lambda>c. c \<noteq> 0) (drop i b) = bytes_of_text s"
    by (metis (mono_tags, lifting) takeWhile_append2 takeWhile.simps(2) append_Nil2)
  then show ?thesis using text_of_bytes [of s] by (simp add: str_at_def text_of_def)
qed

lemma byte_at_strncpy:
  assumes "i + n \<le> length b"
  shows "byte_at (strncpy_at b i s n) j =
    (if i \<le> j \<and> j < i + n then if j - i < length s then of_char (s ! (j - i)) else 0 else byte_at b j)"
proof -
  define bs where "bs = bytes_of_text (take n s) @ replicate (n - length s) (0 :: u8)"
  have len: "length bs = n" by (simp add: bs_def bytes_of_text_def)
  have bs: "bs ! m = (if m < length s then of_char (s ! m) else 0)" if "m < n" for m
    using that by (auto simp: bs_def bytes_of_text_def nth_append)
  have "byte_at (strncpy_at b i s n) j = byte_at (poke b i bs) j" by (simp add: strncpy_at_def bs_def)
  also have "\<dots> = (if i \<le> j \<and> j < i + n then bs ! (j - i) else byte_at b j)"
    using assms byte_at_poke [of i bs b j] by (simp add: len)
  finally show ?thesis using bs [of "j - i"] by (cases "i \<le> j \<and> j < i + n") auto
qed

lemma byte_at_put_str:
  assumes "i + length s < length b"
  shows "byte_at (put_str b i s) j =
    (if i \<le> j \<and> j < i + length s then of_char (s ! (j - i)) else if j = i + length s then 0 else byte_at b j)"
proof -
  have "i + length (map of_char s @ [0 :: u8]) \<le> length b" using assms by simp
  then show ?thesis by (auto simp: put_str_def byte_at_poke nth_append)
qed

lemma byte_at_put32:
  assumes "i + 4 \<le> length b"
  shows "byte_at (put32 b i w) j = (if i \<le> j \<and> j < i + 4 then le32 w ! (j - i) else byte_at b j)"
  using assms by (simp add: put32_def byte_at_poke)

lemma byte_at_put64:
  assumes "i + 8 \<le> length b"
  shows "byte_at (put64 b i w) j = (if i \<le> j \<and> j < i + 8 then le64 w ! (j - i) else byte_at b j)"
  using assms by (simp add: put64_def byte_at_poke le64_def)

lemma length_puts [simp]:
  "length (strncpy_at b i s n) = length b" "length (snprintf_at b i n s) = length b" "length (put64 b i w) = length b"
  by (simp_all add: strncpy_at_def snprintf_at_def put64_def)

lemma byte_at_zeros [simp]: "byte_at (replicate n 0) i = 0"
  by (simp add: byte_at_def)

lemmas byte_at_stores = byte_at_strncpy byte_at_put_str byte_at_put32 byte_at_put64

lemma get32_le32:
  assumes "\<And>m. m < 4 \<Longrightarrow> byte_at b (i + m) = le32 w ! m"
  shows "get32 b i = w"
proof -
  have "byte_at b i = ucast w" "byte_at b (i + 1) = ucast (drop_bit 8 w)"
    "byte_at b (i + 2) = ucast (drop_bit 16 w)" "byte_at b (i + 3) = ucast (drop_bit 24 w)"
    using assms [of 0] assms [of 1] assms [of 2] assms [of 3] by (simp_all add: le32_def to_be32_def nth_Cons')
  then show ?thesis using be32_to_be32 [of w] by (simp add: get32_def)
qed

lemma get64_le64:
  assumes "\<And>m. m < 8 \<Longrightarrow> byte_at b (i + m) = le64 w ! m"
  shows "get64 b i = w"
proof -
  have "get32 b i = ucast w"
    by (rule get32_le32) (simp add: assms le64_def nth_append)
  moreover have "get32 b (i + 4) = ucast (drop_bit 32 w)"
  proof (rule get32_le32)
    fix m :: nat assume "m < 4"
    then show "byte_at b (i + 4 + m) = le32 (ucast (drop_bit 32 w)) ! m"
      using assms [of "4 + m"] by (simp add: le64_def nth_append add.assoc)
  qed
  ultimately show ?thesis by (intro bit_word_eqI) (auto simp: get64_def bit_simps not_less)
qed

lemma byte_at_words:
  "i < length ws \<Longrightarrow> m < 4 \<Longrightarrow> byte_at (concat (map le32 ws)) (4 * i + m) = le32 (ws ! i) ! m"
proof (induction ws arbitrary: i)
  case (Cons w ws)
  then show ?case by (cases i) (simp_all add: byte_at_append, simp add: byte_at_def)
qed simp

lemma rtc_time_of_concat:
  "rtc_time_of t = concat (map le32 [tm_sec t, tm_min t, tm_hour t, tm_mday t, tm_mon t, tm_year t, tm_wday t,
     tm_yday t, tm_isdst t])"
  by (simp add: rtc_time_of_def)

section \<open>The properties\<close>

text \<open>The calls that are not log lines.\<close>

fun is_log :: "file_call \<times> int \<Rightarrow> bool" where
  "is_log (F_info _, _) = True"
| "is_log _ = False"

definition requests :: "file_kernel \<Rightarrow> file_kernel \<Rightarrow> (file_call \<times> int) list" where
  "requests k k' = filter (\<lambda>e. \<not> is_log e) (new_calls k k')"

text \<open>What the mapper asks of the kernel: the device, its node, the table and the resumption, in this order.\<close>

definition verity_steps :: "int \<Rightarrow> string \<Rightarrow> string \<Rightarrow> bytes \<Rightarrow> u64 \<Rightarrow> file_call list" where
  "verity_steps fd name uuid table dev =
     [F_ioctl fd DEV_CREATE (create_params name uuid), F_mknod (take 255 (''/dev/mapper/'' @ uuid)) S_IFBLK dev,
      F_ioctl fd TABLE_LOAD table, F_ioctl fd DEV_SUSPEND (suspend_params name)]"

text \<open>
  C28: creating a verity device takes its steps in order and stops at the first that fails. The control file is
  opened, then the device is created, its node made with the number the kernel gave, the table loaded and the
  device resumed; the result is that of the last step made, every one before it answered 0, and the control file is
  closed whatever happened.
\<close>

theorem verity_create_in_order:
  fixes k :: file_kernel
  defines "n \<equiv> length (calls k)"
  assumes "ml_device_mapper_verity_create strerror name uuid data_dev data_size hash_dev offset root salt k = (res, k')"
  shows "if answer k n = - 1
    then res = - errno_at k n \<and> requests k k' = [(F_open ''/dev/mapper/control'', - 1)]
    else \<exists>j r. j < 4 \<and> (\<forall>i<j. answer k (n + 1 + i) = 0) \<and> (j = 3 \<or> answer k (n + 1 + j) \<noteq> 0)
      \<and> res = answer k (n + 1 + j)
      \<and> requests k k' = (F_open ''/dev/mapper/control'', answer k n)
          # map (\<lambda>i. (verity_steps (answer k n) name uuid (table_params name data_dev data_size hash_dev offset root salt)
                (get64 (overwrite (reply k (n + 1)) (create_params name uuid)) 40) ! i, answer k (n + 1 + i))) [0..<Suc j]
          @ [(F_close (answer k n), r)]"
proof -
  note run = assms(2) [unfolded ml_device_mapper_verity_create_def create_device_def load_table_def
      suspend_device_def, simplified Let_def call_eq run_call_def]
  let ?a = "\<lambda>i. answer k (n + i)"
  consider "?a 0 = - 1" | "?a 0 \<noteq> - 1" "?a 1 \<noteq> 0" | "?a 0 \<noteq> - 1" "?a 1 = 0" "?a 2 \<noteq> 0"
    | "?a 0 \<noteq> - 1" "?a 1 = 0" "?a 2 = 0" "?a 3 \<noteq> 0" | "?a 0 \<noteq> - 1" "?a 1 = 0" "?a 2 = 0" "?a 3 = 0"
    by blast
  then show ?thesis
  proof cases
    case 1
    then show ?thesis using run by (auto simp: n_def requests_def errno_def)
  next
    case 2
    then show ?thesis using run
      by (auto simp: n_def requests_def verity_steps_def errno_def delivered_def intro!: exI [of _ "0 :: nat"])
  next
    case 3
    then show ?thesis using run
      by (auto simp: n_def requests_def verity_steps_def errno_def delivered_def numeral_2_eq_2 intro!: exI [of _ "1 :: nat"])
  next
    case 4
    then show ?thesis using run
      by (auto simp: n_def requests_def verity_steps_def errno_def delivered_def less_Suc_eq numeral_2_eq_2
          numeral_3_eq_3 intro!: exI [of _ "2 :: nat"])
  next
    case 5
    then show ?thesis using run
      by (cases "answer k (Suc (Suc (Suc (Suc (length (calls k)))))) = 0") (auto simp: n_def requests_def verity_steps_def errno_def delivered_def less_Suc_eq numeral_2_eq_2
          numeral_3_eq_3 intro!: exI [of _ "3 :: nat"])
  qed
qed

definition verity_example :: file_kernel where
  "verity_example = \<lparr>calls = [], answer = (\<lambda>i. if i = 0 then 4 else if i = 3 then - 1 else 0), errno_at = (\<lambda>_. 22),
     reply = (\<lambda>_. replicate 40 0 @ [7, 253, 0, 0, 0, 0, 0, 0])\<rparr>"

theorem verity_create_in_order_witness:
  "\<exists>res k' j r. ml_device_mapper_verity_create (\<lambda>_. []) ''root'' ''00-11'' ''/dev/sda'' 8192 ''/dev/sdb'' 4096 ''ab'' ''cd''
       verity_example = (res, k')
     \<and> j < 4 \<and> res = answer verity_example (1 + j)
     \<and> requests verity_example k' = (F_open ''/dev/mapper/control'', 4)
          # map (\<lambda>i. (verity_steps 4 ''root'' ''00-11'' (table_params ''root'' ''/dev/sda'' 8192 ''/dev/sdb'' 4096 ''ab'' ''cd'')
                (get64 (overwrite (reply verity_example 1) (create_params ''root'' ''00-11'')) 40) ! i,
                answer verity_example (1 + i))) [0..<Suc j]
          @ [(F_close 4, r)]"
proof -
  obtain res k' where run: "ml_device_mapper_verity_create (\<lambda>_. []) ''root'' ''00-11'' ''/dev/sda'' 8192 ''/dev/sdb'' 4096
      ''ab'' ''cd'' verity_example = (res, k')"
    by (meson surj_pair)
  have "calls verity_example = []" "answer verity_example 0 = 4" by (simp_all add: verity_example_def)
  then show ?thesis using verity_create_in_order [OF run] run
    by (auto simp del: upt_Suc)
qed

text \<open>
  C29: the parameters of the table carry the verity description to the kernel: the sizes and offsets of the structure,
  the mapping name (names of fewer than 128 characters), the length in sectors, the target type, and the
  description, of which only the first 511 characters fit: a longer one is cut and the kernel never sees its end.
\<close>

theorem verity_table_read_back:
  assumes "length name < 128" and "CHR 0x00 \<notin> set name \<union> set data_dev \<union> set hash_dev \<union> set root \<union> set salt"
  shows "let p = table_params name data_dev data_size hash_dev offset root salt
    in length p = 864 \<and> get32 p 12 = 864 \<and> get32 p 16 = 312 \<and> get32 p 20 = 1 \<and> get32 p 28 = 0x8005
       \<and> str_at p 48 = name \<and> get64 p 320 = data_size div 512 \<and> str_at p 336 = ''verity''
       \<and> str_at p 352 = take 511 (verity_table data_dev data_size hash_dev offset root salt)"
proof -
  let ?p = "table_params name data_dev data_size hash_dev offset root salt"
  let ?t = "take 511 (verity_table data_dev data_size hash_dev offset root salt)"
  have len: "length ?p = 864" by (simp add: table_params_def Let_def)
  have t: "352 + length ?t < 864" by simp
  note b = table_params_def Let_def snprintf_at_def byte_at_stores
  have f: "get32 ?p 12 = 864" "get32 ?p 16 = 312" "get32 ?p 20 = 1" "get32 ?p 28 = 0x8005"
    by (rule get32_le32; simp add: b READONLY_FLAG_def EXISTS_FLAG_def SECURE_DATA_FLAG_def)+
  have d: "get64 ?p 320 = data_size div 512" by (rule get64_le64) (simp add: b)
  have n: "str_at ?p 48 = name" using assms by (intro str_at_eqI) (simp_all add: len, simp_all add: b)
  have v: "str_at ?p 336 = ''verity''" by (rule str_at_eqI) (simp_all add: len, simp_all add: b)
  have z: "CHR 0x00 \<notin> set (show_nat m)" for m
    using show_nat_digits [of m] by (auto simp: list_all_iff is_digit_def)
  have "CHR 0x00 \<notin> set ?t"
    using assms(2) z by (auto simp: verity_table_def dest!: in_set_takeD)
  then have s: "str_at ?p 352 = ?t" using t by (intro str_at_eqI) (simp_all add: len, simp_all add: b)
  show ?thesis using len f d n v s by (simp add: Let_def)
qed

theorem verity_table_read_back_witness:
  "str_at (table_params ''root'' ''/dev/sda'' 8192 ''/dev/sdb'' 4096 ''ab'' ''cd'') 352
     = ''1 /dev/sda /dev/sdb 4096 4096 2 1 sha256 ab cd''"
  using verity_table_read_back [of "''root''" "''/dev/sda''" "''/dev/sdb''" "''ab''" "''cd''" 8192 4096]
  by (simp add: Let_def verity_table_def show_nat.simps digit_chars)

text \<open>
  The time set is the time read. If the clock answers a read with the bytes an earlier successful set gave it,
  \<open>ml_rtc_get_time\<close> stores exactly the time \<open>ml_rtc_set_time\<close> was given.
\<close>

theorem rtc_set_get_roundtrip:
  assumes "ml_rtc_set_time dev t k = (0, k1)" and "(F_ioctl fd RTC_SET_TIME bs, 0) \<in> set (new_calls k k1)"
    and "ml_rtc_get_time dev k2 = ((0, u), k3)" and "reply k2 (length (calls k2) + 1) = bs"
  shows "u = Some t"
proof -
  have "bs = rtc_time_of t" using assms(1,2) by (auto simp: ml_rtc_set_time_def call_eq run_call_def split: if_splits)
  moreover have f: "get32 (rtc_time_of t) (4 * i) = [tm_sec t, tm_min t, tm_hour t, tm_mday t, tm_mon t,
      tm_year t, tm_wday t, tm_yday t, tm_isdst t] ! i" if "i < 9" for i
    using that unfolding rtc_time_of_concat by (intro get32_le32 byte_at_words) simp_all
  ultimately show ?thesis
    using assms(3,4) f [of 0, simplified] f [of 1, simplified] f [of 2, simplified] f [of 3, simplified] f [of 4, simplified] f [of 5, simplified] f [of 6, simplified] f [of 7, simplified] f [of 8, simplified]
    by (auto simp: ml_rtc_get_time_def call_eq delivered_def Let_def split: if_splits)
qed

definition rtc_example :: tm where
  "rtc_example = \<lparr>tm_sec = 59, tm_min = 30, tm_hour = 12, tm_mday = 24, tm_mon = 11, tm_year = 119, tm_wday = 2,
     tm_yday = 357, tm_isdst = 0\<rparr>"

definition rtc_kernel :: file_kernel where
  "rtc_kernel = \<lparr>calls = [], answer = (\<lambda>i. if i = 0 then 3 else 0), errno_at = (\<lambda>_. 0),
     reply = (\<lambda>_. rtc_time_of rtc_example)\<rparr>"

theorem rtc_set_get_roundtrip_witness:
  "fst (ml_rtc_set_time ''/dev/rtc'' rtc_example rtc_kernel) = 0
   \<and> fst (ml_rtc_get_time ''/dev/rtc'' rtc_kernel) = (0, Some rtc_example)"
proof -
  obtain k1 where s: "ml_rtc_set_time ''/dev/rtc'' rtc_example rtc_kernel = (0, k1)"
    and i: "(F_ioctl 3 RTC_SET_TIME (rtc_time_of rtc_example), 0) \<in> set (new_calls rtc_kernel k1)"
    by (simp add: ml_rtc_set_time_def rtc_kernel_def call_eq run_call_def)
  obtain u k3 where g: "ml_rtc_get_time ''/dev/rtc'' rtc_kernel = ((0, u), k3)"
    by (simp add: ml_rtc_get_time_def rtc_kernel_def call_eq run_call_def Let_def)
  have "u = Some rtc_example"
    by (rule rtc_set_get_roundtrip [OF s i g]) (simp add: rtc_kernel_def)
  then show ?thesis using s g by simp
qed

end
