(* ===== verification/Ml_Commands.thy ===== *)
theory Ml_Commands
  imports Ml_Coredump Ml_Log_Object Ml_Ntp_Client
begin

text \<open>
  The commands of the shell (\<open>command_*\<close> of \<open>src/src/ml_shell.c\<close>), each a function of its arguments (\<open>argv\<close>,
  the name of the command first), the stream it prints to and the kernel. \<open>None\<close> is a command that does not return.
  The structures of the kernel (\<open>stat\<close>, directory entries) are the bytes it delivers, in the layout of a
  64-bit host. Formatting of times is a parameter.
\<close>

section \<open>Helpers\<close>

type_synonym command = "string list \<Rightarrow> int \<Rightarrow> file_kernel \<Rightarrow> (int \<times> file_kernel) option"

definition print_line :: "int \<Rightarrow> string \<Rightarrow> file_kernel \<Rightarrow> file_kernel" where
  "print_line fout s k = run_call (F_print fout (s @ newline)) k"

text \<open>The usual end of a command: the usage is printed when the result is not 0.\<close>

definition usage_unless_ok :: "int \<Rightarrow> string \<Rightarrow> int \<times> file_kernel \<Rightarrow> (int \<times> file_kernel) option" where
  "usage_unless_ok fout usage r = (case r of (res, k) \<Rightarrow> Some (res, if res \<noteq> 0 then print_line fout usage k else k))"

text \<open>A system call whose failure is reported as \<open>-errno\<close>.\<close>

definition call_errno :: "file_call \<Rightarrow> file_kernel \<Rightarrow> int \<times> file_kernel" where
  "call_errno c k = (let (res, k) = call c k in (if res \<noteq> 0 then - errno k else res, k))"

section \<open>The process and the system\<close>

definition command_exit :: command where
  "command_exit argv fout k = Some (0, k)"

text \<open>\<open>abort\<close> and the write to address 0 end the process.\<close>

definition command_suicide :: command where
  "command_suicide argv fout k =
     (if length argv = 2 \<and> (strcmp (argv ! 1) ''abort'' = 0 \<or> strcmp (argv ! 1) ''segfault'' = 0) then None
      else Some (- EINVAL, print_line fout ''Usage: suicide {abort,segfault}'' k))"

definition RB_AUTOBOOT :: nat where "RB_AUTOBOOT = 0x01234567"
definition RB_HALT_SYSTEM :: nat where "RB_HALT_SYSTEM = 0xcdef0123"
definition RB_POWER_OFF :: nat where "RB_POWER_OFF = 0x4321fedc"

definition command_reboot :: command where
  "command_reboot argv fout k = Some (call (F_reboot RB_AUTOBOOT) k)"

definition command_halt :: command where
  "command_halt argv fout k = Some (call (F_reboot RB_HALT_SYSTEM) k)"

definition command_poweroff :: command where
  "command_poweroff argv fout k = Some (call (F_reboot RB_POWER_OFF) k)"

definition command_insmod :: command where
  "command_insmod argv fout k =
     usage_unless_ok fout ''Usage: insmod <file> [<params>]''
       (if length argv = 2 then ml_insert_module (argv ! 1) [] k
        else if length argv = 3 then ml_insert_module (argv ! 1) (argv ! 2) k
        else (- EINVAL, k))"

definition command_rmmod :: command where
  "command_rmmod argv fout k =
     usage_unless_ok fout ''Usage: rmmod <module> [<flags>]''
       (if length argv = 2 then ml_remove_module (argv ! 1) 0 k
        else if length argv = 3 then ml_remove_module (argv ! 1) (atoi (argv ! 2)) k
        else (- EINVAL, k))"

definition command_sync :: command where
  "command_sync argv fout k = Some (0, run_call F_sync k)"

text \<open>\<open>asctime\<close> is \<open>asctime_r\<close> after \<open>gmtime_r\<close>, \<open>None\<close> when that fails.\<close>

definition command_date :: "(int \<Rightarrow> string option) \<Rightarrow> command" where
  "command_date asctime argv fout k =
     (if length argv = 1
      then let (now, k) = call F_time k
           in if now \<noteq> - 1
              then case asctime now of
                     Some s \<Rightarrow> Some (0, run_call (F_print fout s) k)
                   | None \<Rightarrow> Some (- EGENERAL, k)
              else Some (- EINVAL, k)
      else if length argv = 2
      then let (res, k) = call (F_clock_settime (atoi (argv ! 1))) k
           in Some (if res = - 1 then - errno k else res, k)
      else Some (- EINVAL, print_line fout ''Usage: date [<unix-time>]'' k))"

text \<open>\<open>%3u\<close> and \<open>%-3d\<close>.\<close>

definition load_text :: "u32 \<times> u32 \<times> u32 \<Rightarrow> string" where
  "load_text l = (case l of (u, s, i) \<Rightarrow>
     pad_left 3 CHR '' '' (show_nat (unat u)) @ ''%    '' @ pad_left 3 CHR '' '' (show_nat (unat s)) @ ''%  ''
     @ pad_left 3 CHR '' '' (show_nat (unat i)) @ ''%'')"

fun print_loads :: "int \<Rightarrow> nat \<Rightarrow> (u32 \<times> u32 \<times> u32) list \<Rightarrow> file_kernel \<Rightarrow> file_kernel" where
  "print_loads fout i [] k = k"
| "print_loads fout i (l # ls) k =
     print_loads fout (i + 1) ls (print_line fout (pad_right 3 (show_nat i) @ ''  '' @ load_text l) k)"

definition command_top :: "cpu_stats \<Rightarrow> command" where
  "command_top garbage argv fout k =
     (if length argv \<noteq> 1 then Some (- EINVAL, print_line fout ''Usage: top'' k)
      else case ml_get_cpus_stats garbage 16 k of
             (None, k) \<Rightarrow> None
           | (Some (len, stats), k) \<Rightarrow>
               if len \<le> 0 then Some (len, k)
               else let k = print_line fout ''CPU  USER  SYSTEM  IDLE'' k;
                        k = print_line fout (''all  '' @ load_text (stats ! 0)) k
                    in Some (0, print_loads fout 1 (tl stats) k))"

section \<open>Directories\<close>

definition command_mkdir :: command where
  "command_mkdir argv fout k =
     usage_unless_ok fout ''Usage: mkdir <dir>''
       (if length argv = 2 then call_errno (F_mkdir (argv ! 1)) k else (- EINVAL, k))"

text \<open>\<open>makedev\<close> of the C library.\<close>

definition makedev :: "int \<Rightarrow> int \<Rightarrow> u64" where
  "makedev maj mnr =
     (let a = ucast (word_of_int maj :: u32); b = ucast (word_of_int mnr :: u32)
      in push_bit 32 (a AND 0xfffff000) OR push_bit 8 (a AND 0xfff) OR push_bit 12 (b AND 0xffffff00) OR (b AND 0xff))"

definition MODE_0666 :: nat where "MODE_0666 = 438"

definition command_mknod :: command where
  "command_mknod argv fout k =
     usage_unless_ok fout ''Usage: mknod <path> <type> [<major>] [<minor>]''
       (if length argv = 3
        then if strcmp (argv ! 2) ''p'' = 0 then call (F_mknod (argv ! 1) (S_IFIFO + MODE_0666) 0) k
             else (- EINVAL, k)
        else if length argv = 5
        then let dev = makedev (atoi (argv ! 3)) (atoi (argv ! 4))
             in if strcmp (argv ! 2) ''c'' = 0 then call (F_mknod (argv ! 1) (S_IFCHR + MODE_0666) dev) k
                else if strcmp (argv ! 2) ''b'' = 0 then call (F_mknod (argv ! 1) (S_IFBLK + MODE_0666) dev) k
                else (- EINVAL, k)
        else (- EINVAL, k))"

text \<open>No options are NULL in the code and the empty string here.\<close>

definition command_mount :: command where
  "command_mount argv fout k =
     usage_unless_ok fout ''Usage: mount [<device> <dir> <type> [<options>]]''
       (if length argv = 4 then ml_mount (argv ! 1) (argv ! 2) (argv ! 3) 0 [] k
        else if length argv = 5 then ml_mount (argv ! 1) (argv ! 2) (argv ! 3) 0 (argv ! 4) k
        else (- EINVAL, k))"

definition command_umount :: command where
  "command_umount argv fout k =
     usage_unless_ok fout ''Usage: umount <dir>''
       (if length argv = 2 then call_errno (F_umount (argv ! 1)) k else (- EINVAL, k))"

definition command_df :: command where
  "command_df argv fout k = ml_print_file_systems_space_usage fout k"

text \<open>The entries \<open>nftw\<close> visits and whether each is a directory are a parameter.\<close>

fun print_infos :: "int \<Rightarrow> (string \<times> bool) list \<Rightarrow> file_kernel \<Rightarrow> file_kernel" where
  "print_infos fout [] k = k"
| "print_infos fout ((path, dir) # es) k =
     print_infos fout es (print_line fout (if dir then path @ ''/'' else path) k)"

definition command_find :: "(string \<Rightarrow> (string \<times> bool) list) \<Rightarrow> command" where
  "command_find visited argv fout k =
     usage_unless_ok fout ''Usage: find [<path>]''
       (if length argv = 1 \<or> length argv = 2
        then let path = (if length argv = 1 then ''.'' else argv ! 1);
                 (res, k) = call (F_nftw path) k
             in (res, print_infos fout (visited path) k)
        else (- EINVAL, k))"

text \<open>\<open>readdir\<close> answers -1 for NULL and delivers the name.\<close>

partial_function (option) ls_loop :: "int \<Rightarrow> int \<Rightarrow> string \<Rightarrow> file_kernel \<Rightarrow> file_kernel option" where
  "ls_loop dir_p fout delim k =
     (let (ent, k) = call (F_readdir dir_p) k
      in if ent = - 1 then Some k
         else
           let d_name = str_at (delivered k) 0
           in if strcmp d_name ''.'' = 0 \<or> strcmp d_name ''..'' = 0 then ls_loop dir_p fout delim k
              else ls_loop dir_p fout '' '' (run_call (F_print fout (delim @ d_name)) k))"

declare ls_loop.simps [code]

definition directory_argument :: "string list \<Rightarrow> string" where
  "directory_argument argv = (if length argv = 2 then argv ! 1 else ''.'')"

definition command_ls :: command where
  "command_ls argv fout k =
     (let (dir_p, k) = call (F_opendir (directory_argument argv)) k
      in if dir_p \<noteq> - 1
         then map_option (\<lambda>k. (0, run_call (F_closedir dir_p) (print_line fout [] k))) (ls_loop dir_p fout [] k)
         else Some (- errno k, k))"

text \<open>\<open>major\<close> and \<open>minor\<close> of the C library.\<close>

definition major :: "u64 \<Rightarrow> u32" where
  "major dev = ucast (drop_bit 8 dev AND 0xfff) OR ucast (drop_bit 32 dev AND 0xfffff000)"

definition minor :: "u64 \<Rightarrow> u32" where
  "minor dev = ucast (dev AND 0xff) OR ucast (drop_bit 12 dev AND 0xffffff00)"

text \<open>
  A line of \<open>ll\<close> from the name and a \<open>struct stat\<close>: the mode at 24, the device at 40, the size at 48, the time of the last change
  at 88. \<open>date\<close> formats the time.
\<close>

definition ll_line :: "(u64 \<Rightarrow> string) \<Rightarrow> string \<Rightarrow> bytes \<Rightarrow> string" where
  "ll_line date d_name statbuf =
     (let kind = unat (get32 statbuf 24) AND S_IFMT; rdev = get64 statbuf 40
      in (if kind = S_IFCHR then ''c '' else if kind = S_IFBLK then ''b ''
          else if kind = S_IFDIR then ''d '' else ''- '')
         @ (if kind = S_IFCHR \<or> kind = S_IFBLK
            then pad_left 3 CHR '' '' (show_int (sint (major rdev))) @ '', ''
                 @ pad_left 3 CHR '' '' (show_int (sint (minor rdev))) @ '' ''
            else [])
         @ date (get64 statbuf 88)
         @ pad_left 8 CHR '' '' (show_nat (unat (get64 statbuf 48))) @ '' ''
         @ d_name @ (if kind = S_IFDIR then ''/'' else []))"

partial_function (option) ll_loop ::
  "(u64 \<Rightarrow> string) \<Rightarrow> int \<Rightarrow> int \<Rightarrow> string \<Rightarrow> int \<Rightarrow> file_kernel \<Rightarrow> (int \<times> file_kernel) option" where
  "ll_loop date dir_p fout path res k =
     (let (ent, k) = call (F_readdir dir_p) k
      in if ent = - 1 then Some (res, k)
         else
           let d_name = str_at (delivered k) 0;
               (res, k) = call (F_lstat (take 511 (path @ ''/'' @ d_name))) k
           in if res \<noteq> 0 then Some (- errno k, k)
              else ll_loop date dir_p fout path res (print_line fout (ll_line date d_name (delivered k)) k))"

declare ll_loop.simps [code]

definition command_ll :: "(u64 \<Rightarrow> string) \<Rightarrow> command" where
  "command_ll date argv fout k =
     (let path = directory_argument argv; (dir_p, k) = call (F_opendir path) k
      in if dir_p \<noteq> - 1
         then map_option (\<lambda>(res, k). (res, run_call (F_closedir dir_p) k)) (ll_loop date dir_p fout path (- EINVAL) k)
         else Some (- errno k, k))"

section \<open>Files\<close>

partial_function (option) cat_loop :: "int \<Rightarrow> int \<Rightarrow> file_kernel \<Rightarrow> (int \<times> file_kernel) option" where
  "cat_loop file_p fout k =
     (let (sz, k) = call (F_fread file_p 256) k
      in if sz > 0
         then let (n, k) = call (F_fwrite fout (received sz k)) k
              in if n \<noteq> sz then Some (- errno k, k) else cat_loop file_p fout k
         else Some (0, k))"

declare cat_loop.simps [code]

definition command_cat :: command where
  "command_cat argv fout k =
     (if length argv \<noteq> 2 then Some (- EINVAL, print_line fout ''Usage: cat <file>'' k)
      else let (file_p, k) = call (F_fopen (argv ! 1) ''rb'') k
           in if file_p \<noteq> - 1
              then map_option (\<lambda>(res, k). (res, run_call (F_fclose file_p) k)) (cat_loop file_p fout k)
              else Some (- errno k, k))"

text \<open>The arguments after the first.\<close>

fun rm_loop :: "string list \<Rightarrow> int \<Rightarrow> file_kernel \<Rightarrow> int \<times> file_kernel" where
  "rm_loop [] res k = (res, k)"
| "rm_loop (path # paths) res k =
     (let (res, k) = call (F_remove path) k
      in if res \<noteq> 0 then (- errno k, k) else rm_loop paths res k)"

definition command_rm :: command where
  "command_rm argv fout k =
     (if length argv < 2 then Some (- EINVAL, print_line fout ''Usage: rm <file or directory> [<file or directory> ...]'' k)
      else Some (rm_loop (tl argv) 0 k))"

text \<open>The file is the bytes the kernel delivers when the stream is positioned.\<close>

definition hexdump_of :: "string \<Rightarrow> nat \<Rightarrow> int \<Rightarrow> int \<Rightarrow> file_kernel \<Rightarrow> int \<times> file_kernel" where
  "hexdump_of name offset sz fout k =
     (let (file_p, k) = call (F_fopen name ''rb'') k
      in if file_p \<noteq> - 1
         then let (r, k) = call (F_fseek file_p offset) k;
                  (res, t) = ml_hexdump_file (r = 0) (delivered k) offset sz
              in (res, run_call (F_fclose file_p) (run_call (F_print fout t) k))
         else (- errno k, k))"

definition command_hexdump :: command where
  "command_hexdump argv fout k =
     usage_unless_ok fout ''Usage: hexdump [[<offset>] <size>] <file>''
       (if length argv = 2 then hexdump_of (argv ! 1) 0 (- 1) fout k
        else if length argv = 3
        then let sz = atoi (argv ! 1) in if sz \<ge> 0 then hexdump_of (argv ! 2) 0 sz fout k else (- EINVAL, k)
        else if length argv = 4
        then let offset = atoi (argv ! 1); sz = atoi (argv ! 2)
             in if offset \<ge> 0 \<and> sz \<ge> 0 then hexdump_of (argv ! 3) (nat offset) sz fout k else (- EINVAL, k)
        else (- EINVAL, k))"

definition command_print :: command where
  "command_print argv fout k =
     (if length argv \<noteq> 3 then Some (- EINVAL, print_line fout ''Usage: print <text> <file>'' k)
      else let (file_p, k) = call (F_fopen (argv ! 2) ''w'') k
           in if file_p \<noteq> - 1
              then let (res, k) = call (F_fwrite file_p (bytes_of_text (argv ! 1))) k;
                       (res, k) = (if res = int (length (argv ! 1))
                                   then let (n, k) = call (F_fwrite file_p (bytes_of_text newline)) k
                                        in (if n = 1 then 0 else - errno k, k)
                                   else (- errno k, k))
                   in Some (res, run_call (F_fclose file_p) k)
              else Some (- errno k, k))"

partial_function (option) dmesg_loop :: "int \<Rightarrow> int \<Rightarrow> bytes \<Rightarrow> file_kernel \<Rightarrow> file_kernel option" where
  "dmesg_loop fd fout message k =
     (let (sz, k) = call (F_read fd 1023) k
      in if sz \<le> 0 then Some k
         else
           let bs = received sz k; message = (bs @ drop (length bs) message)[nat sz := 0]
           in case ml_print_kernel_message message fout k of
                None \<Rightarrow> None
              | Some (message, k) \<Rightarrow> dmesg_loop fd fout message k)"

declare dmesg_loop.simps [code]

text \<open>\<open>message\<close> is the array of 1024 bytes on the stack.\<close>

definition command_dmesg :: "bytes \<Rightarrow> command" where
  "command_dmesg message argv fout k =
     (if length argv \<noteq> 1 then Some (- EINVAL, print_line fout ''Usage: dmesg'' k)
      else let (fd, k) = call (F_open ''/dev/kmsg'') k
           in if fd = - 1 then Some (- errno k, k)
              else map_option (\<lambda>k. (0, run_call (F_close fd) k)) (dmesg_loop fd fout message k))"

section \<open>The I2C bus\<close>

definition I2C_SLAVE :: nat where "I2C_SLAVE = 0x0703"

text \<open>\<open>0x%02lx\<close>; the loop is over the addresses from \<open>address\<close> on.\<close>

fun i2c_scan_loop :: "int \<Rightarrow> int \<Rightarrow> nat \<Rightarrow> nat \<Rightarrow> nat \<Rightarrow> file_kernel \<Rightarrow> nat \<times> file_kernel" where
  "i2c_scan_loop fd fout address 0 found k = (found, k)"
| "i2c_scan_loop fd fout address (Suc n) found k =
     (let (res, k) = call (F_ioctl fd I2C_SLAVE [of_nat address]) k
      in if res < 0
         then i2c_scan_loop fd fout (address + 1) n found
                (print_line fout (''Failed to set address 0x'' @ hex_padded 2 address @ ''.'') k)
         else
           let (res, k) = call (F_read fd 1) k
           in if res \<noteq> 1 then i2c_scan_loop fd fout (address + 1) n found k
              else i2c_scan_loop fd fout (address + 1) n (found + 1)
                     (print_line fout (''Found device with address 0x'' @ hex_padded 2 address @ ''.'') k))"

definition command_i2c_scan :: "string list \<Rightarrow> int \<Rightarrow> file_kernel \<Rightarrow> int \<times> file_kernel" where
  "command_i2c_scan argv fout k =
     (if length argv \<noteq> 3 then (- EINVAL, k)
      else let (fd, k) = call (F_open (argv ! 2)) k
           in if fd < 0 then (- errno k, k)
              else let (found, k) = i2c_scan_loop fd fout 0 128 0 k;
                       k = run_call (F_close fd) k
                   in (0, if found = 0 then print_line fout ''No devices found.'' k else k))"

definition command_i2c :: command where
  "command_i2c argv fout k =
     usage_unless_ok fout ''Usage: i2c scan <device>''
       (if length argv \<ge> 2
        then if strcmp (argv ! 1) ''scan'' = 0 then command_i2c_scan argv fout k else (- EINVAL, k)
        else (- EINVAL, k))"

section \<open>The clock\<close>

text \<open>The addresses of a server name are a parameter; the second result is what is printed.\<close>

definition command_ntp_sync :: "(string \<Rightarrow> nat list option) \<Rightarrow> string list \<Rightarrow> ntp_kernel \<Rightarrow> (int \<times> string) \<times> ntp_kernel" where
  "command_ntp_sync addresses argv k =
     (if length argv = 1 \<or> length argv = 2
      then let server = (if length argv = 1 then ''0.se.pool.ntp.org'' else argv ! 1);
               (res, k) = ml_ntp_client_sync (addresses server) k
           in ((res, []), k)
      else ((- EINVAL, ''Usage: ntp_sync [<server>]'' @ newline), k))"

section \<open>Log objects\<close>

text \<open>
  A message typed as the format of a log line: \<open>%%\<close> is a percent sign, any other conversion reads an
  argument that is not there.
\<close>

fun format_without_arguments :: "string \<Rightarrow> string res" where
  "format_without_arguments (c # d # s) =
     (if c = CHR ''%'' then if d = CHR ''%'' then andthen (format_without_arguments s) (\<lambda>t. Inr (CHR ''%'' # t)) else Inl OutOfBounds
      else andthen (format_without_arguments (d # s)) (\<lambda>t. Inr (c # t)))"
| "format_without_arguments [c] = (if c = CHR ''%'' then Inl OutOfBounds else Inr [c])"
| "format_without_arguments [] = Inr []"

text \<open>\<open>%-16s\<close>; the list may be cyclic.\<close>

partial_function (option) log_list_loop :: "log_module \<Rightarrow> nat option \<Rightarrow> string \<Rightarrow> string option" where
  "log_list_loop m p out =
     (case ml_log_object_list_next m p of
        None \<Rightarrow> Some out
      | Some a \<Rightarrow>
          log_list_loop m (Some a)
            (out @ pad_right 16 (obj_name (objects m a)) @ ''  ''
               @ ml_log_object_level_to_string (obj_level (objects m a)) @ newline))"

declare log_list_loop.simps [code]

definition command_log_list :: "string list \<Rightarrow> log_module \<Rightarrow> (int \<times> string) option" where
  "command_log_list argv m =
     (if length argv \<noteq> 2 then Some (- EINVAL, [])
      else map_option (\<lambda>out. (0, out)) (log_list_loop m None (''OBJECT-NAME       LEVEL'' @ newline)))"

definition command_log_set_level :: "string list \<Rightarrow> log_module \<Rightarrow> (int \<times> log_module) option" where
  "command_log_set_level argv m =
     (if length argv \<noteq> 4 then Some (- EINVAL, m)
      else case ml_log_object_get_by_name m (argv ! 2) of
             None \<Rightarrow> None
           | Some None \<Rightarrow> Some (- EINVAL, m)
           | Some (Some a) \<Rightarrow>
               let level = ml_log_object_level_from_string (argv ! 3)
               in if level = - 1 then Some (- EINVAL, m) else Some (0, ml_log_object_set_level m a level))"

text \<open>\<open>open_ok\<close> says whether the level file opens; the second result is its new contents.\<close>

definition command_log_store :: "bool \<Rightarrow> string list \<Rightarrow> log_module \<Rightarrow> (int \<times> string option) option" where
  "command_log_store open_ok argv m =
     (if length argv \<noteq> 2 then Some (- EINVAL, None) else ml_log_object_store m open_ok)"

text \<open>The default log object is the one at \<open>object\<close>, \<open>now\<close> the time stamp. A log line that cannot be printed is \<open>None\<close>.\<close>

definition command_log_print :: "nat \<Rightarrow> string \<Rightarrow> string list \<Rightarrow> log_module \<Rightarrow> (int \<times> log_module) option" where
  "command_log_print object now argv m =
     (let (level, message) =
        (if length argv = 3 then (6, argv ! 2)
         else if length argv = 4 then (ml_log_object_level_from_string (argv ! 2), argv ! 3)
         else (- 1, []))
      in if level = - 1 then Some (- EINVAL, m)
         else if level > obj_level (objects m object) then Some (0, m)
         else case andthen (format_without_arguments message) (ml_log_object_vprint m object level now) of
                Inl e \<Rightarrow> None
              | Inr m \<Rightarrow> Some (0, m))"

definition command_log_show :: "bytes \<Rightarrow> command" where
  "command_log_show message argv fout k =
     (if length argv \<noteq> 2 then Some (- EINVAL, k) else command_dmesg message [hd argv] fout k)"

text \<open>The log objects, what was stored in the level file last, and the kernel.\<close>

record log_system =
  ls_module :: log_module
  ls_stored :: "string option"
  ls_kernel :: file_kernel

definition log_usage :: string where
  "log_usage =
     ''Usage: log show'' @ newline @ ''       log list'' @ newline @ ''       log set_level <log-object> <mask>'' @ newline
     @ ''       log store'' @ newline @ ''       log print <message>'' @ newline @ ''       log print <level> <message>'' @ newline"

definition command_log :: "bool \<Rightarrow> nat \<Rightarrow> string \<Rightarrow> bytes \<Rightarrow> string list \<Rightarrow> int \<Rightarrow> log_system \<Rightarrow> (int \<times> log_system) option" where
  "command_log open_ok object now message argv fout s =
     map_option (\<lambda>(res, s). (res, if res \<noteq> 0 then s\<lparr>ls_kernel := run_call (F_print fout log_usage) (ls_kernel s)\<rparr> else s))
       (if length argv \<ge> 2
        then if strcmp (argv ! 1) ''list'' = 0
          then map_option (\<lambda>(res, out). (res, if res = 0 then s\<lparr>ls_kernel := run_call (F_print fout out) (ls_kernel s)\<rparr> else s))
                 (command_log_list argv (ls_module s))
          else if strcmp (argv ! 1) ''set_level'' = 0
          then map_option (\<lambda>(res, m). (res, s\<lparr>ls_module := m\<rparr>)) (command_log_set_level argv (ls_module s))
          else if strcmp (argv ! 1) ''store'' = 0
          then map_option (\<lambda>(res, f). (res, if f = None then s else s\<lparr>ls_stored := f\<rparr>))
                 (command_log_store open_ok argv (ls_module s))
          else if strcmp (argv ! 1) ''print'' = 0
          then map_option (\<lambda>(res, m). (res, s\<lparr>ls_module := m\<rparr>)) (command_log_print object now argv (ls_module s))
          else if strcmp (argv ! 1) ''show'' = 0
          then map_option (\<lambda>(res, k). (res, s\<lparr>ls_kernel := k\<rparr>)) (command_log_show message argv fout (ls_kernel s))
          else Some (- EINVAL, s)
        else Some (- EINVAL, s))"

section \<open>Block copy\<close>

text \<open>
  The files are the parameters of \<open>ml_dd\<close>, and \<open>summary\<close> is what \<open>command_dd_summary\<close> prints, which
  \<open>Ml_Dd_Summary\<close> models. A size is an \<open>int\<close> converted to \<open>size_t\<close>.
\<close>

definition size_of_int :: "int \<Rightarrow> nat" where
  "size_of_int i = nat (i mod 2 ^ 64)"

definition command_dd :: "(nat \<Rightarrow> int option) \<Rightarrow> int option \<Rightarrow> int option \<Rightarrow> int option \<Rightarrow> bytes \<Rightarrow> (nat \<Rightarrow> string)
    \<Rightarrow> string list \<Rightarrow> (int \<times> string \<times> bytes) option" where
  "command_dd fails open_in open_out malloc_err infile summary argv =
     (if length argv \<noteq> 5
      then Some (- EINVAL, ''Usage: dd <infile> <outfile> <total-size> <chunk-size>'' @ newline, [])
      else
        let total_size = size_of_int (atoi (argv ! 3)); chunk_size = size_of_int (atoi (argv ! 4))
        in case ml_dd fails open_in open_out malloc_err infile total_size chunk_size of
             None \<Rightarrow> None
           | Some (res, s) \<Rightarrow> Some (res, if res \<noteq> 0 then [] else summary total_size, dd_out s))"

section \<open>What the commands leave open\<close>

text \<open>The calls from \<open>k\<close> to \<open>k'\<close> leave open what was open.\<close>

definition clean :: "file_kernel \<Rightarrow> file_kernel \<Rightarrow> bool" where
  "clean k k' \<longleftrightarrow> (\<exists>cs. k' = k\<lparr>calls := calls k @ cs\<rparr> \<and> (\<forall>h fds. left_open h fds cs = fds))"

lemma clean_calm: "calm k k' \<Longrightarrow> clean k k'"
  unfolding clean_def calm_def by blast

lemma clean_trans:
  assumes "clean k k1" and "clean k1 k2"
  shows "clean k k2"
proof -
  obtain c1 where "k1 = k\<lparr>calls := calls k @ c1\<rparr>" "\<forall>h fds. left_open h fds c1 = fds"
    using assms(1) unfolding clean_def by blast
  moreover obtain c2 where "k2 = k1\<lparr>calls := calls k1 @ c2\<rparr>" "\<forall>h fds. left_open h fds c2 = fds"
    using assms(2) unfolding clean_def by blast
  ultimately show ?thesis unfolding clean_def by (intro exI [of _ "c1 @ c2"]) simp
qed

lemma clean_left_open: "clean k k' \<Longrightarrow> left_open h fds (new_calls k k') = fds"
  by (auto simp: clean_def)

lemma calm_print_line: "calm k (print_line fout s k)"
  unfolding print_line_def by (rule calm_run) simp

lemma clean_usage:
  assumes "usage_unless_ok fout usage r = Some (res, k')" and "clean k (snd r)"
  shows "clean k k'"
  using assms clean_trans [OF assms(2) clean_calm [OF calm_print_line]]
  by (auto simp: usage_unless_ok_def split: prod.splits if_splits)

lemma calm_loads: "calm k (print_loads fout i ls k)"
proof (induction ls arbitrary: i k)
  case (Cons l ls)
  show ?case
    using calm_trans [OF calm_print_line Cons.IH] by simp
qed simp

lemma calm_infos: "calm k (print_infos fout es k)"
proof (induction es arbitrary: k)
  case (Cons e es)
  show ?case
    using calm_trans [OF calm_print_line Cons.IH] by (cases e) simp
qed simp

lemma calm_rm: "calm k (snd (rm_loop paths res k))"
proof (induction paths arbitrary: res k)
  case (Cons p ps)
  obtain r k1 where c: "call (F_remove p) k = (r, k1)" by (cases "call (F_remove p) k")
  have q: "calm k k1" by (rule calm_call [OF _ c]) simp
  show ?case using c q calm_trans [OF q Cons.IH] by simp
qed simp

lemma calm_i2c: "calm k (snd (i2c_scan_loop fd fout a n found k))"
proof (induction n arbitrary: a found k)
  case (Suc n)
  obtain r k1 where c1: "call (F_ioctl fd I2C_SLAVE [of_nat a]) k = (r, k1)"
    by (cases "call (F_ioctl fd I2C_SLAVE [of_nat a]) k")
  obtain s k2 where c2: "call (F_read fd 1) k1 = (s, k2)" by (cases "call (F_read fd 1) k1")
  have q1: "calm k k1" by (rule calm_call [OF _ c1]) simp
  have q2: "calm k k2" by (rule calm_trans [OF q1 calm_call [OF _ c2]]) simp
  show ?case
    using c1 c2 calm_trans [OF q2 Suc.IH] calm_trans [OF calm_trans [OF q2 calm_print_line] Suc.IH]
      calm_trans [OF calm_trans [OF q1 calm_print_line] Suc.IH]
    by simp
qed simp

lemma calm_cat_loop:
  assumes "cat_loop f fout k = Some r"
  shows "calm k (snd r)"
proof (rule cat_loop.raw_induct [where P = "\<lambda>f fout k r. calm k (snd r)", OF _ assms])
  fix loop f fout k r
  assume ih: "\<And>f fout k r. loop f fout k = Some r \<Longrightarrow> calm k (snd r)"
    and "(let (sz, k) = call (F_fread f 256) k
      in if sz > 0
         then let (n, k) = call (F_fwrite fout (received sz k)) k
              in if n \<noteq> sz then Some (- errno k, k) else loop f fout k
         else Some (0, k)) = Some r"
  then show "calm k (snd r)"
    by (auto simp: Let_def split: prod.splits if_splits
        dest!: calm_call [OF plain_calls(1)] calm_call [OF plain_calls(3)] ih intro: calm_trans)
qed

lemma calm_ls_loop:
  assumes "ls_loop d fout delim k = Some k'"
  shows "calm k k'"
proof (rule ls_loop.raw_induct [where P = "\<lambda>d fout delim. calm", OF _ assms])
  fix loop d fout delim k k'
  assume ih: "\<And>d fout delim k k'. loop d fout delim k = Some k' \<Longrightarrow> calm k k'"
    and body: "(let (ent, k) = call (F_readdir d) k
      in if ent = - 1 then Some k
         else
           let d_name = str_at (delivered k) 0
           in if strcmp d_name ''.'' = 0 \<or> strcmp d_name ''..'' = 0 then loop d fout delim k
              else loop d fout '' '' (run_call (F_print fout (delim @ d_name)) k)) = Some k'"
  obtain ent k1 where c: "call (F_readdir d) k = (ent, k1)" by (cases "call (F_readdir d) k")
  have q: "calm k k1" by (rule calm_call [OF _ c]) simp
  show "calm k k'" using body c q
    by (auto simp: Let_def split: if_splits dest!: ih intro: calm_trans [OF q] calm_before_run [OF plain_calls(4)])
qed

lemma calm_ll_loop:
  assumes "ll_loop date d fout path res k = Some r"
  shows "calm k (snd r)"
proof (rule ll_loop.raw_induct [where P = "\<lambda>date d fout path res k r. calm k (snd r)", OF _ assms])
  fix loop date d fout path res k r
  assume ih: "\<And>date d fout path res k r. loop date d fout path res k = Some r \<Longrightarrow> calm k (snd r)"
    and body: "(let (ent, k) = call (F_readdir d) k
      in if ent = - 1 then Some (res, k)
         else
           let d_name = str_at (delivered k) 0;
               (res, k) = call (F_lstat (take 511 (path @ ''/'' @ d_name))) k
           in if res \<noteq> 0 then Some (- errno k, k)
              else loop date d fout path res (print_line fout (ll_line date d_name (delivered k)) k)) = Some r"
  obtain ent k1 where c: "call (F_readdir d) k = (ent, k1)" by (cases "call (F_readdir d) k")
  let ?c = "F_lstat (take 511 (path @ ''/'' @ str_at (delivered k1) 0))"
  obtain s k2 where c2: "call ?c k1 = (s, k2)" by (cases "call ?c k1")
  have q: "calm k k1" by (rule calm_call [OF _ c]) simp
  have q2: "calm k k2" by (rule calm_trans [OF q calm_call [OF _ c2]]) simp
  show "calm k (snd r)" using body c c2 q q2
    by (auto simp: Let_def split: if_splits dest!: ih intro: calm_trans [OF calm_trans [OF q2 calm_print_line]])
qed

lemma calm_kernel_message:
  assumes "ml_print_kernel_message m fout k = Some (m', k')"
  shows "calm k k'"
  using assms calm_run [of "F_print fout s" k for s]
  by (auto simp: ml_print_kernel_message_def Let_def split: option.splits prod.splits)

lemma calm_dmesg_loop:
  assumes "dmesg_loop fd fout m k = Some k'"
  shows "calm k k'"
proof (rule dmesg_loop.raw_induct [where P = "\<lambda>fd fout m. calm", OF _ assms])
  fix loop fd fout m k k'
  assume ih: "\<And>fd fout m k k'. loop fd fout m k = Some k' \<Longrightarrow> calm k k'"
    and body: "(let (sz, k) = call (F_read fd 1023) k
      in if sz \<le> 0 then Some k
         else
           let bs = received sz k; message = (bs @ drop (length bs) m)[nat sz := 0]
           in case ml_print_kernel_message message fout k of
                None \<Rightarrow> None
              | Some (message, k) \<Rightarrow> loop fd fout message k) = Some k'"
  obtain sz k1 where c: "call (F_read fd 1023) k = (sz, k1)" by (cases "call (F_read fd 1023) k")
  have q: "calm k k1" by (rule calm_call [OF _ c]) simp
  show "calm k k'" using body c q
    by (auto simp: Let_def split: if_splits option.splits dest!: ih calm_kernel_message intro: calm_trans [OF q] calm_trans)
qed

lemma clean_call_errno: "plain_call c \<Longrightarrow> clean k (snd (call_errno c k))"
  using calm_call [of c k "fst (call c k)" "snd (call c k)"]
  by (auto simp: call_errno_def Let_def intro: clean_calm split: prod.splits)

lemma clean_hexdump_of: "clean k (snd (hexdump_of name offset sz fout k))"
proof -
  let ?c = "F_fopen name ''rb''"
  obtain f k1 where o: "call ?c k = (f, k1)" by (cases "call ?c k")
  obtain r k2 where s: "call (F_fseek f offset) k1 = (r, k2)" by (cases "call (F_fseek f offset) k1")
  have "calm k1 (run_call (F_print fout t) k2)" for t
    by (rule calm_then_run [OF calm_call [OF _ s]]) simp_all
  then show ?thesis
    using o s calm_not_opened [of ?c k k1] calm_session [OF o, of "run_call (F_print fout t) k2" "F_fclose f" for t]
    by (auto simp: hexdump_of_def intro!: clean_calm split: prod.splits)
qed

lemma clean_mkdir: "clean k (snd (call_errno (F_mkdir d) k))"
  unfolding clean_def
  by (intro exI [of _ "[(F_mkdir d, fst (call (F_mkdir d) k))]"]) (auto simp: call_errno_def call_eq left_open_def)

lemma clean_pair: "calm k k' \<Longrightarrow> c = (r, k') \<Longrightarrow> clean k (snd c)"
  by (simp add: clean_calm)

lemma clean_plain: "plain_call c \<Longrightarrow> clean k (snd (call c k))"
  using calm_call [of c k "fst (call c k)" "snd (call c k)"] by (simp add: clean_calm)

lemma clean_refl [simp, intro]: "clean k k"
  by (rule clean_calm) simp

lemma clean_line: "clean k k1 \<Longrightarrow> clean k (print_line fout s k1)"
  by (rule clean_trans [OF _ clean_calm [OF calm_print_line]])

lemma clean_commands_1:
  "command_exit argv fout k = Some (res, k') \<Longrightarrow> clean k k'"
  "command_suicide argv fout k = Some (res, k') \<Longrightarrow> clean k k'"
  "command_reboot argv fout k = Some (res, k') \<Longrightarrow> clean k k'"
  "command_halt argv fout k = Some (res, k') \<Longrightarrow> clean k k'"
  "command_poweroff argv fout k = Some (res, k') \<Longrightarrow> clean k k'"
  "command_sync argv fout k = Some (res, k') \<Longrightarrow> clean k k'"
  using clean_plain [of "F_reboot n" k for n] clean_calm [OF calm_run [of F_sync k]]
  by (auto simp: command_exit_def command_suicide_def command_reboot_def command_halt_def command_poweroff_def
      command_sync_def intro: clean_line split: if_splits) (metis plain_calls snd_conv)+

lemma clean_commands_2:
  "command_insmod argv fout k = Some (res, k') \<Longrightarrow> clean k k'"
  "command_rmmod argv fout k = Some (res, k') \<Longrightarrow> clean k k'"
  "command_mkdir argv fout k = Some (res, k') \<Longrightarrow> clean k k'"
  "command_mknod argv fout k = Some (res, k') \<Longrightarrow> clean k k'"
  "command_mount argv fout k = Some (res, k') \<Longrightarrow> clean k k'"
  "command_umount argv fout k = Some (res, k') \<Longrightarrow> clean k k'"
proof -
  have ins: "clean k (snd (ml_insert_module p q k))" for p q
    using calm_insert_module [of p q k] by (metis surjective_pairing clean_calm)
  show "command_insmod argv fout k = Some (res, k') \<Longrightarrow> clean k k'"
    unfolding command_insmod_def by (erule clean_usage) (simp add: ins)
  show "command_rmmod argv fout k = Some (res, k') \<Longrightarrow> clean k k'"
    unfolding command_rmmod_def by (erule clean_usage) (simp add: clean_plain ml_remove_module_def)
  show "command_mkdir argv fout k = Some (res, k') \<Longrightarrow> clean k k'"
    unfolding command_mkdir_def by (erule clean_usage) (simp add: clean_mkdir)
  show "command_mknod argv fout k = Some (res, k') \<Longrightarrow> clean k k'"
    unfolding command_mknod_def by (erule clean_usage) (simp add: clean_plain Let_def)
  show "command_mount argv fout k = Some (res, k') \<Longrightarrow> clean k k'"
    unfolding command_mount_def by (erule clean_usage) (simp add: clean_plain ml_mount_def)
  show "command_umount argv fout k = Some (res, k') \<Longrightarrow> clean k k'"
    unfolding command_umount_def by (erule clean_usage) (simp add: clean_call_errno)
qed

lemma clean_find:
  assumes "command_find visited argv fout k = Some (res, k')"
  shows "clean k k'"
proof -
  have f: "clean k (print_infos fout es k1)" if "call (F_nftw p) k = (r, k1)" for p r k1 es
    using calm_trans [OF calm_call [OF _ that] calm_infos] by (simp add: clean_calm)
  show ?thesis
    by (rule clean_usage [OF assms [unfolded command_find_def]]) (auto simp: Let_def f split: prod.splits)
qed

lemma clean_hexdump:
  assumes "command_hexdump argv fout k = Some (res, k')"
  shows "clean k k'"
  by (rule clean_usage [OF assms [unfolded command_hexdump_def]]) (simp add: clean_hexdump_of Let_def)

lemma clean_i2c:
  assumes "command_i2c argv fout k = Some (res, k')" and "\<And>i. - 1 \<le> answer k i"
  shows "clean k k'"
proof -
  have "clean k (snd (command_i2c_scan argv fout k))"
  proof -
    let ?c = "F_open (argv ! 2)"
    obtain f k1 where o: "call ?c k = (f, k1)" by (cases "call ?c k")
    obtain n k2 where l: "i2c_scan_loop f fout 0 128 0 k1 = (n, k2)" by (cases "i2c_scan_loop f fout 0 128 0 k1")
    have q: "calm k1 k2" using calm_i2c [of k1 f fout 0 128 0] l by simp
    show ?thesis
    proof (cases "f = - 1")
      case True
      then have "calm k k1" using o calm_not_opened [of ?c k k1] by simp
      then show ?thesis using o True by (simp add: command_i2c_scan_def clean_calm)
    next
      case f: False
      then have s: "calm k (run_call (F_close f) k2)" by (intro calm_session [OF o _ q]) simp_all
      show ?thesis
      proof (cases "f < 0")
        case True
        then show ?thesis using o f assms(2) [of "length (calls k)"] by (simp add: call_eq)
      next
        case False
        then show ?thesis using o l s by (simp add: command_i2c_scan_def Let_def clean_line clean_calm)
      qed
    qed
  qed
  then show ?thesis
    by (intro clean_usage [OF assms(1) [unfolded command_i2c_def]]) simp
qed

lemma clean_date:
  assumes "command_date asctime argv fout k = Some (res, k')"
  shows "clean k k'"
proof -
  have a: "calm k k1" if "call F_time k = (r, k1)" for r k1 by (rule calm_call [OF _ that]) simp
  have b: "calm k k1" if "call (F_clock_settime i) k = (r, k1)" for i r k1 by (rule calm_call [OF _ that]) simp
  show ?thesis
    using assms a b calm_then_run [OF a plain_calls(4)]
    by (auto simp: command_date_def Let_def intro!: clean_line intro: clean_calm split: if_splits prod.splits option.splits)
qed

lemma clean_top:
  assumes "command_top garbage argv fout k = Some (res, k')"
  shows "clean k k'"
proof (cases "length argv = 1")
  case True
  obtain r k1 where g: "ml_get_cpus_stats garbage 16 k = (r, k1)" by (cases "ml_get_cpus_stats garbage 16 k")
  have q: "calm k k1" by (rule calm_get_cpus_stats [OF g])
  have "calm k (print_loads fout i ls (print_line fout a (print_line fout b k1)))" for i ls a b
    by (rule calm_trans [OF calm_trans [OF calm_trans [OF q calm_print_line] calm_print_line] calm_loads])
  then show ?thesis
    using assms True g q by (auto simp: command_top_def Let_def clean_calm split: option.splits if_splits)
next
  case False
  then show ?thesis using assms by (auto simp: command_top_def intro: clean_line)
qed

lemma clean_df: "command_df argv fout k = Some (res, k') \<Longrightarrow> clean k k'"
  unfolding command_df_def by (rule clean_calm [OF calm_print_file_systems])

text \<open>A command that opens one thing, works quietly and closes it.\<close>

lemma clean_session:
  assumes "call c k = (f, k1)" and "f \<noteq> - 1 \<Longrightarrow> \<exists>k2. calm k1 k2 \<and> k' = run_call d k2" and "f = - 1 \<Longrightarrow> k' = k1"
    and "\<And>h. file_closes h c = None" and "\<And>h. file_closes h d = (if file_opens h c then Some f else None)"
    and "\<And>h. \<not> file_opens h d" and "\<not> moves c" and "\<not> moves d"
  shows "clean k k'"
proof (cases "f = - 1")
  case True
  then show ?thesis using assms(1,3,4,7) calm_not_opened [of c k k1] by (simp add: clean_calm)
next
  case False
  then obtain k2 where "calm k1 k2" "k' = run_call d k2" using assms(2) by blast
  then show ?thesis using calm_session [OF assms(1) False _ assms(4-8)] by (simp add: clean_calm)
qed

lemma clean_cat:
  assumes "command_cat argv fout k = Some (res, k')"
  shows "clean k k'"
proof (cases "length argv = 2")
  case True
  obtain f k1 where o: "call (F_fopen (argv ! 1) ''rb'') k = (f, k1)" by (cases "call (F_fopen (argv ! 1) ''rb'') k")
  show ?thesis
    by (rule clean_session [OF o, where d = "F_fclose f"])
      (use assms True o calm_cat_loop in \<open>fastforce simp: command_cat_def\<close>)+
next
  case False
  then show ?thesis using assms by (auto simp: command_cat_def intro: clean_line)
qed

lemma clean_ls:
  assumes "command_ls argv fout k = Some (res, k')"
  shows "clean k k'"
proof -
  let ?c = "F_opendir (directory_argument argv)"
  obtain f k1 where o: "call ?c k = (f, k1)" by (cases "call ?c k")
  show ?thesis
    by (rule clean_session [OF o, where d = "F_closedir f"])
      (use assms o calm_ls_loop calm_trans [OF _ calm_print_line] in \<open>fastforce simp: command_ls_def\<close>)+
qed

lemma clean_ll:
  assumes "command_ll date argv fout k = Some (res, k')"
  shows "clean k k'"
proof -
  let ?c = "F_opendir (directory_argument argv)"
  obtain f k1 where o: "call ?c k = (f, k1)" by (cases "call ?c k")
  show ?thesis
    by (rule clean_session [OF o, where d = "F_closedir f"])
      (use assms o calm_ll_loop in \<open>fastforce simp: command_ll_def Let_def\<close>)+
qed

lemma clean_dmesg:
  assumes "command_dmesg message argv fout k = Some (res, k')"
  shows "clean k k'"
proof (cases "length argv = 1")
  case True
  obtain f k1 where o: "call (F_open ''/dev/kmsg'') k = (f, k1)" by (cases "call (F_open ''/dev/kmsg'') k")
  show ?thesis
    by (rule clean_session [OF o, where d = "F_close f"])
      (use assms True o calm_dmesg_loop in \<open>fastforce simp: command_dmesg_def\<close>)+
next
  case False
  then show ?thesis using assms by (auto simp: command_dmesg_def intro: clean_line)
qed

lemma clean_print:
  assumes "command_print argv fout k = Some (res, k')"
  shows "clean k k'"
proof (cases "length argv = 3")
  case True
  let ?w = "\<lambda>f s. F_fwrite f (bytes_of_text s)"
  obtain f k1 where o: "call (F_fopen (argv ! 2) ''w'') k = (f, k1)" by (cases "call (F_fopen (argv ! 2) ''w'') k")
  obtain n k2 where w: "call (?w f (argv ! 1)) k1 = (n, k2)" by (cases "call (?w f (argv ! 1)) k1")
  obtain m k3 where w2: "call (?w f newline) k2 = (m, k3)" by (cases "call (?w f newline) k2")
  have q2: "calm k1 k2" by (rule calm_call [OF _ w]) simp
  have q3: "calm k1 k3" by (rule calm_trans [OF q2 calm_call [OF _ w2]]) simp
  show ?thesis
    by (rule clean_session [OF o, where d = "F_fclose f"])
      (use assms True o w w2 q2 q3 in \<open>auto simp: command_print_def Let_def split: if_splits\<close>)
next
  case False
  then show ?thesis using assms by (auto simp: command_print_def intro: clean_line)
qed

lemma clean_rm:
  assumes "command_rm argv fout k = Some (res, k')"
  shows "clean k k'"
  using assms calm_rm [of k "tl argv" 0] by (auto simp: command_rm_def intro: clean_line clean_calm split: if_splits)

lemma clean_log_show: "command_log_show message argv fout k = Some (res, k') \<Longrightarrow> clean k k'"
  by (auto simp: command_log_show_def intro: clean_dmesg split: if_splits)

section \<open>The table of the commands\<close>

text \<open>The commands that work on the kernel, by name, with the numbers of arguments (the name included) they take.\<close>

definition kernel_commands :: "(int \<Rightarrow> string option) \<Rightarrow> (u64 \<Rightarrow> string) \<Rightarrow> (string \<Rightarrow> (string \<times> bool) list) \<Rightarrow> cpu_stats
    \<Rightarrow> bytes \<Rightarrow> (string \<times> command \<times> nat set) list" where
  "kernel_commands asctime date visited garbage message =
     [(''exit'', command_exit, UNIV), (''suicide'', command_suicide, {2}), (''ls'', command_ls, UNIV),
      (''ll'', command_ll date, UNIV), (''cat'', command_cat, {2}), (''rm'', command_rm, {2..}),
      (''hexdump'', command_hexdump, {2, 3, 4}), (''reboot'', command_reboot, UNIV), (''halt'', command_halt, UNIV),
      (''poweroff'', command_poweroff, UNIV), (''insmod'', command_insmod, {2, 3}), (''rmmod'', command_rmmod, {2, 3}),
      (''mkdir'', command_mkdir, {2}), (''mknod'', command_mknod, {3, 5}), (''mount'', command_mount, {4, 5}),
      (''umount'', command_umount, {2}), (''df'', command_df, UNIV), (''find'', command_find visited, {1, 2}),
      (''date'', command_date asctime, {1, 2}), (''print'', command_print, {3}), (''dmesg'', command_dmesg message, {1}),
      (''sync'', command_sync, UNIV), (''top'', command_top garbage, {1}), (''i2c'', command_i2c, {3})]"

lemma print_line_call: "\<exists>r. print_line fout s k = k\<lparr>calls := calls k @ [(F_print fout (s @ newline), r)]\<rparr>"
  unfolding print_line_def run_call_def call_eq snd_conv by (rule exI) (rule refl)

lemma usage_line:
  "\<exists>t r. print_line fout (''Usage: '' @ s) k = k\<lparr>calls := calls k @ [(F_print fout (''Usage: '' @ t), r)]\<rparr>"
  using print_line_call [of fout "''Usage: '' @ s" k] by (metis append_assoc)

lemma usage_einval: "usage_unless_ok fout u (- EINVAL, k) = Some (- EINVAL, print_line fout u k)"
  by (simp add: usage_unless_ok_def EINVAL_def)

definition rejects :: "command \<Rightarrow> nat set \<Rightarrow> bool" where
  "rejects c ns \<longleftrightarrow> (\<forall>argv fout k. length argv \<notin> ns \<longrightarrow>
     (\<exists>s. c argv fout k = Some (- EINVAL, print_line fout (''Usage: '' @ s) k)))"

lemma rejects_UNIV: "rejects c UNIV"
  by (simp add: rejects_def)

lemma rejects_usage:
  "rejects command_suicide {2}" "rejects command_cat {2}" "rejects command_rm {2..}" "rejects command_hexdump {2, 3, 4}"
  "rejects command_insmod {2, 3}" "rejects command_rmmod {2, 3}" "rejects command_mkdir {2}" "rejects command_mknod {3, 5}"
  "rejects command_mount {4, 5}" "rejects command_umount {2}" "rejects (command_find visited) {1, 2}"
  "rejects (command_date asctime) {1, 2}" "rejects command_print {3}" "rejects (command_dmesg message) {1}"
  "rejects (command_top garbage) {1}" "rejects command_i2c {3}"
  by (auto simp: rejects_def command_suicide_def command_cat_def command_rm_def command_hexdump_def command_insmod_def
      command_rmmod_def command_mkdir_def command_mknod_def command_mount_def command_umount_def command_find_def
      command_date_def command_print_def command_dmesg_def command_top_def command_i2c_def command_i2c_scan_def
      usage_einval not_le)

lemma command_leaves_nothing_open:
  assumes "(name, c, ns) \<in> set (kernel_commands asctime date visited garbage message)"
    and "c argv fout k = Some (res, k')" and "\<And>i. - 1 \<le> answer k i"
  shows "left_open h fds (new_calls k k') = fds"
proof -
  have "clean k k'"
    using assms(1,2) clean_i2c [OF _ assms(3)] unfolding kernel_commands_def
    by (auto dest: clean_commands_1 clean_commands_2 clean_find clean_hexdump clean_date clean_top clean_df clean_cat clean_ls
        clean_ll clean_dmesg clean_print clean_rm)
  then show ?thesis by (rule clean_left_open)
qed

section \<open>The properties\<close>


definition note_kernel :: file_kernel where
  "note_kernel = \<lparr>calls = [], answer = (\<lambda>i. if i = 0 then 5 else if i = 1 then 2 else 1), errno_at = (\<lambda>_. 28), reply = (\<lambda>_. [])\<rparr>"


text \<open>
  A command called with a number of arguments it does not take makes no system call: it prints its usage and
  returns \<open>-EINVAL\<close>.
\<close>

theorem commands_reject_bad_arguments:
  assumes "(name, c, ns) \<in> set (kernel_commands asctime date visited garbage message)" and "length argv \<notin> ns"
  shows "\<exists>t r. c argv fout k = Some (- EINVAL, k\<lparr>calls := calls k @ [(F_print fout (''Usage: '' @ t), r)]\<rparr>)"
proof -
  have "rejects c ns"
    using assms(1) rejects_usage rejects_UNIV
    unfolding kernel_commands_def by (simp only: set_simps insert_iff empty_iff prod.inject) blast
  then show ?thesis using assms(2) usage_line unfolding rejects_def by metis
qed

theorem commands_reject_bad_arguments_witness:
  "\<exists>t r. command_mknod [''mknod'', ''/dev/x'', ''c'', ''10''] 1 note_kernel
     = Some (- 22, note_kernel\<lparr>calls := [(F_print 1 (''Usage: '' @ t), r)]\<rparr>)"
proof -
  have "(''mknod'', command_mknod, {3, 5}) \<in> set (kernel_commands a d v g m)" for a d v g m
    by (simp add: kernel_commands_def)
  then show ?thesis
    using commands_reject_bad_arguments [of "''mknod''" command_mknod "{3, 5}" _ _ _ _ _
        "[''mknod'', ''/dev/x'', ''c'', ''10'']" 1 note_kernel]
    by (simp add: note_kernel_def EINVAL_def)
qed

text \<open>
  \<open>log set_level\<close> changes the level of the object it names and nothing else: afterwards the object logs exactly the
  messages up to the new level, every other object is as before; with a level it does not know, or with no
  object of that name, the objects are unchanged and the usage is printed.
\<close>

theorem log_set_level_effect:
  fixes level :: string
  assumes "registry (ls_module s) as"
  defines "lv \<equiv> ml_log_object_level_from_string level"
  shows "\<exists>res s'. command_log open_ok object now message [''log'', ''set_level'', name, level] fout s = Some (res, s')
    \<and> (case find (\<lambda>a. obj_name (objects (ls_module s) a) = name) as of
         Some a \<Rightarrow>
           if lv = - 1 then res = - EINVAL \<and> ls_module s' = ls_module s
           else res = 0 \<and> ls_kernel s' = ls_kernel s
             \<and> (\<forall>l. ml_log_object_is_enabled_for (ls_module s') a l \<longleftrightarrow> l \<le> lv)
             \<and> (\<forall>b. b \<noteq> a \<longrightarrow> objects (ls_module s') b = objects (ls_module s) b)
       | None \<Rightarrow> res = - EINVAL \<and> ls_module s' = ls_module s)
    \<and> (res = 0 \<or> (\<exists>r. new_calls (ls_kernel s) (ls_kernel s') = [(F_print fout log_usage, r)]))"
  using get_by_name_registry [OF assms(1), of name]
  by (auto simp: lv_def command_log_def command_log_set_level_def strcmp_zero Let_def EINVAL_def
      ml_log_object_set_level_def ml_log_object_is_enabled_for_def run_call_def call_eq split: option.splits)

theorem log_set_level_effect_witness:
  "\<exists>s'. command_log True 1 [] [] [''log'', ''set_level'', ''a'', ''debug''] 1
       \<lparr>ls_module = example_module, ls_stored = None, ls_kernel = note_kernel\<rparr> = Some (0, s')
     \<and> ml_log_object_is_enabled_for (ls_module s') 1 7"
proof -
  let ?s = "\<lparr>ls_module = example_module, ls_stored = None, ls_kernel = note_kernel\<rparr>"
  have r: "registry (ls_module ?s) [1]" using example_module_facts(1) by simp
  have "ml_log_object_level_from_string ''debug'' = 7"
    by (simp add: ml_log_object_level_from_string_def strcmp_zero)
  then show ?thesis
    using log_set_level_effect [OF r, of True 1 "[]" "[]" "''a''" "''debug''" 1]
    by (auto simp: example_module_def)
qed

end
