(* ===== verification/Ml_Shell_Commands.thy ===== *)
theory Ml_Shell_Commands
  imports Ml_Shell Ml_Commands
begin

text \<open>
  The two commands of the shell that look at its own state, \<open>help\<close> and \<open>history\<close>, and the table of the commands of
  the library as the callbacks of the shell thread: what \<open>ml_shell_init\<close> registers, composed with the loop that
  reads and runs a line.
\<close>

section \<open>Help and history\<close>

definition help_intro :: string where
  "help_intro = concat (map (\<lambda>l. l @ newline)
     [''Cursor movement'', [],
      ''         LEFT   Go left one character.'',
      ''        RIGHT   Go right one character.'',
      ''  HOME/Ctrl+A   Go to the beginning of the line.'',
      ''   END/Ctrl+E   Go to the end of the line.'', [],
      ''Edit'', [],
      ''        Alt+D   Delete the word at the cursor.'',
      ''       Ctrl+D   Delete the chracter at the cursor.'',
      ''       Ctrl+K   Cut the line from cursor to end.'',
      ''       Ctrl+T   Swap the last two characters before the cursor (typo).'',
      ''          TAB   Tab completion for command names.'',
      ''    BACKSPACE   Delete the character before the cursor.'', [],
      ''History'', [],
      ''           UP   Previous command.'',
      ''         DOWN   Next command.'',
      ''       Ctrl+R   Recall the last command including the specified character(s)'',
      ''                searches the command history as you type.'',
      ''       Ctrl+G   Escape from history searching mode.'', [],
      ''Commands'', []])"

text \<open>\<open>%13s\<close>; the loop is over the table.\<close>

fun help_lines :: "command_t list \<Rightarrow> string" where
  "help_lines [] = []"
| "help_lines (c # cs) = pad_left 13 CHR '' '' (cmd_name c) @ ''   '' @ cmd_description c @ newline @ help_lines cs"

definition command_help :: "command_t list \<Rightarrow> int \<times> string" where
  "command_help cmds = (0, help_intro @ help_lines cmds)"

text \<open>The walk along the list; \<open>out\<close> is what was printed so far.\<close>

partial_function (option) history_walk :: "history_t \<Rightarrow> nat option \<Rightarrow> nat \<Rightarrow> string \<Rightarrow> string res option" where
  "history_walk h p i out =
     (if p = None then Some (Inr out)
      else case deref h p of
             Inl e \<Rightarrow> Some (Inl e)
           | Inr e \<Rightarrow> history_walk h (next_p e) (i + 1) (out @ show_nat i @ '': '' @ elem_buf e @ newline))"

declare history_walk.simps [code]

definition command_history :: "history_t \<Rightarrow> (int \<times> string) res option" where
  "command_history h = map_option (\<lambda>r. andthen r (\<lambda>out. Inr (0, out))) (history_walk h (history_t.head_p h) 1 [])"

section \<open>The callbacks\<close>

text \<open>
  What the commands depend on besides their arguments: the table and the history of the shell, the contents of
  uninitialised arrays, and the parameters of \<open>Ml_Commands\<close>.
\<close>

record shell_env =
  env_commands :: "command_t list"
  env_history :: history_t
  env_asctime :: "int \<Rightarrow> string option"
  env_date :: "u64 \<Rightarrow> string"
  env_visited :: "string \<Rightarrow> (string \<times> bool) list"
  env_garbage :: cpu_stats
  env_message :: bytes
  env_addresses :: "string \<Rightarrow> nat list option"
  env_log_open :: bool
  env_now :: string
  env_dd :: "string list \<Rightarrow> (int \<times> string \<times> bytes) option"

text \<open>The rest of the system; \<open>sys_copied\<close> is what \<open>dd\<close> wrote last.\<close>

record system =
  sys_log :: log_system
  sys_ntp :: ntp_kernel
  sys_copied :: bytes

abbreviation sys_kernel :: "system \<Rightarrow> file_kernel" where
  "sys_kernel s \<equiv> ls_kernel (sys_log s)"

definition set_kernel :: "file_kernel \<Rightarrow> system \<Rightarrow> system" where
  "set_kernel k s = s\<lparr>sys_log := (sys_log s)\<lparr>ls_kernel := k\<rparr>\<rparr>"

definition kernel_table :: "shell_env \<Rightarrow> (string \<times> command \<times> nat set) list" where
  "kernel_table env = kernel_commands (env_asctime env) (env_date env) (env_visited env) (env_garbage env) (env_message env)"

text \<open>The result, the text printed besides what goes through the kernel, and the new state. The stream is 1.\<close>

definition run_command :: "shell_env \<Rightarrow> string \<Rightarrow> string list \<Rightarrow> system \<Rightarrow> (int \<times> string \<times> system) option" where
  "run_command env name argv s =
     (if name = ''help'' then case command_help (env_commands env) of (res, out) \<Rightarrow> Some (res, out, s)
      else if name = ''history''
      then case command_history (env_history env) of
             Some (Inr (res, out)) \<Rightarrow> Some (res, out, s)
           | _ \<Rightarrow> None
      else if name = ''ntp_sync''
      then case command_ntp_sync (env_addresses env) argv (sys_ntp s) of
             ((res, out), k) \<Rightarrow> Some (res, out, s\<lparr>sys_ntp := k\<rparr>)
      else if name = ''dd''
      then map_option (\<lambda>(res, out, bs). (res, out, s\<lparr>sys_copied := bs\<rparr>)) (env_dd env argv)
      else if name = ''log''
      then map_option (\<lambda>(res, l). (res, [], s\<lparr>sys_log := l\<rparr>))
             (command_log (env_log_open env) 1 (env_now env) (env_message env) argv 1 (sys_log s))
      else case map_of (kernel_table env) name of
             Some (c, ns) \<Rightarrow> map_option (\<lambda>(res, k). (res, [], set_kernel k s)) (c argv 1 (sys_kernel s))
           | None \<Rightarrow> None)"

text \<open>The callback of number \<open>i\<close>. A command that does not return leaves no system behind.\<close>

definition standard_callback :: "shell_env \<Rightarrow> nat \<Rightarrow> string list \<Rightarrow> system option \<Rightarrow> int \<times> string \<times> system option" where
  "standard_callback env i argv w =
     (case Option.bind w (run_command env (fst (standard_commands ! i)) argv) of
        None \<Rightarrow> (0, [], None)
      | Some (res, out, s) \<Rightarrow> (res, out, Some s))"

text \<open>A started shell: the table is sorted and holds every command of the library under its number.\<close>

definition standard_table :: "command_t list \<Rightarrow> bool" where
  "standard_table cmds \<longleftrightarrow> sorted_wrt (<) (map cmd_name cmds)
     \<and> (\<forall>i<29. map_option cmd_callback (find_command cmds (fst (standard_commands ! i))) = Some i)"

section \<open>Lemmas\<close>

definition history_lines :: "nat \<Rightarrow> string list \<Rightarrow> string" where
  "history_lines i cs = concat (map (\<lambda>(n, c). show_nat n @ '': '' @ c @ newline) (enumerate i cs))"

lemma history_lines_Cons: "history_lines i (c # cs) = show_nat i @ '': '' @ c @ newline @ history_lines (Suc i) cs"
  by (simp add: history_lines_def)

lemma history_walk_lists:
  assumes "hist_list h as" and "n \<le> length as"
  shows "history_walk h (if n < length as then Some (as ! n) else None) i out
    = Some (Inr (out @ history_lines i (drop n (commands_of h as))))"
  using assms(2)
proof (induction "length as - n" arbitrary: n i out)
  case 0
  then show ?case by (simp add: history_walk.simps [of h None] history_lines_def)
next
  case (Suc m)
  then have n: "n < length as" by simp
  obtain e where e: "deref h (Some (as ! n)) = Inr e" "elem_buf e = commands_of h as ! n"
    "next_p e = (if Suc n < length as then Some (as ! Suc n) else None)"
    using linked_deref [OF assms(1) n] by blast
  have d: "drop n (commands_of h as) = commands_of h as ! n # drop (Suc n) (commands_of h as)"
    using n by (simp add: Cons_nth_drop_Suc)
  have "history_walk h (next_p e) (Suc i) (out @ show_nat i @ '': '' @ elem_buf e @ newline)
    = Some (Inr ((out @ show_nat i @ '': '' @ elem_buf e @ newline) @ history_lines (Suc i) (drop (Suc n) (commands_of h as))))"
    unfolding e(3) by (rule Suc.hyps(1)) (use Suc.hyps(2) n in simp_all)
  then show ?case using n e(1,2)
    by (simp add: history_walk.simps [of h "Some (as ! n)"] d history_lines_Cons)
qed

lemma command_history_lists:
  assumes "hist_inv h as"
  shows "command_history h = Some (Inr (0, history_lines 1 (commands_of h as)))"
proof -
  have l: "hist_list h as" using assms by (simp add: hist_inv_def)
  have "history_t.head_p h = (if 0 < length as then Some (as ! 0) else None)"
    using l by (cases as) (simp_all add: hist_list_def)
  then show ?thesis using history_walk_lists [OF l, of 0 1 "[]"] by (simp add: command_history_def)
qed

lemma help_lines_concat:
  "help_lines cmds = concat (map (\<lambda>c. pad_left 13 CHR '' '' (cmd_name c) @ ''   '' @ cmd_description c @ newline) cmds)"
  by (induction cmds) simp_all

lemma standard_find:
  assumes "standard_table cmds" and "name \<in> set (map fst standard_commands)"
  obtains i :: nat and c :: command_t where "fst (standard_commands ! i) = name" "c \<in> set cmds" "cmd_name c = name" "cmd_callback c = i"
proof -
  have len: "length standard_commands = 29" by (simp add: standard_commands_def)
  obtain i where i: "i < length standard_commands" "fst (standard_commands ! i) = name"
    using assms(2) by (auto simp: in_set_conv_nth simp del: set_map)
  then have "map_option cmd_callback (find_command cmds name) = Some i"
    using assms(1) len by (auto simp: standard_table_def)
  then obtain c where c: "find_command cmds name = Some c" "cmd_callback c = i" by auto
  then have "find (\<lambda>c. cmd_name c = name) cmds = Some c"
    using assms(1) find_command_ok by (metis standard_table_def)
  then have "c \<in> set cmds" "cmd_name c = name" by (auto simp: find_Some_iff)
  then show ?thesis by (rule that [OF i(2) _ _ c(2)])
qed

lemma kernel_table_names:
  "map fst (kernel_table env) =
     [''exit'', ''suicide'', ''ls'', ''ll'', ''cat'', ''rm'', ''hexdump'', ''reboot'', ''halt'', ''poweroff'', ''insmod'', ''rmmod'',
      ''mkdir'', ''mknod'', ''mount'', ''umount'', ''df'', ''find'', ''date'', ''print'', ''dmesg'', ''sync'', ''top'', ''i2c'']"
  by (simp add: kernel_table_def kernel_commands_def)

lemma kernel_table_distinct: "distinct (map fst (kernel_table env))"
  unfolding kernel_table_names by code_simp

lemma kernel_table_standard:
  "list_all (\<lambda>n. n \<in> set (map fst standard_commands) \<and> n \<notin> {''help'', ''history'', ''ntp_sync'', ''dd'', ''log''})
     (map fst (kernel_table env))"
  unfolding kernel_table_names by code_simp

lemma kernel_names:
  assumes "(name, c, ns) \<in> set (kernel_table env)"
  shows "name \<in> set (map fst standard_commands)" and "map_of (kernel_table env) name = Some (c, ns)"
    and "name \<notin> {''help'', ''history'', ''ntp_sync'', ''dd'', ''log''}"
proof -
  have "name \<in> set (map fst (kernel_table env))" using assms by force
  then show "name \<in> set (map fst standard_commands)" "name \<notin> {''help'', ''history'', ''ntp_sync'', ''dd'', ''log''}"
    using kernel_table_standard [of env] unfolding list_all_iff by blast+
  show "map_of (kernel_table env) name = Some (c, ns)"
    by (rule map_of_is_SomeI [OF kernel_table_distinct assms])
qed

section \<open>The properties\<close>


lemma a_standard_table: "\<exists>cmds. standard_table cmds \<and> table_ok cmds"
proof -
  let ?st = "idle_shell [] ''help''"
  have "line_ok (line ?st)" using shell_okD(1) [OF idle_shell_ok [of "[]" "''help''"]] by (simp add: table_ok_def)
  then obtain st2 where "shell_ok [] st2" "sorted_wrt (<) (map cmd_name (commands st2))"
    "\<forall>i<29. map_option cmd_callback (find_command (commands st2) (fst (standard_commands ! i))) = Some i"
    using shell_starts [of "\<lambda>_. True" ?st]
    by (auto simp: idle_shell_def example_history_def example_line_def COMMAND_MAX_def)
  then show ?thesis by (intro exI [of _ "commands st2"]) (simp add: standard_table_def shell_ok_def)
qed

definition example_env :: shell_env where
  "example_env = \<lparr>env_commands = [], env_history = example_history, env_asctime = (\<lambda>_. None), env_date = (\<lambda>_. []),
     env_visited = (\<lambda>_. []), env_garbage = sample1, env_message = replicate 1024 0, env_addresses = (\<lambda>_. None),
     env_log_open = True, env_now = [], env_dd = (\<lambda>_. None)\<rparr>"

definition example_system :: system where
  "example_system = \<lparr>sys_log = \<lparr>ls_module = example_module, ls_stored = None, ls_kernel = note_kernel\<rparr>,
     sys_ntp = \<lparr>calls = [], answer = (\<lambda>_. 0), errno_at = (\<lambda>_. 0), reply = (\<lambda>_. [])\<rparr>, sys_copied = []\<rparr>"


text \<open>
  \<open>history\<close> lists the remembered commands, numbered from 1, oldest first, and \<open>help\<close> one line for each command of the
  table, in its order. The walk along the list of the history follows no dangling pointer and ends.
\<close>

theorem help_and_history_list:
  assumes "hist_inv h as"
  shows "command_history h = Some (Inr (0, concat (map (\<lambda>(n, c). show_nat n @ '': '' @ c @ newline)
        (enumerate 1 (commands_of h as)))))
    \<and> command_help cmds = (0, help_intro @ concat (map (\<lambda>c. pad_left 13 CHR '' '' (cmd_name c) @ ''   ''
        @ cmd_description c @ newline) cmds))"
  using command_history_lists [OF assms] by (simp add: history_lines_def command_help_def help_lines_concat)

theorem help_and_history_list_witness:
  "\<exists>h as. history_append example_history ''ls'' = Inr h \<and> command_history h = Some (Inr (0, ''1: ls'' @ newline))"
proof -
  obtain h where a: "history_append example_history ''ls'' = Inr h" and h: "hist_inv h [1]" "commands_of h [1] = [''ls'']"
    by (simp add: history_append_def append_elem_def example_history_def set_elem_def MAXIMUM_HISTORY_LENGTH_def
        hist_inv_def hist_list_def linked_def commands_of_def Let_def)
  show ?thesis using a help_and_history_list [OF h(1), of "[]"] h(2)
    by (auto simp: show_nat.simps digit_chars)
qed

end
