(* ===== verification/Ml_Shell_Terminal.thy ===== *)
theory Ml_Shell_Terminal
  imports Ml_Kernel Ml_Bytes
begin

unbundle bit_operations_syntax

text \<open>
  The terminal of the shell (\<open>make_stdin_unbuffered\<close> in \<open>src/src/ml_shell.c\<close>): the structure \<open>termios\<close> of the C library is its
  60 bytes, with the local flags at 12.
\<close>

datatype tty_call =
    Tty_getattr int
  | Tty_setattr int int bytes

type_synonym tty_kernel = "tty_call kernel"

definition STDIN_FILENO :: int where "STDIN_FILENO = 0"
definition TCSANOW :: int where "TCSANOW = 0"
definition ICANON :: u32 where "ICANON = 2"
definition ECHO :: u32 where "ECHO = 8"

text \<open>\<open>stack\<close> is what the uninitialised \<open>ctrl\<close> holds; \<open>tcgetattr\<close> writes over it when it succeeds.\<close>

definition make_stdin_unbuffered :: "bytes \<Rightarrow> tty_kernel \<Rightarrow> tty_kernel" where
  "make_stdin_unbuffered stack k =
     (let (res, k) = call (Tty_getattr STDIN_FILENO) k;
          ctrl = (if res = 0 then overwrite (delivered k) stack else stack);
          ctrl = put32 ctrl 12 (get32 ctrl 12 AND NOT (ICANON OR ECHO));
          (_, k) = call (Tty_setattr STDIN_FILENO TCSANOW ctrl) k
      in k)"

lemma overwrite_all: "length new = length old \<Longrightarrow> overwrite new old = new"
  by (simp add: overwrite_def poke_def)

lemma local_flags: "bit (w AND NOT (ICANON OR ECHO)) n \<longleftrightarrow> bit w n \<and> n \<noteq> 1 \<and> n \<noteq> 3" for w :: u32
proof -
  have "bit (2 ^ 1 :: u32) n \<longleftrightarrow> n = 1" "bit (2 ^ 3 :: u32) n \<longleftrightarrow> n = 3"
    by (simp_all only: bit_exp_iff) auto
  then have "bit ICANON n \<longleftrightarrow> n = 1" "bit ECHO n \<longleftrightarrow> n = 3" by (simp_all add: ICANON_def ECHO_def)
  then show ?thesis by (auto simp: bit_and_iff bit_not_iff bit_or_iff dest: bit_imp_le_length)
qed

text \<open>
  Waiting for whole lines and echoing are switched off, and nothing else is changed, if the settings could be read; if
  not, settings made of whatever the stack held are handed to the terminal.
\<close>

theorem stdin_unbuffered:
  assumes "length stack = 60" and "length (reply k (length (calls k))) = 60"
  shows "\<exists>r r' ctrl. new_calls k (make_stdin_unbuffered stack k)
      = [(Tty_getattr STDIN_FILENO, r), (Tty_setattr STDIN_FILENO TCSANOW ctrl, r')]
    \<and> (let old = (if r = 0 then reply k (length (calls k)) else stack)
       in length ctrl = 60
        \<and> (\<forall>n. bit (get32 ctrl 12) n \<longleftrightarrow> bit (get32 old 12) n \<and> n \<noteq> 1 \<and> n \<noteq> 3)
        \<and> (\<forall>j. j < 12 \<or> 16 \<le> j \<longrightarrow> byte_at ctrl j = byte_at old j))"
proof -
  let ?n = "length (calls k)"
  let ?old = "if answer k ?n = 0 then reply k ?n else stack"
  let ?ctrl = "put32 ?old 12 (get32 ?old 12 AND NOT (ICANON OR ECHO))"
  have len: "length ?old = 60" using assms by simp
  have run: "new_calls k (make_stdin_unbuffered stack k)
      = [(Tty_getattr STDIN_FILENO, answer k ?n), (Tty_setattr STDIN_FILENO TCSANOW ?ctrl, answer k (Suc ?n))]"
    using assms by (simp add: make_stdin_unbuffered_def call_eq delivered_def overwrite_all new_calls_def Let_def)
  have flags: "\<forall>n. bit (get32 ?ctrl 12) n \<longleftrightarrow> bit (get32 ?old 12) n \<and> n \<noteq> 1 \<and> n \<noteq> 3"
    using len by (simp only: get32_put32 local_flags) simp
  have "\<forall>j. j < 12 \<or> 16 \<le> j \<longrightarrow> byte_at ?ctrl j = byte_at ?old j"
    by (auto simp: put32_def byte_at_poke_other)
  then show ?thesis
    by (intro exI conjI) (rule run, use flags len in \<open>simp add: Let_def\<close>)
qed

end
