(* ===== verification/Ml_Float.thy ===== *)
theory Ml_Float
  imports Ml_Prelude "HOL-Library.Log_Nat"
begin

text \<open>
  What the code uses of the C type \<open>float\<close>: single-precision numbers as IEEE 754 has them, with a sign and an exact rational
  magnitude, rounded to the nearest (a tie to the even one) after each operation, and their decimals as \<open>printf\<close> gives them.
\<close>

section \<open>Rounding\<close>

definition round_even :: "rat \<Rightarrow> int" where
  "round_even x =
     (let n = \<lfloor>x\<rfloor>; d = x - of_int n
      in if d < 1 / 2 \<or> d = 1 / 2 \<and> even n then n else n + 1)"

text \<open>The power of two at or below a positive number.\<close>

definition float_exponent :: "rat \<Rightarrow> int" where
  "float_exponent x =
     (let (p, q) = quotient_of x;
          e = int (floorlog 2 (nat p)) - int (floorlog 2 (nat q))
      in if 2 powi e \<le> x then e else e - 1)"

text \<open>The last of the 24 bits of a number of that size; below \<open>2 powi - 126\<close> the spacing stays the same.\<close>

definition float_unit :: "rat \<Rightarrow> rat" where
  "float_unit x = 2 powi (max (float_exponent x - 23) (- 149))"

definition round_float :: "rat \<Rightarrow> rat" where
  "round_float x = (if x = 0 then 0 else of_int (round_even (x / float_unit x)) * float_unit x)"

section \<open>Numbers\<close>

text \<open>A sign (true for minus) and a magnitude; zeros and infinities have a sign too.\<close>

datatype float32 =
    Number bool rat
  | Infinity bool
  | NaN

definition float_of :: "bool \<Rightarrow> rat \<Rightarrow> float32" where
  "float_of s m = (let r = round_float m in if r < 2 ^ 128 then Number s r else Infinity s)"

definition float_of_int :: "int \<Rightarrow> float32" where
  "float_of_int i = float_of (i < 0) (of_int \<bar>i\<bar>)"

fun signed :: "bool \<Rightarrow> rat \<Rightarrow> rat" where
  "signed s m = (if s then - m else m)"

fun float_add :: "float32 \<Rightarrow> float32 \<Rightarrow> float32" where
  "float_add (Number s a) (Number t b) =
     (let v = signed s a + signed t b in if v = 0 then Number (s \<and> t) 0 else float_of (v < 0) \<bar>v\<bar>)"
| "float_add (Infinity s) (Infinity t) = (if s = t then Infinity s else NaN)"
| "float_add (Infinity s) (Number _ _) = Infinity s"
| "float_add (Number _ _) (Infinity t) = Infinity t"
| "float_add NaN _ = NaN"
| "float_add _ NaN = NaN"

fun float_div :: "float32 \<Rightarrow> float32 \<Rightarrow> float32" where
  "float_div (Number s a) (Number t b) =
     (if b = 0 then (if a = 0 then NaN else Infinity (s \<noteq> t)) else float_of (s \<noteq> t) (a / b))"
| "float_div (Infinity s) (Number t _) = Infinity (s \<noteq> t)"
| "float_div (Number s _) (Infinity t) = Number (s \<noteq> t) 0"
| "float_div (Infinity _) (Infinity _) = NaN"
| "float_div NaN _ = NaN"
| "float_div _ NaN = NaN"

section \<open>Printing\<close>

text \<open>
  \<open>%.03f\<close>: three decimals of the exact value, again to the nearest. How a NaN is printed, with or without
  a minus sign, depends on the processor and is the parameter.
\<close>

definition three_decimals :: "rat \<Rightarrow> string" where
  "three_decimals x =
     (let n = nat (round_even (1000 * x))
      in show_nat (n div 1000) @ ''.''
         @ [digit_char (n div 100 mod 10), digit_char (n div 10 mod 10), digit_char (n mod 10)])"

fun show_float :: "string \<Rightarrow> float32 \<Rightarrow> string" where
  "show_float nan (Number s m) = (if s then ''-'' else '''') @ three_decimals m"
| "show_float nan (Infinity s) = (if s then ''-inf'' else ''inf'')"
| "show_float nan NaN = nan"

section \<open>The error of rounding\<close>

lemma round_even_error: "\<bar>of_int (round_even x) - x\<bar> \<le> 1 / 2"
proof -
  have "of_int \<lfloor>x\<rfloor> \<le> x" "x < of_int \<lfloor>x\<rfloor> + 1" by linarith+
  then show ?thesis by (simp add: round_even_def Let_def abs_le_iff)
qed

lemma round_even_of_int: "round_even (of_int i) = i"
  by (simp add: round_even_def)

lemma round_even_nonneg: "0 \<le> x \<Longrightarrow> 0 \<le> round_even x"
  by (simp add: round_even_def Let_def)

text \<open>The exponent is the right one.\<close>

lemma floorlog_2:
  assumes "0 < n"
  shows "2 powi (int (floorlog 2 n) - 1) \<le> (of_nat n :: rat)" and "(of_nat n :: rat) < 2 powi int (floorlog 2 n)"
proof -
  have b: "2 ^ (floorlog 2 n - 1) \<le> n" "n < 2 ^ floorlog 2 n" using floorlog_bounds [of n 2] assms by simp_all
  have "0 < floorlog 2 n" using assms by (simp add: floorlog_def)
  then have e: "int (floorlog 2 n) - 1 = int (floorlog 2 n - 1)" by simp
  have "(2 :: rat) ^ (floorlog 2 n - 1) = of_nat (2 ^ (floorlog 2 n - 1))"
    "(2 :: rat) ^ floorlog 2 n = of_nat (2 ^ floorlog 2 n)" by simp_all
  then show "2 powi (int (floorlog 2 n) - 1) \<le> (of_nat n :: rat)" "(of_nat n :: rat) < 2 powi int (floorlog 2 n)"
    using b by (simp_all only: e power_int_of_nat of_nat_le_iff of_nat_less_iff)
qed

lemma float_exponent:
  assumes "0 < x"
  shows "2 powi float_exponent x \<le> x" and "x < 2 powi (float_exponent x + 1)"
proof -
  obtain p q where pq: "quotient_of x = (p, q)" by (metis surj_pair)
  have q: "0 < q" using quotient_of_denom_pos [OF pq] .
  have x: "x = of_int p / of_int q" using quotient_of_div [OF pq] .
  have p: "0 < p" using assms q x by (simp add: zero_less_divide_iff)
  let ?a = "int (floorlog 2 (nat p))" and ?b = "int (floorlog 2 (nat q))"
  have P: "2 powi (?a - 1) \<le> (of_int p :: rat)" "(of_int p :: rat) < 2 powi ?a"
    and Q: "2 powi (?b - 1) \<le> (of_int q :: rat)" "(of_int q :: rat) < 2 powi ?b"
    using floorlog_2 [of "nat p"] floorlog_2 [of "nat q"] p q by simp_all
  have up: "x < 2 powi (?a - ?b + 1)"
  proof -
    have "x < 2 powi ?a / 2 powi (?b - 1)"
      unfolding x using P(2) Q(1) p q by (intro frac_less) simp_all
    also have "\<dots> = 2 powi (?a - (?b - 1))" by (simp add: power_int_diff)
    finally show ?thesis by (simp add: algebra_simps)
  qed
  have lo: "2 powi (?a - ?b - 1) \<le> x"
  proof -
    have "2 powi (?a - 1) / 2 powi ?b \<le> x"
      unfolding x using P(1) Q(2) p q by (intro frac_le) simp_all
    moreover have "(2 :: rat) powi (?a - 1 - ?b) = 2 powi (?a - 1) / 2 powi ?b" by (rule power_int_diff) simp
    moreover have "?a - ?b - 1 = ?a - 1 - ?b" by simp
    ultimately show ?thesis by (simp only:)
  qed
  show "2 powi float_exponent x \<le> x" "x < 2 powi (float_exponent x + 1)"
    using up lo by (auto simp: float_exponent_def pq Let_def)
qed

text \<open>In the normal range rounding changes a number by one part in 2 to the 24 at most.\<close>

lemma float_unit_pos: "0 < float_unit x"
  by (simp add: float_unit_def)

lemma round_float_error:
  assumes "2 powi (- 126) \<le> x"
  shows "\<bar>round_float x - x\<bar> \<le> x / 2 ^ 24"
proof -
  let ?u = "float_unit x" and ?e = "float_exponent x"
  have pos: "0 < x" using assms by (rule less_le_trans [rotated]) simp
  have "(2 :: rat) powi (- 126) < 2 powi (?e + 1)" using assms float_exponent(2) [OF pos] by (rule le_less_trans)
  then have "- 126 < ?e + 1" using power_int_increasing [of "?e + 1" "- 126" "2 :: rat"] by linarith
  then have "max (?e - 23) (- 149) = ?e - 23" by simp
  then have u: "?u = 2 powi (?e - 23)" by (simp only: float_unit_def)
  have "round_float x - x = (of_int (round_even (x / ?u)) - x / ?u) * ?u"
    using pos float_unit_pos [of x] by (simp add: round_float_def algebra_simps)
  then have "\<bar>round_float x - x\<bar> = \<bar>of_int (round_even (x / ?u)) - x / ?u\<bar> * ?u"
    using float_unit_pos [of x] by (simp add: abs_mult)
  also have "\<dots> \<le> 1 / 2 * ?u" using float_unit_pos [of x] by (intro mult_right_mono round_even_error) simp
  also have "\<dots> = 2 powi ?e / 2 ^ 24" by (simp add: u power_int_diff)
  also have "\<dots> \<le> x / 2 ^ 24" using float_exponent(1) [OF pos] by (intro divide_right_mono) simp_all
  finally show ?thesis .
qed

lemma round_float_nonneg: "0 \<le> x \<Longrightarrow> 0 \<le> round_float x"
  using float_unit_pos [of x] round_even_nonneg [of "x / float_unit x"] by (simp add: round_float_def)

text \<open>Small integers are exact.\<close>

lemma round_float_exact:
  assumes "0 \<le> i" and "i < 2 ^ 24"
  shows "round_float (of_int i) = of_int i"
proof (cases "i = 0")
  case False
  let ?x = "of_int i :: rat" and ?e = "float_exponent (of_int i)"
  have pos: "0 < ?x" "1 \<le> ?x" using assms(1) False by simp_all
  have "(1 :: rat) < 2 powi (?e + 1)" using pos(2) float_exponent(2) [OF pos(1)] by linarith
  then have e0: "0 \<le> ?e" using power_int_increasing [of "?e + 1" 0 "2 :: rat"] by fastforce
  have "?x < 2 powi 24" using assms(2) of_int_less_iff [of i "2 ^ 24", where ?'a = rat] by simp
  then have "(2 :: rat) powi ?e < 2 powi 24" using float_exponent(1) [OF pos(1)] by linarith
  then have e1: "?e \<le> 23" using power_int_increasing [of 24 ?e "2 :: rat"] by fastforce
  then obtain k where k: "23 - ?e = int k" using zero_le_imp_eq_int [of "23 - ?e"] by auto
  have "max (?e - 23) (- 149) = - int k" using e0 k by simp
  then have u: "float_unit ?x = 1 / 2 ^ k" by (simp only: float_unit_def power_int_minus) (simp add: divide_inverse)
  then have "round_even (?x / float_unit ?x) = i * 2 ^ k"
    using round_even_of_int [of "i * 2 ^ k"] by simp
  then show ?thesis using pos u by (simp add: round_float_def)
qed (simp add: round_float_def)

section \<open>Numbers close to each other\<close>

definition near :: "rat \<Rightarrow> rat \<Rightarrow> rat \<Rightarrow> bool" where
  "near c x y \<longleftrightarrow> y * (1 - c) \<le> x \<and> x \<le> y * (1 + c)"

abbreviation float_eps :: rat where "float_eps \<equiv> 1 / 16777216"

lemma near_abs: "near c x y \<longleftrightarrow> \<bar>x - y\<bar> \<le> y * c"
  by (auto simp: near_def abs_le_iff algebra_simps)

lemma near_round:
  assumes "near c x y" and "0 \<le> c" and "c \<le> 1" and "c + float_eps + c * float_eps \<le> d" and "0 \<le> y" and "x = 0 \<or> 2 powi (- 126) \<le> x"
  shows "near d (round_float x) y"
proof -
  have x: "x * (1 - float_eps) \<le> round_float x" "round_float x \<le> x * (1 + float_eps)"
  proof -
    have "\<bar>round_float x - x\<bar> \<le> x * float_eps"
      using assms(6) round_float_error [of x] by (cases "x = 0") (simp_all add: round_float_def [of 0])
    then show "x * (1 - float_eps) \<le> round_float x" "round_float x \<le> x * (1 + float_eps)"
      using abs_le_D1 abs_le_D2 by (fastforce simp: algebra_simps)+
  qed
  have "y * (1 - d) \<le> y * ((1 - c) * (1 - float_eps))"
    using assms(2-5) by (intro mult_left_mono) (auto simp: algebra_simps)
  also have "\<dots> \<le> x * (1 - float_eps)"
    using assms(1) unfolding mult.assoc [symmetric] by (intro mult_right_mono) (simp_all add: near_def)
  finally have lo: "y * (1 - d) \<le> round_float x" using x(1) by linarith
  have "x * (1 + float_eps) \<le> y * ((1 + c) * (1 + float_eps))"
    using assms(1) unfolding mult.assoc [symmetric] by (intro mult_right_mono) (simp_all add: near_def)
  also have "\<dots> \<le> y * (1 + d)"
    using assms(2-5) by (intro mult_left_mono) (auto simp: algebra_simps)
  finally show ?thesis using lo x(2) by (simp add: near_def)
qed

lemma near_refl: "near 0 x x"
  by (simp add: near_def)

lemma near_add: "near c x y \<Longrightarrow> near c x' y' \<Longrightarrow> near c (x + x') (y + y')"
  by (simp add: near_def algebra_simps)

lemma near_divide_const: "near c x y \<Longrightarrow> 0 < k \<Longrightarrow> near c (x / k) (y / k)"
  unfolding near_def times_divide_eq_left by (auto intro!: divide_right_mono)

lemma near_divide:
  assumes "near c x y" and "near c' x' y'" and "0 \<le> y" and "0 < y'" and "0 \<le> c" and "c \<le> 1" and "0 \<le> c'" and "c' < 1"
    and "(1 - d) * (1 + c') \<le> 1 - c" and "1 + c \<le> (1 + d) * (1 - c')"
  shows "near d (x / x') (y / y')"
proof -
  have p: "0 < y' * (1 - c')" using assms by simp
  then have x': "0 < x'" "y' * (1 - c') \<le> x'" "x' \<le> y' * (1 + c')" using assms(2) by (auto simp: near_def)
  have x0: "0 \<le> x"
    using assms(1,3,6) by (simp add: near_def) (metis diff_ge_0_iff_ge mult_nonneg_nonneg order_trans)
  have "y / y' * (1 - d) = y * ((1 - d) * (1 + c')) / (y' * (1 + c'))" using assms(4,7) by simp
  also have "\<dots> \<le> y * (1 - c) / (y' * (1 + c'))"
    using mult_left_mono [OF assms(9,3)] assms(4,7) by (intro divide_right_mono) simp_all
  also have "\<dots> \<le> x / x'"
    using assms x' x0 by (intro frac_le) (auto simp: near_def)
  finally have lo: "y / y' * (1 - d) \<le> x / x'" .
  have "x / x' \<le> y * (1 + c) / (y' * (1 - c'))"
    using assms x' x0 p by (intro frac_le) (auto simp: near_def)
  also have "\<dots> \<le> y * ((1 + d) * (1 - c')) / (y' * (1 - c'))"
    using mult_left_mono [OF assms(10,3)] p by (intro divide_right_mono) simp_all
  also have "\<dots> = y / y' * (1 + d)" using assms(4,8) by simp
  finally show ?thesis using lo by (simp add: near_def)
qed

text \<open>No overflow below 2 to the 127.\<close>

lemma float_of_small:
  assumes "0 \<le> x" and "x = 0 \<or> 2 powi (- 126) \<le> x" and "x \<le> 2 ^ 127"
  shows "float_of s x = Number s (round_float x)"
proof -
  have "near float_eps (round_float x) x" by (rule near_round [OF near_refl]) (use assms in simp_all)
  then have "round_float x \<le> x * (1 + float_eps)" by (simp add: near_def)
  also have "\<dots> \<le> 2 ^ 127 * (1 + float_eps)" using assms(3) by (intro mult_right_mono) simp_all
  also have "\<dots> < 2 ^ 128" by simp
  finally show ?thesis by (simp add: float_of_def Let_def)
qed

end
