(* ===== verification/Ml_Dd_Summary.thy ===== *)
theory Ml_Dd_Summary
  imports Ml_Float Ml_Commands
begin

text \<open>
  What the shell command \<open>dd\<close> prints of a copy (\<open>command_dd_summary\<close> of \<open>src/src/ml_shell.c\<close> and \<open>ml_timeval_to_ms\<close> of
  \<open>src/src/ml.c\<close>), in the floating-point numbers of \<open>Ml_Float\<close>. A \<open>long\<close> has 64 bits, and leaving its range is \<open>Overflow\<close>.
\<close>

section \<open>The code\<close>

record timeval =
  tv_sec :: int
  tv_usec :: int

text \<open>The macro \<open>timersub\<close> of the C library.\<close>

definition timersub :: "timeval \<Rightarrow> timeval \<Rightarrow> timeval" where
  "timersub a b =
     (let r = \<lparr>tv_sec = tv_sec a - tv_sec b, tv_usec = tv_usec a - tv_usec b\<rparr>
      in if tv_usec r < 0 then \<lparr>tv_sec = tv_sec r - 1, tv_usec = tv_usec r + 1000000\<rparr> else r)"

definition long_mult :: "int \<Rightarrow> int \<Rightarrow> int res" where
  "long_mult a b = (if - (2 ^ 63) \<le> a * b \<and> a * b < 2 ^ 63 then Inr (a * b) else Inl Overflow)"

definition ml_timeval_to_ms :: "timeval \<Rightarrow> float32 res" where
  "ml_timeval_to_ms timeval =
     (let res = float_of_int (tv_usec timeval);
          res = float_div res (float_of_int 1000)
      in andthen (long_mult 1000 (tv_sec timeval)) (\<lambda>ms. Inr (float_add res (float_of_int ms))))"

definition command_dd_summary :: "string \<Rightarrow> nat \<Rightarrow> timeval \<Rightarrow> timeval \<Rightarrow> string res" where
  "command_dd_summary nan total_size start_time end_time =
     andthen (ml_timeval_to_ms (timersub end_time start_time)) (\<lambda>time_elapsed_ms.
       let transfer_rate = float_div (float_div (float_of_int (int total_size)) time_elapsed_ms) (float_of_int 1000)
       in Inr (show_nat total_size @ '' bytes copied in '' @ show_float nan time_elapsed_ms @ '' ms (''
            @ show_float nan transfer_rate @ '' MB/s).'' @ newline))"

section \<open>The numbers\<close>

text \<open>The exact time in milliseconds.\<close>

definition elapsed_ms :: "timeval \<Rightarrow> rat" where
  "elapsed_ms t = 1000 * of_int (tv_sec t) + of_int (tv_usec t) / 1000"

definition timeval_ok :: "timeval \<Rightarrow> bool" where
  "timeval_ok t \<longleftrightarrow> 0 \<le> tv_usec t \<and> tv_usec t < 1000000"

lemma timersub_ok: "timeval_ok a \<Longrightarrow> timeval_ok b \<Longrightarrow> timeval_ok (timersub a b)"
  by (auto simp: timeval_ok_def timersub_def Let_def)

lemma elapsed_timersub: "elapsed_ms (timersub a b) = elapsed_ms a - elapsed_ms b"
  by (simp add: elapsed_ms_def timersub_def Let_def field_simps)

lemma not_tiny: "0 < i \<Longrightarrow> k \<le> 1000 \<Longrightarrow> 0 < k \<Longrightarrow> 2 powi (- 126) \<le> (of_int i / k :: rat)"
proof -
  assume a: "0 < i" "k \<le> 1000" "0 < k"
  have "(2 :: rat) powi (- 126) \<le> 1 / 1000" by (simp add: power_int_minus)
  also have "\<dots> \<le> of_int i / k" using a by (intro frac_le) simp_all
  finally show ?thesis .
qed

lemma float_of_int_exact: "0 \<le> i \<Longrightarrow> i < 2 ^ 24 \<Longrightarrow> float_of_int i = Number False (of_int i)"
proof -
  assume a: "0 \<le> i" "i < 2 ^ 24"
  have "(of_int i :: rat) < of_int (2 ^ 24)" using a(2) by (simp only: of_int_less_iff)
  then show ?thesis using a round_float_exact [of i] by (simp add: float_of_int_def float_of_def)
qed

lemma float_of_int_near:
  assumes "0 \<le> i" and "i < 2 ^ 64"
  obtains r where "float_of_int i = Number False r" and "near float_eps r (of_int i)" and "0 \<le> r"
proof
  have s: "(of_int i :: rat) = 0 \<or> 2 powi (- 126) \<le> (of_int i :: rat)" using not_tiny [of i 1] assms(1) by auto
  have "(of_int i :: rat) < of_int (2 ^ 64)" using assms(2) by (simp only: of_int_less_iff)
  then show "float_of_int i = Number False (round_float (of_int i))"
    using assms(1) s float_of_small [of "of_int i" False] by (simp add: float_of_int_def)
  show "near float_eps (round_float (of_int i)) (of_int i)"
    by (rule near_round [OF near_refl]) (use assms s in simp_all)
  show "0 \<le> round_float (of_int i)" using assms(1) by (simp add: round_float_nonneg)
qed

lemma elapsed_ms_bounds:
  assumes "timeval_ok t" and "0 \<le> tv_sec t" and "tv_sec t < 2 ^ 53" and "0 < elapsed_ms t"
  shows "1 / 1000 \<le> elapsed_ms t" and "elapsed_ms t \<le> 2 ^ 63"
proof -
  have i: "of_int (1000000 * tv_sec t + tv_usec t) = 1000 * elapsed_ms t" by (simp add: elapsed_ms_def)
  have "0 < 1000000 * tv_sec t + tv_usec t" using assms(4) i by (metis of_int_0_less_iff mult_pos_pos zero_less_numeral)
  then have "(1 :: rat) \<le> of_int (1000000 * tv_sec t + tv_usec t)" by simp
  then show "1 / 1000 \<le> elapsed_ms t" unfolding i by simp
  have "1000000 * tv_sec t + tv_usec t \<le> 1000 * 2 ^ 63" using assms(1,3) by (simp add: timeval_ok_def)
  then have "(of_int (1000000 * tv_sec t + tv_usec t) :: rat) \<le> of_int (1000 * 2 ^ 63)" by (simp only: of_int_le_iff)
  then show "elapsed_ms t \<le> 2 ^ 63" unfolding i by simp
qed

text \<open>A number that is close to one of a reasonable size is rounded without overflow or underflow.\<close>

lemma float_of_near:
  assumes "near c x y" and "0 \<le> c" and "c \<le> 1 / 2" and "c + float_eps + c * float_eps \<le> d"
    and "y = 0 \<or> 2 powi (- 125) \<le> y" and "y \<le> 2 ^ 126"
  shows "float_of s x = Number s (round_float x)" and "near d (round_float x) y" and "0 \<le> round_float x"
proof -
  have y: "0 \<le> y" using assms(5) by (auto intro: less_imp_le less_le_trans [rotated])
  have lo: "x = 0 \<or> 2 powi (- 126) \<le> x"
  proof (cases "y = 0")
    case False
    have "y * (1 / 2) \<le> y * (1 - c)" using y assms(3) by (intro mult_left_mono) simp_all
    then have "y / 2 \<le> x" using assms(1) by (simp add: near_def)
    then have "2 powi (- 125) / 2 \<le> x" using assms(5) False by linarith
    then show ?thesis by (simp add: power_int_minus)
  qed (use assms(1) in \<open>simp add: near_def\<close>)
  then have x: "0 \<le> x" by (auto intro: less_imp_le less_le_trans [rotated])
  have "y * (1 + c) \<le> y * 2" using y assms(3) by (intro mult_left_mono) simp_all
  then have "x \<le> 2 ^ 127" using assms(1,6) by (simp add: near_def)
  then show "float_of s x = Number s (round_float x)" using float_of_small [OF x lo] by simp
  show "near d (round_float x) y" by (rule near_round [OF assms(1,2) _ assms(4) y lo]) (use assms(3) in simp)
  show "0 \<le> round_float x" using x by (rule round_float_nonneg)
qed

lemma ml_timeval_to_ms_near:
  assumes "timeval_ok t" and "0 \<le> tv_sec t" and "tv_sec t < 2 ^ 53" and "0 < elapsed_ms t"
  obtains ms where "ml_timeval_to_ms t = Inr (Number False ms)" and "near (4 * float_eps) ms (elapsed_ms t)" and "0 < ms"
proof -
  let ?u = "of_int (tv_usec t) :: rat"
  have u: "0 \<le> tv_usec t" "tv_usec t < 1000000" using assms(1) by (simp_all add: timeval_ok_def)
  have u': "?u / 1000 = 0 \<or> 2 powi (- 125) \<le> ?u / 1000"
  proof (cases "tv_usec t = 0")
    case False
    then have "1 / 1000 \<le> ?u / 1000" using u(1) by simp
    moreover have "(2 :: rat) powi (- 125) \<le> 1 / 1000" by (simp add: power_int_minus)
    ultimately show ?thesis by linarith
  qed simp
  have "?u / 1000 \<le> 2 ^ 126" using u(2) by simp
  then have m1: "float_of False (?u / 1000) = Number False (round_float (?u / 1000))" "near float_eps (round_float (?u / 1000)) (?u / 1000)"
    using float_of_near [OF near_refl _ _ _ u', where d = float_eps] by simp_all
  have d: "float_div (float_of_int (tv_usec t)) (float_of_int 1000) = Number False (round_float (?u / 1000))"
    using u m1(1) by (simp add: float_of_int_exact)
  have l: "long_mult 1000 (tv_sec t) = Inr (1000 * tv_sec t)" using assms(2,3) by (simp add: long_mult_def)
  obtain m2 where m2: "float_of_int (1000 * tv_sec t) = Number False m2" "near float_eps m2 (of_int (1000 * tv_sec t))"
    using float_of_int_near [of "1000 * tv_sec t"] assms(2,3) by auto
  let ?v = "round_float (?u / 1000) + m2"
  have v: "near float_eps ?v (elapsed_ms t)"
    using near_add [OF m1(2) m2(2)] by (simp add: elapsed_ms_def add.commute)
  note b = elapsed_ms_bounds [OF assms]
  have tiny: "(2 :: rat) powi (- 125) \<le> 1 / 1000" by (simp add: power_int_minus)
  have r: "float_of False ?v = Number False (round_float ?v)" "near (4 * float_eps) (round_float ?v) (elapsed_ms t)"
    using float_of_near [OF v, where d = "4 * float_eps"] b tiny by simp_all
  have "0 < elapsed_ms t * (1 - float_eps)" "0 < elapsed_ms t * (1 - 4 * float_eps)" using assms(4) by simp_all
  then have pos: "0 < ?v" "0 < round_float ?v" using v r(2) by (auto simp: near_def)
  have "ml_timeval_to_ms t = Inr (Number False (round_float ?v))"
    using pos r(1) by (simp add: ml_timeval_to_ms_def d l m2(1) Let_def del: float_div.simps)
  then show thesis using that r(2) pos(2) by blast
qed

lemma transfer_rate_near:
  assumes "near (4 * float_eps) ms t" and "0 < ms" and "1 / 1000 \<le> t" and "t \<le> 2 ^ 63" and "n < 2 ^ 64"
  obtains rate where "float_div (float_div (float_of_int (int n)) (Number False ms)) (float_of_int 1000) = Number False rate"
    and "near (16 * float_eps) rate (of_nat n / t / 1000)"
proof -
  obtain s where s: "float_of_int (int n) = Number False s" "near float_eps s (of_nat n)"
    using float_of_int_near [of "int n"] assms(5) by auto
  have q: "near (6 * float_eps) (s / ms) (of_nat n / t)"
    by (rule near_divide [OF s(2) assms(1)]) (use assms(3) in simp_all)
  have size: "y = 0 \<or> 2 powi (- 125) \<le> y" "y \<le> 2 ^ 126" if "y = of_nat n / t / k" "1 \<le> k" "k \<le> 1000" for y k :: rat
  proof -
    have kt: "0 < k * t" "k * t \<le> 1000 * 2 ^ 63" "1 / 1000 \<le> k * t"
      using that(2,3) assms(3,4) mult_mono [of k 1000 t "2 ^ 63"] mult_mono [of 1 k "1 / 1000" t] by simp_all
    have y: "y = of_nat n / (k * t)" using that(1) by (simp add: mult.commute)
    have "(of_nat n :: rat) \<le> of_nat (2 ^ 64)" using assms(5) by (simp only: of_nat_le_iff)
    then have "y \<le> 2 ^ 64 / (1 / 1000)" unfolding y using kt by (intro frac_le) simp_all
    then show "y \<le> 2 ^ 126" by simp
    show "y = 0 \<or> 2 powi (- 125) \<le> y"
    proof (cases "n = 0")
      case False
      then have "1 / (1000 * 2 ^ 63) \<le> y" unfolding y using kt by (intro frac_le) simp_all
      then show ?thesis by (simp add: power_int_minus)
    qed (simp add: y)
  qed
  have r1: "float_of False (s / ms) = Number False (round_float (s / ms))" "near (8 * float_eps) (round_float (s / ms)) (of_nat n / t)"
    using float_of_near [OF q, where d = "8 * float_eps"] size [of _ 1] by simp_all
  let ?r = "round_float (s / ms) / 1000"
  have "near (8 * float_eps) ?r (of_nat n / t / 1000)" by (rule near_divide_const [OF r1(2)]) simp
  then have r2: "float_of False ?r = Number False (round_float ?r)" "near (16 * float_eps) (round_float ?r) (of_nat n / t / 1000)"
    using float_of_near [of "8 * float_eps" ?r "of_nat n / t / 1000" "16 * float_eps"] size [of "of_nat n / t / 1000" 1000]
    by simp_all
  show thesis
    by (rule that [OF _ r2(2)]) (use assms(2) r1(1) r2(1) in \<open>simp add: s(1) float_of_int_exact\<close>)
qed

section \<open>Property\<close>

lemma timersub_sec:
  assumes "timeval_ok a" and "timeval_ok b" and "elapsed_ms b < elapsed_ms a"
  shows "0 \<le> tv_sec (timersub a b)" and "tv_sec (timersub a b) \<le> tv_sec a - tv_sec b"
proof -
  let ?t = "timersub a b"
  have "(of_int (tv_usec ?t) :: rat) < of_int 1000000"
    using timersub_ok [OF assms(1,2)] by (simp only: of_int_less_iff timeval_ok_def)
  then have "elapsed_ms ?t < 1000 * of_int (tv_sec ?t + 1)" by (simp add: elapsed_ms_def)
  moreover have "0 < elapsed_ms ?t" using assms(3) by (simp add: elapsed_timersub)
  ultimately have "(0 :: rat) < 1000 * of_int (tv_sec ?t + 1)" by (rule less_trans [rotated])
  then have "(0 :: rat) < of_int (tv_sec ?t + 1)" by (rule zero_less_mult_pos) simp
  then show "0 \<le> tv_sec ?t" by (simp only: of_int_0_less_iff)
  show "tv_sec ?t \<le> tv_sec a - tv_sec b" by (simp add: timersub_def Let_def)
qed

lemma dd_summary_near:
  assumes "timeval_ok a" and "timeval_ok b" and "elapsed_ms b < elapsed_ms a" and "tv_sec a - tv_sec b < 2 ^ 53" and "n < 2 ^ 64"
  obtains ms rate where "command_dd_summary nan n b a = Inr (show_nat n @ '' bytes copied in '' @ three_decimals ms
      @ '' ms ('' @ three_decimals rate @ '' MB/s).'' @ newline)"
    and "\<bar>ms - (elapsed_ms a - elapsed_ms b)\<bar> \<le> (elapsed_ms a - elapsed_ms b) / 2 ^ 22"
    and "\<bar>rate - of_nat n / (elapsed_ms a - elapsed_ms b) / 1000\<bar> \<le> of_nat n / (elapsed_ms a - elapsed_ms b) / 1000 / 2 ^ 20"
proof -
  let ?t = "timersub a b"
  note ok = timersub_ok [OF assms(1,2)] and sec = timersub_sec [OF assms(1-3)]
  have t: "tv_sec ?t < 2 ^ 53" "0 < elapsed_ms ?t" using sec(2) assms(3,4) by (simp_all add: elapsed_timersub)
  obtain ms where ms: "ml_timeval_to_ms ?t = Inr (Number False ms)" "near (4 * float_eps) ms (elapsed_ms ?t)" "0 < ms"
    using ml_timeval_to_ms_near [OF ok sec(1) t] by blast
  obtain rate where rate: "float_div (float_div (float_of_int (int n)) (Number False ms)) (float_of_int 1000) = Number False rate"
    "near (16 * float_eps) rate (of_nat n / elapsed_ms ?t / 1000)"
    using transfer_rate_near [OF ms(2,3) elapsed_ms_bounds [OF ok sec(1) t] assms(5)] by blast
  show thesis
    by (rule that [of ms rate]) (use ms(2) rate(2) in \<open>simp_all add: near_abs elapsed_timersub command_dd_summary_def ms(1) rate(1)\<close>)
qed

lemma three_decimals_0: "three_decimals 0 = ''0.000''"
  by (simp add: three_decimals_def round_even_def digit_char_def show_nat.simps char_of_eq_iff)

lemma dd_summary_instant:
  "n < 2 ^ 64 \<Longrightarrow> command_dd_summary nan n t t = Inr (show_nat n @ '' bytes copied in 0.000 ms ('' @ (if n = 0 then nan else ''inf'') @ '' MB/s).'' @ newline)"
proof -
  assume n: "n < 2 ^ 64"
  have z: "float_of_int 0 = Number False 0" "float_of_int 1000 = Number False 1000"
    using float_of_int_exact [of 0] float_of_int_exact [of 1000] by simp_all
  have t: "ml_timeval_to_ms (timersub t t) = Inr (Number False 0)"
    by (simp add: ml_timeval_to_ms_def timersub_def Let_def z long_mult_def float_of_def round_float_def)
  show ?thesis
  proof (cases "n = 0")
    case False
    obtain r where r: "float_of_int (int n) = Number False r" "near float_eps r (of_int (int n))"
      using float_of_int_near [of "int n"] n by auto
    then have "0 < r" using False by (auto simp: near_def intro: less_le_trans [rotated])
    then show ?thesis using False by (simp add: command_dd_summary_def t r(1) z three_decimals_0)
  qed (simp add: command_dd_summary_def t z three_decimals_0)
qed

text \<open>
  C39: when \<open>dd\<close> has copied the bytes, it prints their number, the time it took and the rate. If the clock has gone forward, both numbers are
  decimals of values that floating-point rounding has moved by less than one part in four million and in one million: no
  intermediate result overflows or loses precision. If the clock has not moved, the rate is a division by zero: it
  prints \<open>inf\<close>, or for no bytes whatever stands for NaN.
\<close>

theorem dd_reports_time_and_rate:
  assumes "timeval_ok start_time" and "timeval_ok end_time" and "tv_sec end_time - tv_sec start_time < 2 ^ 53"
    and "command_dd fails open_in open_out malloc_err infile
      (\<lambda>n. case command_dd_summary nan n start_time end_time of Inl _ \<Rightarrow> '''' | Inr line \<Rightarrow> line) argv = Some (0, out, bs)"
  shows "(elapsed_ms start_time < elapsed_ms end_time \<longrightarrow>
      (\<exists>ms rate. out = show_nat (size_of_int (atoi (argv ! 3))) @ '' bytes copied in '' @ three_decimals ms
          @ '' ms ('' @ three_decimals rate @ '' MB/s).'' @ newline
        \<and> \<bar>ms - (elapsed_ms end_time - elapsed_ms start_time)\<bar> \<le> (elapsed_ms end_time - elapsed_ms start_time) / 2 ^ 22
        \<and> \<bar>rate - of_nat (size_of_int (atoi (argv ! 3))) / (elapsed_ms end_time - elapsed_ms start_time) / 1000\<bar>
          \<le> of_nat (size_of_int (atoi (argv ! 3))) / (elapsed_ms end_time - elapsed_ms start_time) / 1000 / 2 ^ 20))
    \<and> (start_time = end_time \<longrightarrow> out = show_nat (size_of_int (atoi (argv ! 3))) @ '' bytes copied in 0.000 ms (''
        @ (if size_of_int (atoi (argv ! 3)) = 0 then nan else ''inf'') @ '' MB/s).'' @ newline)"
proof -
  let ?n = "size_of_int (atoi (argv ! 3))"
  have n: "?n < 2 ^ 64" by (simp add: size_of_int_def nat_less_iff)
  have out: "out = (case command_dd_summary nan ?n start_time end_time of Inl _ \<Rightarrow> '''' | Inr line \<Rightarrow> line)"
    using assms(4) by (auto simp: command_dd_def Let_def EINVAL_def split: if_splits option.splits)
  show ?thesis
  proof (intro conjI impI)
    assume lt: "elapsed_ms start_time < elapsed_ms end_time"
    show "\<exists>ms rate. out = show_nat ?n @ '' bytes copied in '' @ three_decimals ms
          @ '' ms ('' @ three_decimals rate @ '' MB/s).'' @ newline
        \<and> \<bar>ms - (elapsed_ms end_time - elapsed_ms start_time)\<bar> \<le> (elapsed_ms end_time - elapsed_ms start_time) / 2 ^ 22
        \<and> \<bar>rate - of_nat ?n / (elapsed_ms end_time - elapsed_ms start_time) / 1000\<bar>
          \<le> of_nat ?n / (elapsed_ms end_time - elapsed_ms start_time) / 1000 / 2 ^ 20"
    proof -
      obtain ms rate where r: "command_dd_summary nan ?n start_time end_time = Inr (show_nat ?n @ '' bytes copied in ''
          @ three_decimals ms @ '' ms ('' @ three_decimals rate @ '' MB/s).'' @ newline)"
        "\<bar>ms - (elapsed_ms end_time - elapsed_ms start_time)\<bar> \<le> (elapsed_ms end_time - elapsed_ms start_time) / 2 ^ 22"
        "\<bar>rate - of_nat ?n / (elapsed_ms end_time - elapsed_ms start_time) / 1000\<bar>
          \<le> of_nat ?n / (elapsed_ms end_time - elapsed_ms start_time) / 1000 / 2 ^ 20"
        by (rule dd_summary_near [OF assms(2,1) lt assms(3) n])
      show ?thesis by (rule exI [of _ ms], rule exI [of _ rate], intro conjI r(2,3)) (simp only: out r(1) sum.case)
    qed
  next
    assume "start_time = end_time"
    then show "out = show_nat ?n @ '' bytes copied in 0.000 ms (''
        @ (if ?n = 0 then nan else ''inf'') @ '' MB/s).'' @ newline"
      using dd_summary_instant [OF n, of nan end_time] out by simp
  qed
qed

theorem dd_reports_time_and_rate_witness:
  "\<exists>out ms rate. command_dd (\<lambda>_. None) None None None [1, 2, 3]
      (\<lambda>n. case command_dd_summary ''nan'' n \<lparr>tv_sec = 7, tv_usec = 900000\<rparr> \<lparr>tv_sec = 9, tv_usec = 400000\<rparr> of Inl _ \<Rightarrow> '''' | Inr line \<Rightarrow> line)
      [''dd'', ''a'', ''b'', ''2'', ''5''] = Some (0, out, [1, 2])
    \<and> out = show_nat 2 @ '' bytes copied in '' @ three_decimals ms @ '' ms ('' @ three_decimals rate @ '' MB/s).'' @ newline
    \<and> \<bar>ms - 1500\<bar> \<le> 1500 / 2 ^ 22 \<and> \<bar>rate - 2 / 1500000\<bar> \<le> 2 / 1500000 / 2 ^ 20"
proof -
  let ?a = "\<lparr>tv_sec = 7, tv_usec = 900000\<rparr>" and ?b = "\<lparr>tv_sec = 9, tv_usec = 400000\<rparr>"
  let ?line = "\<lambda>n. case command_dd_summary ''nan'' n ?a ?b of Inl _ \<Rightarrow> '''' | Inr line \<Rightarrow> line"
  have n: "atoi ''2'' = 2" "atoi ''5'' = 5" by code_simp+
  have dd: "\<exists>s. ml_dd (\<lambda>_. None) None None None [1, 2, 3] 2 5 = Some (0, s) \<and> dd_out s = [1, 2]"
    by (simp add: ml_dd_def dd_loop.simps [of _ 2] dd_loop.simps [of _ 0] dd_copy_chunk_def Let_def)
  then have run: "command_dd (\<lambda>_. None) None None None [1, 2, 3] ?line [''dd'', ''a'', ''b'', ''2'', ''5''] = Some (0, ?line 2, [1, 2])"
    by (auto simp: command_dd_def n size_of_int_def Let_def)
  have e: "elapsed_ms ?a = 7900" "elapsed_ms ?b = 9400" by (simp_all add: elapsed_ms_def)
  obtain ms rate where "?line 2 = show_nat 2 @ '' bytes copied in '' @ three_decimals ms @ '' ms ('' @ three_decimals rate @ '' MB/s).'' @ newline"
    "\<bar>ms - 1500\<bar> \<le> 1500 / 2 ^ 22" "\<bar>rate - 2 / 1500000\<bar> \<le> 2 / 1500000 / 2 ^ 20"
    using dd_reports_time_and_rate [OF _ _ _ run] by (auto simp: timeval_ok_def e n size_of_int_def)
  then show ?thesis using run by blast
qed

end
