(* ===== verification/Ml_Ownership.thy ===== *)
theory Ml_Ownership
  imports Ml_Module
begin

text \<open>
  Who holds the references to the messages of a program: every reference is in a queue of the program or held by one
  of its threads. \<open>own\<close> says that the counts in memory agree with that, so a message is alive
  exactly as long as somebody can still free it. Each call of the message, queue and bus components (\<open>ml_message.c\<close>,
  \<open>ml_queue.c\<close>, \<open>ml_bus.c\<close>) moves one reference; the programs built from the library argue with these moves only.
\<close>

section \<open>References\<close>

definition refs :: "addr set \<Rightarrow> (addr \<Rightarrow> nat) \<Rightarrow> world \<Rightarrow> addr \<Rightarrow> nat" where
  "refs Q hs w m = queue_refs w Q m + hs m"

text \<open>
  The queues of the program are \<open>Q\<close>, its threads hold \<open>hs m\<close> references to \<open>m\<close>, and \<open>other\<close> is the memory of the rest of
  the process, which the program leaves alone.
\<close>

definition own :: "addr set \<Rightarrow> (addr \<Rightarrow> ml_message_header_t option) \<Rightarrow> (addr \<Rightarrow> nat) \<Rightarrow> world \<Rightarrow> bool" where
  "own Q other hs w \<longleftrightarrow> finite Q \<and> queues_inv w
     \<and> (\<forall>m. if other m \<noteq> None then heap w m = other m \<and> refs Q hs w m = 0 \<and> m < next_addr w
            else if refs Q hs w m = 0 then heap w m = None
            else m < next_addr w \<and> (\<exists>h. heap w m = Some h \<and> count h = int (refs Q hs w m)))"

text \<open>What a message is about; it does not change while the message is alive.\<close>

definition datum :: "world \<Rightarrow> addr \<Rightarrow> (uid \<times> payload) option" where
  "datum w m = map_option (\<lambda>h. (uid_p h, data h)) (heap w m)"

section \<open>The moves\<close>

lemma datum_same_heap: "heap w' = heap w \<Longrightarrow> datum w' = datum w"
  by (simp add: datum_def fun_eq_iff)

lemma own_queues: "own Q other hs w \<Longrightarrow> queue_inv (queues w q)"
  by (simp add: own_def queues_inv_def)

lemma own_live:
  assumes "own Q other hs w" and "0 < refs Q hs w m"
  obtains h where "heap w m = Some h" and "count h = int (refs Q hs w m)" and "other m = None" and "m < next_addr w"
  using assms unfolding own_def by (metis less_irrefl)

lemma own_fresh:
  assumes "own Q other hs w"
  shows "refs Q hs w (next_addr w) = 0" and "other (next_addr w) = None"
  using assms unfolding own_def by (metis less_irrefl)+

lemma own_released:
  assumes "own Q other hs w" and "\<And>m. refs Q hs w m = 0"
  shows "heap w = other"
  using assms unfolding own_def by (metis (no_types, opaque_lifting) ext)

lemma own_initial:
  assumes "finite Q" and "queues_inv w" and "heap_inv w" and "\<And>q. q \<in> Q \<Longrightarrow> contents (queues w q) = []"
  shows "own Q (heap w) (\<lambda>_. 0) w"
proof -
  have "queue_refs w Q m = 0" for m using assms(4) by (simp add: queue_refs_def)
  then show ?thesis using assms by (auto simp: own_def refs_def heap_inv_def)
qed

lemma own_alloc:
  assumes "own Q other hs w" and "ml_message_alloc w u d = Inr (m, w')"
  shows "own Q other (hs(m := 1)) w'" and "hs m = 0" and "datum w' = (datum w)(m \<mapsto> (u, d))"
    and "queues w' = queues w" and "malloc_ok w' = malloc_ok w"
proof -
  note fresh = own_fresh [OF assms(1)]
  have m: "m = next_addr w" and w': "heap w' = (heap w)(m \<mapsto> \<lparr>uid_p = u, count = 1, on_free = None, data = d\<rparr>)"
    "next_addr w' = Suc m" "queues w' = queues w" "malloc_ok w' = malloc_ok w"
    using assms(2) by (auto simp: alloc_Inr)
  show "hs m = 0" using fresh by (simp add: refs_def m)
  have r: "refs Q (hs(m := 1)) w' x = (if x = m then 1 else refs Q hs w x)" for x
    using same_queues(1) [OF w'(3)] fresh by (simp add: refs_def m)
  have s: "if other x \<noteq> None then heap w x = other x \<and> refs Q hs w x = 0 \<and> x < next_addr w
      else if refs Q hs w x = 0 then heap w x = None
      else x < next_addr w \<and> (\<exists>h. heap w x = Some h \<and> count h = int (refs Q hs w x))" for x
    using assms(1) by (simp add: own_def)
  show "own Q other (hs(m := 1)) w'"
    unfolding own_def
  proof (intro conjI allI)
    show "finite Q" "queues_inv w'" using assms(1) same_queues(2) [OF w'(3)] by (simp_all add: own_def)
    show "if other x \<noteq> None then heap w' x = other x \<and> refs Q (hs(m := 1)) w' x = 0 \<and> x < next_addr w'
      else if refs Q (hs(m := 1)) w' x = 0 then heap w' x = None
      else x < next_addr w' \<and> (\<exists>h. heap w' x = Some h \<and> count h = int (refs Q (hs(m := 1)) w' x))" for x
      using s [of x] fresh(2) unfolding r w' by (auto simp: m split: if_splits)
  qed
  show "datum w' = (datum w)(m \<mapsto> (u, d))" by (simp add: datum_def fun_eq_iff w')
qed (use assms(2) in \<open>auto simp: alloc_Inr\<close>)

lemma own_put:
  assumes "own Q other hs w" and "q \<in> Q" and "0 < hs m" and "ml_queue_put w q m = Inr w'"
  shows "own Q other (hs(m := hs m - 1)) w'" and "datum w' = datum w" and "malloc_ok w' = malloc_ok w"
    and "contents (queues w' q) = contents (queues w q) @ [m]" and "q_length (queues w' x) = q_length (queues w x)"
    and "x \<noteq> q \<Longrightarrow> queues w' x = queues w x"
proof -
  have i: "finite Q" "queues_inv w" using assms(1) by (simp_all add: own_def)
  note f = put_frame [OF assms(4)]
  have "refs Q (hs(m := hs m - 1)) w' x = refs Q hs w x" for x
    using queue_refs_put [OF i(2,1) assms(2,4), of x] assms(3) by (simp add: refs_def)
  then show "own Q other (hs(m := hs m - 1)) w'"
    using assms(1) queues_inv_put [OF i(2) assms(4)] f(1,2) by (simp add: own_def)
  show "datum w' = datum w" by (rule datum_same_heap [OF f(1)])
  show "malloc_ok w' = malloc_ok w" by (rule f(3))
  note p = put_contents [OF own_queues [OF assms(1)] assms(4)]
  show "contents (queues w' q) = contents (queues w q) @ [m]" by (rule p(1))
  show o: "x \<noteq> q \<Longrightarrow> queues w' x = queues w x" by (rule put_other [OF assms(4)])
  show "q_length (queues w' x) = q_length (queues w x)" using p(3) o by (cases "x = q") simp_all
qed

lemma own_get:
  assumes "own Q other hs w" and "q \<in> Q" and "ml_queue_get w q = Inr (u, m, w')"
  shows "own Q other (hs(m := hs m + 1)) w'" and "datum w' = datum w" and "malloc_ok w' = malloc_ok w"
    and "contents (queues w q) = m # contents (queues w' q)" and "q_length (queues w' x) = q_length (queues w x)"
    and "x \<noteq> q \<Longrightarrow> queues w' x = queues w x" and "\<exists>d. datum w m = Some (u, d)"
proof -
  have i: "finite Q" "queues_inv w" using assms(1) by (simp_all add: own_def)
  note f = get_frame [OF assms(3)]
  have "refs Q (hs(m := hs m + 1)) w' x = refs Q hs w x" for x
    using queue_refs_get [OF i(2,1) assms(2,3), of x] by (simp add: refs_def)
  then show "own Q other (hs(m := hs m + 1)) w'"
    using assms(1) queues_inv_get [OF i(2) assms(3)] f(1,2) by (simp add: own_def)
  show "datum w' = datum w" by (rule datum_same_heap [OF f(1)])
  show "malloc_ok w' = malloc_ok w" by (rule f(3))
  note p = get_contents [OF own_queues [OF assms(1)] assms(3)]
  show "contents (queues w q) = m # contents (queues w' q)" by (rule p(1))
  show o: "x \<noteq> q \<Longrightarrow> queues w' x = queues w x" using f(6) by simp
  show "q_length (queues w' x) = q_length (queues w x)" using p(3) o by (cases "x = q") simp_all
  show "\<exists>d. datum w m = Some (u, d)" using assms(3) by (auto simp: get_Inr_iff datum_def)
qed

lemma own_queued:
  assumes "own Q other hs w" and "q \<in> Q" and "m \<in> set (contents (queues w q))"
  shows "0 < refs Q hs w m"
proof -
  have "finite Q" using assms(1) by (simp add: own_def)
  then have "count_list (contents (queues w q)) m \<le> queue_refs w Q m"
    unfolding queue_refs_def using member_le_sum [OF assms(2), of "\<lambda>q. count_list (contents (queues w q)) m"] by simp
  moreover have "count_list (contents (queues w q)) m \<noteq> 0" using assms(3) by (simp add: count_list_0_iff)
  ultimately show ?thesis by (simp add: refs_def)
qed

text \<open>A message in a queue of the program is alive: receiving it cannot fail, only wait.\<close>

lemma own_get_total:
  assumes "own Q other hs w" and "q \<in> Q"
  shows "ml_queue_get w q = Inl e \<longleftrightarrow> contents (queues w q) = [] \<and> e = Blocked"
proof (cases "is_empty (queues w q)")
  case True
  then show ?thesis using is_empty_iff [OF own_queues [OF assms(1)], of q] by (auto simp: get_Inl_iff)
next
  case False
  obtain m q' where p: "pop_message (queues w q) = (m, q')" by fastforce
  then have c: "contents (queues w q) = m # contents q'" using contents_pop [OF own_queues [OF assms(1)] False] by blast
  have "0 < refs Q hs w m" using own_queued [OF assms, of m] by (simp add: c)
  then obtain h where "heap w m = Some h" using own_live [OF assms(1)] by blast
  then show ?thesis using False p c by (auto simp: get_Inl_iff)
qed

lemma own_put_total:
  assumes "own Q other hs w"
  shows "ml_queue_put w q m = Inl e \<longleftrightarrow> Suc (length (contents (queues w q))) = q_length (queues w q) \<and> e = Blocked"
  using is_full_iff [OF own_queues [OF assms], of q] fill_level_less [OF own_queues [OF assms], of q]
  by (auto simp: put_Inl_iff)

lemma own_held_live:
  assumes "own Q other hs w" and "0 < hs m"
  obtains h where "heap w m = Some h" and "count h = int (refs Q hs w m)" and "other m = None" and "m < next_addr w"
  using own_live [OF assms(1), of m] assms(2) by (auto simp: refs_def)

lemma own_update:
  assumes "own Q other hs w" and "0 < hs m" and "queues w' = queues w" and "next_addr w' = next_addr w"
    and "\<And>x. x \<noteq> m \<Longrightarrow> heap w' x = heap w x"
    and "if queue_refs w Q m + n = 0 then heap w' m = None else \<exists>h. heap w' m = Some h \<and> count h = int (queue_refs w Q m + n)"
  shows "own Q other (hs(m := n)) w'"
  unfolding own_def
proof (intro conjI allI)
  show "finite Q" "queues_inv w'" using assms(1) same_queues(2) [OF assms(3)] by (simp_all add: own_def)
  have m: "other m = None" "m < next_addr w" using own_held_live [OF assms(1,2)] by blast+
  have r: "refs Q (hs(m := n)) w' x = (if x = m then queue_refs w Q m + n else refs Q hs w x)" for x
    using same_queues(1) [OF assms(3)] by (simp add: refs_def)
  show "if other x \<noteq> None then heap w' x = other x \<and> refs Q (hs(m := n)) w' x = 0 \<and> x < next_addr w'
      else if refs Q (hs(m := n)) w' x = 0 then heap w' x = None
      else x < next_addr w' \<and> (\<exists>h. heap w' x = Some h \<and> count h = int (refs Q (hs(m := n)) w' x))" for x
  proof (cases "x = m")
    case True
    then show ?thesis using m assms(6) unfolding r assms(4) by (simp split: if_splits)
  next
    case False
    then show ?thesis using assms(1) assms(5) [OF False] unfolding r assms(4) own_def by simp
  qed
qed

lemma own_share:
  assumes "own Q other hs w" and "0 < hs m"
  obtains w' where "ml_message_share w m (int n) = Inr w'" and "own Q other (hs(m := hs m + n)) w'"
    and "datum w' = datum w" and "queues w' = queues w" and "malloc_ok w' = malloc_ok w"
proof -
  obtain h where h: "heap w m = Some h" "count h = int (refs Q hs w m)" using own_held_live [OF assms] by blast
  let ?w = "store_header w m (h\<lparr>count := count h + int n\<rparr>)"
  have "own Q other (hs(m := hs m + n)) ?w"
    using h assms(2) by (intro own_update [OF assms]) (simp_all add: refs_def)
  moreover have "datum ?w = datum w" using h(1) by (simp add: datum_def fun_eq_iff)
  ultimately show thesis using that [of ?w] h(1) by (simp add: share_Inr)
qed

lemma own_free:
  assumes "own Q other hs w" and "0 < hs m"
  obtains w' where "ml_message_free w m = Inr w'" and "own Q other (hs(m := hs m - 1)) w'"
    and "\<And>x. 0 < refs Q (hs(m := hs m - 1)) w' x \<Longrightarrow> datum w' x = datum w x"
    and "queues w' = queues w" and "malloc_ok w' = malloc_ok w"
proof -
  obtain h where h: "heap w m = Some h" "count h = int (refs Q hs w m)" using own_held_live [OF assms] by blast
  obtain w' where w': "ml_message_free w m = Inr w'" by (simp add: free_live [OF h(1)])
  have q: "queues w' = queues w" by (rule free_queues [OF w'])
  have f: "next_addr w' = next_addr w" "malloc_ok w' = malloc_ok w" "\<And>x. x \<noteq> m \<Longrightarrow> heap w' x = heap w x"
    using w' by (auto simp: free_live [OF h(1)] free_cell_def call_on_free_def store_header_def split: if_splits option.splits)
  have n: "heap w' m = (if refs Q hs w m = 1 then None else Some (h\<lparr>count := count h - 1\<rparr>))"
    using w' h(2) by (auto simp: free_live [OF h(1)] split: if_splits)
  have "own Q other (hs(m := hs m - 1)) w'"
    using n h(2) assms(2) by (intro own_update [OF assms q f(1,3)]) (auto simp: refs_def)
  moreover have "datum w' x = datum w x" if "0 < refs Q (hs(m := hs m - 1)) w' x" for x
    using that f(3) [of x] n h(1) assms(2) same_queues(1) [OF q] by (cases "x = m") (auto simp: datum_def refs_def)
  ultimately show thesis using that w' q f(2) by blast
qed

section \<open>Broadcasts in two steps\<close>

text \<open>
  \<open>ml_bus_broadcast\<close> looks up the queues and shares the message, then puts it on one queue after the other; other threads
  may run in between. The first part, with the queues that are left:
\<close>

definition broadcast_begin :: "world \<Rightarrow> ml_bus_t \<Rightarrow> addr \<Rightarrow> (addr list \<times> world) res" where
  "broadcast_begin w b m =
     andthen (load_header w m) (\<lambda>h.
       case find_element b (uid_p h) of
         Some i \<Rightarrow>
           (let qs = queues_pp (elems_p b ! i)
            in andthen (ml_message_share w m (int (length qs) - 1)) (\<lambda>w. Inr (qs, w)))
       | None \<Rightarrow> andthen (ml_message_free w m) (\<lambda>w. Inr ([], w)))"

lemma broadcast_split: "ml_bus_broadcast w b m = andthen (broadcast_begin w b m) (\<lambda>(qs, w). put_all w qs m)"
  by (auto simp: ml_bus_broadcast_def broadcast_begin_def andthen_def Let_def split: sum.splits option.splits)

lemma own_broadcast_begin:
  assumes "own Q other hs w" and "0 < hs m" and "datum w m = Some (u, d)" and "bus_inv b" and "subscribers b u \<noteq> []"
  obtains w' where "broadcast_begin w b m = Inr (subscribers b u, w')"
    and "own Q other (hs(m := hs m + (length (subscribers b u) - 1))) w'"
    and "datum w' = datum w" and "queues w' = queues w" and "malloc_ok w' = malloc_ok w"
proof -
  obtain h where h: "heap w m = Some h" "uid_p h = u" using assms(3) by (auto simp: datum_def)
  obtain i where i: "find_element b u = Some i" using assms(4,5) find_element_None [of b u] by auto
  then have qs: "queues_pp (elems_p b ! i) = subscribers b u" using subscribers_find assms(4) by simp
  have n: "int (length (subscribers b u)) - 1 = int (length (subscribers b u) - 1)"
    using assms(5) by (cases "subscribers b u") simp_all
  obtain w' where w': "ml_message_share w m (int (length (subscribers b u) - 1)) = Inr w'"
    "own Q other (hs(m := hs m + (length (subscribers b u) - 1))) w'"
    "datum w' = datum w" "queues w' = queues w" "malloc_ok w' = malloc_ok w"
    using own_share [OF assms(1,2)] by blast
  have "broadcast_begin w b m = Inr (subscribers b u, w')"
    using w'(1) [folded n] h i qs by (simp add: broadcast_begin_def load_header_def Let_def)
  then show thesis using that w'(2-5) by blast
qed

text \<open>What a thread holds is alive, and keeps its identifier and data when another reference is freed.\<close>

lemma own_holds: "0 < hs m \<Longrightarrow> 0 < refs Q hs w m"
  by (simp add: refs_def)

text \<open>The calls that return, seen from the thread that makes them.\<close>

lemma own_freeD:
  assumes "own Q other hs w" and "0 < hs m" and "ml_message_free w m = Inr w'"
  shows "own Q other (hs(m := hs m - 1)) w'" and "queues w' = queues w" and "malloc_ok w' = malloc_ok w"
    and "0 < refs Q (hs(m := hs m - 1)) w' x \<Longrightarrow> datum w' x = datum w x"
  using own_free [OF assms(1,2)] assms(3) by (metis sum.inject(2))+

lemma own_broadcast_beginD:
  assumes "own Q other hs w" and "0 < hs m" and "datum w m = Some (u, d)" and "bus_inv b" and "subscribers b u \<noteq> []"
    and "broadcast_begin w b m = Inr (qs, w')"
  shows "qs = subscribers b u" and "own Q other (hs(m := hs m + (length (subscribers b u) - 1))) w'"
    and "datum w' = datum w" and "queues w' = queues w" and "malloc_ok w' = malloc_ok w"
  using own_broadcast_begin [OF assms(1-5)] assms(6) by (metis Inr_inject prod.inject)+

lemma own_cong: "own Q other hs w \<Longrightarrow> (\<And>x. hs' x = hs x) \<Longrightarrow> own Q other hs' w"
  by (metis ext)

text \<open>
  Between two states, the data of the messages that are referenced in both is the same. The calls of the library all
  keep it, whoever makes them.
\<close>

definition keeps :: "addr set \<Rightarrow> (addr \<Rightarrow> nat) \<Rightarrow> world \<Rightarrow> (addr \<Rightarrow> nat) \<Rightarrow> world \<Rightarrow> bool" where
  "keeps Q hs w hs' w' \<longleftrightarrow> (\<forall>x. 0 < refs Q hs w x \<longrightarrow> 0 < refs Q hs' w' x \<longrightarrow> datum w' x = datum w x)"

lemma keeps_datum: "datum w' = datum w \<Longrightarrow> keeps Q hs w hs' w'"
  by (simp add: keeps_def)

lemma keeps_alloc:
  assumes "own Q other hs w" and "ml_message_alloc w u d = Inr (m, w')"
  shows "keeps Q hs w (hs(m := 1)) w'"
  using own_alloc(3) [OF assms] own_fresh(1) [OF assms(1)] assms(2) by (auto simp: keeps_def alloc_Inr)

lemma keeps_free:
  assumes "own Q other hs w" and "0 < hs m" and "ml_message_free w m = Inr w'"
  shows "keeps Q hs w (hs(m := hs m - 1)) w'"
  using own_freeD(4) [OF assms] by (simp add: keeps_def)

lemma keeps_queued:
  assumes "keeps Q hs w hs' w'" and "own Q other hs w" and "own Q other hs' w'" and "q \<in> Q"
    and "m \<in> set (contents (queues w q))" and "m \<in> set (contents (queues w' q))"
  shows "datum w' m = datum w m"
  using assms(1) own_queued [OF assms(2,4,5)] own_queued [OF assms(3,4,6)] by (simp add: keeps_def)

lemma keeps_held: "keeps Q hs w hs' w' \<Longrightarrow> 0 < hs m \<Longrightarrow> 0 < hs' m \<Longrightarrow> datum w' m = datum w m"
  by (simp add: keeps_def own_holds)

lemma own_alloc_total:
  assumes "\<And>n. malloc_ok w n"
  shows "\<exists>m w'. ml_message_alloc w u d = Inr (m, w')"
  using assms by (auto simp: alloc_Inr)

section \<open>Setting up a program\<close>

text \<open>The calls of \<open>main\<close> that make a queue of the program and subscribe it, on the module \<open>ml_init\<close> has made.\<close>

lemma set_world_simps [simp]:
  "mod_world (set_world w M) = w" "mod_bus (set_world w M) = mod_bus M"
  by (simp_all add: set_world_def)

definition queue_init :: "addr \<Rightarrow> nat \<Rightarrow> ml_module \<Rightarrow> ml_module res" where
  "queue_init q len M = andthen (ml_queue_init (mod_world M) q len) (\<lambda>w. Inr (set_world w M))"

lemma queue_init_step:
  assumes "queue_init q len M = Inr M'" and "world_ok (mod_world M)"
  shows "world_ok (mod_world M')" and "mod_bus M' = mod_bus M" and "heap (mod_world M') = heap (mod_world M)"
    and "malloc_ok (mod_world M') = malloc_ok (mod_world M)"
    and "x \<noteq> q \<Longrightarrow> queues (mod_world M') x = queues (mod_world M) x"
    and "contents (queues (mod_world M') q) = []" and "q_length (queues (mod_world M') q) = len + 1"
proof -
  obtain w where w: "ml_queue_init (mod_world M) q len = Inr w" and M': "M' = set_world w M"
    using assms(1) by (auto simp: queue_init_def andthen_eq_Inr)
  note q = queue_init_queue [OF w]
  have f: "heap w = heap (mod_world M)" "malloc_ok w = malloc_ok (mod_world M)" "next_addr w = Suc (next_addr (mod_world M))"
    "queues w = (queues (mod_world M))(q := queues w q)"
    using w by (auto simp: ml_queue_init_def xmalloc_def andthen_eq_Inr split: if_splits)
  have "queue_inv (queues w x)" for x
    using q(1) assms(2) f(4) by (metis fun_upd_other queues_inv_def world_ok_def)
  moreover have "heap_inv w" using assms(2) f(1,3) by (auto simp: world_ok_def heap_inv_def less_SucI)
  ultimately show "world_ok (mod_world M')" by (simp add: world_ok_def queues_inv_def M')
  show "x \<noteq> q \<Longrightarrow> queues (mod_world M') x = queues (mod_world M) x"
    using fun_cong [OF f(4), of x] by (simp add: M')
  show "mod_bus M' = mod_bus M" "heap (mod_world M') = heap (mod_world M)" "malloc_ok (mod_world M') = malloc_ok (mod_world M)"
    "contents (queues (mod_world M') q) = []" "q_length (queues (mod_world M') q) = len + 1"
    using f q by (simp_all add: M')
qed

lemma queue_init_returns: "(\<And>n. malloc_ok (mod_world M) n) \<Longrightarrow> \<exists>M'. queue_init q len M = Inr M'"
  by (simp add: queue_init_def ml_queue_init_def xmalloc_def)

lemma subscribe_ready:
  assumes "bus_inv (mod_bus M)" and "world_ok (mod_world M)" and "\<And>n. malloc_ok (mod_world M) n"
  shows "\<exists>M'. ml_subscribe q u M = Inr M' \<and> bus_inv (mod_bus M') \<and> world_ok (mod_world M')
    \<and> subscribers (mod_bus M') = (subscribers (mod_bus M))(u := subscribers (mod_bus M) u @ [q])
    \<and> heap (mod_world M') = heap (mod_world M) \<and> queues (mod_world M') = queues (mod_world M)
    \<and> malloc_ok (mod_world M') = malloc_ok (mod_world M)"
proof -
  obtain b w where r: "ml_bus_subscribe (mod_world M) (mod_bus M) q u = Inr (b, w)"
    using subscribe_returns [OF assms(1,3)] by fastforce
  then have M': "ml_subscribe q u M = Inr (set_world w (M\<lparr>mod_bus := b\<rparr>))" by (simp add: ml_subscribe_def)
  show ?thesis
    using M' subscribe_step [OF assms(1) M'] world_ok_subscribe [OF assms(2) r] by auto
qed

text \<open>One queue of the program: initialised, then subscribed.\<close>

lemma queue_and_subscription:
  assumes "bus_inv (mod_bus M)" and "world_ok (mod_world M)" and "\<And>n. malloc_ok (mod_world M) n"
  shows "\<exists>M1 M2. queue_init q 32 M = Inr M1 \<and> ml_subscribe q u M1 = Inr M2
    \<and> bus_inv (mod_bus M2) \<and> world_ok (mod_world M2) \<and> (\<forall>n. malloc_ok (mod_world M2) n)
    \<and> subscribers (mod_bus M2) = (subscribers (mod_bus M))(u := subscribers (mod_bus M) u @ [q])
    \<and> heap (mod_world M2) = heap (mod_world M)
    \<and> contents (queues (mod_world M2) q) = [] \<and> q_length (queues (mod_world M2) q) = 33
    \<and> (\<forall>x. x \<noteq> q \<longrightarrow> queues (mod_world M2) x = queues (mod_world M) x)"
proof -
  obtain M1 where M1: "queue_init q 32 M = Inr M1" using queue_init_returns [OF assms(3)] by blast
  note e = queue_init_step [OF M1 assms(2)]
  obtain M2 where "ml_subscribe q u M1 = Inr M2 \<and> bus_inv (mod_bus M2) \<and> world_ok (mod_world M2)
      \<and> subscribers (mod_bus M2) = (subscribers (mod_bus M1))(u := subscribers (mod_bus M1) u @ [q])
      \<and> heap (mod_world M2) = heap (mod_world M1) \<and> queues (mod_world M2) = queues (mod_world M1)
      \<and> malloc_ok (mod_world M2) = malloc_ok (mod_world M1)"
    using subscribe_ready [of M1 q u] assms e(1,2,4) by auto
  then show ?thesis
    using M1 e assms(3) by (intro exI [of _ M1] exI [of _ M2]) simp
qed

end
