(* ===== verification/Ml_Example_Bus.thy ===== *)
theory Ml_Example_Bus
  imports Ml_Ownership
begin

text \<open>
  The program \<open>src/examples/bus/main.c\<close>: thread \<open>a\<close> broadcasts a ping to the threads \<open>b_1\<close> and \<open>b_2\<close>, each of them
  broadcasts a pong, and \<open>a\<close> waits for both. Every step of a thread is one call of the library (a broadcast is
  its lookup and one step per queue), so all interleavings of the calls are covered. A thread waiting for a message is a
  step that is \<open>Blocked\<close>, and so is one that has returned.
\<close>

section \<open>The program\<close>

text \<open>The addresses of the static variables.\<close>

record bus_statics =
  ping :: uid
  pong :: uid
  queue_a :: addr
  queue_b_1 :: addr
  queue_b_2 :: addr

definition statics_ok :: "bus_statics \<Rightarrow> bool" where
  "statics_ok S \<longleftrightarrow> ping S \<noteq> pong S \<and> distinct [queue_a S, queue_b_1 S, queue_b_2 S]"

text \<open>Where a thread is, with its local variables.\<close>

datatype a_at =
    A_Start
  | A_Broadcast addr
  | A_Putting addr "addr list"
  | A_Wait nat
  | A_Got nat addr
  | A_Ended

datatype b_at =
    B_Wait
  | B_Got uid addr
  | B_Ping
  | B_Broadcast addr
  | B_Putting addr "addr list"
  | B_Ended

definition a_main :: "bus_statics \<Rightarrow> a_at \<Rightarrow> ml_module \<Rightarrow> (a_at \<times> string list \<times> ml_module) res" where
  "a_main S at M =
     (let w = mod_world M in
      case at of
        A_Start \<Rightarrow> andthen (ml_message_alloc w (ping S) NoData) (\<lambda>(m, w).
          Inr (A_Broadcast m, [''Broadcasting ping!''], set_world w M))
      | A_Broadcast m \<Rightarrow> andthen (broadcast_begin w (mod_bus M) m) (\<lambda>(qs, w). Inr (A_Putting m qs, [], set_world w M))
      | A_Putting m qs \<Rightarrow>
          (case qs of
             [] \<Rightarrow> Inr (A_Wait 0, [], M)
           | q # qs \<Rightarrow> andthen (ml_queue_put w q m) (\<lambda>w. Inr (A_Putting m qs, [], set_world w M)))
      | A_Wait i \<Rightarrow>
          (if i < 2
           then andthen (ml_queue_get w (queue_a S)) (\<lambda>(u, m, w).
             Inr (A_Got i m, if u = pong S then [''Got pong!''] else [], set_world w M))
           else Inr (A_Ended, [], M))
      | A_Got i m \<Rightarrow> andthen (ml_message_free w m) (\<lambda>w. Inr (A_Wait (Suc i), [], set_world w M))
      | A_Ended \<Rightarrow> Inl Blocked)"

definition b_main :: "bus_statics \<Rightarrow> addr \<Rightarrow> b_at \<Rightarrow> ml_module \<Rightarrow> (b_at \<times> string list \<times> ml_module) res" where
  "b_main S q at M =
     (let w = mod_world M in
      case at of
        B_Wait \<Rightarrow> andthen (ml_queue_get w q) (\<lambda>(u, m, w). Inr (B_Got u m, [], set_world w M))
      | B_Got u m \<Rightarrow> andthen (ml_message_free w m) (\<lambda>w.
          Inr (if u = ping S then (B_Ping, [''Got ping!''], set_world w M) else (B_Ended, [], set_world w M)))
      | B_Ping \<Rightarrow> andthen (ml_message_alloc w (pong S) NoData) (\<lambda>(m, w).
          Inr (B_Broadcast m, [''Broadcasting pong!''], set_world w M))
      | B_Broadcast m \<Rightarrow> andthen (broadcast_begin w (mod_bus M) m) (\<lambda>(qs, w). Inr (B_Putting m qs, [], set_world w M))
      | B_Putting m qs \<Rightarrow>
          (case qs of
             [] \<Rightarrow> Inr (B_Ended, [], M)
           | q # qs \<Rightarrow> andthen (ml_queue_put w q m) (\<lambda>w. Inr (B_Putting m qs, [], set_world w M)))
      | B_Ended \<Rightarrow> Inl Blocked)"

text \<open>The three threads, what they have printed, and one step of one of them.\<close>

record bus_app =
  app_module :: ml_module
  a_thread :: a_at
  b_1_thread :: b_at
  b_2_thread :: b_at
  infos :: "string list"

datatype bus_thread = Thread_a | Thread_b_1 | Thread_b_2

fun thread_step :: "bus_statics \<Rightarrow> bus_thread \<Rightarrow> bus_app \<Rightarrow> bus_app res" where
  "thread_step S Thread_a s =
     andthen (a_main S (a_thread s) (app_module s)) (\<lambda>(at, out, M).
       Inr (s\<lparr>app_module := M, a_thread := at, infos := infos s @ out\<rparr>))"
| "thread_step S Thread_b_1 s =
     andthen (b_main S (queue_b_1 S) (b_1_thread s) (app_module s)) (\<lambda>(at, out, M).
       Inr (s\<lparr>app_module := M, b_1_thread := at, infos := infos s @ out\<rparr>))"
| "thread_step S Thread_b_2 s =
     andthen (b_main S (queue_b_2 S) (b_2_thread s) (app_module s)) (\<lambda>(at, out, M).
       Inr (s\<lparr>app_module := M, b_2_thread := at, infos := infos s @ out\<rparr>))"

definition app_step :: "bus_statics \<Rightarrow> bus_app \<Rightarrow> bus_app \<Rightarrow> bool" where
  "app_step S s t \<longleftrightarrow> (\<exists>th. thread_step S th s = Inr t)"

text \<open>\<open>main\<close>: its initialisations, the threads it creates, and the state in which its three joins return.\<close>

definition bus_main :: "bus_statics \<Rightarrow> ml_module \<Rightarrow> bus_app res" where
  "bus_main S M =
     andthen (queue_init (queue_a S) 32 M) (\<lambda>M.
     andthen (ml_subscribe (queue_a S) (pong S) M) (\<lambda>M.
     andthen (queue_init (queue_b_1 S) 32 M) (\<lambda>M.
     andthen (ml_subscribe (queue_b_1 S) (ping S) M) (\<lambda>M.
     andthen (queue_init (queue_b_2 S) 32 M) (\<lambda>M.
     andthen (ml_subscribe (queue_b_2 S) (ping S) M) (\<lambda>M.
       Inr \<lparr>app_module = M, a_thread = A_Start, b_1_thread = B_Wait, b_2_thread = B_Wait, infos = []\<rparr>))))))"

definition all_joined :: "bus_app \<Rightarrow> bool" where
  "all_joined s \<longleftrightarrow> a_thread s = A_Ended \<and> b_1_thread s = B_Ended \<and> b_2_thread s = B_Ended"

section \<open>The invariant\<close>

text \<open>The references a thread holds, and what it has still to do.\<close>

fun a_holds :: "a_at \<Rightarrow> addr \<Rightarrow> nat" where
  "a_holds (A_Broadcast m) x = (if x = m then 1 else 0)"
| "a_holds (A_Putting m qs) x = (if x = m then length qs else 0)"
| "a_holds (A_Got i m) x = (if x = m then 1 else 0)"
| "a_holds _ x = 0"

fun b_holds :: "b_at \<Rightarrow> addr \<Rightarrow> nat" where
  "b_holds (B_Got u m) x = (if x = m then 1 else 0)"
| "b_holds (B_Broadcast m) x = (if x = m then 1 else 0)"
| "b_holds (B_Putting m qs) x = (if x = m then length qs else 0)"
| "b_holds _ x = 0"

fun a_unsent :: "a_at \<Rightarrow> addr \<Rightarrow> nat" where
  "a_unsent A_Start q = 1"
| "a_unsent (A_Broadcast m) q = 1"
| "a_unsent (A_Putting m qs) q = count_list qs q"
| "a_unsent _ q = 0"

fun a_got :: "a_at \<Rightarrow> nat" where
  "a_got (A_Wait i) = i"
| "a_got (A_Got i m) = Suc i"
| "a_got A_Ended = 2"
| "a_got _ = 0"

fun b_received :: "b_at \<Rightarrow> nat" where
  "b_received B_Wait = 0"
| "b_received _ = 1"

fun b_pinged :: "b_at \<Rightarrow> nat" where
  "b_pinged B_Wait = 0"
| "b_pinged (B_Got u m) = 0"
| "b_pinged _ = 1"

fun b_unsent :: "b_at \<Rightarrow> nat" where
  "b_unsent (B_Putting m qs) = length qs"
| "b_unsent B_Ended = 0"
| "b_unsent _ = 1"

text \<open>The messages a thread holds are what it takes them for.\<close>

fun a_ok :: "bus_statics \<Rightarrow> (addr \<Rightarrow> (uid \<times> payload) option) \<Rightarrow> a_at \<Rightarrow> bool" where
  "a_ok S d (A_Broadcast m) \<longleftrightarrow> d m = Some (ping S, NoData)"
| "a_ok S d (A_Putting m qs) \<longleftrightarrow> qs = [] \<or> d m = Some (ping S, NoData) \<and> (qs = [queue_b_2 S] \<or> qs = [queue_b_1 S, queue_b_2 S])"
| "a_ok S d (A_Wait i) \<longleftrightarrow> i \<le> 2"
| "a_ok S d (A_Got i m) \<longleftrightarrow> i < 2"
| "a_ok S d _ \<longleftrightarrow> True"

fun b_ok :: "bus_statics \<Rightarrow> (addr \<Rightarrow> (uid \<times> payload) option) \<Rightarrow> b_at \<Rightarrow> bool" where
  "b_ok S d (B_Got u m) \<longleftrightarrow> u = ping S"
| "b_ok S d (B_Broadcast m) \<longleftrightarrow> d m = Some (pong S, NoData)"
| "b_ok S d (B_Putting m qs) \<longleftrightarrow> qs = [] \<or> d m = Some (pong S, NoData) \<and> qs = [queue_a S]"
| "b_ok S d _ \<longleftrightarrow> True"

text \<open>
  The memory and the queues; then the messages under way. The two \<open>b\<close> threads with their queues may be swapped, so the
  steps of \<open>b\<close> are looked at once.
\<close>

abbreviation bus_queues :: "bus_statics \<Rightarrow> addr set" where
  "bus_queues S \<equiv> {queue_a S, queue_b_1 S, queue_b_2 S}"

definition module_ready :: "bus_statics \<Rightarrow> ml_module \<Rightarrow> bool" where
  "module_ready S M \<longleftrightarrow> bus_inv (mod_bus M)
     \<and> subscribers (mod_bus M) (ping S) = [queue_b_1 S, queue_b_2 S] \<and> subscribers (mod_bus M) (pong S) = [queue_a S]
     \<and> (\<forall>n. malloc_ok (mod_world M) n) \<and> (\<forall>q \<in> bus_queues S. q_length (queues (mod_world M) q) = 33)"

definition holds :: "a_at \<Rightarrow> b_at \<Rightarrow> b_at \<Rightarrow> addr \<Rightarrow> nat" where
  "holds a b b' x = a_holds a x + b_holds b x + b_holds b' x"

definition queue_of_kind :: "world \<Rightarrow> addr \<Rightarrow> uid \<Rightarrow> bool" where
  "queue_of_kind w q u \<longleftrightarrow> (\<forall>m \<in> set (contents (queues w q)). datum w m = Some (u, NoData))"

definition level :: "world \<Rightarrow> addr \<Rightarrow> nat" where
  "level w q = length (contents (queues w q))"

definition tokens :: "bus_statics \<Rightarrow> world \<Rightarrow> a_at \<Rightarrow> b_at \<Rightarrow> addr \<Rightarrow> b_at \<Rightarrow> addr \<Rightarrow> string list \<Rightarrow> bool" where
  "tokens S w a b q b' q' out \<longleftrightarrow>
     a_got a + level w (queue_a S) + b_unsent b + b_unsent b' = 2
     \<and> level w q + a_unsent a q + b_received b = 1 \<and> level w q' + a_unsent a q' + b_received b' = 1
     \<and> count_list out ''Got pong!'' = a_got a \<and> count_list out ''Got ping!'' = b_pinged b + b_pinged b'"

definition kinds :: "bus_statics \<Rightarrow> world \<Rightarrow> a_at \<Rightarrow> b_at \<Rightarrow> b_at \<Rightarrow> bool" where
  "kinds S w a b b' \<longleftrightarrow> queue_of_kind w (queue_a S) (pong S)
     \<and> queue_of_kind w (queue_b_1 S) (ping S) \<and> queue_of_kind w (queue_b_2 S) (ping S)
     \<and> a_ok S (datum w) a \<and> b_ok S (datum w) b \<and> b_ok S (datum w) b'"

definition bus_ok :: "bus_statics \<Rightarrow> (addr \<Rightarrow> ml_message_header_t option) \<Rightarrow> ml_module \<Rightarrow> a_at
    \<Rightarrow> b_at \<Rightarrow> addr \<Rightarrow> b_at \<Rightarrow> addr \<Rightarrow> string list \<Rightarrow> bool" where
  "bus_ok S other M a b q b' q' out \<longleftrightarrow>
     own (bus_queues S) other (holds a b b') (mod_world M) \<and> module_ready S M
     \<and> kinds S (mod_world M) a b b' \<and> tokens S (mod_world M) a b q b' q' out"

lemma bus_ok_swap: "bus_ok S other M a b q b' q' out = bus_ok S other M a b' q' b q out"
  by (auto simp: bus_ok_def kinds_def tokens_def holds_def [abs_def] add.commute add.left_commute)

lemma level_put: "contents (queues w' q) = contents (queues w q) @ [m] \<Longrightarrow> level w' q = Suc (level w q)"
  by (simp add: level_def del: length_contents)

lemma level_get: "contents (queues w q) = m # contents (queues w' q) \<Longrightarrow> level w q = Suc (level w' q)"
  by (simp add: level_def del: length_contents)

lemma level_same: "queues w' q = queues w q \<Longrightarrow> level w' q = level w q"
  by (simp add: level_def)

lemma a_ok_cong: "a_ok S d a \<Longrightarrow> (\<And>x. 0 < a_holds a x \<Longrightarrow> d' x = d x) \<Longrightarrow> a_ok S d' a"
  by (cases a) auto

lemma b_ok_cong: "b_ok S d b \<Longrightarrow> (\<And>x. 0 < b_holds b x \<Longrightarrow> d' x = d x) \<Longrightarrow> b_ok S d' b"
  by (cases b) auto

text \<open>What a step of one thread leaves to the others.\<close>

lemma queue_kept:
  assumes "queue_of_kind w q u" and "keeps Q hs w hs' w'" and "own Q other hs w" and "own Q other hs' w'" and "q \<in> Q"
    and "set (contents (queues w' q)) \<subseteq> set (contents (queues w q))"
  shows "queue_of_kind w' q u"
  using assms(1,6) keeps_queued [OF assms(2-5)] unfolding queue_of_kind_def by auto

lemma module_ready_step:
  assumes "module_ready S M" and "malloc_ok w = malloc_ok (mod_world M)"
    and "\<And>q. q_length (queues w q) = q_length (queues (mod_world M) q)"
  shows "module_ready S (set_world w M)"
  using assms by (simp add: module_ready_def)

lemma a_step_ok:
  assumes "statics_ok S" and "bus_ok S other M a b (queue_b_1 S) b' (queue_b_2 S) out" and "a_main S a M = Inr (a', o', M')"
  shows "bus_ok S other M' a' b (queue_b_1 S) b' (queue_b_2 S) (out @ o')"
proof -
  let ?Q = "bus_queues S"
  let ?w = "mod_world M"
  let ?hs = "holds a b b'"
  let ?hs' = "holds a' b b'"
  have own: "own ?Q other ?hs ?w" and rd: "module_ready S M" and kd: "kinds S ?w a b b'"
    and tk: "tokens S ?w a b (queue_b_1 S) b' (queue_b_2 S) out"
    using assms(2) by (simp_all add: bus_ok_def)
  have S: "ping S \<noteq> pong S" "queue_a S \<noteq> queue_b_1 S" "queue_a S \<noteq> queue_b_2 S" "queue_b_1 S \<noteq> queue_b_2 S"
    using assms(1) by (auto simp: statics_ok_def)
  have kept: "kinds S w' a' b b'"
    if "own ?Q other ?hs' w'" "keeps ?Q ?hs ?w ?hs' w'" "a_ok S (datum w') a'"
      "\<And>q. q \<in> ?Q \<Longrightarrow> set (contents (queues w' q)) \<subseteq> set (contents (queues ?w q))" for w'
  proof -
    have "datum w' x = datum ?w x" if "0 < b_holds b x \<or> 0 < b_holds b' x" for x
      using keeps_held [OF \<open>keeps ?Q ?hs ?w ?hs' w'\<close>, of x] that by (auto simp: holds_def)
    then have "b_ok S (datum w') b" "b_ok S (datum w') b'"
      using kd b_ok_cong [of S "datum ?w" _ "datum w'"] unfolding kinds_def by blast+
    then show ?thesis
      using kd that(3) queue_kept [OF _ that(2) own that(1)] that(4) unfolding kinds_def by blast
  qed
  show ?thesis
  proof (cases a)
    case A_Start
    then obtain m w' where w': "ml_message_alloc ?w (ping S) NoData = Inr (m, w')"
      and r: "a' = A_Broadcast m" "o' = [''Broadcasting ping!'']" "M' = set_world w' M"
      using assms(3) by (auto simp: a_main_def andthen_eq_Inr)
    note e = own_alloc [OF own w']
    have hs: "?hs' x = (?hs(m := 1)) x" for x using e(2) A_Start r(1) by (simp add: holds_def)
    have "own ?Q other ?hs' w'" by (rule own_cong [OF e(1) hs])
    moreover have "keeps ?Q ?hs ?w ?hs' w'" using keeps_alloc [OF own w'] by (metis ext hs)
    ultimately show ?thesis
      using kept [of w'] e(3,4,5) rd tk A_Start r
      by (simp add: bus_ok_def module_ready_step tokens_def level_def)
  next
    case (A_Broadcast m)
    then obtain qs w' where w': "broadcast_begin ?w (mod_bus M) m = Inr (qs, w')"
      and r: "a' = A_Putting m qs" "o' = []" "M' = set_world w' M"
      using assms(3) by (auto simp: a_main_def andthen_eq_Inr)
    have m: "0 < ?hs m" "datum ?w m = Some (ping S, NoData)"
      using kd A_Broadcast by (simp_all add: holds_def kinds_def)
    have bus: "bus_inv (mod_bus M)" "subscribers (mod_bus M) (ping S) = [queue_b_1 S, queue_b_2 S]"
      using rd by (simp_all add: module_ready_def)
    note e = own_broadcast_beginD [OF own m bus(1) _ w', unfolded bus(2)]
    have own': "own ?Q other ?hs' w'"
      using e(1,2) by (intro own_cong [OF e(2)]) (auto simp: holds_def A_Broadcast r)
    then show ?thesis
      using kept [OF own' keeps_datum] e m rd tk A_Broadcast r S
      by (simp add: bus_ok_def module_ready_step tokens_def level_def)
  next
    case (A_Putting m qs)
    show ?thesis
    proof (cases qs)
      case Nil
      then have "a' = A_Wait 0" "o' = []" "M' = M" using assms(3) A_Putting by (auto simp: a_main_def)
      moreover have "?hs' x = ?hs x" for x by (simp add: holds_def calculation A_Putting Nil)
      ultimately show ?thesis
        using own own_cong [OF own] kd rd tk A_Putting Nil
        by (simp add: bus_ok_def kinds_def tokens_def level_def)
    next
      case (Cons q ps)
      then obtain w' where w': "ml_queue_put ?w q m = Inr w'"
        and r: "a' = A_Putting m ps" "o' = []" "M' = set_world w' M"
        using assms(3) A_Putting by (auto simp: a_main_def andthen_eq_Inr)
      have m: "0 < ?hs m" "datum ?w m = Some (ping S, NoData)" and q: "q \<in> ?Q"
        and qs: "q = queue_b_2 S \<and> ps = [] \<or> q = queue_b_1 S \<and> ps = [queue_b_2 S]"
        using kd A_Putting Cons by (auto simp: holds_def kinds_def)
      note e = own_put [OF own q m(1) w']
      have own': "own ?Q other ?hs' w'"
        by (intro own_cong [OF e(1)]) (auto simp: holds_def A_Putting r Cons)
      have "queue_of_kind w' q (ping S)" using kd e(2,4) m(2) qs by (auto simp: kinds_def queue_of_kind_def)
      moreover have "queue_of_kind w' x u" if "x \<noteq> q" "queue_of_kind ?w x u" for x u
        using that e(2,6) by (simp add: queue_of_kind_def)
      ultimately have "kinds S w' a' b b'"
        using kd e(2) qs S m(2) unfolding kinds_def r(1) by (metis a_ok.simps(2))
      moreover have "tokens S w' a' b (queue_b_1 S) b' (queue_b_2 S) out"
        using tk level_put [OF e(4)] level_same [OF e(6)] qs S by (auto simp: tokens_def A_Putting Cons r)
      ultimately show ?thesis
        using own' rd e(3,5) by (simp add: bus_ok_def module_ready_step r)
    qed
  next
    case (A_Wait i)
    show ?thesis
    proof (cases "i < 2")
      case False
      then have i: "a' = A_Ended" "o' = []" "M' = M" "i = 2"
        using assms(3) A_Wait kd by (auto simp: a_main_def kinds_def)
      moreover have "?hs' x = ?hs x" for x by (simp add: holds_def i A_Wait)
      ultimately show ?thesis
        using own own_cong [OF own] kd rd tk A_Wait by (simp add: bus_ok_def kinds_def tokens_def level_def)
    next
      case True
      then obtain u m w' where w': "ml_queue_get ?w (queue_a S) = Inr (u, m, w')"
        and r: "a' = A_Got i m" "o' = (if u = pong S then [''Got pong!''] else [])" "M' = set_world w' M"
        using assms(3) A_Wait by (auto simp: a_main_def andthen_eq_Inr)
      have q: "queue_a S \<in> ?Q" by simp
      note e = own_get [OF own q w']
      have own': "own ?Q other ?hs' w'"
        by (intro own_cong [OF e(1)]) (auto simp: holds_def A_Wait r)
      have sub: "set (contents (queues w' x)) \<subseteq> set (contents (queues ?w x))" for x
        using e(4,6) by (cases "x = queue_a S") auto
      have "u = pong S" using kd e(4,7) by (auto simp: kinds_def queue_of_kind_def)
      then show ?thesis
        using own' kept [OF own' keeps_datum [OF e(2)] _ sub] True e(3-6) rd tk A_Wait r S
        by (simp add: bus_ok_def module_ready_step tokens_def level_def)
    qed
  next
    case (A_Got i m)
    then obtain w' where w': "ml_message_free ?w m = Inr w'"
      and r: "a' = A_Wait (Suc i)" "o' = []" "M' = set_world w' M"
      using assms(3) by (auto simp: a_main_def andthen_eq_Inr)
    have m: "0 < ?hs m" by (simp add: holds_def A_Got)
    note e = own_freeD [OF own m w']
    have hs: "?hs' x = (?hs(m := ?hs m - 1)) x" for x by (simp add: holds_def A_Got r)
    have "own ?Q other ?hs' w'" by (rule own_cong [OF e(1) hs])
    moreover have "keeps ?Q ?hs ?w ?hs' w'" using keeps_free [OF own m w'] by (metis ext hs)
    ultimately show ?thesis
      using kept [of w'] e(2,3) rd tk kd A_Got r
      by (simp add: bus_ok_def module_ready_step tokens_def level_def kinds_def)
  next
    case A_Ended
    then show ?thesis using assms(3) by (simp add: a_main_def)
  qed
qed

lemma b_step_ok:
  assumes "statics_ok S" and "bus_ok S other M a b q b' q' out" and "b_main S q b M = Inr (bn, o', M')"
    and "q = queue_b_1 S \<and> q' = queue_b_2 S \<or> q = queue_b_2 S \<and> q' = queue_b_1 S"
  shows "bus_ok S other M' a bn q b' q' (out @ o')"
proof -
  let ?Q = "bus_queues S"
  let ?w = "mod_world M"
  let ?hs = "holds a b b'"
  let ?hs' = "holds a bn b'"
  have own: "own ?Q other ?hs ?w" and rd: "module_ready S M" and kd: "kinds S ?w a b b'"
    and tk: "tokens S ?w a b q b' q' out"
    using assms(2) by (simp_all add: bus_ok_def)
  have S: "ping S \<noteq> pong S" "queue_a S \<noteq> q" "queue_a S \<noteq> q'" "q \<noteq> q'" "q \<in> ?Q"
    and Q: "queue_of_kind ?w q (ping S)"
    using assms(1,4) kd by (auto simp: statics_ok_def kinds_def)
  have kept: "kinds S w' a bn b'"
    if "own ?Q other ?hs' w'" "keeps ?Q ?hs ?w ?hs' w'" "b_ok S (datum w') bn"
      "\<And>q. q \<in> ?Q \<Longrightarrow> set (contents (queues w' q)) \<subseteq> set (contents (queues ?w q))" for w'
  proof -
    have "datum w' x = datum ?w x" if "0 < a_holds a x \<or> 0 < b_holds b' x" for x
      using keeps_held [OF \<open>keeps ?Q ?hs ?w ?hs' w'\<close>, of x] that by (auto simp: holds_def)
    then have "a_ok S (datum w') a" "b_ok S (datum w') b'"
      using kd a_ok_cong [of S "datum ?w" a "datum w'"] b_ok_cong [of S "datum ?w" b' "datum w'"] unfolding kinds_def by blast+
    then show ?thesis
      using kd that(3) queue_kept [OF _ that(2) own that(1)] that(4) unfolding kinds_def by blast
  qed
  show ?thesis
  proof (cases b)
    case B_Wait
    then obtain u m w' where w': "ml_queue_get ?w q = Inr (u, m, w')"
      and r: "bn = B_Got u m" "o' = []" "M' = set_world w' M"
      using assms(3) by (auto simp: b_main_def andthen_eq_Inr)
    note e = own_get [OF own S(5) w']
    have own': "own ?Q other ?hs' w'" by (intro own_cong [OF e(1)]) (auto simp: holds_def B_Wait r)
    have sub: "set (contents (queues w' x)) \<subseteq> set (contents (queues ?w x))" for x
      using e(4,6) by (cases "x = q") auto
    have u: "u = ping S" using Q e(4,7) by (auto simp: queue_of_kind_def)
    have "tokens S w' a bn q b' q' out"
      using tk level_get [OF e(4)] level_same [OF e(6)] S by (auto simp: tokens_def B_Wait r)
    then show ?thesis
      using own' kept [OF own' keeps_datum [OF e(2)] _ sub] e(3,5) rd r u by (simp add: bus_ok_def module_ready_step)
  next
    case (B_Got u m)
    then have u: "u = ping S" using kd by (simp add: kinds_def)
    then obtain w' where w': "ml_message_free ?w m = Inr w'"
      and r: "bn = B_Ping" "o' = [''Got ping!'']" "M' = set_world w' M"
      using assms(3) B_Got by (auto simp: b_main_def andthen_eq_Inr)
    have m: "0 < ?hs m" by (simp add: holds_def B_Got)
    note e = own_freeD [OF own m w']
    have hs: "?hs' x = (?hs(m := ?hs m - 1)) x" for x by (simp add: holds_def B_Got r)
    have "own ?Q other ?hs' w'" by (rule own_cong [OF e(1) hs])
    moreover have "keeps ?Q ?hs ?w ?hs' w'" using keeps_free [OF own m w'] by (metis ext hs)
    ultimately show ?thesis
      using kept [of w'] e(2,3) rd tk B_Got r by (simp add: bus_ok_def module_ready_step tokens_def level_def)
  next
    case B_Ping
    then obtain m w' where w': "ml_message_alloc ?w (pong S) NoData = Inr (m, w')"
      and r: "bn = B_Broadcast m" "o' = [''Broadcasting pong!'']" "M' = set_world w' M"
      using assms(3) by (auto simp: b_main_def andthen_eq_Inr)
    note e = own_alloc [OF own w']
    have hs: "?hs' x = (?hs(m := 1)) x" for x using e(2) B_Ping r(1) by (simp add: holds_def)
    have "own ?Q other ?hs' w'" by (rule own_cong [OF e(1) hs])
    moreover have "keeps ?Q ?hs ?w ?hs' w'" using keeps_alloc [OF own w'] by (metis ext hs)
    ultimately show ?thesis
      using kept [of w'] e(3,4,5) rd tk B_Ping r by (simp add: bus_ok_def module_ready_step tokens_def level_def)
  next
    case (B_Broadcast m)
    then obtain qs w' where w': "broadcast_begin ?w (mod_bus M) m = Inr (qs, w')"
      and r: "bn = B_Putting m qs" "o' = []" "M' = set_world w' M"
      using assms(3) by (auto simp: b_main_def andthen_eq_Inr)
    have m: "0 < ?hs m" "datum ?w m = Some (pong S, NoData)"
      using kd B_Broadcast by (simp_all add: holds_def kinds_def)
    have bus: "bus_inv (mod_bus M)" "subscribers (mod_bus M) (pong S) = [queue_a S]"
      using rd by (simp_all add: module_ready_def)
    note e = own_broadcast_beginD [OF own m bus(1) _ w', unfolded bus(2)]
    have own': "own ?Q other ?hs' w'"
      using e(1,2) by (intro own_cong [OF e(2)]) (auto simp: holds_def B_Broadcast r)
    then show ?thesis
      using kept [OF own' keeps_datum] e m rd tk B_Broadcast r
      by (simp add: bus_ok_def module_ready_step tokens_def level_def)
  next
    case (B_Putting m qs)
    show ?thesis
    proof (cases qs)
      case Nil
      then have "bn = B_Ended" "o' = []" "M' = M" using assms(3) B_Putting by (auto simp: b_main_def)
      moreover have "?hs' x = ?hs x" for x by (simp add: holds_def calculation B_Putting Nil)
      ultimately show ?thesis
        using own own_cong [OF own] kd rd tk B_Putting Nil by (simp add: bus_ok_def kinds_def tokens_def level_def)
    next
      case (Cons x ps)
      then obtain w' where x: "x = queue_a S" "ps = []" and w': "ml_queue_put ?w (queue_a S) m = Inr w'"
        and r: "bn = B_Putting m []" "o' = []" "M' = set_world w' M"
        using assms(3) B_Putting kd by (auto simp: b_main_def kinds_def andthen_eq_Inr)
      have m: "0 < ?hs m" "datum ?w m = Some (pong S, NoData)" and q: "queue_a S \<in> ?Q"
        using kd B_Putting Cons by (auto simp: holds_def kinds_def)
      note e = own_put [OF own q m(1) w']
      have own': "own ?Q other ?hs' w'"
        by (intro own_cong [OF e(1)]) (auto simp: holds_def B_Putting r Cons x)
      have "queue_of_kind w' (queue_a S) (pong S)" using kd e(2,4) m(2) by (auto simp: kinds_def queue_of_kind_def)
      moreover have "queue_of_kind w' p u" if "p \<noteq> queue_a S" "queue_of_kind ?w p u" for p u
        using that e(2,6) by (simp add: queue_of_kind_def)
      ultimately have "kinds S w' a bn b'"
        using kd e(2) S assms(4) unfolding kinds_def r(1) by auto
      moreover have "tokens S w' a bn q b' q' out"
        using tk level_put [OF e(4)] level_same [OF e(6)] S by (auto simp: tokens_def B_Putting Cons x r)
      ultimately show ?thesis
        using own' rd e(3,5) by (simp add: bus_ok_def module_ready_step r)
    qed
  next
    case B_Ended
    then show ?thesis using assms(3) by (simp add: b_main_def)
  qed
qed

section \<open>Progress\<close>

text \<open>A step fails only by waiting: for a message that is not there yet, or because the thread has ended.\<close>

lemma a_waits:
  assumes "statics_ok S" and "bus_ok S other M a b (queue_b_1 S) b' (queue_b_2 S) out" and "a_main S a M = Inl e"
  shows "e = Blocked \<and> (a = A_Ended \<or> (\<exists>i. a = A_Wait i \<and> level (mod_world M) (queue_a S) = 0 \<and> i < 2))"
proof -
  let ?Q = "bus_queues S"
  let ?w = "mod_world M"
  have own: "own ?Q other (holds a b b') ?w" and rd: "module_ready S M" and kd: "kinds S ?w a b b'"
    and tk: "tokens S ?w a b (queue_b_1 S) b' (queue_b_2 S) out"
    using assms(2) by (simp_all add: bus_ok_def)
  show ?thesis
  proof (cases a)
    case A_Start
    then show ?thesis
      using assms(3) own_alloc_total [of ?w "ping S" NoData] rd by (auto simp: a_main_def module_ready_def)
  next
    case (A_Broadcast m)
    have m: "0 < holds a b b' m" "datum ?w m = Some (ping S, NoData)"
      using kd A_Broadcast by (simp_all add: holds_def kinds_def)
    have "bus_inv (mod_bus M)" "subscribers (mod_bus M) (ping S) \<noteq> []" using rd by (simp_all add: module_ready_def)
    then obtain qs w' where "broadcast_begin ?w (mod_bus M) m = Inr (qs, w')"
      using own_broadcast_begin [OF own m] by metis
    then show ?thesis using assms(3) A_Broadcast by (simp add: a_main_def)
  next
    case (A_Putting m qs)
    show ?thesis
    proof (cases qs)
      case Nil
      then show ?thesis using assms(3) A_Putting by (simp add: a_main_def)
    next
      case (Cons q ps)
      then have q: "q = queue_b_1 S \<or> q = queue_b_2 S" and "ml_queue_put ?w q m = Inl e"
        using assms(3) A_Putting kd by (auto simp: a_main_def kinds_def andthen_def split: sum.splits)
      then have "Suc (level ?w q) = q_length (queues ?w q)" using own_put_total [OF own] by (simp add: level_def)
      then show ?thesis using q tk rd by (auto simp: tokens_def module_ready_def)
    qed
  next
    case (A_Wait i)
    then have "ml_queue_get ?w (queue_a S) = Inl e" "i < 2"
      using assms(3) by (auto simp: a_main_def andthen_def split: sum.splits if_splits)
    then show ?thesis using own_get_total [OF own, of "queue_a S"] A_Wait by (auto simp: level_def)
  next
    case (A_Got i m)
    then have "0 < holds a b b' m" by (simp add: holds_def)
    then obtain w' where "ml_message_free ?w m = Inr w'" using own_free [OF own] by metis
    then show ?thesis using assms(3) A_Got by (simp add: a_main_def)
  next
    case A_Ended
    then show ?thesis using assms(3) by (simp add: a_main_def)
  qed
qed

lemma b_waits:
  assumes "bus_ok S other M a b q b' q' out" and "b_main S q b M = Inl e" and "q \<in> bus_queues S"
  shows "e = Blocked \<and> (b = B_Ended \<or> b = B_Wait \<and> level (mod_world M) q = 0)"
proof -
  let ?w = "mod_world M"
  have own: "own (bus_queues S) other (holds a b b') ?w" and rd: "module_ready S M" and kd: "kinds S ?w a b b'"
    and tk: "tokens S ?w a b q b' q' out"
    using assms(1) by (simp_all add: bus_ok_def)
  show ?thesis
  proof (cases b)
    case B_Wait
    then have "ml_queue_get ?w q = Inl e" using assms(2) by (auto simp: b_main_def andthen_def split: sum.splits)
    then show ?thesis using own_get_total [OF own assms(3)] B_Wait by (auto simp: level_def)
  next
    case (B_Got u m)
    then have "0 < holds a b b' m" by (simp add: holds_def)
    then obtain w' where "ml_message_free ?w m = Inr w'" using own_free [OF own] by metis
    then show ?thesis using assms(2) B_Got by (simp add: b_main_def)
  next
    case B_Ping
    then show ?thesis
      using assms(2) own_alloc_total [of ?w "pong S" NoData] rd by (auto simp: b_main_def module_ready_def)
  next
    case (B_Broadcast m)
    have m: "0 < holds a b b' m" "datum ?w m = Some (pong S, NoData)"
      using kd B_Broadcast by (simp_all add: holds_def kinds_def)
    have "bus_inv (mod_bus M)" "subscribers (mod_bus M) (pong S) \<noteq> []" using rd by (simp_all add: module_ready_def)
    then obtain qs w' where "broadcast_begin ?w (mod_bus M) m = Inr (qs, w')"
      using own_broadcast_begin [OF own m] by metis
    then show ?thesis using assms(2) B_Broadcast by (simp add: b_main_def)
  next
    case (B_Putting m qs)
    show ?thesis
    proof (cases qs)
      case Nil
      then show ?thesis using assms(2) B_Putting by (simp add: b_main_def)
    next
      case (Cons x ps)
      then have "x = queue_a S" and "ml_queue_put ?w x m = Inl e"
        using assms(2) B_Putting kd by (auto simp: b_main_def kinds_def andthen_def split: sum.splits)
      then have "Suc (level ?w (queue_a S)) = q_length (queues ?w (queue_a S))"
        using own_put_total [OF own] by (simp add: level_def)
      then show ?thesis using tk rd by (auto simp: tokens_def module_ready_def)
    qed
  next
    case B_Ended
    then show ?thesis using assms(2) by (simp add: b_main_def)
  qed
qed

text \<open>The steps a thread has still to make.\<close>

fun a_steps :: "a_at \<Rightarrow> nat" where
  "a_steps A_Start = 10"
| "a_steps (A_Broadcast m) = 9"
| "a_steps (A_Putting m qs) = 6 + length qs"
| "a_steps (A_Wait i) = 5 - 2 * i"
| "a_steps (A_Got i m) = 4 - 2 * i"
| "a_steps A_Ended = 0"

fun b_steps :: "b_at \<Rightarrow> nat" where
  "b_steps B_Wait = 6"
| "b_steps (B_Got u m) = 5"
| "b_steps B_Ping = 4"
| "b_steps (B_Broadcast m) = 3"
| "b_steps (B_Putting m qs) = 1 + length qs"
| "b_steps B_Ended = 0"

lemma a_steps_step:
  assumes "bus_ok S other M a b q b' q' out" and "a_main S a M = Inr (a', o', M')"
  shows "a_steps a = Suc (a_steps a')"
proof (cases a)
  case (A_Broadcast m)
  have own: "own (bus_queues S) other (holds a b b') (mod_world M)" and rd: "module_ready S M" and kd: "kinds S (mod_world M) a b b'"
    using assms(1) by (simp_all add: bus_ok_def)
  obtain qs w' where w': "broadcast_begin (mod_world M) (mod_bus M) m = Inr (qs, w')" and "a' = A_Putting m qs"
    using assms(2) A_Broadcast by (auto simp: a_main_def andthen_eq_Inr)
  moreover have "qs = [queue_b_1 S, queue_b_2 S]"
    using own_broadcast_beginD(1) [OF own _ _ _ _ w', of "ping S" NoData] rd kd A_Broadcast
    by (simp add: holds_def kinds_def module_ready_def)
  ultimately show ?thesis using A_Broadcast by simp
next
  case (A_Wait i)
  then have "i \<le> 2" using assms(1) by (simp add: bus_ok_def kinds_def)
  then show ?thesis using assms(2) A_Wait by (auto simp: a_main_def andthen_eq_Inr split: if_splits)
next
  case (A_Got i m)
  then have "i < 2" using assms(1) by (simp add: bus_ok_def kinds_def)
  then show ?thesis using assms(2) A_Got by (auto simp: a_main_def andthen_eq_Inr)
qed (use assms(2) in \<open>auto simp: a_main_def andthen_eq_Inr split: list.splits\<close>)

lemma b_steps_step:
  assumes "bus_ok S other M a b q b' q' out" and "b_main S q b M = Inr (bn, o', M')"
  shows "b_steps b = Suc (b_steps bn)"
proof (cases b)
  case (B_Broadcast m)
  have own: "own (bus_queues S) other (holds a b b') (mod_world M)" and rd: "module_ready S M" and kd: "kinds S (mod_world M) a b b'"
    using assms(1) by (simp_all add: bus_ok_def)
  obtain qs w' where w': "broadcast_begin (mod_world M) (mod_bus M) m = Inr (qs, w')" and "bn = B_Putting m qs"
    using assms(2) B_Broadcast by (auto simp: b_main_def andthen_eq_Inr)
  moreover have "qs = [queue_a S]"
    using own_broadcast_beginD(1) [OF own _ _ _ _ w', of "pong S" NoData] rd kd B_Broadcast
    by (simp add: holds_def kinds_def module_ready_def)
  ultimately show ?thesis using B_Broadcast by simp
next
  case (B_Got u m)
  then have "u = ping S" using assms(1) by (simp add: bus_ok_def kinds_def)
  then show ?thesis using assms(2) B_Got by (auto simp: b_main_def andthen_eq_Inr)
qed (use assms(2) in \<open>auto simp: b_main_def andthen_eq_Inr split: list.splits\<close>)

section \<open>The whole program\<close>

definition app_inv :: "bus_statics \<Rightarrow> (addr \<Rightarrow> ml_message_header_t option) \<Rightarrow> bus_app \<Rightarrow> bool" where
  "app_inv S other s \<longleftrightarrow> bus_ok S other (app_module s) (a_thread s) (b_1_thread s) (queue_b_1 S) (b_2_thread s) (queue_b_2 S) (infos s)"

definition steps_left :: "bus_app \<Rightarrow> nat" where
  "steps_left s = a_steps (a_thread s) + b_steps (b_1_thread s) + b_steps (b_2_thread s)"

lemma thread_step_inv:
  assumes "statics_ok S" and "app_inv S other s" and "thread_step S th s = Inr t"
  shows "app_inv S other t \<and> steps_left s = Suc (steps_left t)"
proof -
  note inv = assms(2) [unfolded app_inv_def]
  show ?thesis
  proof (cases th)
    case Thread_a
    then show ?thesis
      using assms(3) a_step_ok [OF assms(1) inv] a_steps_step [OF inv]
      by (auto simp: app_inv_def steps_left_def andthen_eq_Inr)
  next
    case Thread_b_1
    then show ?thesis
      using assms(3) b_step_ok [OF assms(1) inv] b_steps_step [OF inv]
      by (auto simp: app_inv_def steps_left_def andthen_eq_Inr)
  next
    case Thread_b_2
    note inv' = iffD1 [OF bus_ok_swap inv]
    obtain b o' M where b: "b_main S (queue_b_2 S) (b_2_thread s) (app_module s) = Inr (b, o', M)"
      and t: "t = s\<lparr>app_module := M, b_2_thread := b, infos := infos s @ o'\<rparr>"
      using assms(3) Thread_b_2 by (auto simp: andthen_eq_Inr)
    have "bus_ok S other M (a_thread s) b (queue_b_2 S) (b_1_thread s) (queue_b_1 S) (infos s @ o')"
      by (rule b_step_ok [OF assms(1) inv' b]) simp
    then have "app_inv S other t" unfolding app_inv_def t by (subst bus_ok_swap) simp
    then show ?thesis using b_steps_step [OF inv' b] by (simp add: steps_left_def t)
  qed
qed

lemma thread_waits:
  assumes "statics_ok S" and "app_inv S other s" and "thread_step S th s = Inl e"
  shows "e = Blocked"
proof -
  note inv = assms(2) [unfolded app_inv_def]
  show ?thesis
    using assms(3) a_waits [OF assms(1) inv] b_waits [OF inv] b_waits [OF iffD1 [OF bus_ok_swap inv]]
    by (cases th) (auto simp: andthen_def split: sum.splits)
qed

lemma steps_left_0: "app_inv S other s \<Longrightarrow> steps_left s = 0 \<longleftrightarrow> all_joined s"
  by (cases "a_thread s"; cases "b_1_thread s"; cases "b_2_thread s")
     (auto simp: app_inv_def bus_ok_def kinds_def steps_left_def all_joined_def)

text \<open>When no thread can move, all have ended: what one of them waits for is always under way.\<close>

lemma some_thread_moves:
  assumes "statics_ok S" and "app_inv S other s" and "\<not> all_joined s"
  shows "\<exists>t. app_step S s t"
proof (rule ccontr)
  assume "\<not> ?thesis"
  then have stuck: "\<exists>e. thread_step S th s = Inl e" for th
    unfolding app_step_def by (metis old.sum.exhaust)
  note inv = assms(2) [unfolded app_inv_def]
  let ?w = "mod_world (app_module s)"
  have a: "a_thread s = A_Ended \<or> (\<exists>i. a_thread s = A_Wait i \<and> level ?w (queue_a S) = 0 \<and> i < 2)"
    using stuck [of Thread_a] a_waits [OF assms(1) inv] by (auto simp: andthen_def split: sum.splits)
  have b1: "b_1_thread s = B_Ended \<or> b_1_thread s = B_Wait \<and> level ?w (queue_b_1 S) = 0"
    using stuck [of Thread_b_1] b_waits [OF inv] by (auto simp: andthen_def split: sum.splits)
  have b2: "b_2_thread s = B_Ended \<or> b_2_thread s = B_Wait \<and> level ?w (queue_b_2 S) = 0"
    using stuck [of Thread_b_2] b_waits [OF iffD1 [OF bus_ok_swap inv]] by (auto simp: andthen_def split: sum.splits)
  have tk: "tokens S ?w (a_thread s) (b_1_thread s) (queue_b_1 S) (b_2_thread s) (queue_b_2 S) (infos s)"
    using inv by (simp add: bus_ok_def)
  show False
    using a b1 b2 tk assms(3) by (auto simp: tokens_def all_joined_def)
qed

lemma run_inv_steps:
  assumes "statics_ok S" and "app_inv S other s" and "(app_step S ^^ n) s t"
  shows "app_inv S other t \<and> steps_left s = n + steps_left t"
  using assms(3)
proof (induction n arbitrary: t)
  case 0
  then show ?case using assms(2) by simp
next
  case (Suc n)
  then obtain u where "(app_step S ^^ n) s u" "app_step S u t" by auto
  then show ?case using Suc.IH [of u] thread_step_inv [OF assms(1)] unfolding app_step_def by fastforce
qed

text \<open>At the end every reference is gone.\<close>

lemma joined_clean:
  assumes "app_inv S other s" and "all_joined s"
  shows "heap (mod_world (app_module s)) = other" and "q \<in> bus_queues S \<Longrightarrow> contents (queues (mod_world (app_module s)) q) = []"
    and "count_list (infos s) ''Got ping!'' = 2" and "count_list (infos s) ''Got pong!'' = 2"
proof -
  let ?w = "mod_world (app_module s)"
  have own: "own (bus_queues S) other (holds A_Ended B_Ended B_Ended) ?w"
    and tk: "tokens S ?w A_Ended B_Ended (queue_b_1 S) B_Ended (queue_b_2 S) (infos s)"
    using assms by (simp_all add: app_inv_def bus_ok_def all_joined_def)
  have empty: "contents (queues ?w q) = []" if "q \<in> bus_queues S" for q
    using tk that by (auto simp: tokens_def level_def simp del: length_contents)
  show "q \<in> bus_queues S \<Longrightarrow> contents (queues ?w q) = []" by (rule empty)
  have "refs (bus_queues S) (holds A_Ended B_Ended B_Ended) ?w m = 0" for m
    using empty by (simp add: refs_def queue_refs_def holds_def)
  then show "heap ?w = other" by (rule own_released [OF own])
  show "count_list (infos s) ''Got ping!'' = 2" "count_list (infos s) ''Got pong!'' = 2"
    using tk by (simp_all add: tokens_def)
qed

lemma bus_main_ready:
  assumes "bus_inv (mod_bus M)" and "world_ok (mod_world M)" and "\<And>n. malloc_ok (mod_world M) n"
    and "\<And>u. subscribers (mod_bus M) u = []" and "statics_ok S"
  shows "\<exists>s. bus_main S M = Inr s \<and> app_inv S (heap (mod_world M)) s \<and> steps_left s = 22"
proof -
  obtain M1 M2 where M2: "queue_init (queue_a S) 32 M = Inr M1" "ml_subscribe (queue_a S) (pong S) M1 = Inr M2"
    and i2: "bus_inv (mod_bus M2)" "world_ok (mod_world M2)" "\<And>n. malloc_ok (mod_world M2) n"
    and b2: "subscribers (mod_bus M2) = (subscribers (mod_bus M))(pong S := subscribers (mod_bus M) (pong S) @ [queue_a S])"
    and w2: "heap (mod_world M2) = heap (mod_world M)" "contents (queues (mod_world M2) (queue_a S)) = []"
      "q_length (queues (mod_world M2) (queue_a S)) = 33"
    using queue_and_subscription [OF assms(1-3), of "queue_a S" "pong S"] by blast
  obtain M3 M4 where M4: "queue_init (queue_b_1 S) 32 M2 = Inr M3" "ml_subscribe (queue_b_1 S) (ping S) M3 = Inr M4"
    and i4: "bus_inv (mod_bus M4)" "world_ok (mod_world M4)" "\<And>n. malloc_ok (mod_world M4) n"
    and b4: "subscribers (mod_bus M4) = (subscribers (mod_bus M2))(ping S := subscribers (mod_bus M2) (ping S) @ [queue_b_1 S])"
    and w4: "heap (mod_world M4) = heap (mod_world M2)" "contents (queues (mod_world M4) (queue_b_1 S)) = []"
      "q_length (queues (mod_world M4) (queue_b_1 S)) = 33"
      "\<And>x. x \<noteq> queue_b_1 S \<Longrightarrow> queues (mod_world M4) x = queues (mod_world M2) x"
    using queue_and_subscription [OF i2, of "queue_b_1 S" "ping S"] by blast
  obtain M5 M6 where M6: "queue_init (queue_b_2 S) 32 M4 = Inr M5" "ml_subscribe (queue_b_2 S) (ping S) M5 = Inr M6"
    and i6: "bus_inv (mod_bus M6)" "world_ok (mod_world M6)" "\<And>n. malloc_ok (mod_world M6) n"
    and b6: "subscribers (mod_bus M6) = (subscribers (mod_bus M4))(ping S := subscribers (mod_bus M4) (ping S) @ [queue_b_2 S])"
    and w6: "heap (mod_world M6) = heap (mod_world M4)" "contents (queues (mod_world M6) (queue_b_2 S)) = []"
      "q_length (queues (mod_world M6) (queue_b_2 S)) = 33"
      "\<And>x. x \<noteq> queue_b_2 S \<Longrightarrow> queues (mod_world M6) x = queues (mod_world M4) x"
    using queue_and_subscription [OF i4, of "queue_b_2 S" "ping S"] by blast
  let ?s = "\<lparr>app_module = M6, a_thread = A_Start, b_1_thread = B_Wait, b_2_thread = B_Wait, infos = []\<rparr>"
  have S: "ping S \<noteq> pong S" "queue_a S \<noteq> queue_b_1 S" "queue_a S \<noteq> queue_b_2 S" "queue_b_1 S \<noteq> queue_b_2 S"
    using assms(5) by (auto simp: statics_ok_def)
  have q: "contents (queues (mod_world M6) x) = [] \<and> q_length (queues (mod_world M6) x) = 33" if "x \<in> bus_queues S" for x
    using that w2 w4 w6 S by auto
  have "own (bus_queues S) (heap (mod_world M6)) (\<lambda>_. 0) (mod_world M6)"
    using i6(2) q by (intro own_initial) (auto simp: world_ok_def)
  then have "own (bus_queues S) (heap (mod_world M)) (holds A_Start B_Wait B_Wait) (mod_world M6)"
    using w2(1) w4(1) w6(1) by (simp add: own_cong holds_def)
  moreover have "module_ready S M6"
    using i6 b2 b4 b6 q S assms(4) by (simp add: module_ready_def)
  moreover have "kinds S (mod_world M6) A_Start B_Wait B_Wait"
    using q by (simp add: kinds_def queue_of_kind_def)
  moreover have "tokens S (mod_world M6) A_Start B_Wait (queue_b_1 S) B_Wait (queue_b_2 S) []"
    using q by (simp add: tokens_def level_def del: length_contents)
  ultimately have "app_inv S (heap (mod_world M)) ?s" by (simp add: app_inv_def bus_ok_def)
  moreover have "bus_main S M = Inr ?s" by (simp add: bus_main_def M2 M4 M6)
  ultimately show ?thesis by (simp add: steps_left_def)
qed

section \<open>The property\<close>

text \<open>
  C21: the bus example always comes to its end. In every interleaving of the calls of its three threads, from
  \<open>ml_init\<close> on, no call fails, some thread can go on until all have ended, which is after exactly 22 steps; then both \<open>b\<close>
  threads have got the ping, \<open>a\<close> has got both pongs, the queues are empty and every message has been freed.
\<close>

theorem bus_example_completes:
  assumes "\<And>n. malloc_ok w n" and "queues_inv w" and "heap_inv w" and "ml_init jobs w handler log = Inr M"
    and "ping S \<noteq> pong S" and "distinct [queue_a S, queue_b_1 S, queue_b_2 S]"
  shows "\<exists>s0. bus_main S M = Inr s0 \<and> (\<forall>n s. (app_step S ^^ n) s0 s \<longrightarrow>
       n \<le> 22 \<and> (n = 22 \<longleftrightarrow> all_joined s) \<and> (n < 22 \<longrightarrow> (\<exists>t. app_step S s t))
     \<and> (\<forall>th e. thread_step S th s = Inl e \<longrightarrow> e = Blocked)
     \<and> (n = 22 \<longrightarrow> heap (mod_world (app_module s)) = heap w
          \<and> (\<forall>q \<in> {queue_a S, queue_b_1 S, queue_b_2 S}. contents (queues (mod_world (app_module s)) q) = [])
          \<and> count_list (infos s) ''Got ping!'' = 2 \<and> count_list (infos s) ''Got pong!'' = 2))"
proof -
  note init = ml_init_bus [OF assms(4)]
  have S: "statics_ok S" using assms(5,6) by (simp add: statics_ok_def)
  have "world_ok (mod_world M)" using ml_init_world_ok [OF assms(4)] assms(2,3) by (simp add: world_ok_def)
  moreover have "malloc_ok (mod_world M) n" for n using init(3) assms(1) by simp
  ultimately obtain s0 where s0: "bus_main S M = Inr s0" "app_inv S (heap w) s0" "steps_left s0 = 22"
    using bus_main_ready [OF init(1) _ _ init(2) S] init(4) by auto
  show ?thesis
  proof (rule exI [of _ s0], intro conjI allI impI)
    fix n s
    assume run: "(app_step S ^^ n) s0 s"
    have inv: "app_inv S (heap w) s" and n: "22 = n + steps_left s"
      using run_inv_steps [OF S s0(2) run] s0(3) by simp_all
    show "n \<le> 22" and joined: "n = 22 \<longleftrightarrow> all_joined s" using n steps_left_0 [OF inv] by auto
    show "\<exists>t. app_step S s t" if "n < 22" using some_thread_moves [OF S inv] joined that by auto
    show "e = Blocked" if "thread_step S th s = Inl e" for th e by (rule thread_waits [OF S inv that])
    assume "n = 22"
    then have "all_joined s" using joined by simp
    then show "heap (mod_world (app_module s)) = heap w"
      and "\<forall>q \<in> bus_queues S. contents (queues (mod_world (app_module s)) q) = []"
      and "count_list (infos s) ''Got ping!'' = 2" and "count_list (infos s) ''Got pong!'' = 2"
      using joined_clean [OF inv] by blast+
  qed (rule s0(1))
qed

text \<open>A process that has nothing in its memory yet, and a complete run of the program in it.\<close>

theorem bus_example_completes_witness:
  "\<exists>M s0 s. ml_init 9 example_world \<lparr>timers = (\<lambda>_. undefined), timer_list = []\<rparr> example_module = Inr M
     \<and> bus_main \<lparr>ping = 1, pong = 2, queue_a = 1, queue_b_1 = 2, queue_b_2 = 3\<rparr> M = Inr s0
     \<and> (app_step \<lparr>ping = 1, pong = 2, queue_a = 1, queue_b_1 = 2, queue_b_2 = 3\<rparr> ^^ 22) s0 s \<and> all_joined s"
proof -
  let ?S = "\<lparr>ping = 1, pong = 2, queue_a = 1, queue_b_1 = 2, queue_b_2 = 3\<rparr>"
  have w: "malloc_ok example_world n" "queues_inv example_world" "heap_inv example_world" for n
    by (simp_all add: example_world_def queues_inv_def queue_inv_def heap_inv_def)
  obtain M where M: "ml_init 9 example_world \<lparr>timers = (\<lambda>_. undefined), timer_list = []\<rparr> example_module = Inr M"
    using ml_init_run [of example_world] w(1) by blast
  obtain s0 where s0: "bus_main ?S M = Inr s0"
    and run: "\<And>n s. (app_step ?S ^^ n) s0 s \<Longrightarrow> (n = 22 \<longleftrightarrow> all_joined s) \<and> (n < 22 \<longrightarrow> (\<exists>t. app_step ?S s t))"
    using bus_example_completes [OF w M, of ?S] by fastforce
  have "n \<le> 22 \<Longrightarrow> \<exists>s. (app_step ?S ^^ n) s0 s" for n
  proof (induction n)
    case (Suc n)
    then obtain s where s: "(app_step ?S ^^ n) s0 s" by auto
    then obtain t where "app_step ?S s t" using run [OF s] Suc.prems by auto
    then show ?case using s by auto
  qed auto
  then obtain s where "(app_step ?S ^^ 22) s0 s" by blast
  then show ?thesis using M s0 run by blast
qed

end
