(* ===== verification/Ml_Example_Queue.thy ===== *)
theory Ml_Example_Queue
  imports Ml_Ownership Ml_Bytes
begin

text \<open>
  The program \<open>src/examples/queue/main.c\<close>: a client and a server that send each other numbers for ever. A step of a thread
  is one call of the library with what the thread does around it, as in the bus example. Signed arithmetic that leaves the range of
  \<open>int\<close> is \<open>Overflow\<close>.
\<close>

section \<open>The program\<close>

text \<open>The addresses of the static variables.\<close>

record queue_statics =
  ping_id :: uid
  pong_id :: uid
  bad_id :: uid
  server_queue :: addr
  client_queue :: addr

definition int_max :: int where "int_max = 2147483647"

definition int_add :: "int \<Rightarrow> int \<Rightarrow> int res" where
  "int_add a b = (if - int_max - 1 \<le> a + b \<and> a + b \<le> int_max then Inr (a + b) else Inl Overflow)"

text \<open>An \<open>int\<close> as the data of a message, and the read of it.\<close>

definition int_data :: "int \<Rightarrow> payload" where
  "int_data v = AppData (le32 (word_of_int v))"

definition read_int :: "world \<Rightarrow> addr \<Rightarrow> int res" where
  "read_int w m =
     andthen (load_header w m) (\<lambda>h.
       case data h of
         AppData bs \<Rightarrow> (if length bs = 4 then Inr (sint (get32 bs 0)) else Inl OutOfBounds)
       | _ \<Rightarrow> Inl OutOfBounds)"

text \<open>What the threads print.\<close>

datatype info =
    Ping_count int
  | Pong_count int
  | Server_unexpected uid
  | Client_unexpected uid

text \<open>Where a thread is, with its local variables; \<open>C_Sending\<close> is inside \<open>client_send_ping\<close> and has the message to free after it.\<close>

datatype server_at =
    S_Wait
  | S_Got uid addr
  | S_Pong addr addr
  | S_Bad addr
  | S_Put_bad addr addr
  | S_Free addr

datatype client_at =
    C_Start
  | C_Sending addr "addr option"
  | C_Wait
  | C_Got uid addr
  | C_Free addr

definition server_main :: "queue_statics \<Rightarrow> server_at \<Rightarrow> world \<Rightarrow> (server_at \<times> info list \<times> world) res" where
  "server_main S at w =
     (case at of
        S_Wait \<Rightarrow> andthen (ml_queue_get w (server_queue S)) (\<lambda>(u, ping_p, w). Inr (S_Got u ping_p, [], w))
      | S_Got u ping_p \<Rightarrow>
          (if u = ping_id S
           then andthen (read_int w ping_p) (\<lambda>c.
                andthen (int_add c 1) (\<lambda>c'.
                andthen (ml_message_alloc w (pong_id S) (int_data c')) (\<lambda>(pong_p, w).
                  Inr (S_Pong ping_p pong_p, [Ping_count c], w))))
           else Inr (S_Free ping_p, [Server_unexpected u], w))
      | S_Pong ping_p pong_p \<Rightarrow> andthen (ml_queue_put w (client_queue S) pong_p) (\<lambda>w. Inr (S_Bad ping_p, [], w))
      | S_Bad ping_p \<Rightarrow> andthen (ml_message_alloc w (bad_id S) NoData) (\<lambda>(bad_p, w). Inr (S_Put_bad ping_p bad_p, [], w))
      | S_Put_bad ping_p bad_p \<Rightarrow> andthen (ml_queue_put w (client_queue S) bad_p) (\<lambda>w. Inr (S_Free ping_p, [], w))
      | S_Free ping_p \<Rightarrow> andthen (ml_message_free w ping_p) (\<lambda>w. Inr (S_Wait, [], w)))"

definition client_send_ping :: "queue_statics \<Rightarrow> int \<Rightarrow> addr option \<Rightarrow> world \<Rightarrow> (client_at \<times> world) res" where
  "client_send_ping S c after w =
     andthen (ml_message_alloc w (ping_id S) (int_data c)) (\<lambda>(ping_p, w). Inr (C_Sending ping_p after, w))"

definition client_main :: "queue_statics \<Rightarrow> client_at \<Rightarrow> world \<Rightarrow> (client_at \<times> info list \<times> world) res" where
  "client_main S at w =
     (case at of
        C_Start \<Rightarrow> andthen (client_send_ping S 1 None w) (\<lambda>(at, w). Inr (at, [], w))
      | C_Sending ping_p after \<Rightarrow> andthen (ml_queue_put w (server_queue S) ping_p) (\<lambda>w.
          Inr (case after of None \<Rightarrow> C_Wait | Some message_p \<Rightarrow> C_Free message_p, [], w))
      | C_Wait \<Rightarrow> andthen (ml_queue_get w (client_queue S)) (\<lambda>(u, message_p, w). Inr (C_Got u message_p, [], w))
      | C_Got u message_p \<Rightarrow>
          (if u = pong_id S
           then andthen (read_int w message_p) (\<lambda>c.
                andthen (int_add c 10) (\<lambda>c'.
                andthen (client_send_ping S c' (Some message_p) w) (\<lambda>(at, w). Inr (at, [Pong_count c], w))))
           else Inr (C_Free message_p, [Client_unexpected u], w))
      | C_Free message_p \<Rightarrow> andthen (ml_message_free w message_p) (\<lambda>w. Inr (C_Wait, [], w)))"

record queue_app =
  app_world :: world
  server_thread :: server_at
  client_thread :: client_at
  printed :: "info list"

datatype queue_thread = Server | Client

fun queue_thread_step :: "queue_statics \<Rightarrow> queue_thread \<Rightarrow> queue_app \<Rightarrow> queue_app res" where
  "queue_thread_step S Server s =
     andthen (server_main S (server_thread s) (app_world s)) (\<lambda>(at, out, w).
       Inr (s\<lparr>app_world := w, server_thread := at, printed := printed s @ out\<rparr>))"
| "queue_thread_step S Client s =
     andthen (client_main S (client_thread s) (app_world s)) (\<lambda>(at, out, w).
       Inr (s\<lparr>app_world := w, client_thread := at, printed := printed s @ out\<rparr>))"

definition queue_step :: "queue_statics \<Rightarrow> queue_app \<Rightarrow> queue_app \<Rightarrow> bool" where
  "queue_step S s t \<longleftrightarrow> (\<exists>th. queue_thread_step S th s = Inr t)"

definition queue_main :: "queue_statics \<Rightarrow> ml_module \<Rightarrow> queue_app res" where
  "queue_main S M =
     andthen (queue_init (client_queue S) 32 M) (\<lambda>M.
     andthen (queue_init (server_queue S) 32 M) (\<lambda>M.
       Inr \<lparr>app_world = mod_world M, server_thread = S_Wait, client_thread = C_Start, printed = []\<rparr>))"

section \<open>The numbers\<close>

definition pings :: "info list \<Rightarrow> int list" where
  "pings out = concat (map (\<lambda>i. case i of Ping_count c \<Rightarrow> [c] | _ \<Rightarrow> []) out)"

definition pongs :: "info list \<Rightarrow> int list" where
  "pongs out = concat (map (\<lambda>i. case i of Pong_count c \<Rightarrow> [c] | _ \<Rightarrow> []) out)"

lemma pings_simps [simp]: "pings [] = []" "pings (xs @ ys) = pings xs @ pings ys" "pings [Ping_count c] = [c]"
  "pings [Pong_count c] = []" "pings [Server_unexpected u] = []" "pings [Client_unexpected u] = []"
  by (simp_all add: pings_def)

lemma pongs_simps [simp]: "pongs [] = []" "pongs (xs @ ys) = pongs xs @ pongs ys" "pongs [Pong_count c] = [c]"
  "pongs [Ping_count c] = []" "pongs [Server_unexpected u] = []" "pongs [Client_unexpected u] = []"
  by (simp_all add: pongs_def)

lemma read_int_data:
  assumes "datum w m = Some (u, int_data v)" and "- int_max - 1 \<le> v" and "v \<le> int_max"
  shows "read_int w m = Inr v"
proof -
  have "get32 (le32 x) 0 = x" for x
    using get32_put32 [of 0 "replicate 4 0" x] by (simp add: put32_def poke_def)
  moreover have "sint (word_of_int v :: u32) = v"
    using assms(2,3) by (simp add: int_max_def sint_sbintrunc' signed_take_bit_int_eq_self)
  ultimately show ?thesis
    using assms(1) by (auto simp: read_int_def load_header_def datum_def int_data_def split: option.splits)
qed

section \<open>The mail of the client\<close>

text \<open>
  The messages waiting for the client: a bad one of the round before, then the pong of this round (\<open>b\<close>) and the bad one
  that follows it, which may still be in the making (\<open>pend\<close>).
\<close>

definition mail :: "queue_statics \<Rightarrow> int \<Rightarrow> bool \<Rightarrow> nat \<Rightarrow> (uid \<times> payload) option list \<Rightarrow> bool" where
  "mail S v b pend ks \<longleftrightarrow>
     (if b then \<exists>i j. ks = replicate i (Some (bad_id S, NoData)) @ Some (pong_id S, int_data v) # replicate j (Some (bad_id S, NoData))
               \<and> i \<le> 1 \<and> j + pend = 1
      else \<exists>i. ks = replicate i (Some (bad_id S, NoData)) \<and> i + pend \<le> 1)"

lemma mail_False: "mail S v False pend ks = mail S v' False pend ks"
  by (simp add: mail_def)

lemma mail_put_pong: "mail S v' False 0 ks \<Longrightarrow> mail S v True 1 (ks @ [Some (pong_id S, int_data v)])"
  by (auto simp: mail_def intro: exI [of _ "0 :: nat"])

lemma mail_put_bad: "mail S v b 1 ks \<Longrightarrow> mail S v b 0 (ks @ [Some (bad_id S, NoData)])"
  by (auto simp: mail_def replicate_append_same intro: exI [of _ "1 :: nat"] split: if_splits)

lemma mail_get:
  assumes "mail S v b pend (k # ks)"
  shows "k = Some (bad_id S, NoData) \<and> mail S v b pend ks \<or> b \<and> k = Some (pong_id S, int_data v) \<and> mail S v False pend ks"
proof (cases b)
  case True
  then obtain i j where l: "k # ks = replicate i (Some (bad_id S, NoData)) @ Some (pong_id S, int_data v) # replicate j (Some (bad_id S, NoData))"
    "i \<le> 1" "j + pend = 1"
    using assms by (auto simp: mail_def)
  then show ?thesis using True by (cases i) (auto simp: mail_def intro: exI [of _ "0 :: nat"])
next
  case False
  then obtain i where "k # ks = replicate i (Some (bad_id S, NoData))" "i + pend \<le> 1" using assms by (auto simp: mail_def)
  then show ?thesis using False by (cases i) (auto simp: mail_def)
qed

lemma mail_length: "mail S v b pend ks \<Longrightarrow> length ks + pend \<le> (if b then 3 else 1)"
  by (auto simp: mail_def split: if_splits)

lemma mail_Nil: "mail S v b pend [] \<Longrightarrow> \<not> b"
  by (auto simp: mail_def)

section \<open>The invariant\<close>

fun s_held :: "server_at \<Rightarrow> addr list" where
  "s_held S_Wait = []"
| "s_held (S_Got u p) = [p]"
| "s_held (S_Pong p m) = [p, m]"
| "s_held (S_Bad p) = [p]"
| "s_held (S_Put_bad p m) = [p, m]"
| "s_held (S_Free p) = [p]"

fun c_held :: "client_at \<Rightarrow> addr list" where
  "c_held (C_Sending p k) = p # (case k of None \<Rightarrow> [] | Some m \<Rightarrow> [m])"
| "c_held (C_Got u m) = [m]"
| "c_held (C_Free m) = [m]"
| "c_held _ = []"

text \<open>Whose turn it is, and whether a bad message is in the making.\<close>

fun s_turn :: "server_at \<Rightarrow> nat" where
  "s_turn (S_Got u p) = 1"
| "s_turn (S_Pong p m) = 1"
| "s_turn _ = 0"

fun c_turn :: "queue_statics \<Rightarrow> client_at \<Rightarrow> nat" where
  "c_turn S C_Start = 1"
| "c_turn S (C_Sending p k) = 1"
| "c_turn S (C_Got u m) = (if u = pong_id S then 1 else 0)"
| "c_turn S _ = 0"

fun making_bad :: "server_at \<Rightarrow> nat" where
  "making_bad (S_Bad p) = 1"
| "making_bad (S_Put_bad p m) = 1"
| "making_bad _ = 0"

text \<open>The pings that were answered and whose pong was not yet read.\<close>

fun s_ahead :: "server_at \<Rightarrow> nat" where
  "s_ahead (S_Pong p m) = 1"
| "s_ahead _ = 0"

fun c_behind :: "queue_statics \<Rightarrow> client_at \<Rightarrow> nat" where
  "c_behind S (C_Got u m) = (if u = pong_id S then 1 else 0)"
| "c_behind S _ = 0"

text \<open>The \<open>n\<close>-th ping and pong.\<close>

definition ping_data :: "queue_statics \<Rightarrow> nat \<Rightarrow> (uid \<times> payload) option" where
  "ping_data S n = Some (ping_id S, int_data (11 * int n + 1))"

definition pong_data :: "queue_statics \<Rightarrow> nat \<Rightarrow> (uid \<times> payload) option" where
  "pong_data S n = Some (pong_id S, int_data (11 * int n + 2))"

fun s_ok :: "queue_statics \<Rightarrow> (addr \<Rightarrow> (uid \<times> payload) option) \<Rightarrow> nat \<Rightarrow> nat \<Rightarrow> server_at \<Rightarrow> bool" where
  "s_ok S d n n' (S_Got u p) \<longleftrightarrow> u = ping_id S \<and> d p = ping_data S n"
| "s_ok S d n n' (S_Pong p m) \<longleftrightarrow> d m = pong_data S n'"
| "s_ok S d n n' (S_Put_bad p m) \<longleftrightarrow> d m = Some (bad_id S, NoData)"
| "s_ok S d n n' _ \<longleftrightarrow> True"

fun c_ok :: "queue_statics \<Rightarrow> (addr \<Rightarrow> (uid \<times> payload) option) \<Rightarrow> nat \<Rightarrow> nat \<Rightarrow> client_at \<Rightarrow> bool" where
  "c_ok S d n n' C_Start \<longleftrightarrow> n = 0"
| "c_ok S d n n' (C_Sending p k) \<longleftrightarrow> d p = ping_data S n"
| "c_ok S d n n' (C_Got u m) \<longleftrightarrow> u = pong_id S \<and> d m = pong_data S n' \<or> u = bad_id S"
| "c_ok S d n n' _ \<longleftrightarrow> True"

definition client_mail :: "queue_statics \<Rightarrow> world \<Rightarrow> (uid \<times> payload) option list" where
  "client_mail S w = map (datum w) (contents (queues w (client_queue S)))"

definition server_mail :: "queue_statics \<Rightarrow> world \<Rightarrow> (uid \<times> payload) option list" where
  "server_mail S w = map (datum w) (contents (queues w (server_queue S)))"

text \<open>The last ping whose number the server can still add one to is the one before this.\<close>

definition last_ping :: nat where "last_ping = 195225786"

text \<open>The memory, then what the messages are, then whose turn it is.\<close>

definition owned :: "queue_statics \<Rightarrow> (addr \<Rightarrow> ml_message_header_t option) \<Rightarrow> world \<Rightarrow> server_at \<Rightarrow> client_at \<Rightarrow> bool" where
  "owned S other w sv cl \<longleftrightarrow> own {client_queue S, server_queue S} other (count_list (s_held sv @ c_held cl)) w
     \<and> (\<forall>x. malloc_ok w x) \<and> q_length (queues w (client_queue S)) = 33 \<and> q_length (queues w (server_queue S)) = 33"

definition mails :: "queue_statics \<Rightarrow> world \<Rightarrow> server_at \<Rightarrow> client_at \<Rightarrow> bool \<Rightarrow> nat \<Rightarrow> nat \<Rightarrow> bool" where
  "mails S w sv cl b n n' \<longleftrightarrow> mail S (11 * int n' + 2) b (making_bad sv) (client_mail S w)
     \<and> set (server_mail S w) \<subseteq> {ping_data S n} \<and> s_ok S (datum w) n n' sv \<and> c_ok S (datum w) n n' cl"

definition expected :: "queue_statics \<Rightarrow> info list \<Rightarrow> bool" where
  "expected S out \<longleftrightarrow> (\<forall>i \<in> set out. case i of Server_unexpected u \<Rightarrow> False | Client_unexpected u \<Rightarrow> u = bad_id S | _ \<Rightarrow> True)"

lemma expected_simps [simp]: "expected S []" "expected S (xs @ ys) \<longleftrightarrow> expected S xs \<and> expected S ys"
  "expected S [Ping_count c]" "expected S [Pong_count c]" "expected S [Client_unexpected u] \<longleftrightarrow> u = bad_id S"
  by (auto simp: expected_def)

definition turns :: "queue_statics \<Rightarrow> world \<Rightarrow> server_at \<Rightarrow> client_at \<Rightarrow> bool \<Rightarrow> nat \<Rightarrow> nat \<Rightarrow> info list \<Rightarrow> bool" where
  "turns S w sv cl b n n' out \<longleftrightarrow>
     c_turn S cl + length (server_mail S w) + s_turn sv + of_bool b = 1
     \<and> n = n' + s_ahead sv + of_bool b + c_behind S cl \<and> n \<le> last_ping
     \<and> pings out = map (\<lambda>k. 11 * int k + 1) [0..<n] \<and> pongs out = map (\<lambda>k. 11 * int k + 2) [0..<n'] \<and> expected S out"

definition queue_ok :: "queue_statics \<Rightarrow> (addr \<Rightarrow> ml_message_header_t option) \<Rightarrow> queue_app \<Rightarrow> bool \<Rightarrow> nat \<Rightarrow> nat \<Rightarrow> bool" where
  "queue_ok S other s b n n' \<longleftrightarrow>
     owned S other (app_world s) (server_thread s) (client_thread s)
     \<and> mails S (app_world s) (server_thread s) (client_thread s) b n n'
     \<and> turns S (app_world s) (server_thread s) (client_thread s) b n n' (printed s)"

definition ids_ok :: "queue_statics \<Rightarrow> bool" where
  "ids_ok S \<longleftrightarrow> distinct [ping_id S, pong_id S, bad_id S] \<and> client_queue S \<noteq> server_queue S"

lemma c_behind_turn: "c_turn S cl = 0 \<Longrightarrow> c_behind S cl = 0"
  by (cases cl) (auto split: if_splits)

lemma s_ahead_turn: "s_turn sv = 0 \<Longrightarrow> s_ahead sv = 0"
  by (cases sv) auto

lemma s_ok_cong: "s_ok S d n n' sv \<Longrightarrow> (\<And>x. x \<in> set (s_held sv) \<Longrightarrow> d' x = d x) \<Longrightarrow> s_ok S d' n n' sv"
  by (cases sv) auto

lemma c_ok_cong: "c_ok S d n n' cl \<Longrightarrow> (\<And>x. x \<in> set (c_held cl) \<Longrightarrow> d' x = d x) \<Longrightarrow> c_ok S d' n n' cl"
  by (cases cl) auto

text \<open>A step that leaves the queues as they are leaves the mail as it is.\<close>

lemma mail_kept:
  assumes "own Q other hs w" and "own Q other hs' w'" and "keeps Q hs w hs' w'" and "queues w' = queues w" and "q \<in> Q"
  shows "map (datum w') (contents (queues w' q)) = map (datum w) (contents (queues w q))"
  using keeps_queued [OF assms(3,1,2,5)] assms(4) by simp

section \<open>The steps\<close>

lemma ping_read: "datum w m = ping_data S n \<Longrightarrow> n \<le> last_ping \<Longrightarrow> read_int w m = Inr (11 * int n + 1)"
  by (rule read_int_data) (auto simp: ping_data_def last_ping_def int_max_def)

lemma pong_read: "datum w m = pong_data S n \<Longrightarrow> n < last_ping \<Longrightarrow> read_int w m = Inr (11 * int n + 2)"
  by (rule read_int_data) (auto simp: pong_data_def last_ping_def int_max_def)

lemma server_step_ok:
  assumes "ids_ok S" and "queue_ok S other s b n n'" and "server_main S (server_thread s) (app_world s) = Inr (sv', o', w')"
  shows "\<exists>b' k k'. queue_ok S other (s\<lparr>app_world := w', server_thread := sv', printed := printed s @ o'\<rparr>) b' k k'"
proof -
  let ?Q = "{client_queue S, server_queue S}"
  let ?w = "app_world s"
  let ?cl = "client_thread s"
  let ?t = "s\<lparr>app_world := w', server_thread := sv', printed := printed s @ o'\<rparr>"
  let ?hs = "count_list (s_held (server_thread s) @ c_held ?cl)"
  let ?hs' = "count_list (s_held sv' @ c_held ?cl)"
  have ow: "owned S other ?w (server_thread s) ?cl" and ma: "mails S ?w (server_thread s) ?cl b n n'"
    and tu: "turns S ?w (server_thread s) ?cl b n n' (printed s)"
    using assms(2) by (simp_all add: queue_ok_def)
  have own: "own ?Q other ?hs ?w" and mem: "\<And>x. malloc_ok ?w x"
    and len: "q_length (queues ?w (client_queue S)) = 33" "q_length (queues ?w (server_queue S)) = 33"
    using ow by (simp_all add: owned_def)
  have ids: "ping_id S \<noteq> pong_id S" "ping_id S \<noteq> bad_id S" "pong_id S \<noteq> bad_id S" "client_queue S \<noteq> server_queue S"
    using assms(1) by (auto simp: ids_ok_def)
  have kept: "mail S v b' p (client_mail S w') = mail S v b' p (client_mail S ?w) \<and> server_mail S w' = server_mail S ?w
      \<and> c_ok S (datum w') n n' ?cl"
    if "own ?Q other ?hs' w'" "keeps ?Q ?hs ?w ?hs' w'" "queues w' = queues ?w" for v b' p
  proof -
    have "datum w' x = datum ?w x" if "x \<in> set (c_held ?cl)" for x
      using keeps_held [OF \<open>keeps ?Q ?hs ?w ?hs' w'\<close>, of x] that count_list_0_iff [of "c_held ?cl" x] by simp
    then show ?thesis
      using ma mail_kept [OF own that] c_ok_cong [of S "datum ?w" n n' ?cl "datum w'"]
      by (simp add: mails_def client_mail_def server_mail_def)
  qed
  show ?thesis
  proof (cases "server_thread s")
    case S_Wait
    then obtain u m where w': "ml_queue_get ?w (server_queue S) = Inr (u, m, w')" and r: "sv' = S_Got u m" "o' = []"
      using assms(3) by (auto simp: server_main_def andthen_eq_Inr)
    have q: "server_queue S \<in> ?Q" by simp
    note e = own_get [OF own q w']
    have "own ?Q other ?hs' w'" by (intro own_cong [OF e(1)]) (auto simp: S_Wait r)
    then have "owned S other w' sv' ?cl" using e(3,5) mem len by (simp add: owned_def)
    moreover have c: "client_mail S w' = client_mail S ?w" and sm: "server_mail S ?w = datum ?w m # server_mail S w'"
      using e(2,4,6) ids(4) by (simp_all add: client_mail_def server_mail_def)
    moreover have d: "datum ?w m = ping_data S n" using ma sm by (simp add: mails_def)
    moreover have "u = ping_id S" using e(7) d by (auto simp: ping_data_def)
    ultimately have "queue_ok S other ?t b n n'"
      using ma tu e(2) by (auto simp: queue_ok_def mails_def turns_def S_Wait r)
    then show ?thesis by blast
  next
    case (S_Got u p)
    then have u: "u = ping_id S" and d: "datum ?w p = ping_data S n" using ma by (simp_all add: mails_def)
    have n: "n \<le> last_ping" "b = False" "n = n'" using tu S_Got by (auto simp: turns_def c_behind_turn)
    obtain c' m where c': "int_add (11 * int n + 1) 1 = Inr c'" and w': "ml_message_alloc ?w (pong_id S) (int_data c') = Inr (m, w')"
      and r: "sv' = S_Pong p m" "o' = [Ping_count (11 * int n + 1)]"
      using assms(3) S_Got u ping_read [OF d n(1)] by (auto simp: server_main_def andthen_eq_Inr)
    have c: "c' = 11 * int n + 2" "Suc n \<le> last_ping"
      using c' n(1) by (auto simp: int_add_def int_max_def last_ping_def split: if_splits)
    note e = own_alloc [OF own w']
    have hs: "?hs' x = (?hs(m := 1)) x" for x using e(2) by (auto simp: S_Got r split: if_splits)
    have ow': "own ?Q other ?hs' w'" by (rule own_cong [OF e(1) hs])
    have kp: "keeps ?Q ?hs ?w ?hs' w'" using keeps_alloc [OF own w'] by (metis ext hs)
    have "owned S other w' sv' ?cl" using ow' e(4,5) mem len by (simp add: owned_def)
    moreover have cl: "c_ok S (datum w') (Suc n) n' ?cl"
      using kept [OF ow' kp e(4)] tu by (cases ?cl) (auto simp: turns_def S_Got)
    moreover have "server_mail S w' = []" using kept [OF ow' kp e(4)] tu by (simp add: turns_def S_Got)
    ultimately have "queue_ok S other ?t False (Suc n) n'"
      using kept [OF ow' kp e(4)] ma tu e(3) c n
      by (auto simp: queue_ok_def mails_def turns_def S_Got r pong_data_def)
    then show ?thesis by blast
  next
    case (S_Pong p m)
    then have d: "datum ?w m = pong_data S n'" using ma by (simp add: mails_def)
    have w': "ml_queue_put ?w (client_queue S) m = Inr w'" and r: "sv' = S_Bad p" "o' = []"
      using assms(3) S_Pong by (auto simp: server_main_def andthen_eq_Inr)
    have m: "client_queue S \<in> ?Q" "0 < ?hs m" by (simp_all add: S_Pong)
    note e = own_put [OF own m w']
    have "own ?Q other ?hs' w'" by (intro own_cong [OF e(1)]) (auto simp: S_Pong r)
    then have "owned S other w' sv' ?cl" using e(3,5) mem len by (simp add: owned_def)
    moreover have b: "b = False" using tu S_Pong by (simp add: turns_def)
    moreover have "client_mail S w' = client_mail S ?w @ [Some (pong_id S, int_data (11 * int n' + 2))]"
      "server_mail S w' = server_mail S ?w"
      using e(2,4,6) d ids(4) by (simp_all add: client_mail_def server_mail_def pong_data_def)
    ultimately have "queue_ok S other ?t True n n'"
      using ma tu e(2) mail_put_pong [of S "11 * int n' + 2" "client_mail S ?w" "11 * int n' + 2"]
      by (auto simp: queue_ok_def mails_def turns_def S_Pong r)
    then show ?thesis by blast
  next
    case (S_Bad p)
    then obtain m where w': "ml_message_alloc ?w (bad_id S) NoData = Inr (m, w')" and r: "sv' = S_Put_bad p m" "o' = []"
      using assms(3) by (auto simp: server_main_def andthen_eq_Inr)
    note e = own_alloc [OF own w']
    have hs: "?hs' x = (?hs(m := 1)) x" for x using e(2) by (auto simp: S_Bad r split: if_splits)
    have ow': "own ?Q other ?hs' w'" by (rule own_cong [OF e(1) hs])
    have kp: "keeps ?Q ?hs ?w ?hs' w'" using keeps_alloc [OF own w'] by (metis ext hs)
    have "owned S other w' sv' ?cl" using ow' e(4,5) mem len by (simp add: owned_def)
    then have "queue_ok S other ?t b n n'"
      using kept [OF ow' kp e(4)] ma tu e(3) by (simp add: queue_ok_def mails_def turns_def S_Bad r)
    then show ?thesis by blast
  next
    case (S_Put_bad p m)
    then have d: "datum ?w m = Some (bad_id S, NoData)" using ma by (simp add: mails_def)
    have w': "ml_queue_put ?w (client_queue S) m = Inr w'" and r: "sv' = S_Free p" "o' = []"
      using assms(3) S_Put_bad by (auto simp: server_main_def andthen_eq_Inr)
    have m: "client_queue S \<in> ?Q" "0 < ?hs m" by (simp_all add: S_Put_bad)
    note e = own_put [OF own m w']
    have "own ?Q other ?hs' w'" by (intro own_cong [OF e(1)]) (auto simp: S_Put_bad r)
    then have "owned S other w' sv' ?cl" using e(3,5) mem len by (simp add: owned_def)
    moreover have "client_mail S w' = client_mail S ?w @ [Some (bad_id S, NoData)]" "server_mail S w' = server_mail S ?w"
      using e(2,4,6) d ids(4) by (simp_all add: client_mail_def server_mail_def)
    ultimately have "queue_ok S other ?t b n n'"
      using ma tu e(2) mail_put_bad [of S "11 * int n' + 2" b "client_mail S ?w"]
      by (simp add: queue_ok_def mails_def turns_def S_Put_bad r)
    then show ?thesis by blast
  next
    case (S_Free p)
    then have w': "ml_message_free ?w p = Inr w'" and r: "sv' = S_Wait" "o' = []"
      using assms(3) by (auto simp: server_main_def andthen_eq_Inr)
    have m: "0 < ?hs p" by (simp add: S_Free)
    note e = own_freeD [OF own m w']
    have hs: "?hs' x = (?hs(p := ?hs p - 1)) x" for x by (simp add: S_Free r)
    have ow': "own ?Q other ?hs' w'" by (rule own_cong [OF e(1) hs])
    have kp: "keeps ?Q ?hs ?w ?hs' w'" using keeps_free [OF own m w'] by (metis ext hs)
    have "owned S other w' sv' ?cl" using ow' e(2,3) mem len by (simp add: owned_def)
    then have "queue_ok S other ?t b n n'"
      using kept [OF ow' kp e(2)] ma tu by (simp add: queue_ok_def mails_def turns_def S_Free r)
    then show ?thesis by blast
  qed
qed

lemma client_step_ok:
  assumes "ids_ok S" and "queue_ok S other s b n n'" and "client_main S (client_thread s) (app_world s) = Inr (cl', o', w')"
  shows "\<exists>b' k k'. queue_ok S other (s\<lparr>app_world := w', client_thread := cl', printed := printed s @ o'\<rparr>) b' k k'"
proof -
  let ?Q = "{client_queue S, server_queue S}"
  let ?w = "app_world s"
  let ?sv = "server_thread s"
  let ?t = "s\<lparr>app_world := w', client_thread := cl', printed := printed s @ o'\<rparr>"
  let ?hs = "count_list (s_held ?sv @ c_held (client_thread s))"
  let ?hs' = "count_list (s_held ?sv @ c_held cl')"
  have ow: "owned S other ?w ?sv (client_thread s)" and ma: "mails S ?w ?sv (client_thread s) b n n'"
    and tu: "turns S ?w ?sv (client_thread s) b n n' (printed s)"
    using assms(2) by (simp_all add: queue_ok_def)
  have own: "own ?Q other ?hs ?w" and mem: "\<And>x. malloc_ok ?w x"
    and len: "q_length (queues ?w (client_queue S)) = 33" "q_length (queues ?w (server_queue S)) = 33"
    using ow by (simp_all add: owned_def)
  have ids: "ping_id S \<noteq> pong_id S" "ping_id S \<noteq> bad_id S" "pong_id S \<noteq> bad_id S" "client_queue S \<noteq> server_queue S"
    using assms(1) by (auto simp: ids_ok_def)
  have kept: "mail S v b' p (client_mail S w') = mail S v b' p (client_mail S ?w) \<and> server_mail S w' = server_mail S ?w
      \<and> s_ok S (datum w') n n' ?sv"
    if "own ?Q other ?hs' w'" "keeps ?Q ?hs ?w ?hs' w'" "queues w' = queues ?w" for v b' p
  proof -
    have "datum w' x = datum ?w x" if "x \<in> set (s_held ?sv)" for x
      using keeps_held [OF \<open>keeps ?Q ?hs ?w ?hs' w'\<close>, of x] that count_list_0_iff [of "s_held ?sv" x] by simp
    then show ?thesis
      using ma mail_kept [OF own that] s_ok_cong [of S "datum ?w" n n' ?sv "datum w'"]
      by (simp add: mails_def client_mail_def server_mail_def)
  qed
  show ?thesis
  proof (cases "client_thread s")
    case C_Start
    then obtain m where w': "ml_message_alloc ?w (ping_id S) (int_data 1) = Inr (m, w')" and r: "cl' = C_Sending m None" "o' = []"
      using assms(3) by (auto simp: client_main_def client_send_ping_def andthen_eq_Inr)
    note e = own_alloc [OF own w']
    have hs: "?hs' x = (?hs(m := 1)) x" for x using e(2) by (auto simp: C_Start r)
    have ow': "own ?Q other ?hs' w'" by (rule own_cong [OF e(1) hs])
    have kp: "keeps ?Q ?hs ?w ?hs' w'" using keeps_alloc [OF own w'] by (metis ext hs)
    have "owned S other w' ?sv cl'" using ow' e(4,5) mem len by (simp add: owned_def)
    moreover have "n = 0" using ma C_Start by (simp add: mails_def)
    ultimately have "queue_ok S other ?t b n n'"
      using kept [OF ow' kp e(4)] ma tu e(3) by (simp add: queue_ok_def mails_def turns_def C_Start r ping_data_def)
    then show ?thesis by blast
  next
    case (C_Sending m k)
    then have d: "datum ?w m = ping_data S n" using ma by (simp add: mails_def)
    have w': "ml_queue_put ?w (server_queue S) m = Inr w'"
      and r: "cl' = (case k of None \<Rightarrow> C_Wait | Some m' \<Rightarrow> C_Free m')" "o' = []"
      using assms(3) C_Sending by (auto simp: client_main_def andthen_eq_Inr)
    have m: "server_queue S \<in> ?Q" "0 < ?hs m" by (simp_all add: C_Sending)
    note e = own_put [OF own m w']
    have "own ?Q other ?hs' w'" by (intro own_cong [OF e(1)]) (auto simp: C_Sending r split: option.split)
    then have "owned S other w' ?sv cl'" using e(3,5) mem len by (simp add: owned_def)
    moreover have "server_mail S w' = server_mail S ?w @ [ping_data S n]" "client_mail S w' = client_mail S ?w"
      using e(2,4,6) d ids(4) by (simp_all add: client_mail_def server_mail_def)
    ultimately have "queue_ok S other ?t b n n'"
      using ma tu e(2) by (auto simp: queue_ok_def mails_def turns_def C_Sending r split: option.split)
    then show ?thesis by blast
  next
    case C_Wait
    then obtain u m where w': "ml_queue_get ?w (client_queue S) = Inr (u, m, w')" and r: "cl' = C_Got u m" "o' = []"
      using assms(3) by (auto simp: client_main_def andthen_eq_Inr)
    have q: "client_queue S \<in> ?Q" by simp
    note e = own_get [OF own q w']
    have "own ?Q other ?hs' w'" by (intro own_cong [OF e(1)]) (auto simp: C_Wait r)
    then have "owned S other w' ?sv cl'" using e(3,5) mem len by (simp add: owned_def)
    moreover have sm: "server_mail S w' = server_mail S ?w" and cm: "client_mail S ?w = datum ?w m # client_mail S w'"
      using e(2,4,6) ids(4) by (simp_all add: client_mail_def server_mail_def)
    moreover have "mail S (11 * int n' + 2) b (making_bad ?sv) (datum ?w m # client_mail S w')"
      using ma cm by (simp add: mails_def)
    from mail_get [OF this] have "queue_ok S other ?t b n n' \<or> queue_ok S other ?t False n n'"
    proof
      assume "datum ?w m = Some (bad_id S, NoData) \<and> mail S (11 * int n' + 2) b (making_bad ?sv) (client_mail S w')"
      then show ?thesis
        using calculation ma tu e(2,7) ids by (auto simp: queue_ok_def mails_def turns_def C_Wait r)
    next
      assume "b \<and> datum ?w m = Some (pong_id S, int_data (11 * int n' + 2))
        \<and> mail S (11 * int n' + 2) False (making_bad ?sv) (client_mail S w')"
      then show ?thesis
        using calculation ma tu e(2,7) ids by (auto simp: queue_ok_def mails_def turns_def C_Wait r pong_data_def)
    qed
    then show ?thesis by blast
  next
    case (C_Got u m)
    show ?thesis
    proof (cases "u = pong_id S")
      case True
      then have d: "datum ?w m = pong_data S n'" using ma C_Got ids by (auto simp: mails_def)
      have n: "n' < last_ping" "b = False" "n = Suc n'" using tu C_Got True by (auto simp: turns_def s_ahead_turn)
      obtain c' p where c': "int_add (11 * int n' + 2) 10 = Inr c'"
        and w': "ml_message_alloc ?w (ping_id S) (int_data c') = Inr (p, w')"
        and r: "cl' = C_Sending p (Some m)" "o' = [Pong_count (11 * int n' + 2)]"
        using assms(3) C_Got True pong_read [OF d n(1)]
        by (auto simp: client_main_def client_send_ping_def andthen_eq_Inr)
      have c: "c' = 11 * int n + 1" using c' n(3) by (simp add: int_add_def split: if_splits)
      note e = own_alloc [OF own w']
      have hs: "?hs' x = (?hs(p := 1)) x" for x using e(2) by (auto simp: C_Got r split: if_splits)
      have ow': "own ?Q other ?hs' w'" by (rule own_cong [OF e(1) hs])
      have kp: "keeps ?Q ?hs ?w ?hs' w'" using keeps_alloc [OF own w'] by (metis ext hs)
      have "owned S other w' ?sv cl'" using ow' e(4,5) mem len by (simp add: owned_def)
      moreover have "s_ok S (datum w') n (Suc n') ?sv"
        using kept [OF ow' kp e(4)] tu by (cases ?sv) (auto simp: turns_def C_Got True)
      ultimately have "queue_ok S other ?t False n (Suc n')"
        using kept [OF ow' kp e(4)] ma tu e(3) c n mail_False [of S "11 * int n' + 2" _ _ "11 * int (Suc n') + 2"] True
        by (simp add: queue_ok_def mails_def turns_def C_Got r ping_data_def algebra_simps)
      then show ?thesis by blast
    next
      case False
      then have r: "cl' = C_Free m" "o' = [Client_unexpected u]" "w' = ?w"
        using assms(3) C_Got by (auto simp: client_main_def)
      have "queue_ok S other ?t b n n'"
        using ow ma tu False by (auto simp: queue_ok_def owned_def mails_def turns_def C_Got r)
      then show ?thesis by blast
    qed
  next
    case (C_Free m)
    then have w': "ml_message_free ?w m = Inr w'" and r: "cl' = C_Wait" "o' = []"
      using assms(3) by (auto simp: client_main_def andthen_eq_Inr)
    have m: "0 < ?hs m" by (simp add: C_Free)
    note e = own_freeD [OF own m w']
    have hs: "?hs' x = (?hs(m := ?hs m - 1)) x" for x by (simp add: C_Free r)
    have ow': "own ?Q other ?hs' w'" by (rule own_cong [OF e(1) hs])
    have kp: "keeps ?Q ?hs ?w ?hs' w'" using keeps_free [OF own m w'] by (metis ext hs)
    have "owned S other w' ?sv cl'" using ow' e(2,3) mem len by (simp add: owned_def)
    then have "queue_ok S other ?t b n n'"
      using kept [OF ow' kp e(2)] ma tu by (simp add: queue_ok_def mails_def turns_def C_Free r)
    then show ?thesis by blast
  qed
qed

section \<open>Progress\<close>

lemma server_waits:
  assumes "queue_ok S other s b n n'" and "server_main S (server_thread s) (app_world s) = Inl e"
  shows "e = Blocked \<and> server_thread s = S_Wait \<and> server_mail S (app_world s) = [] \<or> e = Overflow \<and> n = last_ping"
proof -
  let ?Q = "{client_queue S, server_queue S}"
  let ?w = "app_world s"
  let ?hs = "count_list (s_held (server_thread s) @ c_held (client_thread s))"
  have own: "own ?Q other ?hs ?w" and mem: "\<And>x. malloc_ok ?w x" and len: "q_length (queues ?w (client_queue S)) = 33"
    and ma: "mails S ?w (server_thread s) (client_thread s) b n n'"
    and tu: "turns S ?w (server_thread s) (client_thread s) b n n' (printed s)"
    using assms(1) by (simp_all add: queue_ok_def owned_def)
  have room: "ml_queue_put ?w (client_queue S) m \<noteq> Inl e" for m
  proof -
    have "mail S (11 * int n' + 2) b (making_bad (server_thread s)) (client_mail S ?w)" using ma by (simp add: mails_def)
    from mail_length [OF this] have "length (client_mail S ?w) \<le> 3" by (simp split: if_splits)
    then show ?thesis using own_put_total [OF own, of "client_queue S" m e] len by (simp add: client_mail_def)
  qed
  show ?thesis
  proof (cases "server_thread s")
    case S_Wait
    then have "ml_queue_get ?w (server_queue S) = Inl e"
      using assms(2) by (auto simp: server_main_def andthen_def split: sum.splits)
    then show ?thesis using own_get_total [OF own, of "server_queue S"] S_Wait by (simp add: server_mail_def)
  next
    case (S_Got u p)
    then have u: "u = ping_id S" and d: "datum ?w p = ping_data S n" using ma by (simp_all add: mails_def)
    have n: "n \<le> last_ping" using tu by (simp add: turns_def)
    obtain v where "int_add (11 * int n + 1) 1 = Inl e \<or> ml_message_alloc ?w (pong_id S) v = Inl e"
      using assms(2) S_Got u ping_read [OF d n] by (auto simp: server_main_def andthen_def split: sum.splits)
    moreover have "ml_message_alloc ?w (pong_id S) v \<noteq> Inl e"
      using own_alloc_total [of ?w "pong_id S" v] mem by auto
    ultimately have "int_add (11 * int n + 1) 1 = Inl e" by blast
    then show ?thesis using n by (auto simp: int_add_def int_max_def last_ping_def split: if_splits)
  next
    case (S_Bad p)
    then show ?thesis
      using assms(2) own_alloc_total [of ?w "bad_id S" NoData] mem by (auto simp: server_main_def)
  next
    case (S_Free p)
    then have "0 < ?hs p" by simp
    then obtain w' where "ml_message_free ?w p = Inr w'" using own_free [OF own] by metis
    then show ?thesis using assms(2) S_Free by (simp add: server_main_def)
  qed (use assms(2) room in \<open>auto simp: server_main_def andthen_def split: sum.splits\<close>)
qed

lemma client_waits:
  assumes "ids_ok S" and "queue_ok S other s b n n'" and "client_main S (client_thread s) (app_world s) = Inl e"
  shows "e = Blocked \<and> client_thread s = C_Wait \<and> client_mail S (app_world s) = []"
proof -
  let ?Q = "{client_queue S, server_queue S}"
  let ?w = "app_world s"
  let ?hs = "count_list (s_held (server_thread s) @ c_held (client_thread s))"
  have own: "own ?Q other ?hs ?w" and mem: "\<And>x. malloc_ok ?w x" and len: "q_length (queues ?w (server_queue S)) = 33"
    and ma: "mails S ?w (server_thread s) (client_thread s) b n n'"
    and tu: "turns S ?w (server_thread s) (client_thread s) b n n' (printed s)"
    using assms(2) by (simp_all add: queue_ok_def owned_def)
  have alloc: "client_send_ping S c k ?w \<noteq> Inl e" for c k
    using own_alloc_total [of ?w "ping_id S" "int_data c"] mem by (auto simp: client_send_ping_def)
  show ?thesis
  proof (cases "client_thread s")
    case C_Start
    then show ?thesis using assms(3) alloc by (auto simp: client_main_def andthen_def split: sum.splits)
  next
    case (C_Sending m k)
    then have "length (server_mail S ?w) = 0" "ml_queue_put ?w (server_queue S) m = Inl e"
      using assms(3) tu by (auto simp: turns_def client_main_def andthen_def split: sum.splits)
    then show ?thesis using own_put_total [OF own, of "server_queue S" m e] len by (simp add: server_mail_def)
  next
    case C_Wait
    then have "ml_queue_get ?w (client_queue S) = Inl e"
      using assms(3) by (auto simp: client_main_def andthen_def split: sum.splits)
    then show ?thesis using own_get_total [OF own, of "client_queue S"] C_Wait by (simp add: client_mail_def)
  next
    case (C_Got u m)
    show ?thesis
    proof (cases "u = pong_id S")
      case True
      then have d: "datum ?w m = pong_data S n'" using ma C_Got assms(1) by (auto simp: mails_def ids_ok_def)
      have n: "n' < last_ping" using tu C_Got True by (auto simp: turns_def)
      then have "int_add (11 * int n' + 2) 10 = Inr (11 * int n' + 12)"
        by (simp add: int_add_def int_max_def last_ping_def)
      then show ?thesis
        using assms(3) C_Got True pong_read [OF d n] alloc by (auto simp: client_main_def andthen_def split: sum.splits)
    next
      case False
      then show ?thesis using assms(3) C_Got by (simp add: client_main_def)
    qed
  next
    case (C_Free m)
    then have "0 < ?hs m" by simp
    then obtain w' where "ml_message_free ?w m = Inr w'" using own_free [OF own] by metis
    then show ?thesis using assms(3) C_Free by (simp add: client_main_def)
  qed
qed

text \<open>One of the two can always go on, or the server is at the number it cannot add one to.\<close>

lemma never_stuck:
  assumes "ids_ok S" and "queue_ok S other s b n n'"
  shows "(\<exists>t. queue_step S s t) \<or> queue_thread_step S Server s = Inl Overflow"
proof (rule ccontr)
  assume no: "\<not> ?thesis"
  then obtain e e' where "server_main S (server_thread s) (app_world s) = Inl e" "e \<noteq> Overflow"
    "client_main S (client_thread s) (app_world s) = Inl e'"
    unfolding queue_step_def
    by (metis (no_types, lifting) andthen_def old.sum.exhaust old.sum.simps(5,6) prod.exhaust_sel queue_thread_step.simps case_prod_conv)
  then have "server_thread s = S_Wait" "server_mail S (app_world s) = []" "client_thread s = C_Wait" "client_mail S (app_world s) = []"
    using server_waits [OF assms(2)] client_waits [OF assms] by blast+
  moreover from this have "\<not> b" using assms(2) mail_Nil by (auto simp: queue_ok_def mails_def)
  ultimately show False using assms(2) by (simp add: queue_ok_def turns_def)
qed

text \<open>At most five messages are alive at a time.\<close>

lemma few_alive:
  assumes "queue_ok S other s b n n'"
  shows "card {m. heap (app_world s) m \<noteq> other m} \<le> 5"
proof -
  let ?Q = "{client_queue S, server_queue S}"
  let ?w = "app_world s"
  let ?held = "s_held (server_thread s) @ c_held (client_thread s)"
  let ?all = "contents (queues ?w (client_queue S)) @ contents (queues ?w (server_queue S)) @ ?held"
  have own: "own ?Q other (count_list ?held) ?w" using assms by (simp add: queue_ok_def owned_def)
  have "m \<in> set ?all" if "heap ?w m \<noteq> other m" for m
  proof (rule ccontr)
    assume no: "m \<notin> set ?all"
    have "queue_refs ?w ?Q m = 0" unfolding queue_refs_def using no by (intro sum.neutral) (auto simp: count_notin)
    moreover have "count_list ?held m = 0" using no by (simp add: count_notin)
    ultimately have "refs ?Q (count_list ?held) ?w m = 0" by (simp only: refs_def)
    then show False using own that unfolding own_def by metis
  qed
  then have "{m. heap ?w m \<noteq> other m} \<subseteq> set ?all" by blast
  then have "card {m. heap ?w m \<noteq> other m} \<le> length ?all" by (meson List.finite_set card_length card_mono order_trans)
  also have "length ?all = length (client_mail S ?w) + length (server_mail S ?w) + length ?held"
    by (simp add: client_mail_def server_mail_def)
  also have "\<dots> \<le> 5"
  proof -
    have "length (client_mail S ?w) + making_bad (server_thread s) \<le> (if b then 3 else 1)"
      and "c_turn S (client_thread s) + length (server_mail S ?w) + s_turn (server_thread s) + of_bool b = 1"
      using assms mail_length unfolding queue_ok_def mails_def turns_def by blast+
    then show ?thesis by (cases "server_thread s"; cases "client_thread s") (auto split: if_splits option.splits)
  qed
  finally show ?thesis .
qed

section \<open>The property\<close>

lemma queue_main_ready:
  assumes "world_ok (mod_world M)" and "\<And>n. malloc_ok (mod_world M) n" and "ids_ok S"
  shows "\<exists>s. queue_main S M = Inr s \<and> queue_ok S (heap (mod_world M)) s False 0 0"
proof -
  obtain M1 where M1: "queue_init (client_queue S) 32 M = Inr M1" using queue_init_returns [OF assms(2)] by blast
  note e1 = queue_init_step [OF M1 assms(1)]
  have "malloc_ok (mod_world M1) n" for n using e1(4) assms(2) by simp
  then obtain M2 where M2: "queue_init (server_queue S) 32 M1 = Inr M2" using queue_init_returns by blast
  note e2 = queue_init_step [OF M2 e1(1)]
  have d: "client_queue S \<noteq> server_queue S" using assms(3) by (simp add: ids_ok_def)
  have q: "contents (queues (mod_world M2) x) = [] \<and> q_length (queues (mod_world M2) x) = 33"
    if "x \<in> {client_queue S, server_queue S}" for x
    using that e1(6,7) e2(5-7) d by auto
  have "own {client_queue S, server_queue S} (heap (mod_world M2)) (\<lambda>_. 0) (mod_world M2)"
    using e2(1) q by (intro own_initial) (auto simp: world_ok_def)
  then have "owned S (heap (mod_world M)) (mod_world M2) S_Wait C_Start"
    using e1(3,4) e2(3,4) q assms(2) by (simp add: owned_def own_cong)
  moreover have "mails S (mod_world M2) S_Wait C_Start False 0 0"
    using q by (simp add: mails_def mail_def client_mail_def server_mail_def)
  moreover have "turns S (mod_world M2) S_Wait C_Start False 0 0 []"
    using q by (simp add: turns_def server_mail_def del: length_contents)
  ultimately show ?thesis using M1 M2 by (simp add: queue_main_def queue_ok_def)
qed

lemma queue_run_ok:
  assumes "ids_ok S" and "queue_ok S other s b n n'" and "(queue_step S)\<^sup>*\<^sup>* s t"
  shows "\<exists>b n n'. queue_ok S other t b n n'"
  using assms(3)
proof (induction rule: rtranclp_induct)
  case base
  then show ?case using assms(2) by blast
next
  case (step u t)
  then obtain b n n' where u: "queue_ok S other u b n n'" by blast
  obtain th where "queue_thread_step S th u = Inr t" using step(2) by (auto simp: queue_step_def)
  then show ?case
    using server_step_ok [OF assms(1) u] client_step_ok [OF assms(1) u] by (cases th) (auto simp: andthen_eq_Inr)
qed

text \<open>
  C22: the queue example goes on for ever, without a leak, until its numbers leave \<open>int\<close>. In every interleaving of the calls of
  the client and the server, from \<open>ml_init\<close> on, the numbers printed for the pings are 1, 12, 23, \<open>\<dots>\<close> and those for the
  pongs 2, 13, 24, \<open>\<dots>\<close>, with at most one pong to come; only the client gets unexpected messages, and those are the bad ones; at
  most five messages are alive at a time; no call fails, and one of the threads can go on, unless the server adds one to the
  largest \<open>int\<close>, which happens after exactly 195225786 pings.
\<close>

theorem queue_example_ping_pong:
  assumes "\<And>n. malloc_ok w n" and "queues_inv w" and "heap_inv w" and "ml_init jobs w handler log = Inr M"
    and "distinct [ping_id S, pong_id S, bad_id S]" and "client_queue S \<noteq> server_queue S"
  shows "\<exists>s0. queue_main S M = Inr s0 \<and> (\<forall>s. (queue_step S)\<^sup>*\<^sup>* s0 s \<longrightarrow>
      (\<exists>n n'. n' \<le> n \<and> n \<le> n' + 1
        \<and> pings (printed s) = map (\<lambda>k. 11 * int k + 1) [0..<n] \<and> pongs (printed s) = map (\<lambda>k. 11 * int k + 2) [0..<n']
        \<and> (\<forall>th e. queue_thread_step S th s = Inl e \<longrightarrow> e = Blocked \<or> th = Server \<and> e = Overflow \<and> n = 195225786))
    \<and> (\<forall>i \<in> set (printed s). case i of Server_unexpected u \<Rightarrow> False | Client_unexpected u \<Rightarrow> u = bad_id S | _ \<Rightarrow> True)
    \<and> card {m. heap (app_world s) m \<noteq> heap w m} \<le> 5
    \<and> ((\<exists>t. queue_step S s t) \<or> queue_thread_step S Server s = Inl Overflow))"
proof -
  have ids: "ids_ok S" using assms(5,6) by (simp add: ids_ok_def)
  note init = ml_init_bus [OF assms(4)]
  have "world_ok (mod_world M)" using ml_init_world_ok [OF assms(4)] assms(2,3) by (simp add: world_ok_def)
  moreover have "malloc_ok (mod_world M) n" for n using init(3) assms(1) by simp
  ultimately obtain s0 where s0: "queue_main S M = Inr s0" "queue_ok S (heap w) s0 False 0 0"
    using queue_main_ready [OF _ _ ids] init(4) by metis
  show ?thesis
  proof (rule exI [of _ s0], intro conjI allI impI)
    fix s
    assume run: "(queue_step S)\<^sup>*\<^sup>* s0 s"
    obtain b n n' where ok: "queue_ok S (heap w) s b n n'" using queue_run_ok [OF ids s0(2) run] by blast
    have tu: "turns S (app_world s) (server_thread s) (client_thread s) b n n' (printed s)" using ok by (simp add: queue_ok_def)
    have "n' \<le> n \<and> n \<le> n' + 1"
      using tu by (cases "server_thread s"; cases "client_thread s") (auto simp: turns_def split: if_splits)
    moreover have "e = Blocked \<or> th = Server \<and> e = Overflow \<and> n = 195225786" if "queue_thread_step S th s = Inl e" for th e
      using that server_waits [OF ok] client_waits [OF ids ok] unfolding last_ping_def
      by (cases th) (auto simp: andthen_def split: sum.splits)
    ultimately show "\<exists>n n'. n' \<le> n \<and> n \<le> n' + 1
        \<and> pings (printed s) = map (\<lambda>k. 11 * int k + 1) [0..<n] \<and> pongs (printed s) = map (\<lambda>k. 11 * int k + 2) [0..<n']
        \<and> (\<forall>th e. queue_thread_step S th s = Inl e \<longrightarrow> e = Blocked \<or> th = Server \<and> e = Overflow \<and> n = 195225786)"
      using tu unfolding turns_def by blast
    show "\<forall>i \<in> set (printed s). case i of Server_unexpected u \<Rightarrow> False | Client_unexpected u \<Rightarrow> u = bad_id S | _ \<Rightarrow> True"
      using tu by (simp add: turns_def expected_def)
    show "card {m. heap (app_world s) m \<noteq> heap w m} \<le> 5" by (rule few_alive [OF ok])
    show "(\<exists>t. queue_step S s t) \<or> queue_thread_step S Server s = Inl Overflow" by (rule never_stuck [OF ids ok])
  qed (rule s0(1))
qed

text \<open>In a process with an empty memory: the client sends, the server receives.\<close>

theorem queue_example_ping_pong_witness:
  "\<exists>M s0 t. ml_init 9 example_world \<lparr>timers = (\<lambda>_. undefined), timer_list = []\<rparr> example_module = Inr M
     \<and> queue_main \<lparr>ping_id = 1, pong_id = 2, bad_id = 3, server_queue = 1, client_queue = 2\<rparr> M = Inr s0
     \<and> queue_step \<lparr>ping_id = 1, pong_id = 2, bad_id = 3, server_queue = 1, client_queue = 2\<rparr> s0 t
     \<and> card {m. heap (app_world t) m \<noteq> None} \<le> 5"
proof -
  let ?S = "\<lparr>ping_id = 1, pong_id = 2, bad_id = 3, server_queue = 1, client_queue = 2\<rparr>"
  have w: "malloc_ok example_world n" "queues_inv example_world" "heap_inv example_world" "heap example_world = (\<lambda>_. None)" for n
    by (simp_all add: example_world_def queues_inv_def queue_inv_def heap_inv_def)
  obtain M where M: "ml_init 9 example_world \<lparr>timers = (\<lambda>_. undefined), timer_list = []\<rparr> example_module = Inr M"
    using ml_init_run [of example_world] w(1) by blast
  obtain s0 where s0: "queue_main ?S M = Inr s0"
    and run: "\<And>s. (queue_step ?S)\<^sup>*\<^sup>* s0 s \<Longrightarrow> card {m. heap (app_world s) m \<noteq> None} \<le> 5
      \<and> ((\<exists>t. queue_step ?S s t) \<or> queue_thread_step ?S Server s = Inl Overflow)"
    using queue_example_ping_pong [OF w(1-3) M, of ?S] unfolding w(4) by fastforce
  have "server_thread s0 = S_Wait" using s0 by (auto simp: queue_main_def andthen_eq_Inr)
  then have "queue_thread_step ?S Server s0 \<noteq> Inl Overflow"
    by (auto simp: server_main_def andthen_def ml_queue_get_def load_header_def split: sum.splits option.splits prod.splits)
  then obtain t where "queue_step ?S s0 t" using run by blast
  then show ?thesis using M s0 run [of t] by blast
qed

end
