(* ===== verification/Ml_Example_Timer.thy ===== *)
theory Ml_Example_Timer
  imports Ml_Ownership
begin

text \<open>
  The programs \<open>src/examples/timer/main.c\<close> and \<open>src/examples/file_descriptor/main.c\<close>, which wait for timeouts. A step is a
  tick of the timer handler's thread or a step of \<open>main\<close>, so timers may be started and messages received between any two
  ticks. The first section is about any program that starts timers on one queue: when they expire, counted in ticks.
\<close>

section \<open>When timers expire\<close>

text \<open>
  A timer that expires first at tick \<open>e\<close> and then every \<open>r\<close> ticks (or never again, when \<open>r\<close> is 0): the ticks left after \<open>n\<close>
  ticks, and how often it has expired.
\<close>

definition due :: "nat \<Rightarrow> nat \<Rightarrow> nat \<Rightarrow> nat option" where
  "due e r n = (if n < e then Some (e - n) else if 0 < r then Some (r - (n - e) mod r) else None)"

definition fires :: "nat \<Rightarrow> nat \<Rightarrow> nat \<Rightarrow> nat" where
  "fires e r n = (if n < e then 0 else if 0 < r then (n - e) div r + 1 else 1)"

lemma due_step:
  "due e r (Suc n) = (if due e r n = Some 1 then if 0 < r then Some r else None else map_option (\<lambda>k. k - 1) (due e r n))"
proof (cases "n < e")
  case True
  then show ?thesis by (auto simp: due_def)
next
  case False
  then have "Suc n - e = Suc (n - e)" by simp
  moreover have "(n - e) mod r < r" if "0 < r" using that by simp
  ultimately show ?thesis using False by (auto simp: due_def mod_Suc)
qed

lemma fires_step: "fires e r (Suc n) = fires e r n + (if due e r n = Some 1 then 1 else 0)"
proof (cases "n < e")
  case True
  then show ?thesis by (auto simp: fires_def due_def)
next
  case False
  then have "Suc n - e = Suc (n - e)" by simp
  moreover have "(n - e) mod r < r" if "0 < r" using that by simp
  ultimately show ?thesis using False by (auto simp: fires_def due_def div_Suc mod_Suc)
qed

lemma due_start: "0 < k \<Longrightarrow> due (n + k) r n = Some k"
  by (simp add: due_def)

lemma fires_start: "0 < k \<Longrightarrow> fires (n + k) r n = 0"
  by (simp add: fires_def)

text \<open>
  The timers of a program after \<open>n\<close> ticks: \<open>spec t\<close> is the message of the timer at \<open>t\<close>, its first tick and its period.
\<close>

definition running :: "(addr \<Rightarrow> (uid \<times> nat \<times> nat) option) \<Rightarrow> addr \<Rightarrow> nat \<Rightarrow> ml_timer_handler_t \<Rightarrow> bool" where
  "running spec q n h \<longleftrightarrow> timer_inv h
     \<and> (\<forall>t. expiry h t = (case spec t of None \<Rightarrow> None | Some (u, e, r) \<Rightarrow> due e r n))
     \<and> (\<forall>t u e r. spec t = Some (u, e, r) \<longrightarrow>
          timer_message (timers h t) = u \<and> timer_queue (timers h t) = q \<and> unat (repeat_ticks (timers h t)) = r)"

text \<open>No two timers have the same message.\<close>

definition told_apart :: "(addr \<Rightarrow> (uid \<times> nat \<times> nat) option) \<Rightarrow> bool" where
  "told_apart spec \<longleftrightarrow> (\<forall>t t' u x x'. spec t = Some (u, x) \<longrightarrow> spec t' = Some (u, x') \<longrightarrow> t = t')"

lemma running_none: "timer_list h = [] \<Longrightarrow> running (\<lambda>_. None) q n h"
  by (simp add: running_def timer_inv_def list_inv_def expiry_def)

lemma running_init:
  assumes "running spec q n h" and "spec t = None"
  shows "running spec q n (ml_timer_handler_timer_init h t u p)"
    and "timer_message (timers (ml_timer_handler_timer_init h t u p) t) = u"
    and "timer_queue (timers (ml_timer_handler_timer_init h t u p) t) = p"
    and "x \<noteq> t \<Longrightarrow> timers (ml_timer_handler_timer_init h t u p) x = timers h x"
proof -
  let ?h = "ml_timer_handler_timer_init h t u p"
  have e: "expiry h t = None" using assms by (simp add: running_def)
  then have "t \<notin> set (timer_list h)" by (simp add: expiry_active)
  moreover have inv: "timer_inv h" using assms(1) by (simp add: running_def)
  ultimately have i: "timer_inv ?h" by (intro timer_inv_init)
  have "delta (timers ?h x) = delta (timers h x)" for x by (simp add: ml_timer_handler_timer_init_def)
  then have ex: "expiry ?h = expiry h"
    by (auto simp: expiry_def ml_timer_handler_timer_init_def fun_eq_iff intro!: list_expiry_cong)
  show "running spec q n ?h"
    unfolding running_def ex using assms i by (auto simp: running_def ml_timer_handler_timer_init_def)
  show "timer_message (timers ?h t) = u" "timer_queue (timers ?h t) = p" "x \<noteq> t \<Longrightarrow> timers ?h x = timers h x"
    by (simp_all add: ml_timer_handler_timer_init_def)
qed

lemma running_start:
  assumes "running spec q n h" and "timer_message (timers h t) = u" and "timer_queue (timers h t) = q"
    and "unat i + 99 < 2 ^ 32" and "unat r + 99 < 2 ^ 32"
  shows "running (spec(t \<mapsto> (u, n + ((unat i + 99) div 100 + 1), (unat r + 99) div 100))) q n (ml_timer_handler_timer_start h t i r)"
    and "timer_message (timers (ml_timer_handler_timer_start h t i r) x) = timer_message (timers h x)"
    and "timer_queue (timers (ml_timer_handler_timer_start h t i r) x) = timer_queue (timers h x)"
proof -
  let ?h = "ml_timer_handler_timer_start h t i r"
  have inv: "timer_inv h" using assms(1) by (simp add: running_def)
  note e = start_effect [OF inv, of t i r]
  have s: "settings (timers ?h x) = (let y = settings (timers h x) in if x = t
      then y\<lparr>initial_ticks := DIV_CEIL i 100, repeat_ticks := DIV_CEIL r 100, number_of_timeouts_to_ignore := number_of_outstanding_timeouts y\<rparr>
      else y)" for x by (rule e(3))
  show m: "timer_message (timers ?h x) = timer_message (timers h x)" for x
    using arg_cong [OF s [of x], of timer_message] by (simp add: Let_def split: if_splits)
  show q: "timer_queue (timers ?h x) = timer_queue (timers h x)" for x
    using arg_cong [OF s [of x], of timer_queue] by (simp add: Let_def split: if_splits)
  have rt: "repeat_ticks (timers ?h x) = (if x = t then DIV_CEIL r 100 else repeat_ticks (timers h x))" for x
    using arg_cong [OF s [of x], of repeat_ticks] by (simp add: Let_def split: if_splits)
  have "unat (DIV_CEIL i 100 + 1) = (unat i + 99) div 100 + 1" "unat (DIV_CEIL r 100) = (unat r + 99) div 100"
    using assms(4,5) by (simp_all add: unat_ticks unat_DIV_CEIL)
  then show "running (spec(t \<mapsto> (u, n + ((unat i + 99) div 100 + 1), (unat r + 99) div 100))) q n ?h"
    using assms(1-3) start_timer_inv [OF inv, of t i r] e(1) due_start [of "(unat i + 99) div 100 + 1" n "(unat r + 99) div 100"]
    by (auto simp: running_def m q rt)
qed

text \<open>What is waiting on the queue, by its identifiers and data.\<close>

definition mail_on :: "world \<Rightarrow> addr \<Rightarrow> (uid \<times> payload) option list" where
  "mail_on w q = map (datum w) (contents (queues w q))"

lemma mail_on_kept:
  assumes "own Q other hs w" and "own Q other hs' w'" and "keeps Q hs w hs' w'" and "queues w' = queues w" and "q \<in> Q"
  shows "mail_on w' q = mail_on w q"
  using keeps_queued [OF assms(3,1,2,5)] assms(4) by (simp add: mail_on_def)

lemma own_post_timeouts:
  assumes "own Q other hs w" and "q \<in> Q" and "\<And>x. x \<in> set xs \<Longrightarrow> timer_queue x = q" and "post_timeouts w xs = Inr w'"
  shows "own Q other hs w' \<and> keeps Q hs w hs w' \<and> mail_on w' q = mail_on w q @ map (\<lambda>x. Some (timer_message x, NoData)) xs
    \<and> malloc_ok w' = malloc_ok w \<and> q_length (queues w' q) = q_length (queues w q)
    \<and> on_put (queues w' q) = on_put (queues w q)
    \<and> put_calls w' = put_calls w @ concat (replicate (length xs) (case on_put (queues w q) of None \<Rightarrow> [] | Some c \<Rightarrow> [c]))"
  using assms
proof (induction xs arbitrary: w)
  case Nil
  then show ?case by (simp add: keeps_datum)
next
  case (Cons x xs)
  obtain m w1 w2 where a: "ml_message_alloc w (timer_message x) NoData = Inr (m, w1)"
    and p: "ml_queue_put w1 q m = Inr w2" and r: "post_timeouts w2 xs = Inr w'"
    using Cons.prems(3,4) by (auto simp: andthen_eq_Inr post_timeout_def)
  note ea = own_alloc [OF Cons.prems(1) a]
  have "0 < (hs(m := 1)) m" by simp
  note ep = own_put [OF ea(1) Cons.prems(2) this p]
  have own2: "own Q other hs w2" by (rule own_cong [OF ep(1)]) (use ea(2) in simp)
  have fresh: "x \<noteq> m" if "0 < refs Q hs w x" for x
    using that own_fresh(1) [OF Cons.prems(1)] a by (auto simp: alloc_Inr)
  have k2: "keeps Q hs w hs w2" using fresh ea(3) ep(2) by (auto simp: keeps_def)
  have "datum w2 x = datum w x" if "x \<in> set (contents (queues w q))" for x
    using fresh [OF own_queued [OF Cons.prems(1,2) that]] ea(3) ep(2) by simp
  then have mail: "mail_on w2 q = mail_on w q @ [Some (timer_message x, NoData)]"
    using ea(3,4) ep(2,4) by (simp add: mail_on_def)
  have pc: "put_calls w2 = put_calls w @ (case on_put (queues w q) of None \<Rightarrow> [] | Some c \<Rightarrow> [c])"
    "on_put (queues w2 q) = on_put (queues w q)"
    using p a by (auto simp: put_Inr_iff alloc_Inr)
  have ih: "own Q other hs w' \<and> keeps Q hs w2 hs w' \<and> mail_on w' q = mail_on w2 q @ map (\<lambda>x. Some (timer_message x, NoData)) xs
    \<and> malloc_ok w' = malloc_ok w2 \<and> q_length (queues w' q) = q_length (queues w2 q)
    \<and> on_put (queues w' q) = on_put (queues w2 q)
    \<and> put_calls w' = put_calls w2 @ concat (replicate (length xs) (case on_put (queues w2 q) of None \<Rightarrow> [] | Some c \<Rightarrow> [c]))"
    using Cons.IH [OF own2 Cons.prems(2) _ r] Cons.prems(3) by simp
  have "queue_refs w Q y \<le> queue_refs w2 Q y" for y
    using queue_refs_put [OF _ _ Cons.prems(2) p, of y] ea(1) same_queues(1) [OF ea(4)] by (simp add: own_def)
  then have "0 < refs Q hs w2 y" if "0 < refs Q hs w y" for y
    using that unfolding refs_def by (meson add_le_mono le_refl less_le_trans)
  then have "keeps Q hs w hs w'" using k2 ih by (simp add: keeps_def)
  then show ?case using ih mail pc ea(5) ep(3,5) ea(4) by simp
qed

lemma count_expired:
  assumes "distinct l" and "\<And>x. x \<in> set l \<Longrightarrow> f x = f t \<Longrightarrow> x = t"
  shows "count_list (map f l) (f t) = (if t \<in> set l then 1 else 0)"
  using assms
proof (induction l)
  case (Cons x l)
  have ih: "count_list (map f l) (f t) = (if t \<in> set l then 1 else 0)"
    using Cons.IH Cons.prems by simp
  show ?case
  proof (cases "x = t")
    case True
    then show ?thesis using ih Cons.prems(1) by simp
  next
    case False
    then have "f x \<noteq> f t" using Cons.prems(2) [of x] by auto
    then show ?thesis using ih False by auto
  qed
qed simp

text \<open>A tick: the messages of the timers that expire are put on the queue.\<close>

lemma running_tick:
  assumes "running spec q n h" and "told_apart spec" and "own Q other hs w" and "q \<in> Q"
    and "tick h w = Some (Inr (h', w'))"
  obtains us where "running spec q (Suc n) h'" and "own Q other hs w'" and "keeps Q hs w hs w'"
    and "mail_on w' q = mail_on w q @ map (\<lambda>u. Some (u, NoData)) us"
    and "\<And>t u e r. spec t = Some (u, e, r) \<Longrightarrow> fires e r (Suc n) = fires e r n + count_list us u"
    and "\<And>u. u \<in> set us \<Longrightarrow> \<exists>t e r. spec t = Some (u, e, r)"
    and "malloc_ok w' = malloc_ok w" and "q_length (queues w' q) = q_length (queues w q)"
    and "on_put (queues w' q) = on_put (queues w q)"
    and "put_calls w' = put_calls w @ concat (replicate (length us) (case on_put (queues w q) of None \<Rightarrow> [] | Some c \<Rightarrow> [c]))"
    and "\<And>x. timer_message (timers h' x) = timer_message (timers h x)" and "\<And>x. timer_queue (timers h' x) = timer_queue (timers h x)"
proof -
  let ?xs = "map (timers h) (expired_in 1 h)"
  let ?us = "map (\<lambda>t. timer_message (timers h t)) (expired_in 1 h)"
  have inv: "timer_inv h" and ex: "\<And>t. expiry h t = (case spec t of None \<Rightarrow> None | Some (u, e, r) \<Rightarrow> due e r n)"
    and set: "\<And>t u e r. spec t = Some (u, e, r) \<Longrightarrow>
      timer_message (timers h t) = u \<and> timer_queue (timers h t) = q \<and> unat (repeat_ticks (timers h t)) = r"
    using assms(1) by (simp_all add: running_def)
  obtain h1 where t: "\<And>w. tick h w = Some (andthen (post_timeouts w ?xs) (\<lambda>w. Inr (h1, w)))"
    and f: "fired h (\<lambda>t. expiry h t = Some 1) (\<lambda>t. map_option (\<lambda>n. n - 1) (expiry h t)) h1"
    using tick_effect [OF inv] by blast
  have h': "h' = h1" and p: "post_timeouts w ?xs = Inr w'" using assms(5) t [of w] by (auto simp: andthen_eq_Inr)
  have e1: "\<exists>u e r. spec t = Some (u, e, r)" if "t \<in> set (expired_in 1 h)" for t
    using that ex [of t] by (auto simp: expired_in_def split: option.splits)
  have q: "timer_queue x = q" if "x \<in> set ?xs" for x using that e1 set by fastforce
  note m = own_post_timeouts [OF assms(3,4) q p]
  have s: "settings (timers h1 t) = (let y = settings (timers h t) in if expiry h t = Some 1
      then y\<lparr>number_of_outstanding_timeouts := number_of_outstanding_timeouts y + 1\<rparr> else y)" for t
    using f by (simp add: fired_def)
  have same: "timer_message (timers h1 t) = timer_message (timers h t)" "timer_queue (timers h1 t) = timer_queue (timers h t)"
    "repeat_ticks (timers h1 t) = repeat_ticks (timers h t)" for t
    using arg_cong [OF s [of t], of timer_message] arg_cong [OF s [of t], of timer_queue] arg_cong [OF s [of t], of repeat_ticks]
    by (simp_all add: Let_def split: if_splits)
  have "expiry h1 t = (case spec t of None \<Rightarrow> None | Some (u, e, r) \<Rightarrow> due e r (Suc n))" for t
    using f ex [of t] set [of t] by (auto simp: fired_def rearm_def due_step word_less_nat_alt split: option.splits)
  then have run: "running spec q (Suc n) h'" using f set by (simp add: running_def h' same fired_def)
  have cnt: "fires e r (Suc n) = fires e r n + count_list ?us u" if "spec t = Some (u, e, r)" for t u e r
  proof -
    have "distinct (expired_in 1 h)" using inv by (simp add: expired_in_def timer_inv_def list_inv_def)
    moreover have "x = t" if "x \<in> set (expired_in 1 h)" "timer_message (timers h x) = timer_message (timers h t)" for x
      using e1 [OF that(1)] that(2) set \<open>spec t = _\<close> assms(2) unfolding told_apart_def by metis
    ultimately have "count_list ?us (timer_message (timers h t)) = (if t \<in> set (expired_in 1 h) then 1 else 0)"
      by (rule count_expired)
    moreover have "t \<in> set (expired_in 1 h) \<longleftrightarrow> due e r n = Some 1"
      using ex [of t] that expiry_active [of h t] by (auto simp: expired_in_def)
    ultimately show ?thesis using set [OF that] by (simp add: fires_step)
  qed
  have in_spec: "\<exists>t e r. spec t = Some (u, e, r)" if "u \<in> set ?us" for u
    using that e1 set by fastforce
  show thesis
    using that [OF run _ _ _ cnt in_spec] m same(1,2) by (simp add: comp_def h')
qed

lemma own_post_waits:
  assumes "own Q other hs w" and "q \<in> Q" and "\<And>x. malloc_ok w x" and "\<And>x. x \<in> set xs \<Longrightarrow> timer_queue x = q"
    and "post_timeouts w xs = Inl e"
  shows "e = Blocked"
  using assms
proof (induction xs arbitrary: w)
  case (Cons x xs)
  show ?case
  proof (cases "post_timeout w x")
    case (Inl e')
    obtain m w1 where "ml_message_alloc w (timer_message x) NoData = Inr (m, w1)"
      using own_alloc_total [of w "timer_message x" NoData] Cons.prems(3) by blast
    then have "e' = Blocked" using Inl by (auto simp: post_timeout_def put_Inl_iff)
    moreover have "e = e'" using Inl Cons.prems(5) by simp
    ultimately show ?thesis by simp
  next
    case (Inr w1)
    then have p: "post_timeouts w [x] = Inr w1" by simp
    have "timer_queue y = q" if "y \<in> set [x]" for y using that Cons.prems(4) by simp
    note e = own_post_timeouts [OF Cons.prems(1,2) this p]
    show ?thesis using Cons.IH [of w1] e Cons.prems Inr by simp
  qed
qed simp

text \<open>A tick always ends, and with memory available it only ever waits for room in the queue.\<close>

lemma running_tick_waits:
  assumes "running spec q n h" and "own Q other hs w" and "q \<in> Q" and "\<And>x. malloc_ok w x"
  shows "\<exists>r. tick h w = Some r \<and> (\<forall>e. r = Inl e \<longrightarrow> e = Blocked)"
proof -
  let ?xs = "map (timers h) (expired_in 1 h)"
  have inv: "timer_inv h" using assms(1) by (simp add: running_def)
  obtain h1 where t: "tick h w = Some (andthen (post_timeouts w ?xs) (\<lambda>w. Inr (h1, w)))"
    using tick_effect [OF inv] by blast
  have "timer_queue x = q" if x: "x \<in> set ?xs" for x
  proof -
    obtain t where "x = timers h t" "expiry h t = Some 1" using x by (auto simp: expired_in_def)
    then show ?thesis using assms(1) by (auto simp: running_def split: option.splits)
  qed
  then have "e = Blocked" if "post_timeouts w ?xs = Inl e" for e
    using own_post_waits [OF assms(2-4) _ that] by blast
  then show ?thesis using t by (auto simp: andthen_def split: sum.splits)
qed

section \<open>The timer example\<close>

record timer_statics =
  timer_1 :: addr
  timer_2 :: addr
  timer_3 :: addr
  timeout_1 :: uid
  timeout_2 :: uid
  timeout_3 :: uid
  timeout_queue :: addr

definition timers_ok :: "timer_statics \<Rightarrow> bool" where
  "timers_ok S \<longleftrightarrow> distinct [timer_1 S, timer_2 S, timer_3 S] \<and> distinct [timeout_1 S, timeout_2 S, timeout_3 S]"

datatype timer_at = T_Start_1 | T_Start_2 | T_Start_3 | T_Wait | T_Got uid addr

definition timer_text :: "timer_statics \<Rightarrow> uid \<Rightarrow> string list" where
  "timer_text S u =
     (if u = timeout_1 S then [''Timer 1 expired.'']
      else if u = timeout_2 S then [''Timer 2 expired.'']
      else if u = timeout_3 S then [''Timer 3 expired.'']
      else [])"

definition timer_main_step :: "timer_statics \<Rightarrow> timer_at \<Rightarrow> ml_module \<Rightarrow> (timer_at \<times> string list \<times> ml_module) res" where
  "timer_main_step S at M =
     (case at of
        T_Start_1 \<Rightarrow> Inr (T_Start_2, [''Starting timer 1.''], ml_timer_start (timer_1 S) 1000 1000 M)
      | T_Start_2 \<Rightarrow> Inr (T_Start_3, [''Starting timer 2.''], ml_timer_start (timer_2 S) 3000 3000 M)
      | T_Start_3 \<Rightarrow> Inr (T_Wait, [''Starting timer 3.''], ml_timer_start (timer_3 S) 5000 0 M)
      | T_Wait \<Rightarrow> andthen (ml_queue_get (mod_world M) (timeout_queue S)) (\<lambda>(u, m, w).
          Inr (T_Got u m, timer_text S u, set_world w M))
      | T_Got u m \<Rightarrow> andthen (ml_message_free (mod_world M) m) (\<lambda>w. Inr (T_Wait, [], set_world w M)))"

definition timer_main :: "timer_statics \<Rightarrow> ml_module \<Rightarrow> ml_module res" where
  "timer_main S M =
     andthen (queue_init (timeout_queue S) 16 M) (\<lambda>M.
       Inr (ml_timer_init (timer_3 S) (timeout_3 S) (timeout_queue S)
           (ml_timer_init (timer_2 S) (timeout_2 S) (timeout_queue S)
           (ml_timer_init (timer_1 S) (timeout_1 S) (timeout_queue S) M))))"

text \<open>The program with what it has printed, the ticks so far and, for each timer started, the ticks before that.\<close>

record timer_app =
  t_module :: ml_module
  t_at :: timer_at
  t_printed :: "string list"
  ticks :: nat
  started :: "nat list"

definition starting :: "timer_at \<Rightarrow> bool" where
  "starting at \<longleftrightarrow> at = T_Start_1 \<or> at = T_Start_2 \<or> at = T_Start_3"

definition tick_module :: "ml_module \<Rightarrow> ml_module res option" where
  "tick_module M = map_option (\<lambda>r. andthen r (\<lambda>(h, w). Inr (set_world w (M\<lparr>mod_timer_handler := h\<rparr>))))
     (tick (mod_timer_handler M) (mod_world M))"

inductive timer_app_step :: "timer_statics \<Rightarrow> timer_app \<Rightarrow> timer_app \<Rightarrow> bool" for S where
  Tick: "tick_module (t_module s) = Some (Inr M) \<Longrightarrow> timer_app_step S s (s\<lparr>t_module := M, ticks := Suc (ticks s)\<rparr>)"
| Main: "timer_main_step S (t_at s) (t_module s) = Inr (at, out, M) \<Longrightarrow>
    timer_app_step S s (s\<lparr>t_module := M, t_at := at, t_printed := t_printed s @ out,
      started := started s @ (if starting (t_at s) then [ticks s] else [])\<rparr>)"

definition timer_begin :: "ml_module \<Rightarrow> timer_app" where
  "timer_begin M = \<lparr>t_module = M, t_at = T_Start_1, t_printed = [], ticks = 0, started = []\<rparr>"

text \<open>Which timers run, and how often each has expired: what was printed and what is still in the queue.\<close>

definition timer_spec :: "timer_statics \<Rightarrow> nat list \<Rightarrow> addr \<Rightarrow> (uid \<times> nat \<times> nat) option" where
  "timer_spec S st t =
     (if t = timer_1 S \<and> 0 < length st then Some (timeout_1 S, st ! 0 + 11, 10)
      else if t = timer_2 S \<and> 1 < length st then Some (timeout_2 S, st ! 1 + 31, 30)
      else if t = timer_3 S \<and> 2 < length st then Some (timeout_3 S, st ! 2 + 51, 0)
      else None)"

definition in_queue :: "timer_statics \<Rightarrow> timer_app \<Rightarrow> uid \<Rightarrow> nat" where
  "in_queue S s u = count_list (mail_on (mod_world (t_module s)) (timeout_queue S)) (Some (u, NoData))"

definition expirations :: "timer_statics \<Rightarrow> nat list \<Rightarrow> nat \<Rightarrow> uid \<Rightarrow> nat" where
  "expirations S st n u =
     (if u = timeout_1 S \<and> 0 < length st then fires (st ! 0 + 11) 10 n
      else if u = timeout_2 S \<and> 1 < length st then fires (st ! 1 + 31) 30 n
      else if u = timeout_3 S \<and> 2 < length st then fires (st ! 2 + 51) 0 n
      else 0)"

fun t_held :: "timer_at \<Rightarrow> addr list" where
  "t_held (T_Got u m) = [m]"
| "t_held _ = []"

fun starts_done :: "timer_at \<Rightarrow> nat" where
  "starts_done T_Start_1 = 0"
| "starts_done T_Start_2 = 1"
| "starts_done T_Start_3 = 2"
| "starts_done _ = 3"

definition timers_set :: "timer_statics \<Rightarrow> ml_timer_handler_t \<Rightarrow> bool" where
  "timers_set S h \<longleftrightarrow> (\<forall>(t, u) \<in> {(timer_1 S, timeout_1 S), (timer_2 S, timeout_2 S), (timer_3 S, timeout_3 S)}.
     timer_message (timers h t) = u \<and> timer_queue (timers h t) = timeout_queue S)"

definition timeouts_only :: "timer_statics \<Rightarrow> (uid \<times> payload) option list \<Rightarrow> bool" where
  "timeouts_only S ks \<longleftrightarrow> set ks \<subseteq> (\<lambda>u. Some (u, NoData)) ` {timeout_1 S, timeout_2 S, timeout_3 S}"

definition timer_app_inv :: "timer_statics \<Rightarrow> (addr \<Rightarrow> ml_message_header_t option) \<Rightarrow> timer_app \<Rightarrow> bool" where
  "timer_app_inv S other s \<longleftrightarrow>
     own {timeout_queue S} other (count_list (t_held (t_at s))) (mod_world (t_module s))
     \<and> (\<forall>x. malloc_ok (mod_world (t_module s)) x)
     \<and> running (timer_spec S (started s)) (timeout_queue S) (ticks s) (mod_timer_handler (t_module s))
     \<and> timers_set S (mod_timer_handler (t_module s))
     \<and> length (started s) = starts_done (t_at s)
     \<and> timeouts_only S (mail_on (mod_world (t_module s)) (timeout_queue S))
     \<and> (\<forall>u \<in> {timeout_1 S, timeout_2 S, timeout_3 S}.
          count_list (t_printed s) (hd (timer_text S u)) + in_queue S s u = expirations S (started s) (ticks s) u)"

lemma timer_spec_apart: "timers_ok S \<Longrightarrow> told_apart (timer_spec S st)"
  by (auto simp: told_apart_def timer_spec_def timers_ok_def split: if_splits)

lemma set_world_handler [simp]: "mod_timer_handler (set_world w M) = mod_timer_handler M"
  by (simp add: set_world_def)

lemma timer_start_simps [simp]:
  "mod_world (ml_timer_start t i r M) = mod_world M"
  "mod_timer_handler (ml_timer_start t i r M) = ml_timer_handler_timer_start (mod_timer_handler M) t i r"
  by (simp_all add: ml_timer_start_def)

lemma count_mail: "count_list (map (\<lambda>u. Some (u, NoData)) us) (Some (u, NoData)) = count_list us u"
  by (induction us) auto

lemma timer_spec_start:
  assumes "timers_ok S"
  shows "length st = 0 \<Longrightarrow> (timer_spec S st)(timer_1 S \<mapsto> (timeout_1 S, n + 11, 10)) = timer_spec S (st @ [n])"
    and "length st = 1 \<Longrightarrow> (timer_spec S st)(timer_2 S \<mapsto> (timeout_2 S, n + 31, 30)) = timer_spec S (st @ [n])"
    and "length st = 2 \<Longrightarrow> (timer_spec S st)(timer_3 S \<mapsto> (timeout_3 S, n + 51, 0)) = timer_spec S (st @ [n])"
  using assms by (auto simp: timer_spec_def timers_ok_def fun_eq_iff nth_append)

lemma expirations_start:
  assumes "length st \<le> 2" and "timers_ok S"
  shows "expirations S (st @ [n]) n u = expirations S st n u"
proof -
  have "st = [] \<or> (\<exists>a. st = [a]) \<or> (\<exists>a b. st = [a, b])"
    using assms(1) by (auto simp: le_Suc_eq length_Suc_conv numeral_2_eq_2)
  then show ?thesis using assms(2) by (elim disjE exE) (auto simp: expirations_def timers_ok_def fires_def)
qed

lemma running_starts:
  assumes "running spec q n h" and "timer_message (timers h t) = u" and "timer_queue (timers h t) = q"
  shows "running (spec(t \<mapsto> (u, n + 11, 10))) q n (ml_timer_handler_timer_start h t 1000 1000)"
    and "running (spec(t \<mapsto> (u, n + 31, 30))) q n (ml_timer_handler_timer_start h t 3000 3000)"
    and "running (spec(t \<mapsto> (u, n + 51, 0))) q n (ml_timer_handler_timer_start h t 5000 0)"
  using running_start(1) [OF assms, of 1000 1000] running_start(1) [OF assms, of 3000 3000] running_start(1) [OF assms, of 5000 0]
  by simp_all

lemma timer_start_step:
  assumes "timer_app_inv S other s" and "timers_ok S"
    and "running (timer_spec S (started s @ [ticks s])) (timeout_queue S) (ticks s) (ml_timer_handler_timer_start (mod_timer_handler (t_module s)) t i r)"
    and "t = timer_1 S \<or> t = timer_2 S \<or> t = timer_3 S" and "unat i + 99 < 2 ^ 32" and "unat r + 99 < 2 ^ 32"
    and "starts_done (t_at s) < 3" and "starts_done at = Suc (starts_done (t_at s))" and "t_held at = []"
    and "\<And>u. u \<in> {timeout_1 S, timeout_2 S, timeout_3 S} \<Longrightarrow> txt \<noteq> hd (timer_text S u)"
  shows "timer_app_inv S other (s\<lparr>t_module := ml_timer_start t i r (t_module s), t_at := at, t_printed := t_printed s @ [txt],
      started := started s @ [ticks s]\<rparr>)"
proof -
  let ?h = "mod_timer_handler (t_module s)"
  have run: "running (timer_spec S (started s)) (timeout_queue S) (ticks s) ?h" and set: "timers_set S ?h"
    and len: "length (started s) = starts_done (t_at s)"
    using assms(1) by (simp_all add: timer_app_inv_def)
  have q: "timer_queue (timers ?h t) = timeout_queue S" using set assms(4) by (auto simp: timers_set_def)
  note e = running_start(2,3) [OF run refl q assms(5,6)]
  have "timers_set S (ml_timer_handler_timer_start ?h t i r)" using set by (simp add: timers_set_def e)
  moreover have "t_held (t_at s) = []" using assms(7) by (cases "t_at s") simp_all
  ultimately show ?thesis
    using assms(1,3,8,9,10) len assms(7) expirations_start [OF _ assms(2), of "started s" "ticks s"]
    by (simp add: timer_app_inv_def in_queue_def)
qed

lemma timer_texts:
  assumes "timers_ok S" and "u \<in> {timeout_1 S, timeout_2 S, timeout_3 S}"
  shows "''Starting timer 1.'' \<noteq> hd (timer_text S u)" and "''Starting timer 2.'' \<noteq> hd (timer_text S u)"
    and "''Starting timer 3.'' \<noteq> hd (timer_text S u)"
    and "count_list (timer_text S v) (hd (timer_text S u)) = (if v = u then 1 else 0)"
proof -
  have d: "timeout_1 S \<noteq> timeout_2 S" "timeout_1 S \<noteq> timeout_3 S" "timeout_2 S \<noteq> timeout_3 S"
    using assms(1) by (simp_all add: timers_ok_def)
  have u: "u = timeout_1 S \<or> u = timeout_2 S \<or> u = timeout_3 S" using assms(2) by simp
  show "''Starting timer 1.'' \<noteq> hd (timer_text S u)" "''Starting timer 2.'' \<noteq> hd (timer_text S u)"
    "''Starting timer 3.'' \<noteq> hd (timer_text S u)"
    using u d by (elim disjE; simp add: timer_text_def)+
  show "count_list (timer_text S v) (hd (timer_text S u)) = (if v = u then 1 else 0)"
    using u d by (elim disjE; simp add: timer_text_def)
qed

lemma timer_main_step_inv:
  assumes "timers_ok S" and "timer_app_inv S other s" and "timer_main_step S (t_at s) (t_module s) = Inr (at, out, M)"
  shows "timer_app_inv S other (s\<lparr>t_module := M, t_at := at, t_printed := t_printed s @ out,
      started := started s @ (if starting (t_at s) then [ticks s] else [])\<rparr>)"
proof -
  let ?h = "mod_timer_handler (t_module s)"
  let ?w = "mod_world (t_module s)"
  let ?Q = "{timeout_queue S}"
  have own: "own ?Q other (count_list (t_held (t_at s))) ?w"
    and run: "running (timer_spec S (started s)) (timeout_queue S) (ticks s) ?h" and set: "timers_set S ?h"
    and len: "length (started s) = starts_done (t_at s)"
    and cnt: "\<And>u. u \<in> {timeout_1 S, timeout_2 S, timeout_3 S} \<Longrightarrow>
      count_list (t_printed s) (hd (timer_text S u)) + in_queue S s u = expirations S (started s) (ticks s) u"
    using assms(2) unfolding timer_app_inv_def by blast+
  have m: "timer_message (timers ?h (timer_1 S)) = timeout_1 S" "timer_queue (timers ?h (timer_1 S)) = timeout_queue S"
    "timer_message (timers ?h (timer_2 S)) = timeout_2 S" "timer_queue (timers ?h (timer_2 S)) = timeout_queue S"
    "timer_message (timers ?h (timer_3 S)) = timeout_3 S" "timer_queue (timers ?h (timer_3 S)) = timeout_queue S"
    using set by (simp_all add: timers_set_def)
  show ?thesis
  proof (cases "t_at s")
    case T_Start_1
    then have r: "at = T_Start_2" "out = [''Starting timer 1.'']" "M = ml_timer_start (timer_1 S) 1000 1000 (t_module s)"
      using assms(3) by (simp_all add: timer_main_step_def)
    have "running (timer_spec S (started s @ [ticks s])) (timeout_queue S) (ticks s) (ml_timer_handler_timer_start ?h (timer_1 S) 1000 1000)"
      using running_starts(1) [OF run m(1,2)] timer_spec_start(1) [OF assms(1)] len T_Start_1 by simp
    from timer_start_step [OF assms(2,1) this] show ?thesis
      using T_Start_1 timer_texts(1) [OF assms(1)] by (simp add: r starting_def)
  next
    case T_Start_2
    then have r: "at = T_Start_3" "out = [''Starting timer 2.'']" "M = ml_timer_start (timer_2 S) 3000 3000 (t_module s)"
      using assms(3) by (simp_all add: timer_main_step_def)
    have "running (timer_spec S (started s @ [ticks s])) (timeout_queue S) (ticks s) (ml_timer_handler_timer_start ?h (timer_2 S) 3000 3000)"
      using running_starts(2) [OF run m(3,4)] timer_spec_start(2) [OF assms(1)] len T_Start_2 by simp
    from timer_start_step [OF assms(2,1) this] show ?thesis
      using T_Start_2 timer_texts(2) [OF assms(1)] by (simp add: r starting_def)
  next
    case T_Start_3
    then have r: "at = T_Wait" "out = [''Starting timer 3.'']" "M = ml_timer_start (timer_3 S) 5000 0 (t_module s)"
      using assms(3) by (simp_all add: timer_main_step_def)
    have "running (timer_spec S (started s @ [ticks s])) (timeout_queue S) (ticks s) (ml_timer_handler_timer_start ?h (timer_3 S) 5000 0)"
      using running_starts(3) [OF run m(5,6)] timer_spec_start(3) [OF assms(1)] len T_Start_3 by simp
    from timer_start_step [OF assms(2,1) this] show ?thesis
      using T_Start_3 timer_texts(3) [OF assms(1)] by (simp add: r starting_def)
  next
    case T_Wait
    then obtain u m w' where w': "ml_queue_get ?w (timeout_queue S) = Inr (u, m, w')"
      and r: "at = T_Got u m" "out = timer_text S u" "M = set_world w' (t_module s)"
      using assms(3) by (auto simp: timer_main_step_def andthen_eq_Inr)
    have q: "timeout_queue S \<in> ?Q" by simp
    note e = own_get [OF own q w']
    have own': "own ?Q other (count_list (t_held at)) w'" by (intro own_cong [OF e(1)]) (auto simp: T_Wait r)
    obtain d where d: "datum ?w m = Some (u, d)" using e(7) by blast
    have mail: "mail_on ?w (timeout_queue S) = Some (u, d) # mail_on w' (timeout_queue S)"
      using e(2,4) d by (simp add: mail_on_def)
    have only: "timeouts_only S (mail_on ?w (timeout_queue S))" using assms(2) by (simp add: timer_app_inv_def)
    then have nd: "d = NoData" using mail by (auto simp: timeouts_only_def)
    have "count_list (t_printed s @ out) (hd (timer_text S v)) + count_list (mail_on w' (timeout_queue S)) (Some (v, NoData))
        = expirations S (started s) (ticks s) v" if "v \<in> {timeout_1 S, timeout_2 S, timeout_3 S}" for v
      using cnt [OF that] timer_texts(4) [OF assms(1) that, of u] mail nd by (auto simp: in_queue_def r split: if_splits)
    moreover have "timeouts_only S (mail_on w' (timeout_queue S))" using only mail by (simp add: timeouts_only_def)
    ultimately show ?thesis
      using assms(2) own' e(3) by (simp add: timer_app_inv_def in_queue_def r T_Wait starting_def)
  next
    case (T_Got u m)
    then obtain w' where w': "ml_message_free ?w m = Inr w'" and r: "at = T_Wait" "out = []" "M = set_world w' (t_module s)"
      using assms(3) by (auto simp: timer_main_step_def andthen_eq_Inr)
    have held: "0 < count_list (t_held (t_at s)) m" by (simp add: T_Got)
    note e = own_freeD [OF own held w']
    let ?hs' = "count_list (t_held at)"
    have hs: "?hs' x = ((count_list (t_held (t_at s)))(m := count_list (t_held (t_at s)) m - 1)) x" for x
      by (simp add: T_Got r)
    have ow': "own ?Q other ?hs' w'" by (rule own_cong [OF e(1) hs])
    have kp: "keeps ?Q (count_list (t_held (t_at s))) ?w ?hs' w'" using keeps_free [OF own held w'] by (metis ext hs)
    have "mail_on w' (timeout_queue S) = mail_on ?w (timeout_queue S)"
      by (rule mail_on_kept [OF own ow' kp e(2)]) simp
    then show ?thesis
      using assms(2) ow' e(3) by (simp add: timer_app_inv_def in_queue_def r T_Got starting_def)
  qed
qed

lemma expirations_tick:
  assumes "timers_ok S" and "u \<in> {timeout_1 S, timeout_2 S, timeout_3 S}"
    and "\<And>t u e r. timer_spec S st t = Some (u, e, r) \<Longrightarrow> fires e r (Suc n) = fires e r n + count_list us u"
    and "\<And>u. u \<in> set us \<Longrightarrow> \<exists>t e r. timer_spec S st t = Some (u, e, r)"
  shows "expirations S st (Suc n) u = expirations S st n u + count_list us u"
proof -
  have S: "timer_1 S \<noteq> timer_2 S" "timer_1 S \<noteq> timer_3 S" "timer_2 S \<noteq> timer_3 S"
    "timeout_1 S \<noteq> timeout_2 S" "timeout_1 S \<noteq> timeout_3 S" "timeout_2 S \<noteq> timeout_3 S"
    using assms(1) by (simp_all add: timers_ok_def)
  have none: "count_list us v = 0" if "\<And>t e r. timer_spec S st t \<noteq> Some (v, e, r)" for v
    using that assms(4) by (meson count_notin)
  have "u = timeout_1 S \<or> u = timeout_2 S \<or> u = timeout_3 S" using assms(2) by simp
  then show ?thesis
  proof (elim disjE)
    assume u: "u = timeout_1 S"
    show ?thesis
    proof (cases "0 < length st")
      case True
      then show ?thesis using assms(3) [of "timer_1 S"] S by (simp add: u expirations_def timer_spec_def)
    next
      case False
      then have "count_list us u = 0" using S by (intro none) (simp add: u timer_spec_def)
      then show ?thesis using False S by (simp add: u expirations_def)
    qed
  next
    assume u: "u = timeout_2 S"
    show ?thesis
    proof (cases "1 < length st")
      case True
      then show ?thesis using assms(3) [of "timer_2 S"] S by (simp add: u expirations_def timer_spec_def)
    next
      case False
      then have "count_list us u = 0" using S by (intro none) (simp add: u timer_spec_def)
      then show ?thesis using False S by (simp add: u expirations_def)
    qed
  next
    assume u: "u = timeout_3 S"
    show ?thesis
    proof (cases "2 < length st")
      case True
      then show ?thesis using assms(3) [of "timer_3 S"] S by (simp add: u expirations_def timer_spec_def)
    next
      case False
      then have "count_list us u = 0" using S by (intro none) (simp add: u timer_spec_def)
      then show ?thesis using False S by (simp add: u expirations_def)
    qed
  qed
qed

lemma tick_module_Inr:
  assumes "tick_module M = Some (Inr M')"
  obtains h w where "tick (mod_timer_handler M) (mod_world M) = Some (Inr (h, w))"
    and "mod_timer_handler M' = h" and "mod_world M' = w" and "mod_bus M' = mod_bus M"
  using assms by (auto simp: tick_module_def andthen_eq_Inr set_world_def)

lemma tick_module_waits:
  assumes "\<exists>r. tick (mod_timer_handler M) (mod_world M) = Some r \<and> (\<forall>e. r = Inl e \<longrightarrow> e = Blocked)"
  shows "\<exists>r. tick_module M = Some r \<and> (\<forall>e. r = Inl e \<longrightarrow> e = Blocked)"
proof -
  obtain r where "tick (mod_timer_handler M) (mod_world M) = Some r" "\<forall>e. r = Inl e \<longrightarrow> e = Blocked" using assms by blast
  then show ?thesis by (cases r) (auto simp: tick_module_def)
qed

lemma timer_tick_inv:
  assumes "timers_ok S" and "timer_app_inv S other s" and "tick_module (t_module s) = Some (Inr M)"
  shows "timer_app_inv S other (s\<lparr>t_module := M, ticks := Suc (ticks s)\<rparr>)"
proof -
  let ?w = "mod_world (t_module s)"
  have own: "own {timeout_queue S} other (count_list (t_held (t_at s))) ?w"
    and run: "running (timer_spec S (started s)) (timeout_queue S) (ticks s) (mod_timer_handler (t_module s))"
    and set: "timers_set S (mod_timer_handler (t_module s))"
    and cnt: "\<And>u. u \<in> {timeout_1 S, timeout_2 S, timeout_3 S} \<Longrightarrow>
      count_list (t_printed s) (hd (timer_text S u)) + in_queue S s u = expirations S (started s) (ticks s) u"
    using assms(2) unfolding timer_app_inv_def by blast+
  obtain h w where t: "tick (mod_timer_handler (t_module s)) ?w = Some (Inr (h, w))"
    and M: "mod_timer_handler M = h" "mod_world M = w"
    using tick_module_Inr [OF assms(3)] by blast
  obtain us where us: "running (timer_spec S (started s)) (timeout_queue S) (Suc (ticks s)) h"
    "own {timeout_queue S} other (count_list (t_held (t_at s))) w"
    "mail_on w (timeout_queue S) = mail_on ?w (timeout_queue S) @ map (\<lambda>u. Some (u, NoData)) us"
    "\<And>t u e r. timer_spec S (started s) t = Some (u, e, r) \<Longrightarrow> fires e r (Suc (ticks s)) = fires e r (ticks s) + count_list us u"
    "\<And>u. u \<in> set us \<Longrightarrow> \<exists>t e r. timer_spec S (started s) t = Some (u, e, r)"
    "malloc_ok w = malloc_ok ?w"
    and same: "\<And>x. timer_message (timers h x) = timer_message (timers (mod_timer_handler (t_module s)) x)"
      "\<And>x. timer_queue (timers h x) = timer_queue (timers (mod_timer_handler (t_module s)) x)"
    by (rule running_tick [OF run timer_spec_apart [OF assms(1)] own singletonI t]) (rule that, assumption+)
  have "expirations S (started s) (Suc (ticks s)) u = expirations S (started s) (ticks s) u + count_list us u"
    if "u \<in> {timeout_1 S, timeout_2 S, timeout_3 S}" for u
    by (rule expirations_tick [OF assms(1) that us(4,5)])
  moreover have "set us \<subseteq> {timeout_1 S, timeout_2 S, timeout_3 S}"
  proof
    fix u assume "u \<in> set us"
    then obtain t e r where "timer_spec S (started s) t = Some (u, e, r)" using us(5) by blast
    then show "u \<in> {timeout_1 S, timeout_2 S, timeout_3 S}" by (auto simp: timer_spec_def split: if_splits)
  qed
  ultimately show ?thesis
    using assms(2) us(1-3,6) M same set cnt
    by (auto simp: timer_app_inv_def in_queue_def timers_set_def timeouts_only_def count_mail)
qed

lemma fires_periodic: "0 < r \<Longrightarrow> fires (s + (r + 1)) r n = (n - s - 1) div r"
  by (auto simp: fires_def div_if)

lemma fires_once: "fires (s + 51) 0 n = (if s + 51 \<le> n then 1 else 0)"
  by (simp add: fires_def)

lemma mod_timer_handler_init:
  "ml_init jobs w handler log = Inr M \<Longrightarrow> timer_list (mod_timer_handler M) = []"
  by (rule ml_init_bus(8))

lemma queue_init_handler: "queue_init q len M = Inr M' \<Longrightarrow> mod_timer_handler M' = mod_timer_handler M"
  by (auto simp: queue_init_def andthen_eq_Inr)

lemma ml_timer_init_simps [simp]:
  "mod_world (ml_timer_init t u q M) = mod_world M"
  "mod_timer_handler (ml_timer_init t u q M) = ml_timer_handler_timer_init (mod_timer_handler M) t u q"
  by (simp_all add: ml_timer_init_def)

lemma timer_main_ready:
  assumes "world_ok (mod_world M)" and "\<And>x. malloc_ok (mod_world M) x" and "timer_list (mod_timer_handler M) = []" and "timers_ok S"
  shows "\<exists>M'. timer_main S M = Inr M' \<and> timer_app_inv S (heap (mod_world M)) (timer_begin M')"
proof -
  obtain M1 where M1: "queue_init (timeout_queue S) 16 M = Inr M1" using queue_init_returns [OF assms(2)] by blast
  note e = queue_init_step [OF M1 assms(1)]
  let ?h = "\<lambda>h. ml_timer_handler_timer_init (ml_timer_handler_timer_init (ml_timer_handler_timer_init h
      (timer_1 S) (timeout_1 S) (timeout_queue S)) (timer_2 S) (timeout_2 S) (timeout_queue S)) (timer_3 S) (timeout_3 S) (timeout_queue S)"
  let ?M = "ml_timer_init (timer_3 S) (timeout_3 S) (timeout_queue S) (ml_timer_init (timer_2 S) (timeout_2 S) (timeout_queue S)
      (ml_timer_init (timer_1 S) (timeout_1 S) (timeout_queue S) M1))"
  have spec: "timer_spec S [] = (\<lambda>_. None)" by (simp add: timer_spec_def fun_eq_iff)
  have "timer_list (?h (mod_timer_handler M1)) = []"
    using assms(3) queue_init_handler [OF M1] by (simp add: ml_timer_handler_timer_init_def)
  then have "running (timer_spec S []) (timeout_queue S) 0 (mod_timer_handler ?M)" by (simp add: spec running_none)
  moreover have "timers_set S (mod_timer_handler ?M)"
    using assms(4) by (auto simp: timers_set_def timers_ok_def ml_timer_handler_timer_init_def)
  moreover have "own {timeout_queue S} (heap (mod_world M1)) (\<lambda>_. 0) (mod_world M1)"
    using e(1,6) by (intro own_initial) (auto simp: world_ok_def)
  then have "own {timeout_queue S} (heap (mod_world M)) (count_list []) (mod_world M1)" using e(3) by (simp add: own_cong)
  moreover have "in_queue S (timer_begin ?M) u = 0" for u using e(6) by (simp add: in_queue_def mail_on_def timer_begin_def)
  ultimately have "timer_app_inv S (heap (mod_world M)) (timer_begin ?M)"
    using e(4,6) assms(2)
    by (simp add: timer_app_inv_def timer_begin_def timeouts_only_def mail_on_def expirations_def in_queue_def)
  then show ?thesis using M1 by (auto simp: timer_main_def)
qed

lemma timer_run_ok:
  assumes "timers_ok S" and "timer_app_inv S other s" and "(timer_app_step S)\<^sup>*\<^sup>* s t"
  shows "timer_app_inv S other t"
  using assms(3)
proof (induction rule: rtranclp_induct)
  case base
  then show ?case by (rule assms(2))
next
  case (step u t)
  show ?case using step(2)
  proof cases
    case (Tick M)
    then show ?thesis using timer_tick_inv [OF assms(1) step(3)] by blast
  next
    case (Main at out M)
    then show ?thesis using timer_main_step_inv [OF assms(1) step(3)] by blast
  qed
qed

lemma timer_app_waits:
  assumes "timer_app_inv S other s"
  shows "\<exists>r. tick_module (t_module s) = Some r \<and> (\<forall>e. r = Inl e \<longrightarrow> e = Blocked)"
    and "timer_main_step S (t_at s) (t_module s) = Inl e \<Longrightarrow>
      e = Blocked \<and> t_at s = T_Wait \<and> contents (queues (mod_world (t_module s)) (timeout_queue S)) = []"
proof -
  let ?w = "mod_world (t_module s)"
  have own: "own {timeout_queue S} other (count_list (t_held (t_at s))) ?w" and mem: "\<And>x. malloc_ok ?w x"
    and run: "running (timer_spec S (started s)) (timeout_queue S) (ticks s) (mod_timer_handler (t_module s))"
    using assms unfolding timer_app_inv_def by blast+
  show "\<exists>r. tick_module (t_module s) = Some r \<and> (\<forall>e. r = Inl e \<longrightarrow> e = Blocked)"
    by (rule tick_module_waits [OF running_tick_waits [OF run own singletonI mem]])
  assume e: "timer_main_step S (t_at s) (t_module s) = Inl e"
  show "e = Blocked \<and> t_at s = T_Wait \<and> contents (queues ?w (timeout_queue S)) = []"
  proof (cases "t_at s")
    case T_Wait
    then have "ml_queue_get ?w (timeout_queue S) = Inl e"
      using e by (auto simp: timer_main_step_def andthen_def split: sum.splits)
    then show ?thesis using own_get_total [OF own singletonI] T_Wait by simp
  next
    case (T_Got u m)
    then have "0 < count_list (t_held (t_at s)) m" by simp
    then obtain w' where "ml_message_free ?w m = Inr w'" using own_free [OF own] by metis
    then show ?thesis using e T_Got by (simp add: timer_main_step_def)
  qed (use e in \<open>simp_all add: timer_main_step_def\<close>)
qed

text \<open>
  C23: the timer example sees every expiration of its timers. In every interleaving of \<open>main\<close> with the ticks, from \<open>ml_init\<close> on, what was
  printed for timer 1 and what still waits in the queue for it are together the number of periods of 10 ticks that have passed since the
  tick after it was started, and for timer 2 those of 30 ticks; timer 3 expires once, with the 51st tick after its start. No
  call fails; a tick waits only for room in the queue, and \<open>main\<close> only when there is no message.
\<close>

theorem timer_example_expirations:
  assumes "\<And>x. malloc_ok w x" and "queues_inv w" and "heap_inv w" and "ml_init jobs w handler log = Inr M"
    and "distinct [timer_1 S, timer_2 S, timer_3 S]" and "distinct [timeout_1 S, timeout_2 S, timeout_3 S]"
  shows "\<exists>M'. timer_main S M = Inr M' \<and> (\<forall>s. (timer_app_step S)\<^sup>*\<^sup>* (timer_begin M') s \<longrightarrow>
      count_list (t_printed s) ''Timer 1 expired.'' + in_queue S s (timeout_1 S)
        = (if started s = [] then 0 else (ticks s - started s ! 0 - 1) div 10)
    \<and> count_list (t_printed s) ''Timer 2 expired.'' + in_queue S s (timeout_2 S)
        = (if length (started s) < 2 then 0 else (ticks s - started s ! 1 - 1) div 30)
    \<and> count_list (t_printed s) ''Timer 3 expired.'' + in_queue S s (timeout_3 S)
        = (if 2 < length (started s) \<and> started s ! 2 + 51 \<le> ticks s then 1 else 0)
    \<and> (\<exists>r. tick_module (t_module s) = Some r \<and> (\<forall>e. r = Inl e \<longrightarrow> e = Blocked))
    \<and> (\<forall>e. timer_main_step S (t_at s) (t_module s) = Inl e \<longrightarrow>
        e = Blocked \<and> contents (queues (mod_world (t_module s)) (timeout_queue S)) = []))"
proof -
  have S: "timers_ok S" using assms(5,6) by (simp add: timers_ok_def)
  note init = ml_init_bus [OF assms(4)]
  have wok: "world_ok (mod_world M)" using ml_init_world_ok [OF assms(4)] assms(2,3) by (simp add: world_ok_def)
  have "malloc_ok (mod_world M) x" for x using init(3) assms(1) by simp
  then obtain M' where M': "timer_main S M = Inr M'" "timer_app_inv S (heap (mod_world M)) (timer_begin M')"
    using timer_main_ready [OF wok _ init(8) S] by blast
  show ?thesis
  proof (rule exI [of _ M'], intro conjI allI impI)
    fix s
    assume run: "(timer_app_step S)\<^sup>*\<^sup>* (timer_begin M') s"
    have inv: "timer_app_inv S (heap (mod_world M)) s" by (rule timer_run_ok [OF S M'(2) run])
    have cnt: "count_list (t_printed s) (hd (timer_text S u)) + in_queue S s u = expirations S (started s) (ticks s) u"
      if "u \<in> {timeout_1 S, timeout_2 S, timeout_3 S}" for u
      using inv that unfolding timer_app_inv_def by blast
    have p: "fires (s + 11) 10 n = (n - s - 1) div 10" "fires (s + 31) 30 n = (n - s - 1) div 30" for s n
      using fires_periodic [of 10 s n] fires_periodic [of 30 s n] by simp_all
    note d = assms(5,6)
    show "count_list (t_printed s) ''Timer 1 expired.'' + in_queue S s (timeout_1 S)
        = (if started s = [] then 0 else (ticks s - started s ! 0 - 1) div 10)"
      using cnt [of "timeout_1 S"] d by (simp add: expirations_def timer_text_def p)
    show "count_list (t_printed s) ''Timer 2 expired.'' + in_queue S s (timeout_2 S)
        = (if length (started s) < 2 then 0 else (ticks s - started s ! 1 - 1) div 30)"
      using cnt [of "timeout_2 S"] d by (auto simp add: expirations_def timer_text_def p)
    show "count_list (t_printed s) ''Timer 3 expired.'' + in_queue S s (timeout_3 S)
        = (if 2 < length (started s) \<and> started s ! 2 + 51 \<le> ticks s then 1 else 0)"
      using cnt [of "timeout_3 S"] d by (auto simp add: expirations_def timer_text_def fires_once)
    show "\<exists>r. tick_module (t_module s) = Some r \<and> (\<forall>e. r = Inl e \<longrightarrow> e = Blocked)" by (rule timer_app_waits(1) [OF inv])
    show "e = Blocked" "contents (queues (mod_world (t_module s)) (timeout_queue S)) = []"
      if "timer_main_step S (t_at s) (t_module s) = Inl e" for e
      using timer_app_waits(2) [OF inv that] by blast+
  qed (rule M'(1))
qed

text \<open>In a process with an empty memory: the first timer is started, and a tick passes.\<close>

theorem timer_example_expirations_witness:
  "\<exists>M M' s. ml_init 9 example_world \<lparr>timers = (\<lambda>_. example_timer), timer_list = []\<rparr> example_module = Inr M
     \<and> timer_main \<lparr>timer_1 = 1, timer_2 = 2, timer_3 = 3, timeout_1 = 1, timeout_2 = 2, timeout_3 = 3, timeout_queue = 4\<rparr> M = Inr M'
     \<and> (timer_app_step \<lparr>timer_1 = 1, timer_2 = 2, timer_3 = 3, timeout_1 = 1, timeout_2 = 2, timeout_3 = 3, timeout_queue = 4\<rparr>)\<^sup>*\<^sup>*
         (timer_begin M') s
     \<and> t_at s = T_Start_2 \<and> (\<exists>r. tick_module (t_module s) = Some r \<and> (\<forall>e. r = Inl e \<longrightarrow> e = Blocked))"
proof -
  let ?S = "\<lparr>timer_1 = 1, timer_2 = 2, timer_3 = 3, timeout_1 = 1, timeout_2 = 2, timeout_3 = 3, timeout_queue = 4\<rparr>"
  have w: "malloc_ok example_world n" "queues_inv example_world" "heap_inv example_world" for n
    by (simp_all add: example_world_def queues_inv_def queue_inv_def heap_inv_def)
  obtain M where M: "ml_init 9 example_world \<lparr>timers = (\<lambda>_. example_timer), timer_list = []\<rparr> example_module = Inr M"
    using ml_init_run [of example_world] w(1) by blast
  obtain M' where M': "timer_main ?S M = Inr M'"
    and run: "\<And>s. (timer_app_step ?S)\<^sup>*\<^sup>* (timer_begin M') s \<Longrightarrow>
      \<exists>r. tick_module (t_module s) = Some r \<and> (\<forall>e. r = Inl e \<longrightarrow> e = Blocked)"
    using timer_example_expirations [OF w M, of ?S] by fastforce
  let ?s = "(timer_begin M')\<lparr>t_module := ml_timer_start 1 1000 1000 M', t_at := T_Start_2, t_printed := [''Starting timer 1.''], started := [0]\<rparr>"
  have "timer_app_step ?S (timer_begin M') ?s"
    using timer_app_step.Main [of ?S "timer_begin M'" T_Start_2 "[''Starting timer 1.'']" "ml_timer_start 1 1000 1000 M'"]
    by (simp add: timer_begin_def timer_main_step_def starting_def)
  then have "(timer_app_step ?S)\<^sup>*\<^sup>* (timer_begin M') ?s" by blast
  then show ?thesis using M M' run [of ?s] by (intro exI [of _ M] exI [of _ M'] exI [of _ ?s]) simp
qed

end
