(* ===== verification/Ml_Example_Event.thy ===== *)
theory Ml_Example_Event
  imports Ml_Example_Timer
begin

text \<open>
  The program \<open>src/examples/file_descriptor/main.c\<close>: the on-put callback of the queue writes to an event descriptor, and \<open>main\<close>
  reads from it before it gets a message. The descriptor is a semaphore, as \<open>eventfd\<close> documents: a write of 1 adds one, a read
  takes one and waits when there is none. A step is a tick, with the callbacks it makes, or a step of \<open>main\<close>.
\<close>

section \<open>The program\<close>

record event_statics =
  event_timer :: addr
  event_timeout :: uid
  event_queue :: addr
  event_callback :: callback
  event_fd_p :: addr

text \<open>\<open>event_write\<close>, with the size its \<open>write\<close> returns and the value of the descriptor; then one call after the other.\<close>

definition event_write :: "int \<Rightarrow> nat \<Rightarrow> nat res" where
  "event_write sz n = (if sz \<noteq> 8 then Inl (Exit 1) else Inr (n + 1))"

fun event_writes :: "int list \<Rightarrow> nat \<Rightarrow> nat res" where
  "event_writes [] n = Inr n"
| "event_writes (sz # sizes) n = andthen (event_write sz n) (event_writes sizes)"

datatype event_at = E_Read | E_Get | E_Got uid addr

text \<open>One step of the loop in \<open>main\<close>; \<open>sz\<close> is what \<open>read\<close> returns.\<close>

definition event_main_step ::
  "event_statics \<Rightarrow> int \<Rightarrow> event_at \<Rightarrow> ml_module \<Rightarrow> nat \<Rightarrow> (event_at \<times> string list \<times> ml_module \<times> nat) res" where
  "event_main_step S sz at M n =
     (case at of
        E_Read \<Rightarrow>
          (if sz \<noteq> 8 then Inr (E_Read, [], M, n)
           else if n = 0 then Inl Blocked
           else Inr (E_Get, [], M, n - 1))
      | E_Get \<Rightarrow> andthen (ml_queue_get (mod_world M) (event_queue S)) (\<lambda>(u, m, w).
          Inr (E_Got u m, [if u = event_timeout S then ''Timer expired.'' else ''Unknown message.''], set_world w M, n))
      | E_Got u m \<Rightarrow> andthen (ml_message_free (mod_world M) m) (\<lambda>w. Inr (E_Read, [], set_world w M, n)))"

definition event_main :: "event_statics \<Rightarrow> int \<Rightarrow> ml_module \<Rightarrow> ml_module res" where
  "event_main S event_fd M =
     andthen (queue_init (event_queue S) 16 M) (\<lambda>M.
       let M = ml_timer_init (event_timer S) (event_timeout S) (event_queue S) M
       in if event_fd = - 1 then Inl (Exit 1)
          else let M = set_world (ml_queue_set_on_put (mod_world M) (event_queue S) (event_callback S) (event_fd_p S)) M
               in Inr (ml_timer_start (event_timer S) 1000 1000 M))"

record event_app =
  e_module :: ml_module
  e_at :: event_at
  e_printed :: "string list"
  e_events :: nat
  e_ticks :: nat

definition event_begin :: "ml_module \<Rightarrow> event_app" where
  "event_begin M = \<lparr>e_module = M, e_at = E_Read, e_printed = [], e_events = 0, e_ticks = 0\<rparr>"

text \<open>The callbacks a tick has made, and with them the writes.\<close>

definition new_writes :: "event_statics \<Rightarrow> ml_module \<Rightarrow> ml_module \<Rightarrow> nat" where
  "new_writes S M M' = count_list (drop (length (put_calls (mod_world M))) (put_calls (mod_world M'))) (event_callback S, event_fd_p S)"

inductive event_app_step :: "event_statics \<Rightarrow> event_app \<Rightarrow> event_app \<Rightarrow> bool" for S where
  Tick: "tick_module (e_module s) = Some (Inr M) \<Longrightarrow> length sizes = new_writes S (e_module s) M \<Longrightarrow>
    event_writes sizes (e_events s) = Inr n \<Longrightarrow>
    event_app_step S s (s\<lparr>e_module := M, e_events := n, e_ticks := Suc (e_ticks s)\<rparr>)"
| Main: "event_main_step S sz (e_at s) (e_module s) (e_events s) = Inr (at, out, M, n) \<Longrightarrow>
    event_app_step S s (s\<lparr>e_module := M, e_at := at, e_printed := e_printed s @ out, e_events := n\<rparr>)"

section \<open>The invariant\<close>

fun e_held :: "event_at \<Rightarrow> addr list" where
  "e_held (E_Got u m) = [m]"
| "e_held _ = []"

definition event_mail :: "event_statics \<Rightarrow> ml_module \<Rightarrow> (uid \<times> payload) option list" where
  "event_mail S M = mail_on (mod_world M) (event_queue S)"

definition event_spec :: "event_statics \<Rightarrow> addr \<Rightarrow> (uid \<times> nat \<times> nat) option" where
  "event_spec S = [event_timer S \<mapsto> (event_timeout S, 11, 10)]"

definition event_app_inv :: "event_statics \<Rightarrow> (addr \<Rightarrow> ml_message_header_t option) \<Rightarrow> event_app \<Rightarrow> bool" where
  "event_app_inv S other s \<longleftrightarrow>
     own {event_queue S} other (count_list (e_held (e_at s))) (mod_world (e_module s))
     \<and> (\<forall>x. malloc_ok (mod_world (e_module s)) x)
     \<and> running (event_spec S) (event_queue S) (e_ticks s) (mod_timer_handler (e_module s))
     \<and> on_put (queues (mod_world (e_module s)) (event_queue S)) = Some (event_callback S, event_fd_p S)
     \<and> set (event_mail S (e_module s)) \<subseteq> {Some (event_timeout S, NoData)}
     \<and> e_events s + (if e_at s = E_Get then 1 else 0) = length (event_mail S (e_module s))
     \<and> (\<exists>k. e_printed s = replicate k ''Timer expired.'' \<and> k + length (event_mail S (e_module s)) = fires 11 10 (e_ticks s))"

lemma event_writes_Inr: "event_writes sizes n = Inr n' \<Longrightarrow> n' = n + length sizes"
proof (induction sizes arbitrary: n)
  case (Cons sz sizes)
  then show ?case using Cons.IH [of "n + 1"] by (simp add: event_write_def split: if_splits)
qed simp

lemma event_spec_apart: "told_apart (event_spec S)"
  by (simp add: told_apart_def event_spec_def)

lemma length_filter_count: "set us \<subseteq> {u} \<Longrightarrow> count_list us u = length us"
  by (induction us) auto

lemma event_tick_inv:
  assumes "event_app_inv S other s" and "tick_module (e_module s) = Some (Inr M)"
    and "length sizes = new_writes S (e_module s) M" and "event_writes sizes (e_events s) = Inr n"
  shows "event_app_inv S other (s\<lparr>e_module := M, e_events := n, e_ticks := Suc (e_ticks s)\<rparr>)"
proof -
  let ?w = "mod_world (e_module s)"
  have own: "own {event_queue S} other (count_list (e_held (e_at s))) ?w"
    and run: "running (event_spec S) (event_queue S) (e_ticks s) (mod_timer_handler (e_module s))"
    using assms(1) by (simp_all add: event_app_inv_def)
  obtain h w where t: "tick (mod_timer_handler (e_module s)) ?w = Some (Inr (h, w))"
    and M: "mod_timer_handler M = h" "mod_world M = w"
    using tick_module_Inr [OF assms(2)] by blast
  obtain us where us: "running (event_spec S) (event_queue S) (Suc (e_ticks s)) h"
    "own {event_queue S} other (count_list (e_held (e_at s))) w"
    "mail_on w (event_queue S) = mail_on ?w (event_queue S) @ map (\<lambda>u. Some (u, NoData)) us"
    "\<And>t u e r. event_spec S t = Some (u, e, r) \<Longrightarrow> fires e r (Suc (e_ticks s)) = fires e r (e_ticks s) + count_list us u"
    "\<And>u. u \<in> set us \<Longrightarrow> \<exists>t e r. event_spec S t = Some (u, e, r)"
    "malloc_ok w = malloc_ok ?w"
    "on_put (queues w (event_queue S)) = on_put (queues ?w (event_queue S))"
    "put_calls w = put_calls ?w @ concat (replicate (length us) (case on_put (queues ?w (event_queue S)) of None \<Rightarrow> [] | Some c \<Rightarrow> [c]))"
    by (rule running_tick [OF run event_spec_apart own singletonI t]) (rule that, assumption+)
  have only: "set us \<subseteq> {event_timeout S}"
  proof
    fix u assume "u \<in> set us"
    then obtain t e r where "event_spec S t = Some (u, e, r)" using us(5) by blast
    then show "u \<in> {event_timeout S}" by (simp add: event_spec_def split: if_splits)
  qed
  have "count_list (concat (replicate k [c])) c = k" for k and c :: "callback \<times> addr" by (induction k) auto
  then have "new_writes S (e_module s) M = length us"
    using us(8) assms(1) by (simp add: new_writes_def M event_app_inv_def)
  then have n: "n = e_events s + length us" using event_writes_Inr [OF assms(4)] assms(3) by simp
  have f: "fires 11 10 (Suc (e_ticks s)) = fires 11 10 (e_ticks s) + length us"
    using us(4) [of "event_timer S" "event_timeout S" 11 10] length_filter_count [OF only] by (simp add: event_spec_def)
  have mail: "event_mail S M = event_mail S (e_module s) @ map (\<lambda>u. Some (u, NoData)) us"
    using us(3) by (simp add: event_mail_def M)
  obtain k where k: "e_printed s = replicate k ''Timer expired.''"
    "k + length (event_mail S (e_module s)) = fires 11 10 (e_ticks s)" using assms(1) by (auto simp: event_app_inv_def)
  have "set (event_mail S M) \<subseteq> {Some (event_timeout S, NoData)}" using assms(1) only by (auto simp: event_app_inv_def mail)
  moreover have "e_events s + (if e_at s = E_Get then 1 else 0) = length (event_mail S (e_module s))"
    using assms(1) unfolding event_app_inv_def by blast
  then have "n + (if e_at s = E_Get then 1 else 0) = length (event_mail S M)" using n by (simp add: mail split: if_splits)
  moreover have "\<forall>x. malloc_ok ?w x" "on_put (queues ?w (event_queue S)) = Some (event_callback S, event_fd_p S)"
    using assms(1) unfolding event_app_inv_def by blast+
  ultimately show ?thesis
    using us(1,2,6,7) k f unfolding event_app_inv_def by (simp add: M mail)
qed

lemma event_main_inv:
  assumes "event_app_inv S other s" and "event_main_step S sz (e_at s) (e_module s) (e_events s) = Inr (at, out, M, n)"
  shows "event_app_inv S other (s\<lparr>e_module := M, e_at := at, e_printed := e_printed s @ out, e_events := n\<rparr>)"
proof -
  let ?w = "mod_world (e_module s)"
  let ?q = "event_queue S"
  have own: "own {?q} other (count_list (e_held (e_at s))) ?w" using assms(1) by (simp add: event_app_inv_def)
  have rd: "\<forall>x. malloc_ok ?w x" "running (event_spec S) ?q (e_ticks s) (mod_timer_handler (e_module s))"
    and cb: "on_put (queues ?w ?q) = Some (event_callback S, event_fd_p S)"
    and only: "set (event_mail S (e_module s)) \<subseteq> {Some (event_timeout S, NoData)}"
    and ev: "e_events s + (if e_at s = E_Get then 1 else 0) = length (event_mail S (e_module s))"
    using assms(1) unfolding event_app_inv_def by blast+
  obtain k where k: "e_printed s = replicate k ''Timer expired.''"
    "k + length (event_mail S (e_module s)) = fires 11 10 (e_ticks s)" using assms(1) by (auto simp: event_app_inv_def)
  show ?thesis
  proof (cases "e_at s")
    case E_Read
    then show ?thesis
      using assms own_cong [OF own] by (auto simp: event_main_step_def event_app_inv_def split: if_splits)
  next
    case E_Get
    then obtain u m w' where w': "ml_queue_get ?w ?q = Inr (u, m, w')"
      and r: "at = E_Got u m" "out = [if u = event_timeout S then ''Timer expired.'' else ''Unknown message.'']"
        "M = set_world w' (e_module s)" "n = e_events s"
      using assms(2) by (auto simp: event_main_step_def andthen_eq_Inr)
    note e = own_get [OF own singletonI w']
    have own': "own {?q} other (count_list (e_held at)) w'" by (intro own_cong [OF e(1)]) (auto simp: E_Get r)
    have mail: "event_mail S (e_module s) = datum ?w m # event_mail S M"
      using e(2,4) by (simp add: event_mail_def mail_on_def r)
    have u: "u = event_timeout S" using only e(7) by (auto simp: mail)
    have "on_put (queues w' ?q) = on_put (queues ?w ?q)" using get_frame(6) [OF w'] by simp
    then show ?thesis
      using own' rd cb only ev k e(3) unfolding event_app_inv_def
      by (simp add: r u E_Get mail [unfolded r] replicate_append_same exI [of _ "Suc k"])
  next
    case (E_Got u m)
    then obtain w' where w': "ml_message_free ?w m = Inr w'"
      and r: "at = E_Read" "out = []" "M = set_world w' (e_module s)" "n = e_events s"
      using assms(2) by (auto simp: event_main_step_def andthen_eq_Inr)
    have held: "0 < count_list (e_held (e_at s)) m" by (simp add: E_Got)
    note e = own_freeD [OF own held w']
    let ?hs' = "count_list (e_held at)"
    have hs: "?hs' x = ((count_list (e_held (e_at s)))(m := count_list (e_held (e_at s)) m - 1)) x" for x
      by (simp add: E_Got r)
    have ow': "own {?q} other ?hs' w'" by (rule own_cong [OF e(1) hs])
    have kp: "keeps {?q} (count_list (e_held (e_at s))) ?w ?hs' w'" using keeps_free [OF own held w'] by (metis ext hs)
    have "event_mail S M = event_mail S (e_module s)"
      unfolding event_mail_def r using mail_on_kept [OF own ow' kp e(2) singletonI] by simp
    then show ?thesis
      using ow' rd cb only ev k e(2,3) unfolding event_app_inv_def by (simp add: r E_Got)
  qed
qed

section \<open>The property\<close>

lemma event_main_ready:
  assumes "world_ok (mod_world M)" and "\<And>x. malloc_ok (mod_world M) x" and "timer_list (mod_timer_handler M) = []"
    and "event_main S fd M = Inr M'"
  shows "event_app_inv S (heap (mod_world M)) (event_begin M')"
proof -
  obtain M1 where M1: "queue_init (event_queue S) 16 M = Inr M1"
    and M': "M' = ml_timer_start (event_timer S) 1000 1000 (set_world (ml_queue_set_on_put (mod_world M1) (event_queue S)
        (event_callback S) (event_fd_p S)) (ml_timer_init (event_timer S) (event_timeout S) (event_queue S) M1))"
    using assms(4) by (auto simp: event_main_def andthen_eq_Inr Let_def split: if_splits)
  note e = queue_init_step [OF M1 assms(1)]
  let ?w = "ml_queue_set_on_put (mod_world M1) (event_queue S) (event_callback S) (event_fd_p S)"
  let ?h = "ml_timer_handler_timer_init (mod_timer_handler M1) (event_timer S) (event_timeout S) (event_queue S)"
  have "running (\<lambda>_. None) (event_queue S) 0 (mod_timer_handler M1)"
    using assms(3) queue_init_handler [OF M1] by (simp add: running_none)
  note i = running_init [OF this refl, of "event_timer S" "event_timeout S" "event_queue S"]
  have run: "running (event_spec S) (event_queue S) 0 (mod_timer_handler M')"
    using running_starts(1) [OF i(1-3)] by (simp add: M' event_spec_def)
  have q: "contents (queues ?w x) = contents (queues (mod_world M1) x)" "queue_inv (queues ?w x) = queue_inv (queues (mod_world M1) x)"
    for x by (simp_all add: ml_queue_set_on_put_def contents_def fill_level_def queue_inv_def)
  have h: "heap ?w = heap (mod_world M)" "malloc_ok ?w = malloc_ok (mod_world M)" "heap_inv ?w"
    using e(1,3,4) by (simp_all add: ml_queue_set_on_put_def world_ok_def heap_inv_def)
  have "queues_inv ?w" using e(1) q(2) by (simp add: world_ok_def queues_inv_def)
  then have "own {event_queue S} (heap ?w) (\<lambda>_. 0) ?w" using h(3) q(1) e(6) by (intro own_initial) auto
  then have "own {event_queue S} (heap (mod_world M)) (count_list []) (mod_world M')" using h(1) by (simp add: own_cong M')
  moreover have "on_put (queues ?w (event_queue S)) = Some (event_callback S, event_fd_p S)" by (simp add: ml_queue_set_on_put_def)
  moreover have "event_mail S M' = []" using q(1) e(6) by (simp add: event_mail_def mail_on_def M')
  moreover have "\<forall>x. malloc_ok (mod_world M') x" using assms(2) h(2) by (simp add: M')
  ultimately show ?thesis using run unfolding event_app_inv_def by (simp add: event_begin_def M' fires_def)
qed

lemma event_main_returns:
  "(\<And>x. malloc_ok (mod_world M) x) \<Longrightarrow> (\<exists>M'. event_main S fd M = Inr M') \<longleftrightarrow> fd \<noteq> - 1"
  using queue_init_returns [of M "event_queue S" 16] by (auto simp: event_main_def)

lemma event_run_ok:
  assumes "event_app_inv S other s" and "(event_app_step S)\<^sup>*\<^sup>* s t"
  shows "event_app_inv S other t"
  using assms(2)
proof (induction rule: rtranclp_induct)
  case base
  then show ?case by (rule assms(1))
next
  case (step u t)
  show ?case using step(2)
  proof cases
    case (Tick M sizes n)
    then show ?thesis using event_tick_inv [OF step(3)] by blast
  next
    case (Main sz at out M n)
    then show ?thesis using event_main_inv [OF step(3)] by blast
  qed
qed

lemma event_waits:
  assumes "event_app_inv S other s" and "event_main_step S sz (e_at s) (e_module s) (e_events s) = Inl e"
  shows "e = Blocked \<and> e_at s = E_Read \<and> contents (queues (mod_world (e_module s)) (event_queue S)) = []"
proof -
  let ?w = "mod_world (e_module s)"
  have own: "own {event_queue S} other (count_list (e_held (e_at s))) ?w"
    and ev: "e_events s + (if e_at s = E_Get then 1 else 0) = length (event_mail S (e_module s))"
    using assms(1) unfolding event_app_inv_def by blast+
  have len: "length (event_mail S (e_module s)) = length (contents (queues ?w (event_queue S)))"
    by (simp add: event_mail_def mail_on_def)
  show ?thesis
  proof (cases "e_at s")
    case E_Read
    then have "e = Blocked" "e_events s = 0" using assms(2) by (auto simp: event_main_step_def split: if_splits)
    then show ?thesis using ev len E_Read by (simp del: length_contents)
  next
    case E_Get
    then have "ml_queue_get ?w (event_queue S) = Inl e"
      using assms(2) by (auto simp: event_main_step_def andthen_def split: sum.splits)
    then show ?thesis using own_get_total [OF own singletonI] ev len E_Get by simp
  next
    case (E_Got u m)
    then have "0 < count_list (e_held (e_at s)) m" by simp
    then obtain w' where "ml_message_free ?w m = Inr w'" using own_free [OF own] by metis
    then show ?thesis using assms(2) E_Got by (simp add: event_main_step_def)
  qed
qed

text \<open>
  C24: in the file descriptor example there is an event for every message. Once the descriptor could be opened, in every
  interleaving of \<open>main\<close> with the ticks the value of the descriptor, with the event \<open>main\<close> has just read, is the number of
  messages in the queue; so after a read \<open>main\<close> gets a message without waiting, and it waits only when there is none. What it
  prints is only ever that the timer expired, once for each period of 10 ticks less what is still in the queue.
\<close>

theorem event_example_one_event_per_message:
  assumes "\<And>x. malloc_ok w x" and "queues_inv w" and "heap_inv w" and "ml_init jobs w handler log = Inr M" and "fd \<noteq> - 1"
  shows "\<exists>M'. event_main S fd M = Inr M' \<and> (\<forall>s. (event_app_step S)\<^sup>*\<^sup>* (event_begin M') s \<longrightarrow>
      e_events s + (if e_at s = E_Get then 1 else 0) = length (contents (queues (mod_world (e_module s)) (event_queue S)))
    \<and> e_printed s = replicate ((e_ticks s - 1) div 10 - length (contents (queues (mod_world (e_module s)) (event_queue S)))) ''Timer expired.''
    \<and> length (contents (queues (mod_world (e_module s)) (event_queue S))) \<le> (e_ticks s - 1) div 10
    \<and> (\<forall>sz e. event_main_step S sz (e_at s) (e_module s) (e_events s) = Inl e \<longrightarrow>
         e = Blocked \<and> e_at s = E_Read \<and> contents (queues (mod_world (e_module s)) (event_queue S)) = []))"
proof -
  note init = ml_init_bus [OF assms(4)]
  have wok: "world_ok (mod_world M)" using ml_init_world_ok [OF assms(4)] assms(2,3) by (simp add: world_ok_def)
  have mem: "malloc_ok (mod_world M) x" for x using init(3) assms(1) by simp
  then obtain M' where M': "event_main S fd M = Inr M'" using event_main_returns [OF mem] assms(5) by blast
  note inv0 = event_main_ready [OF wok mem init(8) M']
  show ?thesis
  proof (rule exI [of _ M'], intro conjI allI impI)
    fix s
    assume run: "(event_app_step S)\<^sup>*\<^sup>* (event_begin M') s"
    have inv: "event_app_inv S (heap (mod_world M)) s" by (rule event_run_ok [OF inv0 run])
    have len: "length (event_mail S (e_module s)) = length (contents (queues (mod_world (e_module s)) (event_queue S)))"
      by (simp add: event_mail_def mail_on_def)
    show "e_events s + (if e_at s = E_Get then 1 else 0) = length (contents (queues (mod_world (e_module s)) (event_queue S)))"
      using inv unfolding event_app_inv_def len by blast
    obtain k where k: "e_printed s = replicate k ''Timer expired.''"
      "k + length (contents (queues (mod_world (e_module s)) (event_queue S))) = fires 11 10 (e_ticks s)"
      using inv unfolding event_app_inv_def len by blast
    moreover have "fires 11 10 (e_ticks s) = (e_ticks s - 1) div 10" using fires_periodic [of 10 0 "e_ticks s"] by simp
    ultimately show "e_printed s = replicate ((e_ticks s - 1) div 10
        - length (contents (queues (mod_world (e_module s)) (event_queue S)))) ''Timer expired.''"
      and "length (contents (queues (mod_world (e_module s)) (event_queue S))) \<le> (e_ticks s - 1) div 10"
      by (metis add_diff_cancel_right', metis le_add2)
    show "e = Blocked" "e_at s = E_Read" "contents (queues (mod_world (e_module s)) (event_queue S)) = []"
      if "event_main_step S sz (e_at s) (e_module s) (e_events s) = Inl e" for sz e
      using event_waits [OF inv that] by blast+
  qed (rule M')
qed

text \<open>In a process with an empty memory, before the first tick: there is no event, and \<open>main\<close> waits.\<close>

theorem event_example_one_event_per_message_witness:
  "\<exists>M M'. ml_init 9 example_world \<lparr>timers = (\<lambda>_. example_timer), timer_list = []\<rparr> example_module = Inr M
     \<and> event_main \<lparr>event_timer = 1, event_timeout = 2, event_queue = 3, event_callback = 4, event_fd_p = 5\<rparr> 6 M = Inr M'
     \<and> contents (queues (mod_world M') 3) = []"
proof -
  let ?S = "\<lparr>event_timer = 1, event_timeout = 2, event_queue = 3, event_callback = 4, event_fd_p = 5\<rparr>"
  have w: "malloc_ok example_world n" "queues_inv example_world" "heap_inv example_world" for n
    by (simp_all add: example_world_def queues_inv_def queue_inv_def heap_inv_def)
  obtain M where M: "ml_init 9 example_world \<lparr>timers = (\<lambda>_. example_timer), timer_list = []\<rparr> example_module = Inr M"
    using ml_init_run [of example_world] w(1) by blast
  obtain M' where M': "event_main ?S 6 M = Inr M'"
    and run: "\<And>s. (event_app_step ?S)\<^sup>*\<^sup>* (event_begin M') s \<Longrightarrow>
      length (contents (queues (mod_world (e_module s)) (event_queue ?S))) \<le> (e_ticks s - 1) div 10"
    using event_example_one_event_per_message [OF w M, of 6 ?S] by fastforce
  have "length (contents (queues (mod_world M') 3)) \<le> 0" using run [OF rtranclp.rtrancl_refl] by (simp add: event_begin_def)
  then have "contents (queues (mod_world M') 3) = []" by (simp only: le_zero_eq length_0_conv)
  then show ?thesis using M M' by blast
qed

end
