(* ===== verification/Ml_Example_Filter.thy ===== *)
theory Ml_Example_Filter
  imports Ml_Network_Filter
begin

text \<open>
  The program \<open>src/examples/network_filter/main.c\<close>: it drops every packet, then only new HTTP connections going out, and
  then accepts everything again, logging the table of the packet filter in between. Its structures are the bytes of
  \<open>linux/netfilter/x_tables.h\<close>, \<open>xt_tcpudp.h\<close> and \<open>xt_conntrack.h\<close> on a 64-bit host: a match has a header of 32 bytes, its
  match on TCP 12 bytes and the one on connections 164, both followed by padding to a multiple of 8.
\<close>

section \<open>The table\<close>

definition IPPROTO_TCP :: u16 where "IPPROTO_TCP = 6"
definition XT_CONNTRACK_STATE :: u16 where "XT_CONNTRACK_STATE = push_bit 0 1"
definition XT_CONNTRACK_STATE_ALIAS :: u16 where "XT_CONNTRACK_STATE_ALIAS = push_bit 13 1"
definition IP_CT_NEW :: nat where "IP_CT_NEW = 2"
definition IP_CT_IS_REPLY :: nat where "IP_CT_IS_REPLY = 3"

definition NF_CT_STATE_BIT :: "nat \<Rightarrow> u16" where
  "NF_CT_STATE_BIT ctinfo = push_bit (ctinfo mod IP_CT_IS_REPLY + 1) 1"

definition http_header :: "bytes \<Rightarrow> bytes" where
  "http_header info =
     (let h = replicate 96 0;
          h = put_str h 0 ''filter'';
          h = put32 h 32 (push_bit 1 1 OR push_bit 2 1 OR push_bit 3 1);
          h = put32 h 36 5;
          h = put32 h 40 (3 * 152 + 400 + 176);
          h = put32 h 48 0;
          h = put32 h 52 152;
          h = put32 h 56 (152 + 152);
          h = put32 h 68 0;
          h = put32 h 72 152;
          h = put32 h 76 (152 + 152 + 400)
      in put32 h 84 (get32 info 76))"

text \<open>
  The entry is at 0, its match on TCP at 112 with the data at 144, its match on connections at 160 with the data at
  192, and its target at 360.
\<close>

definition fill_http_entry :: "bytes \<Rightarrow> bytes" where
  "fill_http_entry e =
     (let e = put16 e 88 360;
          e = put16 e 90 400;
          e = put16 e 80 IPPROTO_TCP;
          e = put16 e 112 48;
          e = put_str e 114 ''tcp'';
          e = put16 e 144 0;
          e = put16 e 146 65535;
          e = put16 e 148 80;
          e = put16 e 150 80;
          e = put16 e 160 200;
          e = put_str e 162 ''conntrack'';
          e = e[191 := 3];
          e = put16 e 338 (XT_CONNTRACK_STATE OR XT_CONNTRACK_STATE_ALIAS);
          e = put16 e 342 (NF_CT_STATE_BIT IP_CT_NEW);
          e = put16 e 360 40
      in put32 e 392 (word_of_int VERDICT_DROP))"

definition http_replace :: "bytes \<Rightarrow> bytes" where
  "http_replace info =
     http_header info
     @ fill_standard_entry VERDICT_ACCEPT (replicate 152 0)
     @ fill_standard_entry VERDICT_ACCEPT (replicate 152 0)
     @ fill_http_entry (replicate 400 0)
     @ fill_standard_entry VERDICT_ACCEPT (replicate 152 0)
     @ fill_error_entry (replicate 176 0)"

section \<open>The program\<close>

text \<open>\<open>stack\<close> is what the uninitialised \<open>info\<close> holds; the entries that were read are not looked at.\<close>

definition drop_http :: "(int \<Rightarrow> string) \<Rightarrow> bytes \<Rightarrow> net_kernel \<Rightarrow> net_kernel" where
  "drop_http strerror stack k =
     (let ((entries, info), k) = ml_network_filter_ipv4_get strerror ''filter'' stack k
      in case entries of
           None \<Rightarrow> snd (call (Net_warning ''Failed to read entries.'') k)
         | Some _ \<Rightarrow> snd (ml_network_filter_ipv4_set strerror (http_replace info) k))"

text \<open>A log of a table may not end, or read outside of the table; then so does the program.\<close>

definition logged :: "net_kernel res option \<Rightarrow> (net_kernel \<Rightarrow> net_kernel res option) \<Rightarrow> net_kernel res option" where
  "logged r f = (case r of None \<Rightarrow> None | Some (Inl err) \<Rightarrow> Some (Inl err) | Some (Inr k) \<Rightarrow> f k)"

definition filter_main :: "(int \<Rightarrow> string) \<Rightarrow> bytes \<Rightarrow> net_kernel \<Rightarrow> net_kernel res option" where
  "filter_main strerror stack k =
     logged (ml_network_filter_ipv4_log strerror stack ''filter'' k) (\<lambda>k.
     let k = ml_info ''Drop all.'' k;
         (_, k) = ml_network_filter_ipv4_drop_all strerror stack k
     in logged (ml_network_filter_ipv4_log strerror stack ''filter'' k) (\<lambda>k.
     let k = ml_info ''Drop http.'' k;
         k = drop_http strerror stack k
     in logged (ml_network_filter_ipv4_log strerror stack ''filter'' k) (\<lambda>k.
     let k = ml_info ''Accept all.'' k;
         (_, k) = ml_network_filter_ipv4_accept_all strerror stack k
     in ml_network_filter_ipv4_log strerror stack ''filter'' k)))"

section \<open>The entry for HTTP\<close>

abbreviation http_entry :: bytes where
  "http_entry \<equiv> fill_http_entry (replicate 400 0)"

lemma str_at_step:
  assumes "i < length b"
  shows "str_at b i = (if byte_at b i = 0 then '''' else char_of (unat (byte_at b i)) # str_at b (i + 1))"
proof -
  have "drop i b = byte_at b i # drop (i + 1) b" using assms by (simp add: byte_at_def Cons_nth_drop_Suc)
  then show ?thesis by (simp add: str_at_def)
qed

lemma put_byte: "i < length b \<Longrightarrow> b[i := w] = poke b i [w]"
  by (simp add: poke_def upd_conv_take_nth_drop)

lemmas http_entry_defs = fill_http_entry_def Let_def put_byte put16_def put32_def put_str_def
  byte_at_poke le16_def le32_def to_be32_def get16_def get32_def IPPROTO_TCP_def VERDICT_DROP_def
  XT_CONNTRACK_STATE_def XT_CONNTRACK_STATE_ALIAS_def NF_CT_STATE_BIT_def IP_CT_NEW_def IP_CT_IS_REPLY_def

lemma http_entry_fields:
  "length http_entry = 400" "get16 http_entry 80 = 6" "get16 http_entry 88 = 360" "get16 http_entry 90 = 400"
  by (simp_all add: http_entry_defs)

lemma http_entry_verdict: "get32 http_entry 392 = word_of_int VERDICT_DROP"
  by (simp only: fill_http_entry_def Let_def, rule get32_put32, simp)

lemma http_entry_bytes:
  "map (byte_at http_entry) [114, 115, 116, 117] = map of_char ''tcp'' @ [0]"
  "map (byte_at http_entry) [162, 163, 164, 165, 166, 167, 168, 169, 170, 171] = map of_char ''conntrack'' @ [0]"
  "map (byte_at http_entry) [191, 16, 32, 362] = [3, 0, 0, 0]"
  by (simp_all add: http_entry_defs)

text \<open>The matches: each begins with its length, and the second one ends where the target begins.\<close>

lemma http_entry_matches:
  "get16 http_entry 112 = 48" "get16 http_entry 160 = 200"
  "map (get16 http_entry) [144, 146, 148, 150] = [0, 65535, 80, 80]"
  "get16 http_entry 338 = 8193" "get16 http_entry 342 = 8"
  by (simp_all add: http_entry_defs)

lemma http_entry_names: "str_at http_entry 114 = ''tcp''" "str_at http_entry 162 = ''conntrack''"
  using http_entry_bytes by (simp_all add: str_at_step http_entry_fields char_of_eq_iff)

lemma http_entry_strings:
  "c_string http_entry 16 = Inr ''''" "c_string http_entry 32 = Inr ''''" "c_string http_entry 362 = Inr ''''"
  using http_entry_bytes(3) by (simp_all add: c_string_empty http_entry_fields)

lemma http_entry_log:
  "log_entry http_entry 0 i =
    Inr (entry_lines http_entry 0 i '''' '''' '''' @ [''network:     Verdict:     DROP''])"
proof -
  have "target_lines http_entry 360 '''' = Inr [''network:     Verdict:     DROP'']"
    by (simp add: target_lines_def http_entry_fields http_entry_verdict VERDICT_DROP_def verdict_string_def VERDICT_ACCEPT_def)
  then show ?thesis
    using http_entry_strings by (simp add: log_entry_def Let_def http_entry_fields)
qed

lemma http_header_fields:
  "length (http_header info) = 96" "get32 (http_header info) 36 = 5" "get32 (http_header info) 40 = 1032"
  "map (get32 (http_header info)) [48, 52, 56] = [0, 152, 304]" "map (get32 (http_header info)) [68, 72, 76] = [0, 152, 704]"
  "get32 (http_header info) 84 = get32 info 76"
  by (simp_all add: http_header_def Let_def get32_put32 get_put_other)

lemma http_replace_length: "length (http_replace info) = 1128"
  by (simp add: http_replace_def http_header_fields http_entry_fields verdict_entry_fields end_entry_fields [unfolded end_entry_def])

lemma http_replace_header: "j + 4 \<le> 96 \<Longrightarrow> get32 (http_replace info) j = get32 (http_header info) j"
  using get_inside(2) [of j "http_header info" "[]"] by (simp add: http_replace_def http_header_fields)

definition http_log :: "string list" where
  "http_log =
     concat (map (\<lambda>i. entry_lines (verdict_entry VERDICT_ACCEPT) 0 i '''' '''' '''' @ [''network:     Verdict:     ACCEPT'']) [1, 2])
     @ entry_lines http_entry 0 3 '''' '''' '''' @ [''network:     Verdict:     DROP'']
     @ entry_lines (verdict_entry VERDICT_ACCEPT) 0 4 '''' '''' '''' @ [''network:     Verdict:     ACCEPT'']
     @ entry_lines end_entry 0 5 '''' '''' ''ERROR'' @ [''network:     Error:       '' @ [CHR 0x27] @ ''ERROR'' @ [CHR 0x27]]"

lemma accept_entry_log:
  "log_entry (verdict_entry VERDICT_ACCEPT) 0 i =
    Inr (entry_lines (verdict_entry VERDICT_ACCEPT) 0 i '''' '''' '''' @ [''network:     Verdict:     ACCEPT''])"
  using verdict_entry_log [of VERDICT_ACCEPT i] by (simp add: VERDICT_ACCEPT_def verdict_string_def)

lemma http_replace_walk:
  "log_loop \<lparr>entries_block = b, entries_name = name, entries_size = 1032, entrytable = drop 96 (http_replace info)\<rparr> 0 1 printed
    = Some (Inr (printed @ http_log))"
proof -
  let ?v = "verdict_entry VERDICT_ACCEPT"
  let ?es = "[?v, ?v, http_entry, ?v, end_entry]"
  have ok: "list_all entry_ok ?es"
    by (simp add: entry_ok_def accept_entry_log http_entry_log end_entry_log verdict_entry_fields end_entry_fields
        http_entry_fields)
  have d: "drop 96 (http_replace info) = concat ?es"
    by (simp add: http_replace_def http_header_fields end_entry_def)
  have sz: "length (concat ?es) = 1032"
    by (simp add: verdict_entry_fields end_entry_fields http_entry_fields)
  show ?thesis
    using log_loop_walk [of "\<lparr>entries_block = b, entries_name = name, entries_size = 1032,
        entrytable = drop 96 (http_replace info)\<rparr>" "[]" ?es 1 printed] ok sz
    by (simp add: d entry_log_def accept_entry_log http_entry_log end_entry_log http_log_def
        numeral_2_eq_2 [symmetric])
qed

section \<open>What the program leaves\<close>

lemma tidy_warning: "tidy k (snd (call (Net_warning msg) k)) [(Net_warning msg, answer k (length (calls k)))]"
  by (simp add: tidy_def call_eq)

lemma tidy_set: "\<exists>cs. tidy k (snd (ml_network_filter_ipv4_set strerror filt k)) cs"
  by (auto simp: ml_network_filter_ipv4_set_def set_filter_def call_eq Let_def errno_def ml_info_def tidy_def split: if_splits)

text \<open>The calls in between leave the sockets as they were, and these blocks allocated.\<close>

definition keeps_blocks :: "int list \<Rightarrow> net_kernel \<Rightarrow> net_kernel \<Rightarrow> bool" where
  "keeps_blocks ps k k' \<longleftrightarrow> (\<exists>cs. k' = k\<lparr>calls := calls k @ cs\<rparr> \<and> (\<forall>fds. still_open net_opens net_closes fds cs = fds)
     \<and> (\<forall>bs. still_open mem_opens mem_closes bs cs = ps @ bs))"

lemma keeps_blocks_tidy: "\<exists>cs. tidy k k' cs \<Longrightarrow> keeps_blocks [] k k'"
  by (auto simp: keeps_blocks_def tidy_def)

lemma keeps_blocks_trans: "keeps_blocks ps k k1 \<Longrightarrow> keeps_blocks qs k1 k2 \<Longrightarrow> keeps_blocks (qs @ ps) k k2"
  unfolding keeps_blocks_def by (elim exE conjE, rule_tac x = "cs @ csa" in exI) (simp add: still_open_append)

lemma keeps_blocks_calls:
  "keeps_blocks ps k k' \<Longrightarrow> still_open net_opens net_closes fds (new_calls k k') = fds
     \<and> still_open mem_opens mem_closes bs (new_calls k k') = ps @ bs"
  by (auto simp: keeps_blocks_def new_calls_def)

lemma keeps_blocks_drop_http:
  assumes "ml_network_filter_ipv4_get strerror ''filter'' stack k = ((r, info), k1)"
  shows "keeps_blocks (case r of None \<Rightarrow> [] | Some e \<Rightarrow> [entries_block e]) k (drop_http strerror stack k)"
proof -
  have g: "keeps_blocks (case r of None \<Rightarrow> [] | Some e \<Rightarrow> [entries_block e]) k k1"
    using filter_get_run assms unfolding ml_network_filter_ipv4_get_def keeps_blocks_def by (cases r) fastforce+
  have "\<exists>cs. tidy k1 (drop_http strerror stack k) cs"
  proof (cases r)
    case None
    then show ?thesis using assms tidy_warning [of k1] by (auto simp: drop_http_def)
  next
    case (Some e)
    then show ?thesis using assms tidy_set [of k1] by (simp add: drop_http_def)
  qed
  then show ?thesis using keeps_blocks_trans [OF g keeps_blocks_tidy] by simp
qed

lemma tidy_apply_all: "\<exists>cs. tidy k (snd (filter_apply_all strerror stack v k)) cs"
proof -
  obtain r1 i1 k1 where g: "get_info strerror ''filter'' stack k = ((r1, i1), k1)" by (metis surj_pair)
  then obtain c1 where c1: "tidy k k1 c1" using get_info_from_run unfolding get_info_def by blast
  obtain c2 where "tidy k1 (snd (ml_network_filter_ipv4_set strerror (apply_table i1 v) k1)) c2" using tidy_set by blast
  then show ?thesis using g c1 tidy_trans [OF c1] by (auto simp: filter_apply_all_eq)
qed

lemma logged_Some: "logged r f = Some (Inr k') \<longleftrightarrow> (\<exists>k. r = Some (Inr k) \<and> f k = Some (Inr k'))"
  by (auto simp: logged_def split: option.splits sum.splits)

lemma keeps_blocks_log:
  assumes "keeps_blocks ps k k1" and "ml_network_filter_ipv4_log strerror stack table k1 = Some (Inr k2)"
  shows "keeps_blocks ps k k2"
  using keeps_blocks_trans [OF assms(1) keeps_blocks_tidy [OF ipv4_log_run [OF assms(2)]]] by simp

lemma keeps_blocks_main:
  assumes "filter_main strerror stack k = Some (Inr k')"
  shows "\<exists>ps. length ps \<le> 1 \<and> keeps_blocks ps k k'"
proof -
  let ?log = "ml_network_filter_ipv4_log strerror stack ''filter''"
  let ?all = "\<lambda>v msg k. snd (filter_apply_all strerror stack v (ml_info msg k))"
  have all: "keeps_blocks [] k (?all v msg k)" for v msg k
    using keeps_blocks_trans [OF keeps_blocks_tidy keeps_blocks_tidy [OF tidy_apply_all]] tidy_info by fastforce
  obtain k1 k2 k3 where k: "?log k = Some (Inr k1)" "?log (?all VERDICT_DROP ''Drop all.'' k1) = Some (Inr k2)"
    "?log (drop_http strerror stack (ml_info ''Drop http.'' k2)) = Some (Inr k3)"
    "?log (?all VERDICT_ACCEPT ''Accept all.'' k3) = Some (Inr k')"
    using assms by (auto simp: filter_main_def logged_Some ml_network_filter_ipv4_drop_all_def
        ml_network_filter_ipv4_accept_all_def split_def Let_def)
  let ?i = "ml_info ''Drop http.'' k2"
  obtain r info ki where g: "ml_network_filter_ipv4_get strerror ''filter'' stack ?i = ((r, info), ki)" by (metis surj_pair)
  let ?ps = "case r of None \<Rightarrow> [] | Some e \<Rightarrow> [entries_block e]"
  have "keeps_blocks [] k k1" using keeps_blocks_tidy ipv4_log_run [OF k(1)] by blast
  then have "keeps_blocks [] k k2"
    using keeps_blocks_log [OF _ k(2)] keeps_blocks_trans [OF _ all, of "[]" k] by simp
  then have "keeps_blocks [] k ?i" using keeps_blocks_trans [OF _ keeps_blocks_tidy] tidy_info by fastforce
  then have "keeps_blocks ?ps k k3"
    using keeps_blocks_log [OF _ k(3)] keeps_blocks_trans [OF _ keeps_blocks_drop_http [OF g]] by fastforce
  then have "keeps_blocks ?ps k k'"
    using keeps_blocks_log [OF _ k(4)] keeps_blocks_trans [OF _ all, of ?ps k] by simp
  moreover have "length ?ps \<le> 1" by (cases r) simp_all
  ultimately show ?thesis by blast
qed

lemma http_replace_entry: "drop 400 (http_replace info) = http_entry @ verdict_entry VERDICT_ACCEPT @ end_entry"
  by (simp add: http_replace_def http_header_fields verdict_entry_fields end_entry_def)

lemma drop_http_call:
  assumes "ml_network_filter_ipv4_get strerror ''filter'' stack k = ((Some e, info), k1)"
    and "answer k1 (length (calls k1)) \<noteq> - 1"
  shows "\<exists>fd res. (Net_setsockopt fd IPT_SO_SET_REPLACE (http_replace info) 1128, res) \<in> set (new_calls k (drop_http strerror stack k))"
proof -
  obtain cs where k1: "k1 = k\<lparr>calls := calls k @ cs\<rparr>"
    using filter_get_run assms(1) unfolding ml_network_filter_ipv4_get_def by blast
  show ?thesis
    using assms unfolding k1
    by (auto simp: drop_http_def ml_network_filter_ipv4_set_def set_filter_def call_eq Let_def errno_def ml_info_def
        new_calls_def http_replace_header http_header_fields http_replace_length)
qed

text \<open>A table that starts the output hook at an entry for new TCP connections to port 80.\<close>

definition drops_http :: "bytes \<Rightarrow> bool" where
  "drops_http b \<longleftrightarrow> length b = 1128 \<and> get32 b 36 = 5 \<and> get32 b 40 = 1032
     \<and> map (get32 b) [48, 52, 56] = [0, 152, 304] \<and> map (get32 b) [68, 72, 76] = [0, 152, 704]
     \<and> (let e = take 400 (drop (96 + 304) b)
        in map (get16 e) [80, 88, 90] = [6, 360, 400]
          \<and> get16 e 112 = 48 \<and> str_at e 114 = ''tcp'' \<and> map (get16 e) [144, 146, 148, 150] = [0, 65535, 80, 80]
          \<and> 112 + 48 + get16 e 160 = get16 e 88 \<and> str_at e 162 = ''conntrack'' \<and> byte_at e 191 = 3
          \<and> get16 e 338 = 8193 \<and> get16 e 342 = 8
          \<and> get32 e 392 = word_of_int VERDICT_DROP)"

lemma http_replace_drops: "drops_http (http_replace info)"
  using http_header_fields [of info] http_entry_matches http_entry_names http_entry_verdict http_entry_bytes(3)
  by (simp add: drops_http_def http_replace_header http_replace_length http_replace_entry http_entry_fields)

section \<open>Property\<close>

text \<open>
  C25: once the entries have been read, dropping HTTP hands the kernel a table of 1128 bytes with five entries, whose
  output hook starts at the entry for HTTP (new TCP connections to port 80, with both matches filling the space up to the
  target) and has the accepting entry behind it as its policy; logging exactly that table prints the
  verdicts accept, accept, drop and accept and the error entry. The block that was read is never freed: it is
  allocated when dropping HTTP is done, and one block at most is when the program has ended, with no socket open.
\<close>

theorem filter_example_drops_http:
  assumes "ml_network_filter_ipv4_get strerror ''filter'' stack k = ((Some e, info), k1)"
  shows "still_open net_opens net_closes fds (new_calls k (drop_http strerror stack k)) = fds
    \<and> still_open mem_opens mem_closes bs (new_calls k (drop_http strerror stack k)) = entries_block e # bs
    \<and> (answer k1 (length (calls k1)) \<noteq> - 1 \<longrightarrow>
        (\<exists>fd res b. (Net_setsockopt fd IPT_SO_SET_REPLACE b 1128, res) \<in> set (new_calls k (drop_http strerror stack k))
          \<and> drops_http b
          \<and> (\<forall>p name. log_loop \<lparr>entries_block = p, entries_name = name, entries_size = get32 b 40, entrytable = drop 96 b\<rparr> 0 1 []
              = Some (Inr http_log))))
    \<and> (\<forall>k'. filter_main strerror stack k = Some (Inr k') \<longrightarrow>
        still_open net_opens net_closes [] (new_calls k k') = [] \<and> length (still_open mem_opens mem_closes [] (new_calls k k')) \<le> 1)"
proof (intro conjI impI)
  let ?new = "new_calls k (drop_http strerror stack k)"
  have "keeps_blocks [entries_block e] k (drop_http strerror stack k)"
    using keeps_blocks_drop_http [OF assms] by simp
  then show "still_open net_opens net_closes fds ?new = fds"
    "still_open mem_opens mem_closes bs ?new = entries_block e # bs"
    using keeps_blocks_calls by fastforce+
next
  assume "answer k1 (length (calls k1)) \<noteq> - 1"
  then show "\<exists>fd res b. (Net_setsockopt fd IPT_SO_SET_REPLACE b 1128, res) \<in> set (new_calls k (drop_http strerror stack k))
          \<and> drops_http b
          \<and> (\<forall>p name. log_loop \<lparr>entries_block = p, entries_name = name, entries_size = get32 b 40, entrytable = drop 96 b\<rparr> 0 1 []
              = Some (Inr http_log))"
    using drop_http_call [OF assms] http_replace_drops [of info] http_replace_walk [where info = info and printed = "[]"]
    by (metis append_Nil drops_http_def)
next
  show "\<forall>k'. filter_main strerror stack k = Some (Inr k') \<longrightarrow>
        still_open net_opens net_closes [] (new_calls k k') = [] \<and> length (still_open mem_opens mem_closes [] (new_calls k k')) \<le> 1"
    using keeps_blocks_main keeps_blocks_calls by fastforce
qed

theorem filter_example_drops_http_witness:
  "still_open mem_opens mem_closes [] (new_calls idle_kernel (drop_http (\<lambda>_. '''') (replicate 84 0) idle_kernel)) = [0]"
proof -
  let ?get = "ml_network_filter_ipv4_get (\<lambda>_. '''') ''filter'' (replicate 84 0) idle_kernel"
  have "\<exists>e info k1. ?get = ((Some e, info), k1) \<and> entries_block e = 0"
    by (simp add: ml_network_filter_ipv4_get_def filter_get_from_def get_info_from_def get_filter_def call_eq Let_def
        idle_kernel_def)
  then obtain e info k1 where "?get = ((Some e, info), k1)" "entries_block e = 0" by blast
  then show ?thesis using filter_example_drops_http [of "\<lambda>_. ''''" "replicate 84 0" idle_kernel e info k1] by simp
qed

end
