(* ===== verification/Spec2Isabelle.thy ===== *)
theory Spec2Isabelle
  imports Ml_Prelude Ml_Inet Ml_Stdlib Ml_Message Ml_Queue Ml_Bus Ml_Worker_Pool Ml_Timer
    Ml_Os Ml_Dhcp_Packet Ml_Dhcp_Client Ml_Core Ml_Log_Object Ml_Shell_Line Ml_Shell_Parse Ml_Shell_History
    Ml_Shell_Table Ml_Shell_Edit Ml_Shell_Screen Ml_Shell
    Ml_Kernel Ml_Ntp_Client Ml_Bytes Ml_Network Ml_Network_Filter Ml_One_Wire Ml_Module
    Ml_File Ml_Coredump Ml_Device Ml_Commands Ml_Shell_Commands Ml_Shell_Terminal Ml_Float Ml_Dd_Summary
    Ml_Ownership Ml_Example_Bus Ml_Example_Queue Ml_Example_Timer Ml_Example_Event Ml_Example_Filter
begin

text \<open>
  A verification development for the Monolinux C library (\<open>src/src\<close>, with its interface
  \<open>src/include/ml/ml.h\<close>): messages, queues and a message bus, a worker pool and timers, a DHCP client, log objects, an
  interactive shell with its commands, an NTP client, network interfaces and packet filters, a one-wire thermometer, files and
  core dumps, the device mapper and the real-time clock.

  \<^bold>\<open>Conventions.\<close> Each theory models one source file or one part of it, its definitions in the order of the code and under
  the names of the code. A struct is a record, an enum a datatype, a fixed-width integer a word of that width, a C string the
  list of its characters before the terminating zero, memory that is read byte by byte a list of bytes. A function that changes
  state takes the state and returns it. Failures of the C machine (a read out of bounds, a use after free, the end of the process,
  waiting for room or for a message) are values of the error type of \<open>Ml_Prelude\<close>, so that safety of a function is that its value
  is not such an error. Loops over data are recursive functions; a loop that ends only if the data or the kernel is good is a
  \<open>partial_function (option)\<close> whose value is \<open>None\<close> when it does not end, and that it ends is then a theorem. Each operation under
  a mutex is one step; threads are interleavings of such steps.

  \<^bold>\<open>Foundations.\<close> \<open>Ml_Prelude\<close>: types, errors, error codes, decimal printing, words and byte order. \<open>Ml_Stdlib\<close>: what the code uses of
  the C library (comparison of strings, \<open>bsearch\<close>, \<open>qsort\<close>, \<open>sscanf\<close>, \<open>atoi\<close>), with a locale for tables sorted by a key.
  \<open>Ml_Bytes\<close>: structures as bytes. \<open>Ml_Kernel\<close>: a kernel as the list of calls made so far and an oracle for the answers (result,
  \<open>errno\<close>, bytes delivered) of the next ones; the theorems hold for every oracle. Its \<open>still_open\<close> and its locale of descriptor
  sessions carry the proofs that nothing stays open. \<open>Ml_Os\<close>: the same idea with the calls of the DHCP client.

  \<^bold>\<open>Messages and threads.\<close> \<open>Ml_Message\<close> (\<open>ml_message.c\<close>, \<open>xmalloc\<close> and \<open>xrealloc\<close> of \<open>ml.c\<close>): reference-counted messages in a heap.
  \<open>Ml_Queue\<close> (\<open>ml_queue.c\<close>): the ring buffer; every schedule of puts and gets is first in, first out, within the bound. \<open>Ml_Bus\<close>
  (\<open>ml_bus.c\<close>): subscribing refines appending to an abstract map, a broadcast reaches the subscribers, and in every interleaving of
  broadcasts and consumers a message is freed exactly once. \<open>Ml_Worker_Pool\<close> (\<open>ml_worker_pool.c\<close>): no job is lost or run
  twice. \<open>Ml_Timer\<close> (\<open>ml_timer.c\<close>): the delta list refines a map from timers to the tick they expire at; a tick fires exactly the
  timers due, and a timeout message is valid exactly if it was not cancelled. \<open>Ml_Module\<close> (\<open>ml_init\<close> and the forwarding functions of
  \<open>ml.c\<close>) puts them together over one memory, and every interleaving of its functions, timer ticks and consumers keeps them well-formed.

  \<^bold>\<open>Network.\<close> \<open>Ml_Inet\<close> (\<open>ml_inet.c\<close>): the checksum is that of RFC 1071. \<open>Ml_Dhcp_Packet\<close> and \<open>Ml_Dhcp_Client\<close> (\<open>ml_dhcp_client.c\<close>):
  parsing never leaves the packet and reads back what was encoded; a round of the state machine always leaves a timer armed or a
  request sent, and moves only along the transitions of the protocol; starting is all or nothing. \<open>Ml_Ntp_Client\<close> (\<open>ml_ntp_client.c\<close>):
  the clock is set only to the time of a valid reply. \<open>Ml_Network\<close> and \<open>Ml_Network_Filter\<close> (\<open>ml_network.c\<close>): configuration, link
  settings and filter tables, byte by byte; nothing stays open, the installed table reads back with its verdict, the log of a well-formed
  table ends. \<open>Ml_One_Wire\<close> (\<open>ml_one_wire.c\<close>): every request is answered exactly once in every interleaving without
  errors, and an error during a conversion crashes a later reply.

  \<^bold>\<open>Log and shell.\<close> \<open>Ml_Log_Object\<close> (\<open>ml_log_object.c\<close>): the registry, the level file as a round trip, the bounds of a log line.
  \<open>Ml_Shell_Line\<close>, \<open>Ml_Shell_Parse\<close>, \<open>Ml_Shell_History\<close>, \<open>Ml_Shell_Table\<close>, \<open>Ml_Shell_Edit\<close>, \<open>Ml_Shell_Screen\<close> and \<open>Ml_Shell\<close> (\<open>ml_shell.c\<close>):
  the edited line refines a text with a cursor, the history a bounded list, TAB gives the longest common prefix, quoted arguments parse
  back, reading a command is safe on any input without zero bytes and ends with the line an ideal editor gives, and
  \<open>shell_main\<close> calls the command a line names. \<open>Ml_Commands\<close>: the commands themselves over the kernel; none leaves anything open, and a
  wrong number of arguments does nothing but print the usage. \<open>Ml_Shell_Commands\<close>: \<open>help\<close>, \<open>history\<close>, and the commands as the callbacks of
  the running shell. \<open>Ml_Float\<close> and \<open>Ml_Dd_Summary\<close>: single-precision arithmetic with its rounding, and the time and rate the command \<open>dd\<close>
  prints, close to the exact ones. \<open>Ml_Shell_Terminal\<close>: the settings of the terminal.

  \<^bold>\<open>Files and devices.\<close> \<open>Ml_Core\<close> (\<open>ml.c\<close>): stripping, hexdumps, the block copy, arithmetic. \<open>Ml_File\<close> (\<open>ml.c\<close>, \<open>ml_libc.c\<close>): files, kernel
  modules, mounted file systems and the load of the processors, which is a percentage. \<open>Ml_Coredump\<close> (\<open>ml.c\<close>): records of the kernel log, and the
  core dump handler, which always exits and keeps earlier dumps. \<open>Ml_Device\<close> (\<open>ml_device_mapper.c\<close>, \<open>ml_rtc.c\<close>): the requests of a verity device in
  order and read back, and the time of the clock as a round trip.

  \<^bold>\<open>Example programs.\<close> The programs under \<open>src/examples\<close> as clients of the library: a step of a thread is one call, and the theorems hold
  in every interleaving of the threads and of the ticks of the timer handler. \<open>Ml_Ownership\<close> counts the references to messages
  (those in queues and those a thread holds) and says what each call does to them; the examples share it. \<open>Ml_Example_Bus\<close>: all three
  threads end, and every message is freed. \<open>Ml_Example_Queue\<close>: client and server count upwards without leak or deadlock until the
  \<open>int\<close> overflows. \<open>Ml_Example_Timer\<close>: the expirations of three timers after any number of ticks. \<open>Ml_Example_Event\<close>: the event
  descriptor counts the messages in the queue. \<open>Ml_Example_Filter\<close>: the table that drops HTTP, byte by byte, and the block
  of memory the program leaks.

  \<^bold>\<open>Bounds and fuel.\<close> \<open>reverse_search_loop\<close> of the history has the length of the list as fuel, and \<open>delete_while\<close> of the line the length
  of the line plus one; both are at least the number of elements the loop can visit, and the theorems about them say what the
  unbounded loop gives. No other function has fuel. The core dump theorem asks for a kernel whose answers are at most 0 from
  some call on: that is, for input that ends.

  \<^bold>\<open>Parameters.\<close> Code that is not in the repository is an argument: the answers of the kernel, \<open>strerror\<close>, \<open>inet_addr\<close>, the addresses of a
  server name, the order in which \<open>nftw\<close> visits files, the formatting of times, the callbacks of jobs and messages. The layouts of
  structures are those of a 64-bit little-endian Linux host.

  \<^bold>\<open>Not modelled.\<close> \<open>ml_shell_join\<close> is a \<open>pthread_join\<close>; \<open>ml_uid_str\<close> is an accessor; \<open>memfd_create\<close> of
  \<open>ml_libc.c\<close> is a system call for old C libraries. Names of threads, mutexes and condition variables have no definitions of
  their own: they are the atomicity of the steps and the error value for waiting. The examples
  \<open>log_object\<close> and \<open>dhcp_client\<close> use names the library does not declare and do not compile; the tests are clients of the
  library with mocked system calls.
\<close>

end
